(* ===== verification/Prelude.thy ===== *)
theory Prelude
  imports Main "HOL-Library.Word" "HOL-Library.Monad_Syntax"
begin

text \<open>
  Shared vocabulary of the development: the machine integers of the RV32 firmware, C strings as
  byte lists, and the generic facts on options, lists and words that the component theories use.
  A C++ \<open>char\<close> is an unsigned byte on RISC-V, so bytes, \<open>uint8_t\<close> and \<open>char\<close> share one type.
  Functions that may busy-wait for ever return an \<open>option\<close>: \<open>None\<close> is a wait that never ends.
\<close>

unbundle bit_operations_syntax

type_synonym u8 = "8 word"
type_synonym u16 = "16 word"
type_synonym u32 = "32 word"

text \<open>Facts that unfold the small guards and register accesses of the firmware.\<close>

named_theorems fw_simps

text \<open>
  A C string literal, as the bytes before its terminating NUL. The end of such a list stands for
  the terminator, so a function that scans for NUL stops there as well as at a 0 byte.
\<close>

definition cstr :: "string \<Rightarrow> u8 list" where
  "cstr s = map of_char s"

lemma cstr_Nil [simp]: "cstr [] = []"
  by (simp add: cstr_def)

lemma cstr_Cons [simp]: "cstr (c # s) = of_char c # cstr s"
  by (simp add: cstr_def)

lemma cstr_append [simp]: "cstr (s @ t) = cstr s @ cstr t"
  by (simp add: cstr_def)

lemma length_cstr [simp]: "length (cstr s) = length s"
  by (simp add: cstr_def)

text \<open>What a reader of a NUL-terminated array sees: the bytes before the first NUL.\<close>

definition c_string :: "u8 list \<Rightarrow> u8 list" where
  "c_string bs = takeWhile (\<lambda>b. b \<noteq> 0) bs"

lemma c_string_no_nul: "0 \<notin> set bs \<Longrightarrow> c_string (bs @ 0 # rest) = bs"
  unfolding c_string_def by (induction bs) auto

lemma c_string_id: "0 \<notin> set bs \<Longrightarrow> c_string bs = bs"
  unfolding c_string_def by (induction bs) auto

lemma c_string_Cons: "c_string (b # bs) = (if b = 0 then [] else b # c_string bs)"
  by (simp add: c_string_def)

lemma c_string_Nil [simp]: "c_string [] = []"
  by (simp add: c_string_def)

subsection \<open>Running a possibly non-returning computation\<close>

lemma bind_SomeE:
  assumes "Option.bind m f = Some y"
  obtains x where "m = Some x" and "f x = Some y"
  using assms by (cases m) auto

lemma bind_Some_eq [simp]: "m = Some x \<Longrightarrow> Option.bind m f = f x"
  by simp

subsection \<open>Words\<close>

lemma word_and_bit_eq_0_iff:
  fixes w :: "'a::len word"
  assumes "n < LENGTH('a)"
  shows "w AND push_bit n 1 = 0 \<longleftrightarrow> \<not> bit w n"
proof
  assume "w AND push_bit n 1 = 0"
  then have "\<not> bit (w AND push_bit n 1) n" by simp
  then show "\<not> bit w n" using assms by (simp add: bit_simps)
next
  assume "\<not> bit w n"
  then show "w AND push_bit n 1 = 0"
    by (intro bit_word_eqI) (auto simp: bit_simps)
qed

lemma ucast_and_255 [simp]: "(ucast ((v :: u32) AND 255) :: u8) = ucast v"
proof -
  have "(255 :: u32) = mask 8" by (simp add: mask_eq_exp_minus_1)
  then show ?thesis by (simp add: bit_eq_iff bit_simps)
qed

lemma not_bit_u8 [simp]: "8 \<le> n \<Longrightarrow> \<not> bit (b :: u8) n"
  by (auto dest: bit_imp_le_length)

lemma ucast_u8_u32_u8 [simp]: "(ucast (ucast (b :: u8) :: u32) :: u8) = b"
  by (rule bit_word_eqI) (auto simp: bit_simps)

end
