(* ===== verification/Format.thy ===== *)
theory Format
  imports Prelude
begin

text \<open>
  The part of the C library's \<open>vsnprintf\<close> that the firmware uses: literal text and the conversions
  \<open>%d\<close>, \<open>%u\<close> and \<open>%x\<close> with an optional \<open>0\<close> flag and a decimal field width, over 32-bit arguments
  (\<open>int\<close>, \<open>uint32_t\<close>, \<open>size_t\<close> and pointers are all 32 bits wide on RV32). The shared facts: the
  formatted text never contains a NUL, \<open>%08x\<close> is always eight digits, and those digits determine
  the word.
\<close>

fun nat_digits :: "nat \<Rightarrow> nat \<Rightarrow> nat list" where
  "nat_digits b n = (if b < 2 \<or> n < b then [n] else nat_digits b (n div b) @ [n mod b])"

declare nat_digits.simps [simp del]

definition digit_char :: "nat \<Rightarrow> u8" where
  "digit_char d = (if d < 10 then of_nat (48 + d) else of_nat (87 + d))"

text \<open>The sign and the digits of one conversion; another conversion letter is not used.\<close>

definition conv_text :: "char \<Rightarrow> u32 \<Rightarrow> u8 list \<times> u8 list" where
  "conv_text c a =
     (if c = CHR ''d'' then
        (if sint a < 0 then cstr ''-'' else [], map digit_char (nat_digits 10 (nat \<bar>sint a\<bar>)))
      else if c = CHR ''x'' then ([], map digit_char (nat_digits 16 (unat a)))
      else if c = CHR ''u'' then ([], map digit_char (nat_digits 10 (unat a)))
      else ([], []))"

definition pad_field :: "bool \<Rightarrow> nat \<Rightarrow> u8 list \<times> u8 list \<Rightarrow> u8 list" where
  "pad_field zero w t = (case t of (sign, ds) \<Rightarrow>
     if zero then sign @ replicate (w - (length sign + length ds)) 48 @ ds
     else replicate (w - (length sign + length ds)) 32 @ sign @ ds)"

definition is_digit :: "char \<Rightarrow> bool" where
  "is_digit c \<longleftrightarrow> (48 :: nat) \<le> of_char c \<and> of_char c \<le> (57 :: nat)"

definition width_value :: "string \<Rightarrow> nat" where
  "width_value ds = foldl (\<lambda>n c. 10 * n + (of_char c - 48)) 0 ds"

definition skip_zero_flag :: "string \<Rightarrow> bool \<times> string" where
  "skip_zero_flag f = (case f of c # r \<Rightarrow> if c = CHR ''0'' then (True, r) else (False, f) | [] \<Rightarrow> (False, f))"

function vformat :: "string \<Rightarrow> u32 list \<Rightarrow> u8 list" where
  "vformat [] args = []"
| "vformat (c # f) args =
     (if c \<noteq> CHR ''%'' then of_char c # vformat f args
      else let (zero, f1) = skip_zero_flag f;
               w = width_value (takeWhile is_digit f1)
           in case dropWhile is_digit f1 of
                [] \<Rightarrow> []
              | conv # f2 \<Rightarrow>
                  (case args of
                     [] \<Rightarrow> []
                   | a # args' \<Rightarrow> pad_field zero w (conv_text conv a) @ vformat f2 args'))"
  by pat_completeness auto
termination
proof (relation "measure (\<lambda>(f, args). length f)", goal_cases)
  case (3 c f args p zero f1 w conv f2 a args')
  have "length f1 \<le> length f"
    using 3 by (auto simp: skip_zero_flag_def split: list.splits if_splits)
  moreover have "length (dropWhile is_digit f1) \<le> length f1" by (rule length_dropWhile_le)
  ultimately show ?case using 3 by simp
qed auto

text \<open>
  \<open>vsnprintf(buf, n, format, args)\<close>: the length of the whole text, and the buffer with as much of
  it as fits before a terminating NUL.
\<close>

definition vsnprintf :: "u8 list \<Rightarrow> nat \<Rightarrow> string \<Rightarrow> u32 list \<Rightarrow> int \<times> u8 list" where
  "vsnprintf buf n f args =
     (let out = vformat f args; t = take (n - 1) out
      in (int (length out), if n = 0 then buf else t @ 0 # drop (Suc (length t)) buf))"

lemma length_vsnprintf:
  "n \<le> length buf \<Longrightarrow> length (snd (vsnprintf buf n f args)) = length buf"
  by (auto simp: vsnprintf_def Let_def)

subsection \<open>The formatted text adds no control characters\<close>

lemma nat_digits_less: "1 < b \<Longrightarrow> d \<in> set (nat_digits b n) \<Longrightarrow> d < b"
proof (induction b n rule: nat_digits.induct)
  case (1 b n)
  then show ?case by (subst (asm) (2) nat_digits.simps) (auto split: if_splits)
qed

lemma unat_digit_char: "d < 16 \<Longrightarrow> unat (digit_char d) = (if d < 10 then 48 + d else 87 + d)"
  by (simp add: digit_char_def unsigned_of_nat take_bit_nat_eq_self del: of_nat_add)

text \<open>A control character: below the space.\<close>

definition ctl :: "u8 \<Rightarrow> bool" where
  "ctl x \<longleftrightarrow> unat x < 32"

lemma ctl_digits: "1 < b \<Longrightarrow> b \<le> 16 \<Longrightarrow> ctl x \<Longrightarrow> x \<notin> digit_char ` set (nat_digits b n)"
proof
  assume b: "1 < b" "b \<le> 16" and "ctl x" and "x \<in> digit_char ` set (nat_digits b n)"
  then obtain d where d: "d \<in> set (nat_digits b n)" "x = digit_char d" by blast
  from nat_digits_less [OF b(1) d(1)] b(2) unat_digit_char [of d] \<open>ctl x\<close> show False
    by (simp add: d(2) ctl_def split: if_splits)
qed

lemma ctl_conv_text: "ctl x \<Longrightarrow> x \<notin> set (fst (conv_text c a)) \<and> x \<notin> set (snd (conv_text c a))"
proof -
  assume x: "ctl x"
  then have "x \<noteq> 45" by (auto simp: ctl_def)
  with x ctl_digits [of 10 x] ctl_digits [of 16 x] show ?thesis by (simp add: conv_text_def)
qed

lemma ctl_pad_field: "ctl x \<Longrightarrow> x \<notin> set (pad_field zero w (conv_text c a))"
proof -
  assume x: "ctl x"
  then have "x \<noteq> 48" "x \<noteq> 32" by (auto simp: ctl_def)
  with ctl_conv_text [OF x, of c a] show ?thesis
    by (cases "conv_text c a") (auto simp: pad_field_def)
qed

lemma vformat_ctl: "ctl x \<Longrightarrow> x \<notin> of_char ` set f \<Longrightarrow> x \<notin> set (vformat f args)"
proof (induction f args rule: vformat.induct)
  case (2 c f args)
  obtain zero f1 where sk: "skip_zero_flag f = (zero, f1)" by fastforce
  have f1: "x \<notin> of_char ` set f1"
    using 2(4) sk by (auto simp: skip_zero_flag_def split: list.splits if_splits)
  show ?case
  proof (cases "c = CHR ''%'' \<and> dropWhile is_digit f1 \<noteq> [] \<and> args \<noteq> []")
    case True
    then obtain conv f2 a args' where fa: "dropWhile is_digit f1 = conv # f2" "args = a # args'"
      by (meson neq_Nil_conv)
    have "set f2 \<subseteq> set f1" using fa(1) set_dropWhileD [of _ is_digit f1] by fastforce
    with f1 have "x \<notin> of_char ` set f2" by blast
    then have "x \<notin> set (vformat f2 args')"
      using "2.IH"(2) [OF _ refl sk [symmetric] refl fa(1) fa(2)] True 2(3) by simp
    with True ctl_pad_field [OF 2(3)] show ?thesis by (simp add: sk fa)
  next
    case False
    then consider "c \<noteq> CHR ''%''" | "c = CHR ''%''" "dropWhile is_digit f1 = []"
      | "c = CHR ''%''" "args = []" by blast
    then show ?thesis
    proof cases
      case 1
      with "2.IH"(1) "2.prems" show ?thesis by auto
    next
      case 2
      then show ?thesis by (simp add: sk del: dropWhile_eq_Nil_conv)
    next
      case 3
      then show ?thesis by (simp add: sk split: list.split)
    qed
  qed
qed simp

lemma of_char_u8_eq_0_iff: "(of_char c :: u8) = 0 \<longleftrightarrow> c = CHR 0x00"
proof
  assume "(of_char c :: u8) = 0"
  then have "(of_nat (of_char c) :: u8) = 0" by (simp only: of_nat_of_char)
  then have "(of_char c :: nat) mod 256 = 0" by (simp add: word_of_nat_eq_0_iff dvd_eq_mod_eq_0)
  then have "(of_char c :: nat) = of_char (CHR 0x00)" by simp
  then show "c = CHR 0x00" by (simp only: of_char_eq_iff)
qed simp

lemma vformat_no_nul: "CHR 0x00 \<notin> set f \<Longrightarrow> 0 \<notin> set (vformat f args)"
proof -
  assume "CHR 0x00 \<notin> set f"
  then have "0 \<notin> (of_char :: char \<Rightarrow> u8) ` set f" by (metis imageE of_char_u8_eq_0_iff)
  moreover have "ctl 0" by (simp add: ctl_def)
  ultimately show ?thesis by (rule vformat_ctl [rotated])
qed

subsection \<open>Hexadecimal fields\<close>

text \<open>Reading a hexadecimal number back, as a terminal user does with the loader's output.\<close>

definition digit_value :: "u8 \<Rightarrow> nat" where
  "digit_value c = (if unat c < 58 then unat c - 48 else unat c - 87)"

definition hex_value :: "u8 list \<Rightarrow> nat" where
  "hex_value cs = foldl (\<lambda>n c. 16 * n + digit_value c) 0 cs"

lemma digit_value_char: "d < 16 \<Longrightarrow> digit_value (digit_char d) = d"
  by (simp add: digit_value_def unat_digit_char)

lemma nat_digits_value: "1 < b \<Longrightarrow> foldl (\<lambda>n d. b * n + d) 0 (nat_digits b n) = n"
proof (induction b n rule: nat_digits.induct)
  case (1 b n)
  then show ?case by (subst nat_digits.simps) auto
qed

lemma length_nat_digits: "1 < b \<Longrightarrow> n < b ^ Suc k \<Longrightarrow> length (nat_digits b n) \<le> Suc k"
proof (induction k arbitrary: n)
  case 0
  then show ?case by (subst nat_digits.simps) simp
next
  case (Suc k)
  have "n div b < b ^ Suc k"
    using Suc.prems by (simp add: less_mult_imp_div_less mult.commute)
  with Suc show ?case by (subst nat_digits.simps) simp
qed

lemma hex_value_digits: "hex_value (map digit_char (nat_digits 16 n)) = n"
proof -
  have "foldl (\<lambda>n c. 16 * n + digit_value c) m (map digit_char ds) = foldl (\<lambda>n d. 16 * n + d) m ds"
    if "\<forall>d \<in> set ds. d < 16" for ds m
    using that by (induction ds arbitrary: m) (simp_all add: digit_value_char)
  moreover have "\<forall>d \<in> set (nat_digits 16 n). d < 16" using nat_digits_less [of 16] by simp
  ultimately show ?thesis by (simp add: hex_value_def nat_digits_value)
qed

lemma hex_value_zeros: "hex_value (replicate k 48 @ cs) = hex_value cs"
  by (induction k) (simp_all add: hex_value_def digit_value_def)

lemma hex08: "length (vformat ''%08x'' [a]) = 8" "hex_value (vformat ''%08x'' [a]) = unat a"
proof -
  let ?ds = "map digit_char (nat_digits 16 (unat a))"
  have v: "vformat ''%08x'' [a] = replicate (8 - length ?ds) 48 @ ?ds"
    by (simp add: skip_zero_flag_def is_digit_def width_value_def conv_text_def pad_field_def Let_def)
  have "unat a < 16 ^ Suc 7" using unsigned_less [of a] by simp
  from length_nat_digits [OF _ this] have "length ?ds \<le> 8" by simp
  then show "length (vformat ''%08x'' [a]) = 8" by (simp only: v length_append length_replicate)
  show "hex_value (vformat ''%08x'' [a]) = unat a" by (simp only: v hex_value_zeros hex_value_digits)
qed

end
