(* ===== verification/Ring.thy ===== *)
theory Ring
  imports Prelude
begin

text \<open>
  The ring buffer that both UART drivers keep in a C array: a write index, a read index and a fixed
  array, with no element count. \<open>ring_contents\<close> is the queue a ring stands for. The locale
  \<open>ring_store\<close> states what a driver's "store one byte" operation does to its array and write
  index, and proves once what it does to the queue; \<open>UartPoll\<close> (the polled driver) and \<open>UartIrq\<close>
  (the interrupt-driven driver) interpret it.
\<close>

definition ring_ok :: "'a list \<Rightarrow> nat \<Rightarrow> nat \<Rightarrow> bool" where
  "ring_ok buf rd wr \<longleftrightarrow> rd < length buf \<and> wr < length buf"

definition ring_used :: "'a list \<Rightarrow> nat \<Rightarrow> nat \<Rightarrow> nat" where
  "ring_used buf rd wr = (if rd \<le> wr then wr - rd else length buf + wr - rd)"

definition ring_contents :: "'a list \<Rightarrow> nat \<Rightarrow> nat \<Rightarrow> 'a list" where
  "ring_contents buf rd wr =
     map (\<lambda>i. buf ! ((rd + i) mod length buf)) [0..<ring_used buf rd wr]"

lemma length_ring_contents [simp]: "length (ring_contents buf rd wr) = ring_used buf rd wr"
  by (simp add: ring_contents_def)

lemma ring_used_less: "ring_ok buf rd wr \<Longrightarrow> ring_used buf rd wr < length buf"
  by (auto simp: ring_ok_def ring_used_def)

lemma ring_used_update [simp]: "ring_used (buf[i := x]) rd wr = ring_used buf rd wr"
  by (simp add: ring_used_def)

lemma ring_empty_iff: "ring_ok buf rd wr \<Longrightarrow> ring_contents buf rd wr = [] \<longleftrightarrow> rd = wr"
  by (auto simp: ring_contents_def ring_ok_def ring_used_def)

lemma ring_same [simp]: "ring_contents buf i i = []"
  by (simp add: ring_contents_def ring_used_def)

lemma ring_used_Suc:
  assumes "ring_ok buf rd wr" and "Suc (ring_used buf rd wr) < length buf"
  shows "ring_used buf rd (Suc wr mod length buf) = Suc (ring_used buf rd wr)"
  using assms by (cases "Suc wr = length buf") (auto simp: ring_ok_def ring_used_def split: if_splits)

lemma ring_slot:
  assumes "ring_ok buf rd wr" and "i < ring_used buf rd wr"
  shows "(rd + i) mod length buf \<noteq> wr"
proof (cases "rd + i < length buf")
  case True
  with assms show ?thesis by (auto simp: ring_ok_def ring_used_def split: if_splits)
next
  case False
  with assms have "(rd + i) mod length buf = rd + i - length buf"
    by (simp add: ring_ok_def ring_used_def le_mod_geq split: if_splits)
  with assms False show ?thesis by (auto simp: ring_ok_def ring_used_def split: if_splits)
qed

lemma ring_end_slot:
  assumes "ring_ok buf rd wr"
  shows "(rd + ring_used buf rd wr) mod length buf = wr"
  using assms by (auto simp: ring_ok_def ring_used_def)

text \<open>Storing a byte appends it to the queue, as long as one slot stays free.\<close>

lemma ring_push:
  assumes ok: "ring_ok buf rd wr" and room: "Suc (ring_used buf rd wr) < length buf"
  shows "ring_contents (buf[wr := x]) rd (Suc wr mod length buf) = ring_contents buf rd wr @ [x]"
proof -
  have "map (\<lambda>i. buf[wr := x] ! ((rd + i) mod length buf)) [0..<ring_used buf rd wr] =
        map (\<lambda>i. buf ! ((rd + i) mod length buf)) [0..<ring_used buf rd wr]"
    by (intro map_cong refl nth_list_update_neq) (use ring_slot [OF ok] in \<open>auto dest: sym\<close>)
  moreover have "wr < length buf" using ok by (simp add: ring_ok_def)
  ultimately show ?thesis
    using ring_used_Suc [OF ok room] ring_end_slot [OF ok] by (simp add: ring_contents_def)
qed

text \<open>
  Storing a byte into a ring that already holds its maximum (one less than the array) moves the
  write index onto the read index: the ring then looks empty, and all it held is lost.
\<close>

lemma ring_push_full:
  assumes ok: "ring_ok buf rd wr" and full: "Suc (ring_used buf rd wr) = length buf"
  shows "Suc wr mod length buf = rd"
  using assms by (cases "Suc wr = length buf") (auto simp: ring_ok_def ring_used_def split: if_splits)

text \<open>Reading the slot at the read index and advancing it removes the head of the queue.\<close>

lemma ring_pop:
  assumes ok: "ring_ok buf rd wr" and ne: "rd \<noteq> wr"
  shows "ring_contents buf rd wr = buf ! rd # ring_contents buf (Suc rd mod length buf) wr"
proof -
  have used: "ring_used buf rd wr = Suc (ring_used buf (Suc rd mod length buf) wr)"
    using assms
    by (cases "Suc rd = length buf") (auto simp: ring_ok_def ring_used_def split: if_splits)
  have "map (\<lambda>i. buf ! ((rd + i) mod length buf)) [0..<Suc n] =
        buf ! rd # map (\<lambda>i. buf ! ((Suc rd mod length buf + i) mod length buf)) [0..<n]" for n
  proof -
    have "rd mod length buf = rd" using ok by (simp add: ring_ok_def)
    then show ?thesis
      by (simp add: upt_conv_Cons map_Suc_upt [symmetric] mod_add_left_eq del: upt_Suc)
  qed
  then show ?thesis by (simp only: ring_contents_def used)
qed

lemma ring_ok_advance_rd:
  "ring_ok buf rd wr \<Longrightarrow> ring_ok buf (Suc rd mod length buf) wr"
  by (auto simp: ring_ok_def intro: mod_less_divisor)

subsection \<open>The contract of a driver's store operation\<close>

locale ring_store =
  fixes store :: "u8 \<Rightarrow> 's \<Rightarrow> 's"
    and arr :: "'s \<Rightarrow> u8 list"
    and rd :: "'s \<Rightarrow> nat"
    and wr :: "'s \<Rightarrow> nat"
    and ok :: "'s \<Rightarrow> bool"
  assumes ok_ring: "ok s \<Longrightarrow> ring_ok (arr s) (rd s) (wr s)"
    and store_ok: "ok s \<Longrightarrow> ok (store x s)"
    and store_arr: "ok s \<Longrightarrow> arr (store x s) = (arr s)[wr s := x]"
    and store_rd: "ok s \<Longrightarrow> rd (store x s) = rd s"
    and store_wr: "ok s \<Longrightarrow> wr (store x s) = Suc (wr s) mod length (arr s)"
begin

definition queue :: "'s \<Rightarrow> u8 list" where
  "queue s = ring_contents (arr s) (rd s) (wr s)"

lemma length_queue_less: "ok s \<Longrightarrow> length (queue s) < length (arr s)"
  using ring_used_less [OF ok_ring] by (simp add: queue_def)

lemma queue_empty_iff: "ok s \<Longrightarrow> queue s = [] \<longleftrightarrow> rd s = wr s"
  using ring_empty_iff [OF ok_ring] by (simp add: queue_def)

lemma store_appends:
  assumes "ok s" and "Suc (length (queue s)) < length (arr s)"
  shows "queue (store x s) = queue s @ [x]"
  using assms ring_push [OF ok_ring [OF assms(1)]]
  by (simp add: queue_def store_arr store_rd store_wr)

lemma store_overruns:
  assumes "ok s" and "Suc (length (queue s)) = length (arr s)"
  shows "queue (store x s) = []"
  using assms ring_push_full [OF ok_ring [OF assms(1)]]
  by (simp add: queue_def store_arr store_rd store_wr)

lemma store_full_iff:
  assumes "ok s"
  shows "wr (store x s) = rd (store x s) \<longleftrightarrow> Suc (length (queue s)) = length (arr s)"
proof -
  have "queue (store x s) = [] \<longleftrightarrow> Suc (length (queue s)) = length (arr s)"
    using store_appends [OF assms] store_overruns [OF assms] length_queue_less [OF assms]
    by (metis Nil_is_append_conv Suc_leI le_neq_implies_less not_Cons_self2)
  then show ?thesis using queue_empty_iff [OF store_ok [OF assms]] by metis
qed

end

end
