(* ===== verification/Bus.thy ===== *)
theory Bus
  imports Prelude
begin

text \<open>
  The hardware below the firmware, as a parameter of the model. Every load or store the C++ code
  makes through a \<open>volatile\<close> pointer is one call of a bus operation on an abstract device state
  \<open>'d\<close>: a load may change the device (popping a FIFO, time passing), so it returns a new state.
  \<open>bus\<close> has the 32-bit accesses of the register drivers; \<open>mem_bus\<close> adds the byte store the
  Intel HEX loaders use. A theorem that quantifies over all buses holds for any hardware; what a
  driver relies on is stated as a locale over the bus.
\<close>

record 'd bus =
  rd32 :: "u32 \<Rightarrow> 'd \<Rightarrow> u32 \<times> 'd"
  wr32 :: "u32 \<Rightarrow> u32 \<Rightarrow> 'd \<Rightarrow> 'd"

record 'd mem_bus = "'d bus" +
  wr8 :: "u32 \<Rightarrow> u8 \<Rightarrow> 'd \<Rightarrow> 'd"

subsection \<open>Registers that hold what was written\<close>

text \<open>
  A block of registers in which a read returns the last value written, reads do not disturb
  anything visible, and a write changes one register only. \<open>val\<close> observes a register.
\<close>

locale reg_file =
  fixes B :: "('d, 'z) bus_scheme"
    and val :: "'d \<Rightarrow> u32 \<Rightarrow> u32"
    and regs :: "u32 set"
  assumes read_val: "a \<in> regs \<Longrightarrow> fst (rd32 B a d) = val d a"
    and read_frame: "a \<in> regs \<Longrightarrow> a' \<in> regs \<Longrightarrow> val (snd (rd32 B a d)) a' = val d a'"
    and write_val: "a \<in> regs \<Longrightarrow> a' \<in> regs \<Longrightarrow>
           val (wr32 B a v d) a' = (if a' = a then v else val d a')"
begin

lemma read_after_write:
  "a \<in> regs \<Longrightarrow> fst (rd32 B a (wr32 B a v d)) = v"
  by (simp add: read_val write_val)

lemma write_other:
  "a \<in> regs \<Longrightarrow> a' \<in> regs \<Longrightarrow> a' \<noteq> a \<Longrightarrow> fst (rd32 B a' (wr32 B a v d)) = fst (rd32 B a' d)"
  by (simp add: read_val write_val)

lemma read_stable:
  "a \<in> regs \<Longrightarrow> a' \<in> regs \<Longrightarrow> fst (rd32 B a' (snd (rd32 B a d))) = fst (rd32 B a' d)"
  by (simp add: read_val read_frame)

lemmas reg_file_simps = read_val read_frame write_val

end

end
