(* ===== verification/UartPoll.thy ===== *)
theory UartPoll
  imports Ring Bus
begin

text \<open>
  The polled UART driver of \<open>lib/uart/uart.cc\<close>: the status word decoding, the class \<open>UartBuf\<close>
  and the C entry points \<open>uart_getchar\<close>, \<open>uart_putchar\<close> and \<open>uart_wait_available\<close>.
  A read of the UART's only register both returns the status and pops the receive FIFO, so a driver
  that wants to know whether it may transmit can receive a byte at the same time: \<open>CanWrite\<close> saves
  such a byte into a ring of 256 that \<open>GetAsync\<close> drains first. The locale \<open>uart_dev\<close> is what
  the driver relies on; the theorems say that under it no byte is lost, reordered or duplicated,
  and \<open>WbUart\<close> shows that the model of the peripheral provides it.
\<close>

definition UART_ADDRESS :: u32 where
  "UART_ADDRESS = 0x40000010"

definition EMPTY_BITMASK :: u32 where
  "EMPTY_BITMASK = 0x0100"

definition FULL_BITMASK :: u32 where
  "FULL_BITMASK = 0x0800"

definition uart_is_empty :: "u32 \<Rightarrow> bool" where
  "uart_is_empty c \<longleftrightarrow> c AND EMPTY_BITMASK \<noteq> 0"

definition uart_is_full :: "u32 \<Rightarrow> bool" where
  "uart_is_full c \<longleftrightarrow> c AND FULL_BITMASK \<noteq> 0"

lemma uart_is_empty_bit: "uart_is_empty c \<longleftrightarrow> bit c 8"
  using word_and_bit_eq_0_iff [of 8 c] by (simp add: uart_is_empty_def EMPTY_BITMASK_def push_bit_eq_mult)

lemma uart_is_full_bit: "uart_is_full c \<longleftrightarrow> bit c 11"
  using word_and_bit_eq_0_iff [of 11 c] by (simp add: uart_is_full_def FULL_BITMASK_def push_bit_eq_mult)

subsection \<open>State\<close>

text \<open>
  \<open>uart_buf\<close> holds the fields of the class \<open>UartBuf\<close>; \<open>fw\<close> is the state of a firmware image that
  links the library: the hardware, the static object \<open>uart_buf\<close> and the static \<open>buf\<close> that the
  printf wrappers format into. Programs with more static variables extend \<open>fw\<close>.
\<close>

record uart_buf =
  ub_buf :: "u8 list"
  ub_rd :: nat
  ub_wr :: nat

record 'd fw =
  dev :: 'd
  ubuf :: uart_buf
  fmtbuf :: "u8 list"

definition UartBuf_ctor :: uart_buf where
  "UartBuf_ctor = \<lparr>ub_buf = replicate 256 0, ub_rd = 0, ub_wr = 0\<rparr>"

definition uart_raw_read :: "('d, 'b) bus_scheme \<Rightarrow> ('d, 'z) fw_scheme \<Rightarrow> u32 \<times> ('d, 'z) fw_scheme"
  where
  "uart_raw_read B s = (case rd32 B UART_ADDRESS (dev s) of (v, d) \<Rightarrow> (v, s\<lparr>dev := d\<rparr>))"

definition uart_raw_write :: "('d, 'b) bus_scheme \<Rightarrow> u32 \<Rightarrow> ('d, 'z) fw_scheme \<Rightarrow> ('d, 'z) fw_scheme"
  where
  "uart_raw_write B v s = s\<lparr>dev := wr32 B UART_ADDRESS v (dev s)\<rparr>"

text \<open>An operation on the device, run by a program.\<close>

definition on_dev :: "('d \<Rightarrow> 'r \<times> 'd) \<Rightarrow> ('d, 'z) fw_scheme \<Rightarrow> 'r \<times> ('d, 'z) fw_scheme" where
  "on_dev f s = (case f (dev s) of (x, d) \<Rightarrow> (x, s\<lparr>dev := d\<rparr>))"

subsection \<open>The class UartBuf\<close>

text \<open>Lines 61 and 62 of \<open>CanWrite\<close>: store a byte at \<open>wr_\<close> and advance it modulo \<open>sizeof(buf_)\<close>.\<close>

definition UartBuf_save :: "u8 \<Rightarrow> uart_buf \<Rightarrow> uart_buf" where
  "UartBuf_save r u =
     u\<lparr>ub_buf := (ub_buf u)[ub_wr u := r], ub_wr := (ub_wr u + 1) mod 256\<rparr>"

definition UartBuf_CanWrite :: "('d, 'b) bus_scheme \<Rightarrow> ('d, 'z) fw_scheme \<Rightarrow> bool \<times> ('d, 'z) fw_scheme"
  where
  "UartBuf_CanWrite B s =
     (let (v, s1) = uart_raw_read B s;
          s2 = (if \<not> uart_is_empty v then s1\<lparr>ubuf := UartBuf_save (ucast (v AND 255)) (ubuf s1)\<rparr>
                else s1)
      in (\<not> uart_is_full v, s2))"

text \<open>\<open>GetAsync\<close> returns \<open>Some c\<close> for true with \<open>*c = c\<close>, \<open>None\<close> for false with \<open>*c\<close> untouched.\<close>

definition UartBuf_GetAsync ::
    "('d, 'b) bus_scheme \<Rightarrow> ('d, 'z) fw_scheme \<Rightarrow> u8 option \<times> ('d, 'z) fw_scheme" where
  "UartBuf_GetAsync B s =
     (let u = ubuf s
      in if ub_rd u \<noteq> ub_wr u
         then (Some (ub_buf u ! ub_rd u),
               s\<lparr>ubuf := u\<lparr>ub_rd := (ub_rd u + 1) mod 256\<rparr>\<rparr>)
         else let (v, s1) = uart_raw_read B s
              in if uart_is_empty v then (None, s1) else (Some (ucast (v AND 255)), s1))"

definition UartBuf_PutAsync ::
    "('d, 'b) bus_scheme \<Rightarrow> u8 \<Rightarrow> ('d, 'z) fw_scheme \<Rightarrow> bool \<times> ('d, 'z) fw_scheme" where
  "UartBuf_PutAsync B c s =
     (let (ok, s1) = UartBuf_CanWrite B s
      in if \<not> ok then (False, s1) else (True, uart_raw_write B (ucast c) s1))"

text \<open>The busy-waiting loops: \<open>None\<close> when the loop never ends.\<close>

partial_function (option) UartBuf_Put ::
    "('d, 'b) bus_scheme \<Rightarrow> u8 \<Rightarrow> ('d, 'z) fw_scheme \<Rightarrow> (bool \<times> ('d, 'z) fw_scheme) option" where
  "UartBuf_Put B c s =
     (case UartBuf_PutAsync B c s of
        (ret, s1) \<Rightarrow> if ret then Some (ret, s1) else UartBuf_Put B c s1)"

partial_function (option) UartBuf_Get ::
    "('d, 'b) bus_scheme \<Rightarrow> ('d, 'z) fw_scheme \<Rightarrow> (u8 \<times> ('d, 'z) fw_scheme) option" where
  "UartBuf_Get B s =
     (case UartBuf_GetAsync B s of
        (Some c, s1) \<Rightarrow> Some (c, s1)
      | (None, s1) \<Rightarrow> UartBuf_Get B s1)"

definition uart_getchar ::
    "('d, 'b) bus_scheme \<Rightarrow> ('d, 'z) fw_scheme \<Rightarrow> (u8 \<times> ('d, 'z) fw_scheme) option" where
  "uart_getchar B s = UartBuf_Get B s"

definition uart_putchar ::
    "('d, 'b) bus_scheme \<Rightarrow> u8 \<Rightarrow> ('d, 'z) fw_scheme \<Rightarrow> ('d, 'z) fw_scheme option" where
  "uart_putchar B c s = map_option snd (UartBuf_Put B c s)"

partial_function (option) uart_wait_available ::
    "('d, 'b) bus_scheme \<Rightarrow> ('d, 'z) fw_scheme \<Rightarrow> ('d, 'z) fw_scheme option" where
  "uart_wait_available B s =
     (case UartBuf_CanWrite B s of (ok, s1) \<Rightarrow> if ok then Some s1 else uart_wait_available B s1)"

declare UartBuf_Put.simps [code] UartBuf_Get.simps [code] uart_wait_available.simps [code]

lemmas uart_access_defs = uart_raw_read_def uart_raw_write_def

subsection \<open>The ring invariant\<close>

definition ub_ok :: "uart_buf \<Rightarrow> bool" where
  "ub_ok u \<longleftrightarrow> length (ub_buf u) = 256 \<and> ub_rd u < 256 \<and> ub_wr u < 256"

interpretation ub: ring_store UartBuf_save ub_buf ub_rd ub_wr ub_ok
  by unfold_locales (auto simp: UartBuf_save_def ub_ok_def ring_ok_def)

text \<open>The bytes saved by \<open>CanWrite\<close> and not yet taken by \<open>GetAsync\<close>, oldest first.\<close>

definition saved :: "uart_buf \<Rightarrow> u8 list" where
  "saved u = ring_contents (ub_buf u) (ub_rd u) (ub_wr u)"

lemma saved_queue: "saved = ub.queue"
  by (rule ext) (simp add: saved_def ub.queue_def)

lemma length_saved: "ub_ok u \<Longrightarrow> length (saved u) \<le> 255"
  using ub.length_queue_less [of u] by (simp add: saved_queue ub_ok_def)

lemma saved_empty_iff: "ub_ok u \<Longrightarrow> saved u = [] \<longleftrightarrow> ub_rd u = ub_wr u"
  using ub.queue_empty_iff [of u] by (simp add: saved_queue)

lemma saved_save: "ub_ok u \<Longrightarrow> length (saved u) < 255 \<Longrightarrow> saved (UartBuf_save r u) = saved u @ [r]"
  using ub.store_appends [of u r] by (simp add: saved_queue ub_ok_def)

lemma saved_save_overrun: "ub_ok u \<Longrightarrow> length (saved u) = 255 \<Longrightarrow> saved (UartBuf_save r u) = []"
  using ub.store_overruns [of u r] by (simp add: saved_queue ub_ok_def)

lemma ub_ok_take: "ub_ok u \<Longrightarrow> ub_ok (u\<lparr>ub_rd := Suc (ub_rd u) mod 256\<rparr>)"
  by (simp add: ub_ok_def)

lemma saved_take:
  "ub_ok u \<Longrightarrow> ub_rd u \<noteq> ub_wr u \<Longrightarrow>
   saved u = ub_buf u ! ub_rd u # saved (u\<lparr>ub_rd := Suc (ub_rd u) mod 256\<rparr>)"
  using ring_pop [OF ub.ok_ring, of u] by (simp add: saved_def ub_ok_def)

subsection \<open>What the driver relies on\<close>

text \<open>
  The contract of a UART behind \<open>UART_ADDRESS\<close>: \<open>inp\<close> is what the host will still send, in
  order, and \<open>avail\<close> how much of it may arrive now: a host that honours flow control holds the rest
  back until it is sent an XON. \<open>tx\<close> is what the device has accepted for transmission, \<open>room\<close> that
  a write now is accepted, and \<open>oth\<close> everything about the device that UART accesses must leave
  alone. A read that is not empty delivers the next byte; a read that is not full promises room;
  \<open>tx_wait\<close> and \<open>rx_wait\<close> bound how often a poll can find the device full, or empty with input
  still to come.
\<close>

definition XON :: u8 where
  "XON = 0x11"

locale uart_dev =
  fixes B :: "('d, 'b) bus_scheme"
    and dinv :: "'d \<Rightarrow> bool"
    and inp :: "'d \<Rightarrow> u8 list"
    and avail :: "'d \<Rightarrow> nat"
    and tx :: "'d \<Rightarrow> u8 list"
    and room :: "'d \<Rightarrow> bool"
    and tx_wait :: "'d \<Rightarrow> nat"
    and rx_wait :: "'d \<Rightarrow> nat"
    and oth :: "'d \<Rightarrow> 'o"
  assumes read_inv: "dinv d \<Longrightarrow> rd32 B UART_ADDRESS d = (v, d') \<Longrightarrow> dinv d'"
    and read_tx: "dinv d \<Longrightarrow> rd32 B UART_ADDRESS d = (v, d') \<Longrightarrow> tx d' = tx d"
    and read_oth: "dinv d \<Longrightarrow> rd32 B UART_ADDRESS d = (v, d') \<Longrightarrow> oth d' = oth d"
    and read_empty: "dinv d \<Longrightarrow> rd32 B UART_ADDRESS d = (v, d') \<Longrightarrow> uart_is_empty v \<Longrightarrow>
           inp d' = inp d \<and> avail d' = avail d"
    and read_byte: "dinv d \<Longrightarrow> rd32 B UART_ADDRESS d = (v, d') \<Longrightarrow> \<not> uart_is_empty v \<Longrightarrow>
           inp d = ucast v # inp d' \<and> avail d = Suc (avail d')"
    and read_room: "dinv d \<Longrightarrow> rd32 B UART_ADDRESS d = (v, d') \<Longrightarrow> \<not> uart_is_full v \<Longrightarrow> room d'"
    and read_full: "dinv d \<Longrightarrow> rd32 B UART_ADDRESS d = (v, d') \<Longrightarrow> uart_is_full v \<Longrightarrow>
           tx_wait d' < tx_wait d"
    and read_wait: "dinv d \<Longrightarrow> rd32 B UART_ADDRESS d = (v, d') \<Longrightarrow> uart_is_empty v \<Longrightarrow>
           0 < avail d \<Longrightarrow> rx_wait d' < rx_wait d"
    and avail_le: "dinv d \<Longrightarrow> avail d \<le> length (inp d)"
    and write_inv: "dinv d \<Longrightarrow> room d \<Longrightarrow> dinv (wr32 B UART_ADDRESS w d)"
    and write_tx: "dinv d \<Longrightarrow> room d \<Longrightarrow> tx (wr32 B UART_ADDRESS w d) = tx d @ [ucast w]"
    and write_inp: "dinv d \<Longrightarrow> room d \<Longrightarrow> inp (wr32 B UART_ADDRESS w d) = inp d"
    and write_avail: "dinv d \<Longrightarrow> room d \<Longrightarrow> ucast w \<noteq> XON \<Longrightarrow>
           avail (wr32 B UART_ADDRESS w d) = avail d"
    and write_oth: "dinv d \<Longrightarrow> room d \<Longrightarrow> oth (wr32 B UART_ADDRESS w d) = oth d"


text \<open>
  The driver's invariant and its abstract state: \<open>pending\<close> is the input the program has not read
  yet, whether it is still to come or was already saved in the ring; \<open>exposed\<close> is how much of it the
  ring may have to hold if the program only prints. \<open>same_rest\<close> is the frame: the drivers change the device and the ring and nothing else.
\<close>

definition fw_ok :: "('d \<Rightarrow> bool) \<Rightarrow> ('d, 'z) fw_scheme \<Rightarrow> bool" where
  "fw_ok dinv s \<longleftrightarrow> ub_ok (ubuf s) \<and> dinv (dev s)"

definition pending :: "('d \<Rightarrow> u8 list) \<Rightarrow> ('d, 'z) fw_scheme \<Rightarrow> u8 list" where
  "pending inp s = saved (ubuf s) @ inp (dev s)"

definition exposed :: "('d \<Rightarrow> nat) \<Rightarrow> ('d, 'z) fw_scheme \<Rightarrow> nat" where
  "exposed avail s = length (saved (ubuf s)) + avail (dev s)"

definition same_rest :: "('d, 'z) fw_scheme \<Rightarrow> ('d, 'z) fw_scheme \<Rightarrow> bool" where
  "same_rest s s' \<longleftrightarrow> fmtbuf s' = fmtbuf s \<and> fw.more s' = fw.more s"

lemma same_rest_refl [simp]: "same_rest s s"
  by (simp add: same_rest_def)

lemma same_rest_trans [trans]: "same_rest s t \<Longrightarrow> same_rest t u \<Longrightarrow> same_rest s u"
  by (simp add: same_rest_def)

lemma same_rest_updates [simp]:
  "same_rest s (s\<lparr>dev := d\<rparr>)" "same_rest s (s\<lparr>ubuf := u\<rparr>)"
  "same_rest s (s\<lparr>dev := d, ubuf := u\<rparr>)"
  by (simp_all add: same_rest_def)

text \<open>An arbitrary interleaving of the driver's non-blocking entry points by a program.\<close>

datatype uart_op = Op_CanWrite | Op_GetAsync | Op_PutAsync u8

fun run_op :: "('d, 'b) bus_scheme \<Rightarrow> uart_op \<Rightarrow> ('d, 'z) fw_scheme \<Rightarrow>
    (u8 list \<times> u8 list) \<times> ('d, 'z) fw_scheme" where
  "run_op B Op_CanWrite s = (([], []), snd (UartBuf_CanWrite B s))"
| "run_op B Op_GetAsync s =
     (case UartBuf_GetAsync B s of
        (Some c, s') \<Rightarrow> (([c], []), s') | (None, s') \<Rightarrow> (([], []), s'))"
| "run_op B (Op_PutAsync c) s =
     (case UartBuf_PutAsync B c s of (ok, s') \<Rightarrow> (([], if ok then [c] else []), s'))"

fun run_ops :: "('d, 'b) bus_scheme \<Rightarrow> uart_op list \<Rightarrow> ('d, 'z) fw_scheme \<Rightarrow>
    (u8 list \<times> u8 list) \<times> ('d, 'z) fw_scheme" where
  "run_ops B [] s = (([], []), s)"
| "run_ops B (x # xs) s =
     (case run_op B x s of ((got, sent), s1) \<Rightarrow>
        case run_ops B xs s1 of ((got', sent'), s2) \<Rightarrow> ((got @ got', sent @ sent'), s2))"

context uart_dev
begin

text \<open>
  Each operation maps a good state to a good state (\<open>keeps\<close>): what is transmitted only grows by
  the bytes \<open>sent\<close> and the rest of the device is untouched; as long as at most 255 bytes are exposed
  and no XON was sent, exactly the bytes \<open>got\<close> have left the pending input.
\<close>

definition keeps :: "('d, 'z) fw_scheme \<Rightarrow> u8 list \<Rightarrow> u8 list \<Rightarrow> ('d, 'z) fw_scheme \<Rightarrow> bool" where
  "keeps s got sent s' \<longleftrightarrow>
     fw_ok dinv s' \<and> same_rest s s' \<and> tx (dev s') = tx (dev s) @ sent \<and> oth (dev s') = oth (dev s) \<and>
     (exposed avail s \<le> 255 \<and> XON \<notin> set sent \<longrightarrow>
        pending inp s = got @ pending inp s' \<and> exposed avail s = length got + exposed avail s')"

lemma keeps_refl: "fw_ok dinv s \<Longrightarrow> keeps s [] [] s"
  by (simp add: keeps_def)

lemma keeps_trans:
  assumes "keeps s got sent s'" and "keeps s' got' sent' s''"
  shows "keeps s (got @ got') (sent @ sent') s''"
  using assms by (auto simp: keeps_def same_rest_def)

lemma CanWrite_keeps:
  assumes ok: "fw_ok dinv s" and run: "UartBuf_CanWrite B s = (w, s')"
  shows "keeps s [] [] s'" and "w \<Longrightarrow> room (dev s')" and "\<not> w \<Longrightarrow> tx_wait (dev s') < tx_wait (dev s)"
proof -
  obtain v d where rd: "rd32 B UART_ADDRESS (dev s) = (v, d)" by fastforce
  have d: "dinv (dev s)" and u: "ub_ok (ubuf s)" using ok by (auto simp: fw_ok_def)
  have dev': "dev s' = d" and w: "w = (\<not> uart_is_full v)"
    using run by (auto simp: UartBuf_CanWrite_def uart_raw_read_def rd split: if_splits)
  note laws = read_inv [OF d rd] read_tx [OF d rd] read_oth [OF d rd]
  show "keeps s [] [] s'"
  proof (cases "uart_is_empty v")
    case True
    then have "s' = s\<lparr>dev := d\<rparr>"
      using run by (simp add: UartBuf_CanWrite_def uart_raw_read_def rd)
    with laws read_empty [OF d rd True] u show ?thesis
      by (simp add: keeps_def fw_ok_def pending_def exposed_def)
  next
    case False
    then have s': "s' = s\<lparr>dev := d, ubuf := UartBuf_save (ucast v) (ubuf s)\<rparr>"
      using run by (simp add: UartBuf_CanWrite_def uart_raw_read_def rd)
    have "exposed avail s \<le> 255 \<Longrightarrow> length (saved (ubuf s)) < 255"
      using read_byte [OF d rd False] by (simp add: exposed_def)
    with laws read_byte [OF d rd False] u saved_save [OF u] ub.store_ok [OF u] show ?thesis
      by (simp add: keeps_def fw_ok_def pending_def exposed_def s')
  qed
  show "w \<Longrightarrow> room (dev s')" using read_room [OF d rd] by (simp add: dev' w)
  show "\<not> w \<Longrightarrow> tx_wait (dev s') < tx_wait (dev s)" using read_full [OF d rd] by (simp add: dev' w)
qed

lemma raw_write_keeps:
  assumes ok: "fw_ok dinv s" and room: "room (dev s)"
  shows "keeps s [] [ucast v] (uart_raw_write B v s)"
  using assms write_inv write_tx write_inp write_avail write_oth
  by (auto simp: keeps_def fw_ok_def pending_def exposed_def uart_raw_write_def)

lemma PutAsync_keeps:
  assumes ok: "fw_ok dinv s" and run: "UartBuf_PutAsync B c s = (w, s')"
  shows "keeps s [] (if w then [c] else []) s'"
    and "\<not> w \<Longrightarrow> tx_wait (dev s') < tx_wait (dev s)"
proof -
  obtain w1 s1 where cw: "UartBuf_CanWrite B s = (w1, s1)" by fastforce
  note k = CanWrite_keeps [OF ok cw]
  have w: "w = w1" and s': "s' = (if w1 then uart_raw_write B (ucast c) s1 else s1)"
    using run by (auto simp: UartBuf_PutAsync_def cw split: if_splits)
  have "fw_ok dinv s1" using k(1) by (simp add: keeps_def)
  then show "keeps s [] (if w then [c] else []) s'"
    using keeps_trans [OF k(1) raw_write_keeps [of s1 "ucast c"]] k by (simp add: w s')
  show "\<not> w \<Longrightarrow> tx_wait (dev s') < tx_wait (dev s)" using k(3) by (simp add: w s')
qed

text \<open>\<open>Put\<close> polls until there is room and then writes once.\<close>

lemma Put_writes:
  assumes "fw_ok dinv s"
  shows "\<exists>s1. UartBuf_Put B c s = Some (True, uart_raw_write B (ucast c) s1) \<and>
              keeps s [] [] s1 \<and> room (dev s1)"
  using assms
proof (induction "tx_wait (dev s)" arbitrary: s rule: less_induct)
  case less
  obtain w s1 where cw: "UartBuf_CanWrite B s = (w, s1)" by fastforce
  note k = CanWrite_keeps [OF less.prems cw]
  show ?case
  proof (cases w)
    case True
    with k show ?thesis by (subst UartBuf_Put.simps) (auto simp: UartBuf_PutAsync_def cw)
  next
    case False
    have "fw_ok dinv s1" using k(1) by (simp add: keeps_def)
    from less.hyps [OF k(3) [OF False] this] obtain s2 where
      "UartBuf_Put B c s1 = Some (True, uart_raw_write B (ucast c) s2)" "keeps s1 [] [] s2" "room (dev s2)"
      by blast
    with keeps_trans [OF k(1)] False show ?thesis
      by (subst UartBuf_Put.simps) (fastforce simp: UartBuf_PutAsync_def cw)
  qed
qed

lemma Put_returns:
  assumes "fw_ok dinv s"
  shows "\<exists>s'. UartBuf_Put B c s = Some (True, s') \<and> keeps s [] [c] s'"
proof -
  obtain s1 where s1: "UartBuf_Put B c s = Some (True, uart_raw_write B (ucast c) s1)"
    "keeps s [] [] s1" "room (dev s1)" using Put_writes [OF assms] by blast
  then have "fw_ok dinv s1" by (simp add: keeps_def)
  with keeps_trans [OF s1(2) raw_write_keeps [OF _ s1(3), of "ucast c"]] s1(1) show ?thesis by simp
qed

lemma putchar_returns:
  "fw_ok dinv s \<Longrightarrow> \<exists>s'. uart_putchar B c s = Some s' \<and> keeps s [] [c] s'"
  using Put_returns [of s c] by (auto simp: uart_putchar_def)

lemma wait_available_returns:
  assumes "fw_ok dinv s"
  shows "\<exists>s'. uart_wait_available B s = Some s' \<and> keeps s [] [] s' \<and> room (dev s')"
  using assms
proof (induction "tx_wait (dev s)" arbitrary: s rule: less_induct)
  case less
  obtain w s1 where cw: "UartBuf_CanWrite B s = (w, s1)" by fastforce
  note k = CanWrite_keeps [OF less.prems cw]
  show ?case
  proof (cases w)
    case True
    with k show ?thesis by (subst uart_wait_available.simps) (simp add: cw)
  next
    case False
    have "fw_ok dinv s1" using k(1) by (simp add: keeps_def)
    from less.hyps [OF k(3) [OF False] this] keeps_trans [OF k(1)] False show ?thesis
      by (subst uart_wait_available.simps) (fastforce simp: cw)
  qed
qed

text \<open>Receiving never loses input, however much is outstanding.\<close>

lemma GetAsync_takes:
  assumes ok: "fw_ok dinv s" and run: "UartBuf_GetAsync B s = (r, s')"
  shows "fw_ok dinv s' \<and> same_rest s s' \<and> tx (dev s') = tx (dev s) \<and> oth (dev s') = oth (dev s) \<and>
         pending inp s = (case r of None \<Rightarrow> [] | Some c \<Rightarrow> [c]) @ pending inp s' \<and>
         exposed avail s = (case r of None \<Rightarrow> 0 | Some c \<Rightarrow> 1) + exposed avail s'"
    and "r = None \<Longrightarrow> 0 < exposed avail s \<Longrightarrow> rx_wait (dev s') < rx_wait (dev s)"
proof -
  have d: "dinv (dev s)" and u: "ub_ok (ubuf s)" using ok by (auto simp: fw_ok_def)
  obtain v d' where rd: "rd32 B UART_ADDRESS (dev s) = (v, d')" by fastforce
  note laws = read_inv [OF d rd] read_tx [OF d rd] read_oth [OF d rd]
  note sv = saved_take [OF u] saved_empty_iff [OF u]
  show "fw_ok dinv s' \<and> same_rest s s' \<and> tx (dev s') = tx (dev s) \<and> oth (dev s') = oth (dev s) \<and>
         pending inp s = (case r of None \<Rightarrow> [] | Some c \<Rightarrow> [c]) @ pending inp s' \<and>
         exposed avail s = (case r of None \<Rightarrow> 0 | Some c \<Rightarrow> 1) + exposed avail s'"
  proof (cases "ub_rd (ubuf s) = ub_wr (ubuf s)")
    case True
    then show ?thesis
      using run laws u sv read_empty [OF d rd] read_byte [OF d rd]
      by (cases "uart_is_empty v")
        (auto simp: UartBuf_GetAsync_def uart_raw_read_def rd fw_ok_def pending_def exposed_def)
  next
    case False
    then have s': "s' = s\<lparr>ubuf := (ubuf s)\<lparr>ub_rd := Suc (ub_rd (ubuf s)) mod 256\<rparr>\<rparr>"
      and r: "r = Some (ub_buf (ubuf s) ! ub_rd (ubuf s))"
      using run by (auto simp: UartBuf_GetAsync_def Let_def)
    show ?thesis using False d u sv(1) ub_ok_take [OF u] by (simp add: s' r fw_ok_def pending_def exposed_def)
  qed
  show "r = None \<Longrightarrow> 0 < exposed avail s \<Longrightarrow> rx_wait (dev s') < rx_wait (dev s)"
    using run sv(2) read_wait [OF d rd]
    by (auto simp: UartBuf_GetAsync_def uart_raw_read_def rd exposed_def Let_def split: if_splits)
qed

lemma Get_returns:
  assumes "fw_ok dinv s" and "0 < exposed avail s"
  shows "\<exists>s'. UartBuf_Get B s = Some (hd (pending inp s), s') \<and> pending inp s' = tl (pending inp s) \<and>
              exposed avail s = Suc (exposed avail s') \<and>
              fw_ok dinv s' \<and> same_rest s s' \<and> tx (dev s') = tx (dev s) \<and> oth (dev s') = oth (dev s)"
  using assms
proof (induction "rx_wait (dev s)" arbitrary: s rule: less_induct)
  case less
  obtain r s1 where ga: "UartBuf_GetAsync B s = (r, s1)" by fastforce
  note k = GetAsync_takes [OF less.prems(1) ga]
  show ?case
  proof (cases r)
    case (Some c)
    with k show ?thesis by (subst UartBuf_Get.simps) (simp add: ga)
  next
    case None
    with k(1) have p: "pending inp s1 = pending inp s" "exposed avail s1 = exposed avail s"
      and "fw_ok dinv s1" and rest: "same_rest s s1 \<and> tx (dev s1) = tx (dev s) \<and> oth (dev s1) = oth (dev s)" by auto
    from less.hyps [OF k(2) [OF None less.prems(2)] \<open>fw_ok dinv s1\<close>] less.prems(2) p obtain s' where
      "UartBuf_Get B s1 = Some (hd (pending inp s), s')" and "pending inp s' = tl (pending inp s)"
      and "exposed avail s = Suc (exposed avail s')"
      and "fw_ok dinv s'" and "same_rest s1 s'" and "tx (dev s') = tx (dev s1)"
      and "oth (dev s') = oth (dev s1)" by auto
    with rest None show ?thesis
      by (subst UartBuf_Get.simps) (auto simp: ga intro: same_rest_trans)
  qed
qed

lemma getchar_returns:
  "fw_ok dinv s \<Longrightarrow> 0 < exposed avail s \<Longrightarrow>
   \<exists>s'. uart_getchar B s = Some (hd (pending inp s), s') \<and> pending inp s' = tl (pending inp s) \<and>
        exposed avail s = Suc (exposed avail s') \<and>
        fw_ok dinv s' \<and> same_rest s s' \<and> tx (dev s') = tx (dev s) \<and> oth (dev s') = oth (dev s)"
  using Get_returns by (simp add: uart_getchar_def)

lemma GetAsync_keeps:
  assumes "fw_ok dinv s" and "UartBuf_GetAsync B s = (r, s')"
  shows "keeps s (case r of None \<Rightarrow> [] | Some c \<Rightarrow> [c]) [] s'"
  using GetAsync_takes(1) [OF assms] by (auto simp: keeps_def split: option.splits)

lemma run_op_keeps:
  assumes "fw_ok dinv s" and "run_op B x s = ((got, sent), s')"
  shows "keeps s got sent s'"
proof (cases x)
  case Op_CanWrite
  then show ?thesis using assms CanWrite_keeps(1) [OF assms(1)] by (cases "UartBuf_CanWrite B s") auto
next
  case Op_GetAsync
  then show ?thesis using assms GetAsync_keeps [OF assms(1)]
    by (cases "UartBuf_GetAsync B s") (fastforce split: option.splits)
next
  case (Op_PutAsync c)
  then show ?thesis using assms PutAsync_keeps(1) [OF assms(1)]
    by (cases "UartBuf_PutAsync B c s") fastforce
qed

lemma run_ops_keeps:
  "fw_ok dinv s \<Longrightarrow> run_ops B xs s = ((got, sent), s') \<Longrightarrow> keeps s got sent s'"
proof (induction xs arbitrary: s got sent)
  case Nil
  then show ?case by (simp add: keeps_refl)
next
  case (Cons x xs)
  obtain g t s1 where x: "run_op B x s = ((g, t), s1)" by (metis prod.collapse)
  obtain g' t' s2 where xs: "run_ops B xs s1 = ((g', t'), s2)" by (metis prod.collapse)
  have k: "keeps s g t s1" using run_op_keeps [OF Cons.prems(1) x] .
  have eq: "got = g @ g'" "sent = t @ t'" "s' = s2" using Cons.prems(2) x xs by auto
  have "keeps s1 g' t' s2" using k Cons.IH [of s1 g' t'] xs by (simp add: keeps_def eq)
  with k show ?case by (simp only: eq keeps_trans)
qed

end

lemma run_ops_sent:
  "run_ops B ops s = ((got, sent), s') \<Longrightarrow> c \<in> set sent \<Longrightarrow> Op_PutAsync c \<in> set ops"
proof (induction ops arbitrary: s got sent s')
  case Nil
  then show ?case by simp
next
  case (Cons x ops)
  obtain g t s1 where x: "run_op B x s = ((g, t), s1)" by (metis prod.collapse)
  obtain g' t' s2 where xs: "run_ops B ops s1 = ((g', t'), s2)" by (metis prod.collapse)
  have "c \<in> set t \<Longrightarrow> x = Op_PutAsync c"
    using x by (cases x) (auto split: prod.splits option.splits if_splits)
  with Cons.prems Cons.IH [OF xs] show ?case by (auto simp: x xs)
qed

subsection \<open>Properties\<close>

text \<open>
  C5: Over any UART that meets the contract, an arbitrary interleaving of \<open>CanWrite\<close>,
  \<open>GetAsync\<close> and \<open>PutAsync\<close> loses, duplicates and reorders nothing: as long as at most 255 bytes
  of input are exposed and the program sends no XON, the bytes handed to the program are exactly the front of the input, the
  bytes the device accepted are exactly those \<open>PutAsync\<close> reported as sent, and nothing else of the
  device or the program changes.
\<close>

theorem polled_stream_lossless:
  assumes "uart_dev B dinv inp avail tx room tx_wait rx_wait oth"
    and "fw_ok dinv s" and "exposed avail s \<le> 255" and "Op_PutAsync XON \<notin> set ops"
    and "run_ops B ops s = ((got, sent), s')"
  shows "pending inp s = got @ pending inp s' \<and> tx (dev s') = tx (dev s) @ sent \<and>
         exposed avail s = length got + exposed avail s' \<and>
         oth (dev s') = oth (dev s) \<and> same_rest s s' \<and> fw_ok dinv s'"
proof -
  have "uart_dev.keeps dinv inp avail tx oth s got sent s'"
    using uart_dev.run_ops_keeps [OF assms(1,2,5)] .
  moreover have "XON \<notin> set sent" using run_ops_sent [OF assms(5)] assms(4) by blast
  ultimately show ?thesis using assms(1,3) by (simp add: uart_dev.keeps_def)
qed


text \<open>
  C31: \<open>uart_putchar\<close> returns on every UART that meets the contract; it sends exactly its byte, and
  with at most 255 bytes of input exposed it loses none of them while it polls.
\<close>

theorem putchar_sends:
  assumes "uart_dev B dinv inp avail tx room tx_wait rx_wait oth" and "fw_ok dinv s"
  shows "\<exists>s'. uart_putchar B c s = Some s' \<and> fw_ok dinv s' \<and> same_rest s s' \<and>
              tx (dev s') = tx (dev s) @ [c] \<and> oth (dev s') = oth (dev s) \<and>
              (exposed avail s \<le> 255 \<and> c \<noteq> XON \<longrightarrow>
                 pending inp s' = pending inp s \<and> exposed avail s' = exposed avail s)"
proof -
  obtain s' where s': "uart_putchar B c s = Some s'" "uart_dev.keeps dinv inp avail tx oth s [] [c] s'"
    using uart_dev.putchar_returns [OF assms] by blast
  with assms(1) show ?thesis by (auto simp: uart_dev.keeps_def)
qed

text \<open>
  \<open>uart_getchar\<close> returns whenever input is saved or may arrive; it delivers the oldest byte, removes
  exactly that byte, and transmits nothing. There is no bound on the outstanding input.
\<close>

lemma getchar_receives:
  assumes "uart_dev B dinv inp avail tx room tx_wait rx_wait oth" and "fw_ok dinv s"
    and "pending inp s = c # rest" and "0 < exposed avail s"
  shows "\<exists>s'. uart_getchar B s = Some (c, s') \<and> fw_ok dinv s' \<and> same_rest s s' \<and>
              tx (dev s') = tx (dev s) \<and> oth (dev s') = oth (dev s) \<and> pending inp s' = rest"
  using uart_dev.getchar_returns [OF assms(1,2,4)] assms(3) by auto

text \<open>
  The ring has no overrun check: a byte that arrives during \<open>CanWrite\<close> (that is, while printing)
  when 255 bytes are already saved makes the ring look empty, so all 256 bytes are gone, and the
  next \<open>GetAsync\<close> goes straight to the hardware.
\<close>

lemma CanWrite_overrun_loses_ring:
  assumes "ub_ok (ubuf s)" and "length (saved (ubuf s)) = 255"
    and "rd32 B UART_ADDRESS (dev s) = (v, d)" and "\<not> uart_is_empty v"
  shows "saved (ubuf (snd (UartBuf_CanWrite B s))) = [] \<and>
         ub_rd (ubuf (snd (UartBuf_CanWrite B s))) = ub_wr (ubuf (snd (UartBuf_CanWrite B s)))"
proof -
  let ?u = "UartBuf_save (ucast v) (ubuf s)"
  have "ubuf (snd (UartBuf_CanWrite B s)) = ?u"
    using assms(3,4) by (simp add: UartBuf_CanWrite_def uart_raw_read_def)
  moreover have "saved ?u = []" using saved_save_overrun [OF assms(1,2)] .
  ultimately show ?thesis using saved_empty_iff [OF ub.store_ok [OF assms(1)]] by simp
qed

text \<open>
  The status decoding on every 32-bit status word: \<open>uart_is_empty\<close> is bit 8 and \<open>uart_is_full\<close>
  bit 11, whatever the other bits hold, in particular the data byte.
\<close>

theorem status_bits:
  "uart_is_empty c = bit c 8 \<and> uart_is_full c = bit c 11 \<and>
   uart_is_empty (c OR ucast (b :: u8)) = uart_is_empty c \<and>
   uart_is_full (c OR ucast b) = uart_is_full c"
  by (simp add: uart_is_empty_bit uart_is_full_bit bit_or_iff bit_simps)

end
