(* ===== verification/WbUart.thy ===== *)
theory WbUart
  imports UartPoll
begin

text \<open>
  The UART peripheral behind the polled driver, \<open>ip/wb_uart/wb_uart.arch.vhdl\<close>, one bus access at
  a time: the status word it drives, the byte a read removes from the receive FIFO, and the write
  that is dropped when the transmit FIFO is full. The two FIFOs come from the external library
  \<open>lib_uart\<close> and are lists here; what their output shows when they are empty is the parameter
  \<open>idle\<close>. After each access \<open>wb_uart_line\<close> lets the serial side run: one byte leaves the
  transmit FIFO, and a paced sender puts its next byte into the receive FIFO if it has a free slot.
  The interpretation at the end discharges the contract \<open>uart_dev\<close> of the driver.
\<close>

record wb_uart =
  rd_fifo :: "u8 list"
  wr_fifo :: "u8 list"
  line_in :: "u8 list"
  line_held :: "u8 list list"
  line_out :: "u8 list"

text \<open>The generic \<open>fifo_depth\<close>.\<close>

definition fifo_depth :: nat where
  "fifo_depth = 128"

definition fifo_full :: "u8 list \<Rightarrow> bool" where
  "fifo_full q \<longleftrightarrow> fifo_depth \<le> length q"

definition flag :: "bool \<Rightarrow> nat \<Rightarrow> u32" where
  "flag b n = (if b then push_bit n 1 else 0)"

text \<open>The concatenation that drives \<open>wb_outputs.rdt\<close>.\<close>

definition wb_uart_rdt :: "u8 \<Rightarrow> wb_uart \<Rightarrow> u32" where
  "wb_uart_rdt idle p =
     flag (fifo_full (wr_fifo p)) 11 OR flag (wr_fifo p = []) 10 OR
     flag (fifo_full (rd_fifo p)) 9 OR flag (rd_fifo p = []) 8 OR
     ucast (case rd_fifo p of [] \<Rightarrow> idle | b # _ \<Rightarrow> b)"

text \<open>
  The serial side between two accesses: one byte leaves the transmit FIFO, and the next byte of the
  line comes in if there is room. A host that sends line by line releases the next of its lines
  \<open>line_held\<close> when an XON leaves the FIFO.
\<close>

definition release_line :: "wb_uart \<Rightarrow> wb_uart" where
  "release_line p =
     (case line_held p of [] \<Rightarrow> p | l # ls \<Rightarrow> p\<lparr>line_in := line_in p @ l, line_held := ls\<rparr>)"

definition wb_uart_send :: "wb_uart \<Rightarrow> wb_uart" where
  "wb_uart_send p =
     (case wr_fifo p of [] \<Rightarrow> p
      | b # q \<Rightarrow> (let p1 = p\<lparr>wr_fifo := q, line_out := line_out p @ [b]\<rparr>
                 in if b = XON then release_line p1 else p1))"

definition wb_uart_receive :: "wb_uart \<Rightarrow> wb_uart" where
  "wb_uart_receive p =
     (case line_in p of [] \<Rightarrow> p
      | b # q \<Rightarrow> if fifo_full (rd_fifo p) then p
                 else p\<lparr>rd_fifo := rd_fifo p @ [b], line_in := q\<rparr>)"

definition wb_uart_line :: "wb_uart \<Rightarrow> wb_uart" where
  "wb_uart_line p = wb_uart_receive (wb_uart_send p)"

definition wb_uart_read :: "u8 \<Rightarrow> wb_uart \<Rightarrow> u32 \<times> wb_uart" where
  "wb_uart_read idle p = (wb_uart_rdt idle p, wb_uart_line (p\<lparr>rd_fifo := tl (rd_fifo p)\<rparr>))"

definition wb_uart_write :: "u32 \<Rightarrow> wb_uart \<Rightarrow> wb_uart" where
  "wb_uart_write v p =
     wb_uart_line (if fifo_full (wr_fifo p) then p
                   else p\<lparr>wr_fifo := wr_fifo p @ [ucast v]\<rparr>)"

definition wb_uart_bus :: "u8 \<Rightarrow> wb_uart bus" where
  "wb_uart_bus idle =
     \<lparr>rd32 = (\<lambda>a p. if a = UART_ADDRESS then wb_uart_read idle p else (0, p)),
      wr32 = (\<lambda>a v p. if a = UART_ADDRESS then wb_uart_write v p else p)\<rparr>"

lemma flag_bit: "n < 32 \<Longrightarrow> bit (flag b n) k \<longleftrightarrow> b \<and> k = n"
  by (auto simp: flag_def bit_simps)

lemma wb_uart_rdt_empty: "uart_is_empty (wb_uart_rdt idle p) \<longleftrightarrow> rd_fifo p = []"
  by (simp add: uart_is_empty_bit wb_uart_rdt_def bit_or_iff flag_bit bit_simps)

lemma wb_uart_rdt_full: "uart_is_full (wb_uart_rdt idle p) \<longleftrightarrow> fifo_full (wr_fifo p)"
  by (simp add: uart_is_full_bit wb_uart_rdt_def bit_or_iff flag_bit bit_simps)

lemma wb_uart_rdt_data: "rd_fifo p = b # q \<Longrightarrow> ucast (wb_uart_rdt idle p) = b"
  by (rule bit_word_eqI) (simp add: wb_uart_rdt_def bit_or_iff flag_bit bit_simps)

lemma wb_uart_rdt_tx_empty: "bit (wb_uart_rdt idle p) 10 \<longleftrightarrow> wr_fifo p = []"
  by (simp add: wb_uart_rdt_def bit_or_iff flag_bit bit_simps)

text \<open>
  The observations of the contract. A held line is available as soon as an XON for it is in the
  transmit FIFO.
\<close>

definition host_line :: "u8 list \<Rightarrow> bool" where
  "host_line l \<longleftrightarrow> l \<noteq> [] \<and> last l = 0x0A \<and> 0x0A \<notin> set (butlast l)"

definition xons :: "u8 list \<Rightarrow> nat" where
  "xons q = length (filter (\<lambda>b. b = XON) q)"

definition wbu_inv :: "wb_uart \<Rightarrow> bool" where
  "wbu_inv p \<longleftrightarrow> length (rd_fifo p) \<le> fifo_depth \<and> length (wr_fifo p) \<le> fifo_depth \<and>
     (\<forall>l \<in> set (line_held p). host_line l)"

definition wbu_inp :: "wb_uart \<Rightarrow> u8 list" where
  "wbu_inp p = rd_fifo p @ line_in p @ concat (line_held p)"

definition wbu_avail :: "wb_uart \<Rightarrow> nat" where
  "wbu_avail p = length (rd_fifo p @ line_in p @ concat (take (xons (wr_fifo p)) (line_held p)))"

definition wbu_tx :: "wb_uart \<Rightarrow> u8 list" where
  "wbu_tx p = line_out p @ wr_fifo p"

definition wbu_room :: "wb_uart \<Rightarrow> bool" where
  "wbu_room p \<longleftrightarrow> length (wr_fifo p) < fifo_depth"

definition wbu_tx_wait :: "wb_uart \<Rightarrow> nat" where
  "wbu_tx_wait p = length (wr_fifo p)"

definition wbu_rx_wait :: "wb_uart \<Rightarrow> nat" where
  "wbu_rx_wait p = (if rd_fifo p = [] then Suc (length (wr_fifo p)) else 0)"

lemmas wbu_defs = wbu_inv_def wbu_inp_def wbu_avail_def wbu_tx_def wbu_room_def wbu_tx_wait_def
  wbu_rx_wait_def xons_def

lemma wb_uart_send_facts:
  "wbu_inv p \<Longrightarrow> wbu_inv (wb_uart_send p)"
  "wbu_inp (wb_uart_send p) = wbu_inp p"
  "wbu_avail (wb_uart_send p) = wbu_avail p"
  "wbu_tx (wb_uart_send p) = wbu_tx p"
  "wr_fifo (wb_uart_send p) = tl (wr_fifo p)"
  "rd_fifo (wb_uart_send p) = rd_fifo p"
  by (auto simp: wb_uart_send_def release_line_def wbu_defs Let_def split: list.splits)

lemma wb_uart_receive_facts:
  "wbu_inv p \<Longrightarrow> wbu_inv (wb_uart_receive p)"
  "wbu_inp (wb_uart_receive p) = wbu_inp p"
  "wbu_avail (wb_uart_receive p) = wbu_avail p"
  "wbu_tx (wb_uart_receive p) = wbu_tx p"
  "wr_fifo (wb_uart_receive p) = wr_fifo p"
  "rd_fifo (wb_uart_receive p) = [] \<Longrightarrow> rd_fifo p = [] \<and> line_in p = []"
  by (auto simp: wb_uart_receive_def wbu_defs fifo_full_def fifo_depth_def split: list.splits if_splits)

lemma wb_uart_line_facts:
  "wbu_inv p \<Longrightarrow> wbu_inv (wb_uart_line p)"
  "wbu_inp (wb_uart_line p) = wbu_inp p"
  "wbu_avail (wb_uart_line p) = wbu_avail p"
  "wbu_tx (wb_uart_line p) = wbu_tx p"
  "wr_fifo (wb_uart_line p) = tl (wr_fifo p)"
  by (simp_all add: wb_uart_line_def wb_uart_send_facts wb_uart_receive_facts)

lemma wb_uart_line_quiet: "wr_fifo p = [] \<Longrightarrow> line_in p = [] \<Longrightarrow> wb_uart_line p = p"
  by (simp add: wb_uart_line_def wb_uart_send_def wb_uart_receive_def)

text \<open>While input is available, a poll either finds it or drains the transmit FIFO.\<close>

lemma wb_uart_line_progress:
  assumes "wbu_inv p" and "0 < wbu_avail p" and "rd_fifo (wb_uart_line p) = []"
  shows "wr_fifo p \<noteq> []"
proof
  assume w: "wr_fifo p = []"
  have e: "rd_fifo p = []" "line_in p = []"
    using wb_uart_receive_facts(6) [of "wb_uart_send p"] assms(3) w
    by (simp_all add: wb_uart_line_def wb_uart_send_def)
  with assms(2) w show False by (simp add: wbu_avail_def xons_def)
qed

text \<open>The facts about one read and one write, from which the contract follows.\<close>

lemma wb_uart_read_facts:
  assumes "wbu_inv p" and r: "wb_uart_read idle p = (v, p')"
  shows "wbu_inv p'" and "wbu_tx p' = wbu_tx p"
    and "uart_is_empty v \<longleftrightarrow> rd_fifo p = []" and "uart_is_full v \<longleftrightarrow> fifo_full (wr_fifo p)"
    and "uart_is_empty v \<Longrightarrow> wbu_inp p' = wbu_inp p \<and> wbu_avail p' = wbu_avail p"
    and "\<not> uart_is_empty v \<Longrightarrow> wbu_inp p = ucast v # wbu_inp p' \<and> wbu_avail p = Suc (wbu_avail p')"
    and "wr_fifo p' = tl (wr_fifo p)"
    and "uart_is_empty v \<Longrightarrow> 0 < wbu_avail p \<Longrightarrow> wbu_rx_wait p' < wbu_rx_wait p"
proof -
  let ?q = "p\<lparr>rd_fifo := tl (rd_fifo p)\<rparr>"
  have v: "v = wb_uart_rdt idle p" and p': "p' = wb_uart_line ?q"
    using r by (simp_all add: wb_uart_read_def)
  have q: "wbu_inv ?q" "wbu_tx ?q = wbu_tx p" using assms(1) by (auto simp: wbu_defs)
  show "wbu_inv p'" and "wbu_tx p' = wbu_tx p" and w: "wr_fifo p' = tl (wr_fifo p)"
    using q by (simp_all add: p' wb_uart_line_facts)
  show e: "uart_is_empty v \<longleftrightarrow> rd_fifo p = []" and "uart_is_full v \<longleftrightarrow> fifo_full (wr_fifo p)"
    by (simp_all add: v wb_uart_rdt_empty wb_uart_rdt_full)
  show i: "uart_is_empty v \<Longrightarrow> wbu_inp p' = wbu_inp p \<and> wbu_avail p' = wbu_avail p"
    by (simp add: v wb_uart_rdt_empty p' wb_uart_line_facts) (simp add: wbu_inp_def wbu_avail_def)
  show "\<not> uart_is_empty v \<Longrightarrow> wbu_inp p = ucast v # wbu_inp p' \<and> wbu_avail p = Suc (wbu_avail p')"
    by (cases "rd_fifo p")
      (simp_all add: v wb_uart_rdt_empty p' wb_uart_line_facts wb_uart_rdt_data,
        simp add: wbu_inp_def wbu_avail_def)
  assume em: "uart_is_empty v" and a: "0 < wbu_avail p"
  then have "?q = p" using e by simp
  then have "rd_fifo p' = [] \<Longrightarrow> wr_fifo p \<noteq> []"
    using wb_uart_line_progress [OF assms(1) a] p' by simp
  with em e w show "wbu_rx_wait p' < wbu_rx_wait p" by (simp add: wbu_rx_wait_def)
qed

lemma wb_uart_write_facts:
  assumes "wbu_inv p" and "wbu_room p"
  shows "wbu_inv (wb_uart_write v p)" and "wbu_tx (wb_uart_write v p) = wbu_tx p @ [ucast v]"
    and "wbu_inp (wb_uart_write v p) = wbu_inp p"
    and "ucast v \<noteq> XON \<Longrightarrow> wbu_avail (wb_uart_write v p) = wbu_avail p"
    and "ucast v = XON \<Longrightarrow> wbu_avail (wb_uart_write v p) =
           wbu_avail p + length (concat (take 1 (drop (xons (wr_fifo p)) (line_held p))))"
proof -
  let ?q = "p\<lparr>wr_fifo := wr_fifo p @ [ucast v]\<rparr>"
  have w: "wb_uart_write v p = wb_uart_line ?q"
    using assms(2) by (simp add: wb_uart_write_def wbu_room_def fifo_full_def)
  have "wbu_inv ?q" and "wbu_tx ?q = wbu_tx p @ [ucast v]" and "wbu_inp ?q = wbu_inp p"
    using assms by (auto simp: wbu_defs)
  then show "wbu_inv (wb_uart_write v p)" and "wbu_tx (wb_uart_write v p) = wbu_tx p @ [ucast v]"
    and "wbu_inp (wb_uart_write v p) = wbu_inp p"
    by (simp_all add: w wb_uart_line_facts)
  show "ucast v \<noteq> XON \<Longrightarrow> wbu_avail (wb_uart_write v p) = wbu_avail p"
    by (simp add: w wb_uart_line_facts) (simp add: wbu_avail_def xons_def)
  show "ucast v = XON \<Longrightarrow> wbu_avail (wb_uart_write v p) =
           wbu_avail p + length (concat (take 1 (drop (xons (wr_fifo p)) (line_held p))))"
    using take_add [of "xons (wr_fifo p)" 1 "line_held p"]
    by (simp add: w wb_uart_line_facts) (simp add: wbu_avail_def xons_def)
qed

lemma wbu_avail_le: "wbu_avail p \<le> length (wbu_inp p)"
  using append_take_drop_id [of "xons (wr_fifo p)" "line_held p"]
  by (metis (no_types, lifting) append.assoc concat_append le_add1 length_append wbu_avail_def wbu_inp_def)

interpretation wbu: uart_dev "wb_uart_bus idle" wbu_inv wbu_inp wbu_avail wbu_tx wbu_room wbu_tx_wait
  wbu_rx_wait "\<lambda>_. ()"
proof (unfold_locales, goal_cases)
  case (6 d v d')
  then have r: "wb_uart_read idle d = (v, d')" by (simp add: wb_uart_bus_def)
  note facts = wb_uart_read_facts [OF 6(1) r]
  with 6 show ?case by (auto simp: wbu_room_def fifo_full_def fifo_depth_def)
next
  case (7 d v d')
  then have r: "wb_uart_read idle d = (v, d')" by (simp add: wb_uart_bus_def)
  note facts = wb_uart_read_facts [OF 7(1) r]
  with 7 show ?case by (auto simp: wbu_tx_wait_def fifo_full_def fifo_depth_def)
next
  case (8 d v d')
  then have r: "wb_uart_read idle d = (v, d')" by (simp add: wb_uart_bus_def)
  note facts = wb_uart_read_facts [OF 8(1) r]
  with 8 show ?case by simp
qed (auto simp: wb_uart_bus_def wb_uart_read_facts wb_uart_write_facts wbu_avail_le)

text \<open>A freshly reset peripheral whose line will deliver \<open>bs\<close>, and a firmware state around it.\<close>

definition wbu_reset :: "u8 list \<Rightarrow> wb_uart" where
  "wbu_reset bs = \<lparr>rd_fifo = [], wr_fifo = [], line_in = bs, line_held = [], line_out = []\<rparr>"

definition fw_reset :: "'d \<Rightarrow> 'd fw" where
  "fw_reset d = \<lparr>dev = d, ubuf = UartBuf_ctor, fmtbuf = replicate 256 0\<rparr>"

lemma ub_ok_ctor [simp]: "ub_ok UartBuf_ctor" and saved_ctor [simp]: "saved UartBuf_ctor = []"
  by (simp_all add: ub_ok_def UartBuf_ctor_def saved_def)

lemma fw_reset_ok: "fw_ok wbu_inv (fw_reset (wbu_reset bs))" "pending wbu_inp (fw_reset (wbu_reset bs)) = bs"
  "exposed wbu_avail (fw_reset (wbu_reset bs)) = length bs"
  "wbu_tx (dev (fw_reset (wbu_reset bs))) = []" "length (fmtbuf (fw_reset d)) = 256"
  by (simp_all add: fw_ok_def fw_reset_def wbu_reset_def wbu_defs pending_def exposed_def)

end
