(* ===== verification/UartIO.thy ===== *)
theory UartIO
  imports Format WbUart
begin

text \<open>
  The text level of \<open>lib/uart/uart.cc\<close>: \<open>uart_print\<close>, \<open>printme\<close>, the printf wrappers \<open>printmef\<close>
  and \<open>kprintf\<close> with their shared static buffer, the line reader \<open>uart_getline\<close> and
  \<open>pause_for_spins\<close>. On a UART that meets \<open>uart_dev\<close> every one of them returns; the theorems say
  exactly which bytes go out, and what a line read leaves in the caller's buffer and in the input.
\<close>

definition CRLF :: "u8 list" where
  "CRLF = [0x0D, 0x0A]"

text \<open>The scan of a C string: the end of the list is the terminating NUL of a literal.\<close>

primrec uart_print ::
    "('d, 'b) bus_scheme \<Rightarrow> u8 list \<Rightarrow> ('d, 'z) fw_scheme \<Rightarrow> (int \<times> ('d, 'z) fw_scheme) option" where
  "uart_print B [] s = Some (0, s)"
| "uart_print B (c # str) s =
     (if c \<noteq> 0 then Option.bind (uart_putchar B c s) (uart_print B str) else Some (0, s))"

definition printme ::
    "('d, 'b) bus_scheme \<Rightarrow> u8 list \<Rightarrow> ('d, 'z) fw_scheme \<Rightarrow> ('d, 'z) fw_scheme option" where
  "printme B p s =
     do { (_, s1) \<leftarrow> uart_print B p s;
          (_, s2) \<leftarrow> uart_print B CRLF s1;
          Some s2 }"

text \<open>The part both printf wrappers share: format into the static \<open>buf\<close> and force a terminator.\<close>

definition format_buf :: "string \<Rightarrow> u32 list \<Rightarrow> ('d, 'z) fw_scheme \<Rightarrow> int \<times> ('d, 'z) fw_scheme" where
  "format_buf f args s =
     (let (ret, b) = vsnprintf (fmtbuf s) 256 f args;
          b' = (if ret < 0 then b[0 := 0] else if 256 \<le> ret then b[255 := 0] else b)
      in (ret, s\<lparr>fmtbuf := b'\<rparr>))"

definition printmef ::
    "('d, 'b) bus_scheme \<Rightarrow> string \<Rightarrow> u32 list \<Rightarrow> ('d, 'z) fw_scheme \<Rightarrow>
     (int \<times> ('d, 'z) fw_scheme) option" where
  "printmef B f args s =
     (let (ret, s1) = format_buf f args s
      in do { s2 \<leftarrow> printme B (fmtbuf s1) s1; Some (ret, s2) })"

definition kprintf ::
    "('d, 'b) bus_scheme \<Rightarrow> string \<Rightarrow> u32 list \<Rightarrow> ('d, 'z) fw_scheme \<Rightarrow>
     (int \<times> ('d, 'z) fw_scheme) option" where
  "kprintf B f args s =
     (let (ret, s1) = format_buf f args s
      in do { (_, s2) \<leftarrow> uart_print B (fmtbuf s1) s1; Some (ret, s2) })"

text \<open>
  \<open>uart_getline\<close>: the loop fills the caller's array \<open>buf\<close> from position \<open>pos\<close>; \<open>read_chars\<close> is
  what the code counts down. The result of the loop is the array, the position and the count.
\<close>

primrec getline_loop ::
    "('d, 'b) bus_scheme \<Rightarrow> u8 list \<Rightarrow> nat \<Rightarrow> nat \<Rightarrow> ('d, 'z) fw_scheme \<Rightarrow>
     ((u8 list \<times> nat \<times> nat) \<times> ('d, 'z) fw_scheme) option" where
  "getline_loop B buf pos 0 s = Some ((buf, pos, 0), s)"
| "getline_loop B buf pos (Suc read_chars) s =
     do { (c, s1) \<leftarrow> uart_getchar B s;
          let buf' = buf[pos := c];
          if c = 0x0A then Some ((buf', pos + 1, read_chars), s1)
          else getline_loop B buf' (pos + 1) read_chars s1 }"

definition uart_getline ::
    "('d, 'b) bus_scheme \<Rightarrow> u8 list \<Rightarrow> nat \<Rightarrow> ('d, 'z) fw_scheme \<Rightarrow>
     ((bool \<times> u8 list) \<times> ('d, 'z) fw_scheme) option" where
  "uart_getline B buf read_chars s =
     (if read_chars = 0 then Some ((False, buf), s)
      else do { ((buf1, pos, n), s1) \<leftarrow> getline_loop B buf 0 read_chars s;
                Some (if n = 0 then (False, buf1[pos - 1 := 0]) else (True, buf1[pos := 0]), s1) })"

text \<open>The spin loop counts its 32-bit argument down to 0; it touches no state.\<close>

function pause_for_spins :: "u32 \<Rightarrow> u32" where
  "pause_for_spins pause = (if 0 < pause then pause_for_spins (pause - 1) else pause)"
  by pat_completeness auto
termination
  by (relation "measure unat") (auto simp: unat_minus_one word_gt_0 unat_gt_0)

declare pause_for_spins.simps [simp del]

text \<open>What a line read takes from the input, and when it does not have to wait for more.\<close>

fun line_len :: "nat \<Rightarrow> u8 list \<Rightarrow> nat" where
  "line_len 0 p = 0"
| "line_len (Suc n) [] = 0"
| "line_len (Suc n) (c # p) = (if c = 0x0A then 1 else Suc (line_len n p))"

fun line_ready :: "nat \<Rightarrow> u8 list \<Rightarrow> bool" where
  "line_ready 0 p \<longleftrightarrow> True"
| "line_ready (Suc n) [] \<longleftrightarrow> False"
| "line_ready (Suc n) (c # p) \<longleftrightarrow> c = 0x0A \<or> line_ready n p"

subsection \<open>Printing over a device that meets the contract\<close>

lemma XON_text [simp]: "ctl XON" "XON \<notin> set CRLF"
  by (simp_all add: XON_def ctl_def CRLF_def)

lemma fw_fmtbuf_simps [simp]:
  "fw_ok dinv (s\<lparr>fmtbuf := b\<rparr>) = fw_ok dinv s" "pending inp (s\<lparr>fmtbuf := b\<rparr>) = pending inp s"
  "exposed avail (s\<lparr>fmtbuf := b\<rparr>) = exposed avail s"
  by (simp_all add: fw_ok_def pending_def exposed_def)

text \<open>What the printf wrappers leave in the static buffer: the first 255 bytes, terminated.\<close>

lemma format_buf_spec:
  assumes "length (fmtbuf s) = 256" and "CHR 0x00 \<notin> set f"
  obtains b where "format_buf f args s = (int (length (vformat f args)), s\<lparr>fmtbuf := b\<rparr>)"
    and "length b = 256" and "c_string b = take 255 (vformat f args)"
proof -
  let ?out = "vformat f args"
  let ?b = "take 255 ?out @ 0 # drop (Suc (min (length ?out) 255)) (fmtbuf s)"
  have "?b[255 := 0] = ?b" if "256 \<le> length ?out"
    using that by (simp add: list_update_append)
  then have "format_buf f args s = (int (length ?out), s\<lparr>fmtbuf := ?b\<rparr>)"
    by (simp add: format_buf_def vsnprintf_def Let_def)
  moreover have "length ?b = 256" using assms(1) by simp
  moreover have "0 \<notin> set (take 255 ?out)"
    using vformat_no_nul [OF assms(2)] by (meson in_set_takeD)
  then have "c_string ?b = take 255 ?out" by (rule c_string_no_nul)
  ultimately show thesis by (rule that)
qed

context uart_dev
begin

lemma print_keeps:
  "fw_ok dinv s \<Longrightarrow> \<exists>s'. uart_print B str s = Some (0, s') \<and> keeps s [] (c_string str) s'"
proof (induction str arbitrary: s)
  case Nil
  then show ?case by (simp add: keeps_refl)
next
  case (Cons c str)
  show ?case
  proof (cases "c = 0")
    case True
    with Cons.prems show ?thesis by (simp add: keeps_refl c_string_Cons)
  next
    case False
    obtain s1 where s1: "uart_putchar B c s = Some s1" "keeps s [] [c] s1"
      using putchar_returns [OF Cons.prems] by blast
    moreover have "fw_ok dinv s1" using s1(2) by (simp add: keeps_def)
    then obtain s' where "uart_print B str s1 = Some (0, s')" "keeps s1 [] (c_string str) s'"
      using Cons.IH by blast
    ultimately show ?thesis using False keeps_trans by (fastforce simp: c_string_Cons)
  qed
qed

lemma printme_keeps:
  assumes "fw_ok dinv s"
  shows "\<exists>s'. printme B p s = Some s' \<and> keeps s [] (c_string p @ CRLF) s'"
proof -
  obtain s1 where s1: "uart_print B p s = Some (0, s1)" "keeps s [] (c_string p) s1"
    using print_keeps [OF assms] by blast
  then have "fw_ok dinv s1" by (simp add: keeps_def)
  then obtain s2 where s2: "uart_print B CRLF s1 = Some (0, s2)" "keeps s1 [] (c_string CRLF) s2"
    using print_keeps by blast
  moreover have "c_string CRLF = CRLF" by (simp add: c_string_def CRLF_def)
  ultimately show ?thesis using s1 keeps_trans by (fastforce simp: printme_def)
qed

text \<open>
  The printf wrappers also change the format buffer, so programs that use them are described by
  \<open>io_keeps\<close>: as \<open>keeps\<close>, but the buffer only keeps its size.
\<close>

definition io_ok :: "('d, 'z) fw_scheme \<Rightarrow> bool" where
  "io_ok s \<longleftrightarrow> fw_ok dinv s \<and> length (fmtbuf s) = 256"

definition io_keeps :: "('d, 'z) fw_scheme \<Rightarrow> u8 list \<Rightarrow> u8 list \<Rightarrow> ('d, 'z) fw_scheme \<Rightarrow> bool" where
  "io_keeps s got sent s' \<longleftrightarrow>
     io_ok s' \<and> fw.more s' = fw.more s \<and> tx (dev s') = tx (dev s) @ sent \<and> oth (dev s') = oth (dev s) \<and>
     (exposed avail s \<le> 255 \<and> XON \<notin> set sent \<longrightarrow>
        pending inp s = got @ pending inp s' \<and> exposed avail s = length got + exposed avail s')"

lemma io_keeps_trans:
  "io_keeps s got sent s' \<Longrightarrow> io_keeps s' got' sent' s'' \<Longrightarrow> io_keeps s (got @ got') (sent @ sent') s''"
  by (auto simp: io_keeps_def)

lemma io_keeps_ok: "io_keeps s got sent s' \<Longrightarrow> io_ok s'"
  by (simp add: io_keeps_def)

lemma io_keeps_refl: "io_ok s \<Longrightarrow> io_keeps s [] [] s"
  by (simp add: io_keeps_def)

lemma keeps_io: "io_ok s \<Longrightarrow> keeps s got sent s' \<Longrightarrow> io_keeps s got sent s'"
  by (simp add: keeps_def io_keeps_def io_ok_def same_rest_def)

lemma keeps_fmtbuf_io:
  "keeps (s\<lparr>fmtbuf := b\<rparr>) got sent s' \<Longrightarrow> length b = 256 \<Longrightarrow> io_keeps s got sent s'"
  by (auto simp: keeps_def io_keeps_def io_ok_def same_rest_def)

lemma putchar_io: "io_ok s \<Longrightarrow> \<exists>s'. uart_putchar B c s = Some s' \<and> io_keeps s [] [c] s'"
  using putchar_returns keeps_io by (metis io_ok_def)

lemma printme_io: "io_ok s \<Longrightarrow> \<exists>s'. printme B p s = Some s' \<and> io_keeps s [] (c_string p @ CRLF) s'"
  using printme_keeps keeps_io by (metis io_ok_def)

lemma kprintf_io:
  assumes "io_ok s" and "CHR 0x00 \<notin> set f"
  shows "\<exists>s'. kprintf B f args s = Some (int (length (vformat f args)), s') \<and>
              io_keeps s [] (take 255 (vformat f args)) s'"
proof -
  obtain b where b: "format_buf f args s = (int (length (vformat f args)), s\<lparr>fmtbuf := b\<rparr>)"
    "length b = 256" "c_string b = take 255 (vformat f args)"
    using format_buf_spec assms by (metis io_ok_def)
  have "fw_ok dinv (s\<lparr>fmtbuf := b\<rparr>)" using assms(1) by (simp add: io_ok_def)
  from print_keeps [OF this, of b] show ?thesis
    using keeps_fmtbuf_io [where s = s and b = b] b by (auto simp: kprintf_def)
qed

lemma printmef_io:
  assumes "io_ok s" and "CHR 0x00 \<notin> set f"
  shows "\<exists>s'. printmef B f args s = Some (int (length (vformat f args)), s') \<and>
              io_keeps s [] (take 255 (vformat f args) @ CRLF) s'"
proof -
  obtain b where b: "format_buf f args s = (int (length (vformat f args)), s\<lparr>fmtbuf := b\<rparr>)"
    "length b = 256" "c_string b = take 255 (vformat f args)"
    using format_buf_spec assms by (metis io_ok_def)
  have "fw_ok dinv (s\<lparr>fmtbuf := b\<rparr>)" using assms(1) by (simp add: io_ok_def)
  from printme_keeps [OF this, of b] show ?thesis
    using keeps_fmtbuf_io [where s = s and b = b] b by (auto simp: printmef_def)
qed

text \<open>
  Line input. \<open>line_len n p\<close> is how many bytes of the input \<open>p\<close> a read of at most \<open>n\<close> takes: up to
  and including the first newline.
\<close>

lemma getline_loop_spec:
  assumes "fw_ok dinv s" and "line_ready n (pending inp s)" and "pos + n \<le> length buf"
    and "line_len n (pending inp s) \<le> exposed avail s"
  shows "\<exists>s'. getline_loop B buf pos n s =
           Some ((take pos buf @ take (line_len n (pending inp s)) (pending inp s) @
                    drop (pos + line_len n (pending inp s)) buf,
                  pos + line_len n (pending inp s), n - line_len n (pending inp s)), s') \<and>
         pending inp s' = drop (line_len n (pending inp s)) (pending inp s) \<and>
         exposed avail s = line_len n (pending inp s) + exposed avail s' \<and>
         fw_ok dinv s' \<and> same_rest s s' \<and> tx (dev s') = tx (dev s) \<and> oth (dev s') = oth (dev s)"
  using assms
proof (induction n arbitrary: s pos buf)
  case 0
  then show ?case by simp
next
  case (Suc n)
  obtain c p where p: "pending inp s = c # p"
    using Suc.prems(2) by (cases "pending inp s") auto
  have "0 < exposed avail s" using Suc.prems(4) p by (simp split: if_splits)
  then obtain s1 where s1: "uart_getchar B s = Some (c, s1)" "pending inp s1 = p" "fw_ok dinv s1"
    and ex: "exposed avail s = Suc (exposed avail s1)"
    and rest: "same_rest s s1" "tx (dev s1) = tx (dev s)" "oth (dev s1) = oth (dev s)"
    using getchar_returns [OF Suc.prems(1)] p by auto
  have buf: "take (Suc pos) (buf[pos := c]) = take pos buf @ [c]"
    using Suc.prems(3) by (simp add: take_Suc_conv_app_nth)
  show ?case
  proof (cases "c = 0x0A")
    case True
    with s1 ex rest show ?thesis
      using Suc.prems(3) by (simp add: p upd_conv_take_nth_drop)
  next
    case False
    with Suc.prems p ex have "line_ready n (pending inp s1)" and "Suc pos + n \<le> length (buf[pos := c])"
      and "line_len n (pending inp s1) \<le> exposed avail s1"
      by (simp_all add: s1(2))
    from Suc.IH [OF s1(3) this] obtain s' where s': "getline_loop B (buf[pos := c]) (Suc pos) n s1 =
           Some ((take (Suc pos) (buf[pos := c]) @ take (line_len n p) p @
                    drop (Suc pos + line_len n p) (buf[pos := c]),
                  Suc pos + line_len n p, n - line_len n p), s')"
      "pending inp s' = drop (line_len n p) p" "exposed avail s1 = line_len n p + exposed avail s'" "fw_ok dinv s'" "same_rest s1 s'"
      "tx (dev s') = tx (dev s1)" "oth (dev s') = oth (dev s1)"
      by (auto simp: s1(2))
    with False s1(1) ex rest show ?thesis
      by (auto simp: p buf intro: same_rest_trans simp del: take_Suc_Cons)
        (simp add: buf)
  qed
qed

end


subsection \<open>Properties\<close>

lemma line_len_line: "0x0A \<notin> set l \<Longrightarrow> length l < n \<Longrightarrow> line_len n (l @ 0x0A # r) = Suc (length l)"
proof (induction l arbitrary: n)
  case (Cons a l)
  then show ?case by (cases n) auto
qed (auto simp: gr0_conv_Suc)

lemma line_ready_line: "0x0A \<notin> set l \<Longrightarrow> length l < n \<Longrightarrow> line_ready n (l @ 0x0A # r)"
proof (induction l arbitrary: n)
  case (Cons a l)
  then show ?case by (cases n) auto
qed (auto simp: gr0_conv_Suc)

lemma line_len_full:
  "length l = n \<Longrightarrow> 0x0A \<notin> set (butlast l) \<Longrightarrow> line_len n (l @ r) = n \<and> line_ready n (l @ r)"
  by (induction l arbitrary: n) (auto split: if_splits)

context uart_dev
begin

lemma getline_line:
  assumes "fw_ok dinv s"
    and "pending inp s = line @ 0x0A # rest" and "0x0A \<notin> set line"
    and "Suc (length line) < n" and "n \<le> length buf" and "Suc (length line) \<le> exposed avail s"
  shows "\<exists>s'. uart_getline B buf n s =
                Some ((True, line @ 0x0A # 0 # drop (length line + 2) buf), s') \<and>
              pending inp s' = rest \<and> exposed avail s = Suc (length line) + exposed avail s' \<and>
              fw_ok dinv s' \<and> same_rest s s' \<and> tx (dev s') = tx (dev s) \<and> oth (dev s') = oth (dev s)"
proof -
  let ?k = "length line"
  have ll: "line_len n (pending inp s) = Suc ?k" and lr: "line_ready n (pending inp s)"
    using assms(2-4) line_len_line line_ready_line by simp_all
  obtain s' where s': "getline_loop B buf 0 n s =
      Some ((take (Suc ?k) (pending inp s) @ drop (Suc ?k) buf, Suc ?k, n - Suc ?k), s')"
    and p': "pending inp s' = drop (Suc ?k) (pending inp s)"
    and ex: "exposed avail s = Suc ?k + exposed avail s'"
    and fr: "fw_ok dinv s' \<and> same_rest s s' \<and> tx (dev s') = tx (dev s) \<and> oth (dev s') = oth (dev s)"
    using getline_loop_spec [OF assms(1) lr, of 0 buf] assms(5,6) ll by auto
  have tk: "take (Suc ?k) (pending inp s) = line @ [0x0A]" by (simp add: assms(2))
  have "(line @ [0x0A] @ drop (Suc ?k) buf)[Suc ?k := 0] = line @ 0x0A # 0 # drop (?k + 2) buf"
    using assms(4,5) by (simp add: list_update_append Cons_nth_drop_Suc [symmetric] split: nat.split)
  then show ?thesis
    using s' p' ex fr assms(2,4) tk by (auto simp: uart_getline_def)
qed

lemma getline_long:
  assumes "fw_ok dinv s"
    and "pending inp s = l @ rest" and "0x0A \<notin> set (butlast l)"
    and "length l = n" and "0 < n" and "n \<le> length buf" and "n \<le> exposed avail s"
  shows "\<exists>s'. uart_getline B buf n s = Some ((False, butlast l @ 0 # drop n buf), s') \<and>
              pending inp s' = rest \<and> fw_ok dinv s' \<and> same_rest s s' \<and>
              tx (dev s') = tx (dev s) \<and> oth (dev s') = oth (dev s)"
proof -
  have ll: "line_len n (pending inp s) = n" and lr: "line_ready n (pending inp s)"
    using line_len_full [OF assms(4,3)] by (simp_all add: assms(2))
  obtain s' where s': "getline_loop B buf 0 n s = Some ((l @ drop n buf, n, 0), s')"
    and p': "pending inp s' = rest"
    and fr: "fw_ok dinv s' \<and> same_rest s s' \<and> tx (dev s') = tx (dev s) \<and> oth (dev s') = oth (dev s)"
    using getline_loop_spec [OF assms(1) lr, of 0 buf] assms(2,4,6,7) ll by auto
  have "(l @ drop n buf)[n - 1 := 0] = butlast l @ 0 # drop n buf"
    using assms(4,5) by (cases l rule: rev_cases) (auto simp: list_update_append)
  then show ?thesis using s' p' fr assms(5) by (auto simp: uart_getline_def)
qed

end

text \<open>
  C6: A line of the input that fits the caller's buffer with room for a terminator is returned whole:
  \<open>uart_getline\<close> returns true, the buffer holds the line with its newline and a NUL and is otherwise
  untouched, and exactly the line has been taken from the input.
\<close>

theorem getline_reads_line:
  assumes "uart_dev B dinv inp avail tx room tx_wait rx_wait oth" and "fw_ok dinv s"
    and "pending inp s = line @ 0x0A # rest" and "0x0A \<notin> set line"
    and "Suc (length line) < n" and "n \<le> length buf" and "Suc (length line) \<le> exposed avail s"
  shows "\<exists>s'. uart_getline B buf n s =
                Some ((True, line @ 0x0A # 0 # drop (length line + 2) buf), s') \<and>
              pending inp s' = rest \<and> exposed avail s = Suc (length line) + exposed avail s' \<and>
              fw_ok dinv s' \<and> same_rest s s' \<and> tx (dev s') = tx (dev s) \<and> oth (dev s') = oth (dev s)"
  by (rule uart_dev.getline_line [OF assms])

text \<open>
  A line that does not fit is refused: when the first \<open>n\<close> bytes hold no newline before their last
  byte, \<open>uart_getline\<close> takes all \<open>n\<close>, returns false, and leaves the first \<open>n - 1\<close> of them and a NUL
  in the buffer. This includes a complete line of exactly \<open>n\<close> bytes, whose newline is overwritten.
\<close>

lemma getline_refuses_long_line:
  assumes "uart_dev B dinv inp avail tx room tx_wait rx_wait oth" and "fw_ok dinv s"
    and "pending inp s = l @ rest" and "0x0A \<notin> set (butlast l)"
    and "length l = n" and "0 < n" and "n \<le> length buf" and "n \<le> exposed avail s"
  shows "\<exists>s'. uart_getline B buf n s = Some ((False, butlast l @ 0 # drop n buf), s') \<and>
              pending inp s' = rest \<and> fw_ok dinv s' \<and> same_rest s s' \<and>
              tx (dev s') = tx (dev s) \<and> oth (dev s') = oth (dev s)"
  by (rule uart_dev.getline_long [OF assms])

lemma printf_text:
  assumes "uart_dev B dinv inp avail tx room tx_wait rx_wait oth" and "fw_ok dinv s"
    and "length (fmtbuf s) = 256" and "CHR 0x00 \<notin> set f"
  shows "\<exists>s'. kprintf B f args s = Some (int (length (vformat f args)), s') \<and>
              tx (dev s') = tx (dev s) @ take 255 (vformat f args)"
proof -
  have "uart_dev.io_ok dinv s" using assms by (simp add: uart_dev.io_ok_def)
  from uart_dev.kprintf_io [OF assms(1) this assms(4), of args] show ?thesis
    by (auto simp: uart_dev.io_keeps_def [OF assms(1)])
qed

text \<open>
  C32: The printf wrappers return, report the length of the whole formatted text even when they cut
  it, and send exactly its first 255 bytes (\<open>printmef\<close> adds CR LF); the shared buffer keeps its 256
  bytes, so no formatted text overruns it.
\<close>

theorem printf_output:
  assumes "uart_dev B dinv inp avail tx room tx_wait rx_wait oth" and "fw_ok dinv s"
    and "length (fmtbuf s) = 256" and "CHR 0x00 \<notin> set f"
  shows "(\<exists>s'. kprintf B f args s = Some (int (length (vformat f args)), s') \<and>
               tx (dev s') = tx (dev s) @ take 255 (vformat f args) \<and>
               length (fmtbuf s') = 256 \<and> fw_ok dinv s' \<and> oth (dev s') = oth (dev s)) \<and>
         (\<exists>s'. printmef B f args s = Some (int (length (vformat f args)), s') \<and>
               tx (dev s') = tx (dev s) @ take 255 (vformat f args) @ CRLF \<and>
               length (fmtbuf s') = 256 \<and> fw_ok dinv s' \<and> oth (dev s') = oth (dev s))"
proof -
  note d = uart_dev.io_ok_def [OF assms(1)] uart_dev.io_keeps_def [OF assms(1)]
  from assms have "uart_dev.io_ok dinv s" by (simp add: d)
  from uart_dev.kprintf_io [OF assms(1) this assms(4), of args]
    uart_dev.printmef_io [OF assms(1) this assms(4), of args]
  show ?thesis unfolding d by blast
qed

text \<open>
  An address printed with \<open>%08x\<close> goes out as exactly eight digits from which the whole 32-bit
  word can be read back, so the loader's address output is lossless.
\<close>

lemma kprintf_hex_roundtrip:
  assumes "uart_dev B dinv inp avail tx room tx_wait rx_wait oth" and "fw_ok dinv s"
    and "length (fmtbuf s) = 256"
  shows "\<exists>s' out. kprintf B ''%08x'' [a] s = Some (8, s') \<and> tx (dev s') = tx (dev s) @ out \<and>
                 length out = 8 \<and> hex_value out = unat a"
proof -
  have "CHR 0x00 \<notin> set ''%08x''" by simp
  from printf_text [OF assms this, of "[a]"] show ?thesis using hex08 [of a] by auto
qed

text \<open>\<open>pause_for_spins\<close> ends, for every 32-bit count, when the count has reached 0.\<close>

theorem pause_for_spins_ends: "pause_for_spins p = 0"
proof (induction p rule: pause_for_spins.induct)
  case (1 p)
  then show ?case by (subst pause_for_spins.simps) (simp add: word_gt_0)
qed


subsection \<open>Witnesses on the peripheral model\<close>

text \<open>
  The hypotheses of the properties hold together: the peripheral model meets the contract and a
  freshly reset firmware state is good. The input of each witness is a concrete byte sequence.
\<close>

theorem polled_stream_lossless_witness:
  "\<exists>got sent s'. run_ops (wb_uart_bus 0) [Op_CanWrite, Op_GetAsync, Op_PutAsync 42, Op_GetAsync]
        (fw_reset (wbu_reset [65, 66])) = ((got, sent), s') \<and>
      [65, 66] = got @ pending wbu_inp s' \<and> wbu_tx (dev s') = sent"
proof -
  let ?ops = "[Op_CanWrite, Op_GetAsync, Op_PutAsync 42, Op_GetAsync]"
  let ?s = "fw_reset (wbu_reset [65, 66])"
  obtain got sent s' where run: "run_ops (wb_uart_bus 0) ?ops ?s = ((got, sent), s')"
    by (metis prod.collapse)
  have e: "exposed wbu_avail ?s \<le> 255" by (simp add: fw_reset_ok)
  have "Op_PutAsync XON \<notin> set ?ops" by (simp add: XON_def)
  from polled_stream_lossless [OF wbu.uart_dev_axioms fw_reset_ok(1) e this run]
  have "[65, 66] = got @ pending wbu_inp s' \<and> wbu_tx (dev s') = sent" by (simp add: fw_reset_ok)
  with run show ?thesis by blast
qed

theorem putchar_sends_witness:
  "\<exists>s'. uart_putchar (wb_uart_bus 0) 42 (fw_reset (wbu_reset [65])) = Some s' \<and>
        wbu_tx (dev s') = [42] \<and> pending wbu_inp s' = [65]"
  using putchar_sends [OF wbu.uart_dev_axioms fw_reset_ok(1), of 0 42 "[65]"]
  by (auto simp: fw_reset_ok XON_def)

lemma getchar_receives_witness:
  "\<exists>s'. uart_getchar (wb_uart_bus 0) (fw_reset (wbu_reset [65, 66])) = Some (65, s') \<and>
        pending wbu_inp s' = [66]"
  using getchar_receives [OF wbu.uart_dev_axioms fw_reset_ok(1), of "[65, 66]" 65 "[66]" 0]
  by (auto simp: fw_reset_ok)

lemma CanWrite_overrun_loses_ring_witness:
  "let u = \<lparr>ub_buf = replicate 256 7, ub_rd = 1, ub_wr = 0\<rparr>;
       p = (wbu_reset [])\<lparr>rd_fifo := [65]\<rparr>;
       s = (fw_reset p)\<lparr>ubuf := u\<rparr>
   in length (saved (ubuf s)) = 255 \<and> saved (ubuf (snd (UartBuf_CanWrite (wb_uart_bus 0) s))) = []"
proof -
  let ?u = "\<lparr>ub_buf = replicate 256 7, ub_rd = 1, ub_wr = 0\<rparr>"
  let ?p = "(wbu_reset [])\<lparr>rd_fifo := [65]\<rparr>"
  let ?s = "(fw_reset ?p)\<lparr>ubuf := ?u\<rparr>"
  have u: "ub_ok (ubuf ?s)" and l: "length (saved (ubuf ?s)) = 255"
    by (simp_all add: ub_ok_def saved_def ring_used_def)
  obtain v d where r: "rd32 (wb_uart_bus 0) UART_ADDRESS (dev ?s) = (v, d)" by fastforce
  then have "v = wb_uart_rdt 0 ?p"
    by (simp add: wb_uart_bus_def wb_uart_read_def fw_reset_def)
  then have "\<not> uart_is_empty v" by (simp add: wb_uart_rdt_empty)
  from CanWrite_overrun_loses_ring [OF u l r this] l show ?thesis by (simp add: Let_def)
qed

theorem getline_reads_line_witness:
  "\<exists>s'. uart_getline (wb_uart_bus 0) [7, 7, 7, 7, 7, 7, 7, 7] 5 (fw_reset (wbu_reset [97, 98, 10, 3])) =
          Some ((True, [97, 98, 10, 0, 7, 7, 7, 7]), s') \<and> pending wbu_inp s' = [3]"
  using getline_reads_line [OF wbu.uart_dev_axioms fw_reset_ok(1), of "[97, 98, 10, 3]" "[97, 98]" "[3]"
      5 "[7, 7, 7, 7, 7, 7, 7, 7]" 0]
  by (auto simp: fw_reset_ok)

lemma getline_refuses_long_line_witness:
  "\<exists>s'. uart_getline (wb_uart_bus 0) [7, 7, 7, 7] 3 (fw_reset (wbu_reset [97, 98, 10, 3])) =
          Some ((False, [97, 98, 0, 7]), s') \<and> pending wbu_inp s' = [3]"
  using getline_refuses_long_line [OF wbu.uart_dev_axioms fw_reset_ok(1), of "[97, 98, 10, 3]"
      "[97, 98, 10]" "[3]" 3 "[7, 7, 7, 7]" 0]
  by (auto simp: fw_reset_ok)

theorem printf_output_witness:
  "\<exists>s'. printmef (wb_uart_bus 0) ''buf: %d'' [256] (fw_reset (wbu_reset [])) = Some (8, s') \<and>
        wbu_tx (dev s') = cstr ''buf: 256'' @ CRLF"
proof -
  have "vformat ''buf: %d'' [256] = cstr ''buf: 256''"
    by (simp add: skip_zero_flag_def is_digit_def width_value_def conv_text_def pad_field_def
        nat_digits.simps digit_char_def)
  with printf_output [OF wbu.uart_dev_axioms fw_reset_ok(1), of "[]" "''buf: %d''" 0 "[256]"]
  show ?thesis by (auto simp: fw_reset_ok)
qed

lemma kprintf_hex_roundtrip_witness:
  "\<exists>s' out. kprintf (wb_uart_bus 0) ''%08x'' [0x80000000] (fw_reset (wbu_reset [])) = Some (8, s') \<and>
            wbu_tx (dev s') = out \<and> length out = 8 \<and> hex_value out = 0x80000000"
  using kprintf_hex_roundtrip [OF wbu.uart_dev_axioms fw_reset_ok(1), of "[]" 0 "0x80000000"]
  by (auto simp: fw_reset_ok)

end
