(* ===== verification/Perinput.thy ===== *)
theory Perinput
  imports Bus
begin

text \<open>
  \<open>bin/muntjac/software/perinput_bits.h\<close>, through which the muntjac program reads debug bits of the
  memory bus, and the peripheral behind it: the multiplexer of \<open>ip/wb/perinput.vhdl\<close> and the address
  decoder \<open>ip/wb/mmreg_decoder.vhdl\<close> it uses.
\<close>

subsection \<open>The header\<close>

definition perinput_BASE_ADDRESS :: u32 where
  "perinput_BASE_ADDRESS = 0x40000050"

definition REG_OFFSET :: "nat \<Rightarrow> u32" where
  "REG_OFFSET k = of_nat (4 * k)"

definition MEM_A_VALID_REG_OFFSET :: u32 where
  "MEM_A_VALID_REG_OFFSET = REG_OFFSET 4"

definition MEM_A_VALID_MASK :: u32 where
  "MEM_A_VALID_MASK = push_bit 15 1"

definition MEM_E_O_REG_OFFSET :: u32 where
  "MEM_E_O_REG_OFFSET = REG_OFFSET 8"

definition MEM_E_O_MASK :: u32 where
  "MEM_E_O_MASK = push_bit 23 1"

definition perinput_read_reg :: "('d, 'b) bus_scheme \<Rightarrow> u32 \<Rightarrow> 'd \<Rightarrow> u32 \<times> 'd" where
  "perinput_read_reg B offset d = rd32 B (perinput_BASE_ADDRESS + offset) d"

definition read_mem_a_valid :: "('d, 'b) bus_scheme \<Rightarrow> 'd \<Rightarrow> u8 \<times> 'd" where
  "read_mem_a_valid B d =
     (case perinput_read_reg B MEM_A_VALID_REG_OFFSET d of
        (v, d1) \<Rightarrow> (ucast (drop_bit 15 (v AND MEM_A_VALID_MASK)), d1))"

definition read_mem_e_o :: "('d, 'b) bus_scheme \<Rightarrow> 'd \<Rightarrow> u8 \<times> 'd" where
  "read_mem_e_o B d =
     (case perinput_read_reg B MEM_E_O_REG_OFFSET d of
        (v, d1) \<Rightarrow> (ucast (drop_bit 23 (v AND MEM_E_O_MASK)), d1))"

subsection \<open>The peripheral\<close>

text \<open>
  The register at \<open>index\<close>: 32 of the \<open>num_bits\<close> input bits, 0 beyond the last.
\<close>

definition perinput_num_regs :: "nat \<Rightarrow> nat" where
  "perinput_num_regs num_bits = (num_bits + 31) div 32"

definition calc_reg_bit_count :: "nat \<Rightarrow> nat" where
  "calc_reg_bit_count n =
     (if n \<le> 1 then 1 else if n \<le> 2 then 1 else if n \<le> 4 then 2 else if n \<le> 8 then 3
      else if n \<le> 16 then 4 else if n \<le> 32 then 5 else 6)"

definition perinput_mux :: "nat \<Rightarrow> (nat \<Rightarrow> bool) \<Rightarrow> nat \<Rightarrow> u32" where
  "perinput_mux num_bits perin index =
     (if index < perinput_num_regs num_bits
      then horner_sum of_bool 2 (map (\<lambda>b. 32 * index + b < num_bits \<and> perin (32 * index + b)) [0..<32])
      else 0)"

text \<open>
  The decoder compares the address, with the bits of the register number masked out, to the base
  address; \<open>None\<close> is a bus cycle that nobody acknowledges.
\<close>

definition mmreg_decode :: "nat \<Rightarrow> u32 \<Rightarrow> u32 \<Rightarrow> nat option" where
  "mmreg_decode reg_bit_count base_address adr =
     (if adr AND NOT (mask (reg_bit_count + 2)) = base_address
      then Some (unat (drop_bit 2 (adr AND mask (reg_bit_count + 2)))) else None)"

definition perinput_access :: "u32 \<Rightarrow> nat \<Rightarrow> (nat \<Rightarrow> bool) \<Rightarrow> u32 \<Rightarrow> u32 option" where
  "perinput_access base_address num_bits perin adr =
     map_option (perinput_mux num_bits perin)
       (mmreg_decode (calc_reg_bit_count (perinput_num_regs num_bits)) base_address adr)"

lemma bit_perinput_mux:
  "bit (perinput_mux num_bits perin k) b \<longleftrightarrow>
     b < 32 \<and> k < perinput_num_regs num_bits \<and> 32 * k + b < num_bits \<and> perin (32 * k + b)"
  by (auto simp: perinput_mux_def bit_horner_sum_bit_word_iff)

lemma masked_bit:
  fixes v :: u32
  assumes "n < 32"
  shows "(ucast (drop_bit n (v AND push_bit n 1)) :: u8) = of_bool (bit v n)"
  by (rule bit_word_eqI) (use assms in \<open>auto simp: bit_simps intro!: gr0I\<close>)

subsection \<open>Properties\<close>

text \<open>
  The header picks the bits it documents: on any bus on which the nine registers from
  \<open>0x40000050\<close> on show the 281 debug bits the way the peripheral lays them out, \<open>read_mem_a_valid\<close> is
  bit 143 and \<open>read_mem_e_o\<close> is bit 279, each as 0 or 1.
\<close>

theorem perinput_bits:
  assumes "\<forall>k < 9. fst (rd32 B (0x40000050 + 4 * of_nat k) d) = perinput_mux 281 perin k"
  shows "fst (read_mem_a_valid B d) = of_bool (perin 143) \<and> fst (read_mem_e_o B d) = of_bool (perin 279)"
proof -
  have "fst (rd32 B 0x40000060 d) = perinput_mux 281 perin 4" using assms by (auto dest: spec [of _ 4])
  moreover have "fst (rd32 B 0x40000070 d) = perinput_mux 281 perin 8" using assms by (auto dest: spec [of _ 8])
  moreover have "bit (perinput_mux 281 perin 4) 15 = perin 143" "bit (perinput_mux 281 perin 8) 23 = perin 279"
    by (simp_all add: bit_perinput_mux perinput_num_regs_def)
  moreover note masked_bit [of 15 "perinput_mux 281 perin 4"] masked_bit [of 23 "perinput_mux 281 perin 8"]
  ultimately show ?thesis
    by (simp add: read_mem_a_valid_def read_mem_e_o_def perinput_read_reg_def perinput_BASE_ADDRESS_def
        MEM_A_VALID_REG_OFFSET_def MEM_E_O_REG_OFFSET_def REG_OFFSET_def MEM_A_VALID_MASK_def MEM_E_O_MASK_def split_beta)
qed

text \<open>
  The peripheral answers nothing at the base address that the header and the muntjac board give it.
  With 281 bits it has a window of 64 bytes, and its decoder compares the address without its low six
  bits to the base; the base \<open>0x40000050\<close> is not a multiple of 64, so no address at all is decoded. At a
  multiple of 64 every register would be answered.
\<close>

lemma perinput_never_answers:
  "perinput_access perinput_BASE_ADDRESS 281 perin adr = None \<and>
   perinput_access (64 * of_nat b) 281 perin (64 * of_nat b + 4 * of_nat (k mod 9)) =
     Some (perinput_mux 281 perin (k mod 9))"
proof
  have n: "calc_reg_bit_count (perinput_num_regs 281) = 4"
    by (simp add: calc_reg_bit_count_def perinput_num_regs_def)
  have "bit (0x40000050 :: u32) 4" by simp
  moreover have "\<not> bit (adr AND NOT (mask 6)) 4" by (simp add: bit_simps)
  ultimately have "adr AND NOT (mask 6) \<noteq> 0x40000050" by metis
  then show "perinput_access perinput_BASE_ADDRESS 281 perin adr = None"
    by (simp add: perinput_access_def mmreg_decode_def n perinput_BASE_ADDRESS_def)
  let ?k = "k mod 9"
  have k: "?k < 16" by (rule order_less_trans [of _ 9]) simp_all
  have p: "(64 * of_nat b :: u32) = push_bit 6 (of_nat b)" by (simp add: push_bit_eq_mult)
  have b: "i < 6" if "bit (4 * of_nat ?k :: u32) i" for i
  proof -
    have "bit (of_nat (4 * ?k) :: u32) i" using that by simp
    then have "bit (4 * ?k) i" by (simp add: bit_of_nat_iff del: of_nat_mult of_nat_mod)
    then have "2 ^ i \<le> 4 * ?k" by (rule contrapos_pp) (simp add: bit_iff_odd)
    with k have "(2 :: nat) ^ i < 2 ^ 6" by simp
    then show ?thesis by (simp only: power_strict_increasing_iff)
  qed
  have d: "64 * of_nat b + 4 * of_nat ?k = push_bit 6 (of_nat b) OR (4 * of_nat ?k :: u32)"
    unfolding p by (rule disjunctive_add) (auto simp: bit_simps dest: b)
  have "(64 * of_nat b + 4 * of_nat ?k :: u32) AND NOT (mask 6) = 64 * of_nat b"
    unfolding d unfolding p by (rule bit_word_eqI) (auto simp: bit_simps dest: b)
  moreover have "(64 * of_nat b + 4 * of_nat ?k :: u32) AND mask 6 = 4 * of_nat ?k"
    unfolding d by (rule bit_word_eqI) (auto simp: bit_simps dest: b)
  moreover have "unat (drop_bit 2 (4 * of_nat ?k :: u32)) = ?k"
    using k by (simp add: unat_drop_bit_eq drop_bit_eq_div unat_word_ariths unat_of_nat)
  ultimately show "perinput_access (64 * of_nat b) 281 perin (64 * of_nat b + 4 * of_nat ?k) =
      Some (perinput_mux 281 perin ?k)"
    by (simp add: perinput_access_def mmreg_decode_def n)
qed

subsection \<open>Witness\<close>

text \<open>A bus on which the peripheral does answer at the base of the header.\<close>

definition perinput_bus :: "(nat \<Rightarrow> bool) bus" where
  "perinput_bus = \<lparr>rd32 = (\<lambda>a p. (perinput_mux 281 p (unat (drop_bit 2 (a - 0x40000050))), p)), wr32 = (\<lambda>a v p. p)\<rparr>"

theorem perinput_bits_witness:
  "fst (read_mem_a_valid perinput_bus (\<lambda>n. n = 143)) = 1 \<and> fst (read_mem_e_o perinput_bus (\<lambda>n. n = 143)) = 0"
proof -
  have "unat (drop_bit 2 (4 * of_nat k :: u32)) = k" if "k < 9" for k
    using that by (simp add: unat_drop_bit_eq drop_bit_eq_div unat_word_ariths unat_of_nat)
  then have "\<forall>k < 9. fst (rd32 perinput_bus (0x40000050 + 4 * of_nat k) (\<lambda>n. n = 143)) = perinput_mux 281 (\<lambda>n. n = 143) k"
    by (simp add: perinput_bus_def)
  from perinput_bits [OF this] show ?thesis by simp
qed

end
