(* ===== verification/IrqHw.thy ===== *)
theory IrqHw
  imports Perinput
begin

text \<open>
  The interrupt hardware, clock cycle by clock cycle: the register decoder that every small peripheral
  uses (\<open>ip/wb/mmreg_decoder.vhdl\<close>), the timer (\<open>ip/wb/timer.vhdl\<close>), the interrupt controller
  (\<open>ip/wb/pic.vhdl\<close>) and their connection on a board. Each process \<open>comb\<close> is a function from the
  registers and the inputs to the registers after the next clock edge. The theorems give the exact
  time at which a timer interrupt is pending, and what a driver that reads and then clears the
  pending interrupts loses.
\<close>

subsection \<open>The register decoder\<close>

record wb_host =
  wb_adr :: u32
  wb_dat :: u32
  wb_sel :: "4 word"
  wb_we :: bool
  wb_cyc :: bool

record mmreg =
  mm_wait :: bool
  mm_data :: u32
  mm_index :: nat
  mm_write :: bool
  mm_ack :: bool

text \<open>The don't-care value of the data register is 0 here; nobody reads it without \<open>mm_write\<close>.\<close>

definition mmreg_zero :: mmreg where
  "mmreg_zero = \<lparr>mm_wait = False, mm_data = 0, mm_index = 0, mm_write = False, mm_ack = False\<rparr>"

definition mmreg_next :: "nat \<Rightarrow> u32 \<Rightarrow> bool \<Rightarrow> wb_host \<Rightarrow> mmreg \<Rightarrow> mmreg" where
  "mmreg_next reg_bit_count base_address reset wbi r =
     (if reset \<or> mm_wait r then mmreg_zero
      else case mmreg_decode reg_bit_count base_address (wb_adr wbi) of
             None \<Rightarrow> r
           | Some i \<Rightarrow> if wb_cyc wbi
                       then r\<lparr>mm_wait := True, mm_data := wb_dat wbi, mm_index := i,
                              mm_write := (wb_we wbi \<or> mm_write r), mm_ack := True\<rparr>
                       else r)"

subsection \<open>The timer\<close>

record timer_reg =
  tr_irq :: bool
  tr_count :: u32

definition timer_reset :: "nat \<Rightarrow> timer_reg" where
  "timer_reset max_count = \<lparr>tr_irq = False, tr_count = of_nat max_count\<rparr>"

definition timer_next :: "nat \<Rightarrow> bool \<Rightarrow> bool \<Rightarrow> nat \<Rightarrow> u32 \<Rightarrow> timer_reg \<Rightarrow> timer_reg" where
  "timer_next max_count reset wr index rego r =
     (let v = \<lparr>tr_irq = (tr_count r = 0), tr_count = tr_count r - 1\<rparr>;
          v1 = (if wr \<and> index = 0 then v\<lparr>tr_irq := bit rego 0\<rparr>
                else if wr \<and> index = 1 then v\<lparr>tr_count := rego\<rparr> else v)
      in if reset then timer_reset max_count else v1)"

definition timer_rdt :: "nat \<Rightarrow> timer_reg \<Rightarrow> u32" where
  "timer_rdt index r = (if index = 0 then of_bool (tr_irq r) else if index = 1 then tr_count r else 0)"

definition timer_cycle :: "u32 \<Rightarrow> nat \<Rightarrow> bool \<Rightarrow> wb_host \<Rightarrow> mmreg \<times> timer_reg \<Rightarrow> mmreg \<times> timer_reg" where
  "timer_cycle base_address max_count reset wbi s =
     (case s of (m, r) \<Rightarrow>
        (mmreg_next 1 base_address reset wbi m,
         timer_next max_count reset (mm_write m) (mm_index m) (mm_data m) r))"

subsection \<open>The interrupt controller\<close>

text \<open>With \<open>n\<close> interrupt lines; the lines \<open>irqi\<close> and the registers are words whose low \<open>n\<close> bits count.\<close>

record pic_reg =
  pr_mask :: u32
  pr_irqs :: u32

definition pic_reset :: pic_reg where
  "pic_reset = \<lparr>pr_mask = 0, pr_irqs = 0\<rparr>"

definition pic_next :: "nat \<Rightarrow> bool \<Rightarrow> u32 \<Rightarrow> bool \<Rightarrow> nat \<Rightarrow> u32 \<Rightarrow> pic_reg \<Rightarrow> pic_reg" where
  "pic_next n reset irqi wr index rego r =
     (let v = r\<lparr>pr_irqs := pr_irqs r OR (pr_mask r AND take_bit n irqi)\<rparr>;
          v1 = (if wr \<and> index = 0 then v\<lparr>pr_mask := take_bit n rego\<rparr>
                else if wr \<and> index = 1 then v\<lparr>pr_irqs := take_bit n rego\<rparr> else v)
      in if reset then pic_reset else v1)"

definition pic_rdt :: "nat \<Rightarrow> pic_reg \<Rightarrow> u32" where
  "pic_rdt index r = (if index = 0 then pr_mask r else if index = 1 then pr_irqs r else 0)"

definition pic_irqo :: "pic_reg \<Rightarrow> bool" where
  "pic_irqo r \<longleftrightarrow> pr_irqs r \<noteq> 0"

definition pic_cycle :: "nat \<Rightarrow> u32 \<Rightarrow> bool \<Rightarrow> wb_host \<Rightarrow> u32 \<Rightarrow> mmreg \<times> pic_reg \<Rightarrow> mmreg \<times> pic_reg" where
  "pic_cycle n base_address reset wbi irqi s =
     (case s of (m, r) \<Rightarrow>
        (mmreg_next 1 base_address reset wbi m,
         pic_next n reset irqi (mm_write m) (mm_index m) (mm_data m) r))"

subsection \<open>The board\<close>

text \<open>Timer and controller on one bus; interrupt line 0 is the timer, line 1 the UART.\<close>

type_synonym irq_board = "(mmreg \<times> timer_reg) \<times> (mmreg \<times> pic_reg)"

definition irq_board_cycle :: "nat \<Rightarrow> bool \<Rightarrow> wb_host \<Rightarrow> bool \<Rightarrow> irq_board \<Rightarrow> irq_board" where
  "irq_board_cycle max_count reset wbi uart_irq s =
     (case s of (t, p) \<Rightarrow>
        (timer_cycle 0x40000020 max_count reset wbi t,
         pic_cycle 2 0x40000030 reset wbi (of_bool (tr_irq (snd t)) OR push_bit 1 (of_bool uart_irq)) p))"

text \<open>Cycles without traffic on the bus, one for each value of the UART's line.\<close>

definition wb_quiet :: wb_host where
  "wb_quiet = \<lparr>wb_adr = 0, wb_dat = 0, wb_sel = 15, wb_we = False, wb_cyc = False\<rparr>"

definition irq_board_quiet :: "nat \<Rightarrow> bool list \<Rightarrow> irq_board \<Rightarrow> irq_board" where
  "irq_board_quiet max_count us s = foldl (\<lambda>s u. irq_board_cycle max_count False wb_quiet u s) s us"

text \<open>An access of the controller: the host holds its signals for two cycles, the second is the acknowledged one.\<close>

definition wb_read :: "u32 \<Rightarrow> wb_host" where
  "wb_read a = \<lparr>wb_adr = a, wb_dat = 0, wb_sel = 15, wb_we = False, wb_cyc = True\<rparr>"

definition wb_write :: "u32 \<Rightarrow> u32 \<Rightarrow> wb_host" where
  "wb_write a v = \<lparr>wb_adr = a, wb_dat = v, wb_sel = 15, wb_we = True, wb_cyc = True\<rparr>"

definition pic_bus_read :: "nat \<Rightarrow> u32 \<Rightarrow> u32 \<Rightarrow> u32 \<Rightarrow> u32 \<Rightarrow> mmreg \<times> pic_reg \<Rightarrow> u32 option \<times> (mmreg \<times> pic_reg)" where
  "pic_bus_read n base a q0 q1 s =
     (let s1 = pic_cycle n base False (wb_read a) q0 s;
          s2 = pic_cycle n base False (wb_read a) q1 s1
      in (if mm_ack (fst s1) then Some (pic_rdt (mm_index (fst s1)) (snd s1)) else None, s2))"

definition pic_bus_write :: "nat \<Rightarrow> u32 \<Rightarrow> u32 \<Rightarrow> u32 \<Rightarrow> u32 \<Rightarrow> u32 \<Rightarrow> mmreg \<times> pic_reg \<Rightarrow> mmreg \<times> pic_reg" where
  "pic_bus_write n base a v q0 q1 s =
     pic_cycle n base False (wb_write a v) q1 (pic_cycle n base False (wb_write a v) q0 s)"

definition pic_quiet :: "nat \<Rightarrow> u32 \<Rightarrow> u32 list \<Rightarrow> mmreg \<times> pic_reg \<Rightarrow> mmreg \<times> pic_reg" where
  "pic_quiet n base qs s = foldl (\<lambda>s q. pic_cycle n base False wb_quiet q s) s qs"

subsection \<open>Decoding\<close>

lemma mmreg_decode_regs:
  assumes "base AND mask 3 = 0"
  shows "mmreg_decode 1 base base = Some 0" and "mmreg_decode 1 base (base + 4) = Some 1"
proof -
  have m: "bit (mask 3 :: u32) n \<longleftrightarrow> n < 3" for n by (auto simp: bit_mask_iff)
  have z: "\<not> bit base n" if "n < 3" for n
  proof -
    have "\<not> bit (base AND mask 3) n" by (simp add: assms)
    then show ?thesis using that by (simp add: bit_and_iff m)
  qed
  have four: "bit (4 :: u32) n \<longleftrightarrow> n = 2" for n
  proof -
    have "(4 :: u32) = 2 ^ 2" by simp
    then show ?thesis by (simp only: bit_exp_iff) auto
  qed
  have b: "base AND NOT (mask 3) = base" by (rule bit_eqI) (auto simp: bit_and_iff bit_not_iff m dest: z bit_imp_le_length)
  have "\<not> bit base n \<or> \<not> bit (4 :: u32) n" for n
    unfolding four using z [of 2] by auto
  then have s: "base + 4 = base OR 4" by (rule disjunctive_add)
  have b4: "(base OR 4) AND NOT (mask 3) = base"
  proof (rule bit_eqI)
    fix n
    show "bit ((base OR 4) AND NOT (mask 3)) n = bit base n"
      unfolding bit_and_iff bit_or_iff bit_not_iff m four using z [of n] by (auto dest: bit_imp_le_length)
  qed
  have b5: "(base OR 4) AND mask 3 = 4"
  proof (rule bit_eqI)
    fix n
    show "bit ((base OR 4) AND mask 3) n = bit (4 :: u32) n"
      unfolding bit_and_iff bit_or_iff m four using z [of n] by auto
  qed
  have three: "(1 :: nat) + 2 = 3" by simp
  show "mmreg_decode 1 base base = Some 0"
    unfolding mmreg_decode_def three b assms by simp
  show "mmreg_decode 1 base (base + 4) = Some 1"
    unfolding mmreg_decode_def three s b4 b5 by simp
qed

lemma mmreg_zero_fields [simp]:
  "mm_wait mmreg_zero = False" "mm_data mmreg_zero = 0" "mm_index mmreg_zero = 0" "mm_write mmreg_zero = False"
  "mm_ack mmreg_zero = False"
  by (simp_all add: mmreg_zero_def)

lemma mmreg_quiet: "mmreg_next k base False wb_quiet mmreg_zero = mmreg_zero"
  by (simp add: mmreg_next_def wb_quiet_def split: option.split)

lemma mmreg_access:
  assumes "mmreg_decode k base (wb_adr h) = Some i" and "wb_cyc h"
  shows "mmreg_next k base False h mmreg_zero =
           \<lparr>mm_wait = True, mm_data = wb_dat h, mm_index = i, mm_write = wb_we h, mm_ack = True\<rparr>"
  using assms by (simp add: mmreg_next_def mmreg_zero_def)

lemma mmreg_back [simp]: "mm_wait m \<Longrightarrow> mmreg_next k base False h m = mmreg_zero"
  by (simp add: mmreg_next_def)

subsection \<open>The controller on the bus\<close>

text \<open>The lines that are let through into the pending interrupts.\<close>

definition latched :: "nat \<Rightarrow> u32 \<Rightarrow> pic_reg \<Rightarrow> pic_reg" where
  "latched n q r = r\<lparr>pr_irqs := pr_irqs r OR (pr_mask r AND take_bit n q)\<rparr>"

lemma pic_quiet_step: "pic_cycle n base False wb_quiet q (mmreg_zero, r) = (mmreg_zero, latched n q r)"
  by (simp add: pic_cycle_def mmreg_quiet pic_next_def latched_def)

lemma pic_quiet_fold:
  "pic_quiet n base qs (mmreg_zero, r) = (mmreg_zero, foldl (\<lambda>r q. latched n q r) r qs)"
  by (induction qs arbitrary: r) (simp_all add: pic_quiet_def pic_quiet_step)

lemma latched_fold: "foldl (\<lambda>r q. latched n q r) r qs = latched n (foldr (OR) qs 0) r"
proof (induction qs arbitrary: r)
  case Nil
  then show ?case by (simp add: latched_def)
next
  case (Cons q qs)
  have "latched n x (latched n q r) = latched n (q OR x) r" for x
    by (simp add: latched_def take_bit_or bit.conj_disj_distrib or.assoc)
  with Cons show ?case by simp
qed

lemma latched_latched: "latched n q' (latched n q r) = latched n (q OR q') r"
  by (simp add: latched_def take_bit_or bit.conj_disj_distrib or.assoc)

lemma pic_bus_read_spec:
  assumes "mmreg_decode 1 base a = Some i"
  shows "pic_bus_read n base a q0 q1 (mmreg_zero, r) =
           (Some (pic_rdt i (latched n q0 r)), (mmreg_zero, latched n (q0 OR q1) r))"
proof -
  have a: "mmreg_decode 1 base (wb_adr (wb_read a)) = Some i" "wb_cyc (wb_read a)" "\<not> wb_we (wb_read a)"
    using assms by (simp_all add: wb_read_def)
  show ?thesis
    by (simp add: pic_bus_read_def pic_cycle_def mmreg_access [OF a(1,2), unfolded One_nat_def] Let_def a(3) pic_next_def latched_latched
        flip: latched_def)
qed

lemma pic_bus_write_spec:
  assumes "mmreg_decode 1 base a = Some i"
  shows "pic_bus_write n base a v q0 q1 (mmreg_zero, r) =
           (mmreg_zero, if i = 0 then (latched n (q0 OR q1) r)\<lparr>pr_mask := take_bit n v\<rparr>
                        else if i = 1 then r\<lparr>pr_irqs := take_bit n v\<rparr> else latched n (q0 OR q1) r)"
proof -
  have a: "mmreg_decode 1 base (wb_adr (wb_write a v)) = Some i" "wb_cyc (wb_write a v)" "wb_we (wb_write a v)"
    "wb_dat (wb_write a v) = v"
    using assms by (simp_all add: wb_write_def)
  have l: "latched n q (latched n q0 r) = latched n (q0 OR q) r" for q by (rule latched_latched)
  show ?thesis
    by (simp add: pic_bus_write_def pic_cycle_def mmreg_access [OF a(1,2), unfolded One_nat_def] Let_def a(3,4) pic_next_def l flip: latched_def)
      (simp add: latched_def)
qed


subsection \<open>Counting down\<close>

lemma timer_quiet_step:
  "timer_cycle base mx False wb_quiet (mmreg_zero, r) = (mmreg_zero, \<lparr>tr_irq = (tr_count r = 0), tr_count = tr_count r - 1\<rparr>)"
  by (simp add: timer_cycle_def mmreg_quiet timer_next_def)

text \<open>The timer and the pending timer interrupt after \<open>k\<close> cycles without traffic.\<close>

lemma irq_board_quiet_step:
  "irq_board_cycle mx False wb_quiet u ((mmreg_zero, t), (mmreg_zero, p)) =
     ((mmreg_zero, \<lparr>tr_irq = (tr_count t = 0), tr_count = tr_count t - 1\<rparr>),
      (mmreg_zero, latched 2 (of_bool (tr_irq t) OR push_bit 1 (of_bool u)) p))"
  by (simp add: irq_board_cycle_def timer_quiet_step pic_quiet_step)

lemma bit_latched_timer:
  "bit (pr_irqs (latched 2 (of_bool b OR push_bit 1 (of_bool u)) p)) 0 \<longleftrightarrow> bit (pr_irqs p) 0 \<or> bit (pr_mask p) 0 \<and> b"
  by (simp add: latched_def bit_or_iff bit_and_iff bit_take_bit_iff bit_push_bit_iff)

lemma irq_board_quiet_state:
  assumes "\<not> tr_irq t" and "bit (pr_mask p) 0" and "\<not> bit (pr_irqs p) 0"
  shows "\<exists>t' p'. irq_board_quiet mx us ((mmreg_zero, t), (mmreg_zero, p)) = ((mmreg_zero, t'), (mmreg_zero, p')) \<and>
           tr_count t' = tr_count t - of_nat (length us) \<and>
           (tr_irq t' \<longleftrightarrow> us \<noteq> [] \<and> of_nat (length us - 1) = tr_count t) \<and>
           pr_mask p' = pr_mask p \<and> (bit (pr_irqs p') 0 \<longleftrightarrow> unat (tr_count t) + 2 \<le> length us)"
proof (induction us rule: rev_induct)
  case Nil
  then show ?case using assms by (simp add: irq_board_quiet_def)
next
  case (snoc u us)
  let ?k = "length us"
  obtain t' p' where s: "irq_board_quiet mx us ((mmreg_zero, t), (mmreg_zero, p)) = ((mmreg_zero, t'), (mmreg_zero, p'))"
    and t': "tr_count t' = tr_count t - of_nat ?k" "tr_irq t' \<longleftrightarrow> us \<noteq> [] \<and> of_nat (?k - 1) = tr_count t"
    and p': "pr_mask p' = pr_mask p" "bit (pr_irqs p') 0 \<longleftrightarrow> unat (tr_count t) + 2 \<le> ?k"
    using snoc.IH by blast
  define q where "q = latched 2 (of_bool (tr_irq t') OR push_bit 1 (of_bool u)) p'"
  have run: "irq_board_quiet mx (us @ [u]) ((mmreg_zero, t), (mmreg_zero, p)) =
      ((mmreg_zero, \<lparr>tr_irq = (tr_count t' = 0), tr_count = tr_count t' - 1\<rparr>), (mmreg_zero, q))"
    using s irq_board_quiet_step [of mx u t' p'] by (simp add: irq_board_quiet_def q_def)
  have z: "tr_count t' = 0 \<longleftrightarrow> of_nat ?k = tr_count t" by (auto simp: t'(1))
  have hit: "unat (tr_count t) + 2 = Suc ?k \<Longrightarrow> tr_irq t'"
  proof -
    assume k: "unat (tr_count t) + 2 = Suc ?k"
    then have "?k - 1 = unat (tr_count t)" "us \<noteq> []" by auto
    then show "tr_irq t'" by (simp add: t'(2))
  qed
  have late: "tr_irq t' \<Longrightarrow> unat (tr_count t) + 1 \<le> ?k"
  proof -
    assume "tr_irq t'"
    then have "us \<noteq> []" "unat (tr_count t) = unat (of_nat (?k - 1) :: u32)" by (simp_all add: t'(2))
    moreover have "unat (of_nat (?k - 1) :: u32) \<le> ?k - 1" by (simp add: unsigned_of_nat take_bit_eq_mod)
    ultimately show ?thesis by (cases us) simp_all
  qed
  have b: "bit (pr_irqs q) 0 \<longleftrightarrow> unat (tr_count t) + 2 \<le> Suc ?k"
    unfolding q_def bit_latched_timer p' using assms(2) hit late by linarith
  have m: "pr_mask q = pr_mask p" by (simp add: q_def latched_def p'(1))
  show ?case unfolding run
    by (intro exI [of _ "\<lparr>tr_irq = (tr_count t' = 0), tr_count = tr_count t' - 1\<rparr>"] exI [of _ q])
      (auto simp: z t'(1) m b)
qed

subsection \<open>Properties\<close>

text \<open>
  From a count of \<open>c\<close> in the timer and an unmasked, not yet pending timer interrupt, the interrupt is
  pending in the controller, and the line to the processor up, from the cycle \<open>c + 2\<close> on and not a
  cycle earlier, whatever the UART's line does. The interrupt output of the timer is a pulse of one
  cycle, so the interrupt bit of the timer that the driver reads and clears is up in that cycle only;
  the counter runs on through 0, and without a new count the next pulse is \<open>2 ^ 32\<close> cycles later.
\<close>

lemma timer_interrupt_time:
  assumes "\<not> tr_irq t" and "bit (pr_mask p) 0" and "\<not> bit (pr_irqs p) 0"
    and "irq_board_quiet max_count us ((mmreg_zero, t), (mmreg_zero, p)) = ((m, t'), (m', p'))"
  shows "(bit (pr_irqs p') 0 \<longleftrightarrow> unat (tr_count t) + 2 \<le> length us) \<and>
         (unat (tr_count t) + 2 \<le> length us \<longrightarrow> pic_irqo p') \<and>
         (timer_rdt 0 t' = 1 \<longleftrightarrow> us \<noteq> [] \<and> (length us - 1) mod 2 ^ 32 = unat (tr_count t))"
proof -
  from irq_board_quiet_state [OF assms(1-3), of max_count us] assms(4)
  have s: "tr_irq t' \<longleftrightarrow> us \<noteq> [] \<and> of_nat (length us - 1) = tr_count t"
    "bit (pr_irqs p') 0 \<longleftrightarrow> unat (tr_count t) + 2 \<le> length us" by auto
  have "pr_irqs p' \<noteq> 0" if "bit (pr_irqs p') 0" using that by auto
  moreover have "of_nat n = tr_count t \<longleftrightarrow> n mod 2 ^ 32 = unat (tr_count t)" for n
    unfolding word_unat_eq_iff by (simp add: unat_of_nat)
  ultimately show ?thesis using s by (simp add: pic_irqo_def timer_rdt_def)
qed

text \<open>
  C10: Reading the pending interrupts and then clearing the whole register, as \<open>InterruptHandler\<close> and
  \<open>ClearIrq\<close> do, loses interrupts: whatever the lines do from the cycle after the one the read samples
  to the end of the write, \<open>q1\<close>, \<open>qs\<close>, \<open>q2\<close> and \<open>q3\<close>, is not in the word read, has been pending before
  the write as far as it came before it, and is gone afterwards, with the line to the processor down.
\<close>

theorem clearing_loses_interrupts:
  assumes "base AND mask 3 = 0"
    and "pic_bus_read n base (base + 4) q0 q1 (mmreg_zero, p) = (irqs, s1)"
    and "pic_quiet n base qs s1 = (m2, p2)"
    and "pic_bus_write n base (base + 4) 0 q2 q3 (m2, p2) = (m3, p3)"
  shows "irqs = Some (pr_irqs p OR (pr_mask p AND take_bit n q0)) \<and>
         pr_irqs p2 = pr_irqs p OR (pr_mask p AND take_bit n (q0 OR q1 OR foldr (OR) qs 0)) \<and>
         m3 = mmreg_zero \<and> p3 = p\<lparr>pr_irqs := 0\<rparr> \<and> \<not> pic_irqo p3"
proof -
  note d = mmreg_decode_regs(2) [OF assms(1)]
  from assms(2) pic_bus_read_spec [OF d, of n q0 q1 p] have r: "irqs = Some (pic_rdt 1 (latched n q0 p))"
    "s1 = (mmreg_zero, latched n (q0 OR q1) p)" by simp_all
  with assms(3) have s2: "m2 = mmreg_zero" "p2 = latched n ((q0 OR q1) OR foldr (OR) qs 0) p"
    by (simp_all add: pic_quiet_fold latched_fold latched_latched)
  with assms(4) pic_bus_write_spec [OF d, of n 0 q2 q3 p2] have s3: "m3 = mmreg_zero" "p3 = p2\<lparr>pr_irqs := 0\<rparr>"
    by (simp_all split: if_splits)
  show ?thesis by (simp add: r s2 s3 latched_def pic_rdt_def pic_irqo_def or.assoc)
qed

subsection \<open>Witnesses\<close>

lemma timer_interrupt_time_witness:
  "\<exists>m t' m' p'. irq_board_quiet 10 (replicate 5 True) ((mmreg_zero, \<lparr>tr_irq = False, tr_count = 3\<rparr>),
        (mmreg_zero, \<lparr>pr_mask = 3, pr_irqs = 0\<rparr>)) = ((m, t'), (m', p')) \<and> bit (pr_irqs p') 0 \<and> pic_irqo p'"
proof -
  let ?s = "((mmreg_zero, \<lparr>tr_irq = False, tr_count = 3\<rparr>), (mmreg_zero, \<lparr>pr_mask = 3, pr_irqs = 0\<rparr>))"
  obtain m t' m' p' where r: "irq_board_quiet 10 (replicate 5 True) ?s = ((m, t'), (m', p'))" by (metis prod.collapse)
  from timer_interrupt_time [OF _ _ _ r] have "bit (pr_irqs p') 0 \<and> pic_irqo p'" by simp
  with r show ?thesis by blast
qed

theorem clearing_loses_interrupts_witness:
  "\<exists>s1 p2 p3. pic_bus_read 2 0x40000030 0x40000034 0 2 (mmreg_zero, \<lparr>pr_mask = 3, pr_irqs = 1\<rparr>) = (Some 1, s1) \<and>
     pic_quiet 2 0x40000030 [0] s1 = (mmreg_zero, p2) \<and> pr_irqs p2 = 3 \<and>
     pic_bus_write 2 0x40000030 0x40000034 0 0 0 (mmreg_zero, p2) = (mmreg_zero, p3) \<and> pr_irqs p3 = 0"
proof -
  let ?p = "\<lparr>pr_mask = 3, pr_irqs = 1\<rparr>"
  have b: "(0x40000030 :: u32) AND mask 3 = 0" by (simp add: mask_eq_exp_minus_1)
  have a: "(0x40000030 :: u32) + 4 = 0x40000034" by simp
  obtain irqs s1 where s1: "pic_bus_read 2 0x40000030 0x40000034 0 2 (mmreg_zero, ?p) = (irqs, s1)"
    by (metis surj_pair)
  obtain m2 p2 where s2: "pic_quiet 2 0x40000030 [0] s1 = (m2, p2)" by (metis surj_pair)
  obtain m3 p3 where s3: "pic_bus_write 2 0x40000030 0x40000034 0 0 0 (m2, p2) = (m3, p3)"
    by (metis surj_pair)
  from clearing_loses_interrupts [OF b, unfolded a, OF s1 s2 s3]
  have "irqs = Some 1" "pr_irqs p2 = 3" "m3 = mmreg_zero" "pr_irqs p3 = 0"
    by (simp_all add: take_bit_eq_mask mask_eq_exp_minus_1)
  moreover have "m2 = mmreg_zero"
  proof -
    have "s1 = (mmreg_zero, latched 2 (0 OR 2) ?p)"
      using s1 pic_bus_read_spec [OF mmreg_decode_regs(2) [OF b], of 2 0 2 ?p] by (simp add: a)
    with s2 show ?thesis by (simp add: pic_quiet_fold)
  qed
  ultimately show ?thesis using s1 s2 s3 by auto
qed

end
