(* ===== verification/UartHw.thy ===== *)
theory UartHw
  imports WbUart IrqHw
begin

text \<open>
  The UART peripheral \<open>ip/wb_uart/wb_uart.arch.vhdl\<close> again, clock cycle by clock cycle: its registers, the
  status word, the two FIFOs between the bus and the serial core, and its interrupt line. FIFO and
  serial core come from the external library \<open>lib_uart\<close>: the FIFO is the parameter \<open>F\<close> with the contract
  \<open>sync_fifo\<close>, the serial core shows up in the inputs \<open>uart_core_out\<close>. The theorems: what the driver
  writes while the status word says there is room is exactly what the core takes, and what the core
  receives is exactly what the driver reads; and when the interrupt line goes up, and when not.
\<close>

subsection \<open>The FIFO\<close>

text \<open>\<open>fifo_next reset write_en write_data read_en\<close> is one clock cycle; the other fields are the outputs.\<close>

record 'f fifo =
  fifo_next :: "bool \<Rightarrow> bool \<Rightarrow> u8 \<Rightarrow> bool \<Rightarrow> 'f \<Rightarrow> 'f"
  fifo_out :: "'f \<Rightarrow> u8"
  fifo_is_full :: "'f \<Rightarrow> bool"
  fifo_is_empty :: "'f \<Rightarrow> bool"

text \<open>
  The contract: the oldest byte is on the output, and what is promised for a step holds only without a
  write to a full and a read from an empty FIFO.
\<close>

locale sync_fifo =
  fixes F :: "'f fifo" and queue :: "'f \<Rightarrow> u8 list" and depth :: nat
  assumes depth_pos: "0 < depth"
    and reset: "queue (fifo_next F True we d re f) = []"
    and step: "(we \<longrightarrow> length (queue f) < depth) \<Longrightarrow> (re \<longrightarrow> queue f \<noteq> []) \<Longrightarrow>
          queue (fifo_next F False we d re f) = (if re then tl (queue f) else queue f) @ (if we then [d] else [])"
    and head: "queue f \<noteq> [] \<Longrightarrow> fifo_out F f = hd (queue f)"
    and full: "fifo_is_full F f \<longleftrightarrow> depth \<le> length (queue f)"
    and empty: "fifo_is_empty F f \<longleftrightarrow> queue f = []"

subsection \<open>The peripheral\<close>

text \<open>What the serial core drives: it has taken a byte, or it has received one.\<close>

record uart_core_out =
  data_stream_in_ack :: bool
  data_stream_out :: u8
  data_stream_out_stb :: bool

record uart_reg =
  r_bus_is_read :: bool
  r_bus_is_write :: bool
  r_bus_d_in :: u8
  r_bus_d_out :: u8
  r_bus_ack :: bool
  r_wr_uart_en :: bool
  r_rd_fifo_read :: bool
  r_wr_fifo_write :: bool
  r_wr_uart_strobe :: bool
  r_rx_was_empty :: bool
  r_tx_was_empty :: bool

definition reg_t_new :: uart_reg where
  "reg_t_new =
     \<lparr>r_bus_is_read = False, r_bus_is_write = False, r_bus_d_in = 0, r_bus_d_out = 0, r_bus_ack = False,
      r_wr_uart_en = False, r_rd_fifo_read = False, r_wr_fifo_write = False, r_wr_uart_strobe = False,
      r_rx_was_empty = True, r_tx_was_empty = True\<rparr>"

record 'f uart_hw =
  uh_reg :: uart_reg
  uh_rd :: 'f
  uh_wr :: 'f

definition uart_bus_is_write :: "u32 \<Rightarrow> wb_host \<Rightarrow> bool" where
  "uart_bus_is_write uart_address wbi \<longleftrightarrow>
     wb_adr wbi = uart_address \<and> (wb_cyc wbi \<and> bit (wb_sel wbi) 0) \<and> wb_we wbi"

definition uart_bus_is_read :: "u32 \<Rightarrow> wb_host \<Rightarrow> bool" where
  "uart_bus_is_read uart_address wbi \<longleftrightarrow>
     wb_adr wbi = uart_address \<and> (wb_cyc wbi \<and> bit (wb_sel wbi) 0) \<and> \<not> wb_we wbi"

definition uart_hw_ack :: "u32 \<Rightarrow> wb_host \<Rightarrow> bool" where
  "uart_hw_ack uart_address wbi \<longleftrightarrow> uart_bus_is_write uart_address wbi \<or> uart_bus_is_read uart_address wbi"

text \<open>The word on the bus, and the interrupt line.\<close>

definition uart_hw_rdt :: "'f fifo \<Rightarrow> 'f uart_hw \<Rightarrow> u32" where
  "uart_hw_rdt F s =
     flag (fifo_is_full F (uh_wr s)) 11 OR flag (fifo_is_empty F (uh_wr s)) 10 OR
     flag (fifo_is_full F (uh_rd s)) 9 OR flag (fifo_is_empty F (uh_rd s)) 8 OR
     ucast (fifo_out F (uh_rd s))"

definition uart_hw_irq :: "'f fifo \<Rightarrow> 'f uart_hw \<Rightarrow> bool" where
  "uart_hw_irq F s \<longleftrightarrow> (r_rx_was_empty (uh_reg s) \<and> \<not> fifo_is_empty F (uh_rd s)) \<or>
     (r_tx_was_empty (uh_reg s) \<and> \<not> fifo_is_empty F (uh_wr s))"

text \<open>The next registers. Each starts from \<open>reg_t_new\<close>, not from its old value; only the strobe is kept.\<close>

definition uart_reg_next :: "'f fifo \<Rightarrow> u32 \<Rightarrow> bool \<Rightarrow> wb_host \<Rightarrow> uart_core_out \<Rightarrow> 'f uart_hw \<Rightarrow> uart_reg" where
  "uart_reg_next F uart_address reset wbi uo s =
     (let r = uh_reg s;
          v = reg_t_new\<lparr>r_rx_was_empty := fifo_is_empty F (uh_rd s), r_tx_was_empty := fifo_is_empty F (uh_wr s)\<rparr>;
          v1 = (if uart_bus_is_write uart_address wbi
                then v\<lparr>r_bus_is_write := True, r_bus_d_in := ucast (wb_dat wbi),
                       r_wr_fifo_write := \<not> fifo_is_full F (uh_wr s)\<rparr>
                else v);
          v2 = (if uart_bus_is_read uart_address wbi
                then v1\<lparr>r_bus_is_read := True, r_bus_d_out := fifo_out F (uh_rd s),
                        r_rd_fifo_read := \<not> fifo_is_empty F (uh_rd s)\<rparr>
                else v1);
          v3 = (if data_stream_in_ack uo then v2\<lparr>r_wr_uart_en := True\<rparr> else v2);
          v4 = v3\<lparr>r_wr_uart_strobe := r_wr_uart_strobe r\<rparr>;
          v5 = (if \<not> r_wr_uart_strobe v4 \<and> \<not> fifo_is_empty F (uh_wr s) then v4\<lparr>r_wr_uart_strobe := True\<rparr> else v4);
          v6 = (if fifo_is_empty F (uh_wr s) then v5\<lparr>r_wr_uart_strobe := False\<rparr> else v5)
      in if reset then reg_t_new else v6)"

text \<open>One clock cycle of the registers and the two FIFOs.\<close>

definition uart_hw_next :: "'f fifo \<Rightarrow> u32 \<Rightarrow> bool \<Rightarrow> wb_host \<Rightarrow> uart_core_out \<Rightarrow> 'f uart_hw \<Rightarrow> 'f uart_hw" where
  "uart_hw_next F uart_address reset wbi uo s =
     \<lparr>uh_reg = uart_reg_next F uart_address reset wbi uo s,
      uh_rd = fifo_next F reset (data_stream_out_stb uo \<and> \<not> fifo_is_full F (uh_rd s)) (data_stream_out uo)
                (uart_hw_ack uart_address wbi \<and> \<not> fifo_is_empty F (uh_rd s) \<and> uart_bus_is_read uart_address wbi) (uh_rd s),
      uh_wr = fifo_next F reset (r_wr_fifo_write (uh_reg s)) (r_bus_d_in (uh_reg s)) (r_wr_uart_en (uh_reg s)) (uh_wr s)\<rparr>"

primrec uart_hw_run :: "'f fifo \<Rightarrow> u32 \<Rightarrow> (nat \<Rightarrow> wb_host) \<Rightarrow> (nat \<Rightarrow> uart_core_out) \<Rightarrow> 'f uart_hw \<Rightarrow> nat \<Rightarrow> 'f uart_hw" where
  "uart_hw_run F a hs os s 0 = s"
| "uart_hw_run F a hs os s (Suc t) = uart_hw_next F a False (hs t) (os t) (uart_hw_run F a hs os s t)"

subsection \<open>What the two sides exchange\<close>

text \<open>
  Of the cycles before \<open>t\<close>: the bytes the driver reads when the status word says that there is one, those
  it writes when the word says there is room, those the core receives into a FIFO that is not full,
  and those on the input of the core when it acknowledges.
\<close>

definition uart_read_bytes :: "'f fifo \<Rightarrow> u32 \<Rightarrow> (nat \<Rightarrow> wb_host) \<Rightarrow> (nat \<Rightarrow> 'f uart_hw) \<Rightarrow> nat \<Rightarrow> u8 list" where
  "uart_read_bytes F a hs run t =
     map (\<lambda>u. ucast (uart_hw_rdt F (run u)))
       (filter (\<lambda>u. uart_bus_is_read a (hs u) \<and> \<not> uart_is_empty (uart_hw_rdt F (run u))) [0..<t])"

definition uart_written_bytes :: "'f fifo \<Rightarrow> u32 \<Rightarrow> (nat \<Rightarrow> wb_host) \<Rightarrow> (nat \<Rightarrow> 'f uart_hw) \<Rightarrow> nat \<Rightarrow> u8 list" where
  "uart_written_bytes F a hs run t =
     map (\<lambda>u. ucast (wb_dat (hs u)))
       (filter (\<lambda>u. uart_bus_is_write a (hs u) \<and> \<not> uart_is_full (uart_hw_rdt F (run u))) [0..<t])"

definition uart_received_bytes :: "'f fifo \<Rightarrow> (nat \<Rightarrow> uart_core_out) \<Rightarrow> (nat \<Rightarrow> 'f uart_hw) \<Rightarrow> nat \<Rightarrow> u8 list" where
  "uart_received_bytes F os run t =
     map (\<lambda>u. data_stream_out (os u))
       (filter (\<lambda>u. data_stream_out_stb (os u) \<and> \<not> bit (uart_hw_rdt F (run u)) 9) [0..<t])"

definition uart_sent_bytes :: "'f fifo \<Rightarrow> (nat \<Rightarrow> uart_core_out) \<Rightarrow> (nat \<Rightarrow> 'f uart_hw) \<Rightarrow> nat \<Rightarrow> u8 list" where
  "uart_sent_bytes F os run t =
     map (\<lambda>u. fifo_out F (uh_wr (run u))) (filter (\<lambda>u. data_stream_in_ack (os u)) [0..<t])"

text \<open>
  The bytes on their way to the core: an acknowledged one leaves the FIFO a cycle later, a written one
  enters it a cycle later.
\<close>

definition uart_tx_pending :: "('f \<Rightarrow> u8 list) \<Rightarrow> 'f uart_hw \<Rightarrow> u8 list" where
  "uart_tx_pending queue s =
     (if r_wr_uart_en (uh_reg s) then tl (queue (uh_wr s)) else queue (uh_wr s)) @
     (if r_wr_fifo_write (uh_reg s) then [r_bus_d_in (uh_reg s)] else [])"

lemma uart_reg_next_fields [simp]:
  "r_wr_uart_en (uart_reg_next F a False h uo s) = data_stream_in_ack uo"
  "r_wr_fifo_write (uart_reg_next F a False h uo s) \<longleftrightarrow> uart_bus_is_write a h \<and> \<not> fifo_is_full F (uh_wr s)"
  "uart_bus_is_write a h \<Longrightarrow> r_bus_d_in (uart_reg_next F a False h uo s) = ucast (wb_dat h)"
  "r_wr_uart_strobe (uart_reg_next F a False h uo s) \<longleftrightarrow> \<not> fifo_is_empty F (uh_wr s)"
  "r_rx_was_empty (uart_reg_next F a False h uo s) = fifo_is_empty F (uh_rd s)"
  "r_tx_was_empty (uart_reg_next F a False h uo s) = fifo_is_empty F (uh_wr s)"
  "uart_reg_next F a True h uo s = reg_t_new"
  by (simp_all add: uart_reg_next_def reg_t_new_def Let_def)

lemma uart_hw_next_fields [simp]:
  "uh_reg (uart_hw_next F a rst h uo s) = uart_reg_next F a rst h uo s"
  by (simp add: uart_hw_next_def)

lemma reg_t_new_fields [simp]:
  "\<not> r_wr_uart_en reg_t_new" "\<not> r_wr_fifo_write reg_t_new" "\<not> r_wr_uart_strobe reg_t_new"
  "r_rx_was_empty reg_t_new" "r_tx_was_empty reg_t_new"
  by (simp_all add: reg_t_new_def)

lemma uart_hw_rdt_bits:
  "uart_is_full (uart_hw_rdt F s) = fifo_is_full F (uh_wr s)"
  "bit (uart_hw_rdt F s) 10 = fifo_is_empty F (uh_wr s)"
  "bit (uart_hw_rdt F s) 9 = fifo_is_full F (uh_rd s)"
  "uart_is_empty (uart_hw_rdt F s) = fifo_is_empty F (uh_rd s)"
  by (simp_all add: uart_is_full_bit uart_is_empty_bit uart_hw_rdt_def bit_or_iff flag_bit bit_simps)

lemma uart_hw_rdt_data: "ucast (uart_hw_rdt F s) = fifo_out F (uh_rd s)"
  by (rule bit_word_eqI) (simp add: uart_hw_rdt_def bit_or_iff flag_bit bit_simps)

text \<open>What the registers remember of the cycle before.\<close>

lemma uart_hw_run_reg:
  assumes "s = uart_hw_next F a True h0 o0 s0"
  shows "r_wr_uart_en (uh_reg (uart_hw_run F a hs os s t)) \<longleftrightarrow> 1 \<le> t \<and> data_stream_in_ack (os (t - 1))"
    and "r_wr_fifo_write (uh_reg (uart_hw_run F a hs os s t)) \<longleftrightarrow>
           1 \<le> t \<and> uart_bus_is_write a (hs (t - 1)) \<and> \<not> fifo_is_full F (uh_wr (uart_hw_run F a hs os s (t - 1)))"
    and "r_wr_uart_strobe (uh_reg (uart_hw_run F a hs os s t)) \<longleftrightarrow>
           1 \<le> t \<and> \<not> fifo_is_empty F (uh_wr (uart_hw_run F a hs os s (t - 1)))"
  by (cases t; simp add: assms)+

lemma filter_upt_Suc: "filter P [0..<Suc t] = filter P [0..<t] @ (if P t then [t] else [])"
  by simp

subsection \<open>The two directions\<close>

context sync_fifo
begin

lemma rd_step:
  "queue (uh_rd (uart_hw_next F a False h uo s)) =
     (if uart_bus_is_read a h then tl (queue (uh_rd s)) else queue (uh_rd s)) @
     (if data_stream_out_stb uo \<and> \<not> fifo_is_full F (uh_rd s) then [data_stream_out uo] else [])"
  by (subst uart_hw_next_def, subst uart_hw.simps, subst step) (auto simp: full empty uart_hw_ack_def not_le)

lemma wr_step:
  assumes "r_wr_fifo_write (uh_reg s) \<Longrightarrow> length (queue (uh_wr s)) < depth" and "r_wr_uart_en (uh_reg s) \<Longrightarrow> queue (uh_wr s) \<noteq> []"
  shows "queue (uh_wr (uart_hw_next F a False h uo s)) = uart_tx_pending queue s"
  using assms by (subst uart_hw_next_def, subst uart_hw.simps, subst step) (auto simp: uart_tx_pending_def)

lemma after_reset:
  "queue (uh_rd (uart_hw_next F a True h uo s)) = []" "queue (uh_wr (uart_hw_next F a True h uo s)) = []"
  by (simp_all add: uart_hw_next_def reset)

text \<open>From the core to the driver.\<close>

lemma rx_direction:
  fixes hs os
  assumes "s = uart_hw_next F a True h0 o0 s0"
  defines "run \<equiv> uart_hw_run F a hs os s"
  shows "uart_read_bytes F a hs run t @ queue (uh_rd (run t)) = uart_received_bytes F os run t \<and>
         length (queue (uh_rd (run t))) \<le> depth"
proof (induction t)
  case 0
  then show ?case by (simp add: uart_read_bytes_def uart_received_bytes_def run_def assms(1) after_reset)
next
  case (Suc t)
  have q: "queue (uh_rd (run (Suc t))) =
      (if uart_bus_is_read a (hs t) then tl (queue (uh_rd (run t))) else queue (uh_rd (run t))) @
      (if data_stream_out_stb (os t) \<and> \<not> fifo_is_full F (uh_rd (run t)) then [data_stream_out (os t)] else [])"
    unfolding run_def uart_hw_run.simps(2) by (rule rd_step)
  have r: "uart_read_bytes F a hs run (Suc t) = uart_read_bytes F a hs run t @
      (if uart_bus_is_read a (hs t) then take 1 (queue (uh_rd (run t))) else [])"
    by (cases "queue (uh_rd (run t))")
      (simp_all add: uart_read_bytes_def uart_hw_rdt_bits uart_hw_rdt_data empty head)
  have c: "uart_received_bytes F os run (Suc t) = uart_received_bytes F os run t @
      (if data_stream_out_stb (os t) \<and> \<not> fifo_is_full F (uh_rd (run t)) then [data_stream_out (os t)] else [])"
    by (simp add: uart_received_bytes_def uart_hw_rdt_bits)
  have x: "(xs @ (if b then take 1 ys else [])) @ (if b then tl ys else ys) @ zs = (xs @ ys) @ zs" for b and xs ys zs :: "u8 list"
    by (cases ys) simp_all
  have "uart_read_bytes F a hs run (Suc t) @ queue (uh_rd (run (Suc t))) = uart_received_bytes F os run (Suc t)"
    unfolding q r c x using Suc by simp
  moreover have "length (queue (uh_rd (run (Suc t)))) \<le> depth"
    using Suc unfolding q by (auto simp: full)
  ultimately show ?case by simp
qed

text \<open>From the driver to the core.\<close>

lemma tx_direction:
  fixes hs os
  assumes "s = uart_hw_next F a True h0 o0 s0"
  defines "run \<equiv> uart_hw_run F a hs os s"
  assumes gap: "\<forall>t. \<not> (uart_bus_is_write a (hs t) \<and> uart_bus_is_write a (hs (Suc t)))"
    and ack: "\<forall>t. data_stream_in_ack (os t) \<longrightarrow> r_wr_uart_strobe (uh_reg (run t)) \<and>
                \<not> data_stream_in_ack (os (t + 1)) \<and> \<not> data_stream_in_ack (os (t + 2))"
  shows "uart_sent_bytes F os run t @ uart_tx_pending queue (run t) = uart_written_bytes F a hs run t \<and>
         (r_wr_fifo_write (uh_reg (run t)) \<longrightarrow> length (queue (uh_wr (run t))) < depth) \<and>
         (r_wr_uart_en (uh_reg (run t)) \<longrightarrow> queue (uh_wr (run t)) \<noteq> []) \<and>
         (r_wr_uart_strobe (uh_reg (run t)) \<longrightarrow> queue (uh_wr (run t)) \<noteq> [] \<or> 2 \<le> t \<and> data_stream_in_ack (os (t - 2))) \<and>
         length (queue (uh_wr (run t))) \<le> depth"
proof (induction t)
  case 0
  then show ?case
    by (simp add: uart_sent_bytes_def uart_written_bytes_def uart_tx_pending_def run_def assms(1) after_reset)
next
  case (Suc t)
  note reg = uart_hw_run_reg [OF assms(1), of hs os, folded run_def]
  have q: "queue (uh_wr (run (Suc t))) = uart_tx_pending queue (run t)"
    unfolding run_def uart_hw_run.simps(2) by (rule wr_step) (use Suc in \<open>simp_all add: run_def\<close>)
  have pend: "queue (uh_wr (run t)) \<noteq> [] \<and> \<not> r_wr_uart_en (uh_reg (run t))" if "data_stream_in_ack (os t)"
  proof -
    have "\<not> (1 \<le> t \<and> data_stream_in_ack (os (t - 1)))" using ack that by (cases t) auto
    moreover have "\<not> (2 \<le> t \<and> data_stream_in_ack (os (t - 2)))"
    proof
      assume "2 \<le> t \<and> data_stream_in_ack (os (t - 2))"
      then obtain k where "t = k + 2" "data_stream_in_ack (os k)" by (metis le_add_diff_inverse2)
      with that ack show False by blast
    qed
    ultimately show ?thesis using that ack Suc by (auto simp: reg(1))
  qed
  have room: "length (uart_tx_pending queue (run t)) < depth"
    if "uart_bus_is_write a (hs t)" "\<not> fifo_is_full F (uh_wr (run t))"
  proof -
    have "\<not> r_wr_fifo_write (uh_reg (run t))" using that(1) gap by (cases t) (auto simp: reg(2))
    with that(2) show ?thesis by (auto simp: uart_tx_pending_def full)
  qed
  have sent: "uart_sent_bytes F os run (Suc t) @ (if data_stream_in_ack (os t) then tl (uart_tx_pending queue (run t)) else uart_tx_pending queue (run t)) =
      uart_sent_bytes F os run t @ uart_tx_pending queue (run t)"
    using pend head [of "uh_wr (run t)"] by (auto simp: uart_sent_bytes_def uart_tx_pending_def neq_Nil_conv)
  have p': "uart_tx_pending queue (run (Suc t)) =
      (if data_stream_in_ack (os t) then tl (uart_tx_pending queue (run t)) else uart_tx_pending queue (run t)) @
      (if uart_bus_is_write a (hs t) \<and> \<not> fifo_is_full F (uh_wr (run t)) then [ucast (wb_dat (hs t))] else [])"
    by (subst uart_tx_pending_def, subst (1 2) q) (simp add: run_def)
  have w: "uart_written_bytes F a hs run (Suc t) = uart_written_bytes F a hs run t @
      (if uart_bus_is_write a (hs t) \<and> \<not> fifo_is_full F (uh_wr (run t)) then [ucast (wb_dat (hs t))] else [])"
    by (simp add: uart_written_bytes_def uart_hw_rdt_bits)
  have "uart_sent_bytes F os run (Suc t) @ uart_tx_pending queue (run (Suc t)) = uart_written_bytes F a hs run (Suc t)"
    unfolding p' w using sent Suc by simp
  moreover have "r_wr_fifo_write (uh_reg (run (Suc t))) \<longrightarrow> length (queue (uh_wr (run (Suc t)))) < depth"
    using room by (simp add: q reg(2))
  moreover have "r_wr_uart_en (uh_reg (run (Suc t))) \<longrightarrow> queue (uh_wr (run (Suc t))) \<noteq> []"
    using pend by (auto simp: q reg(1) uart_tx_pending_def)
  moreover have "r_wr_uart_strobe (uh_reg (run (Suc t))) \<longrightarrow>
      queue (uh_wr (run (Suc t))) \<noteq> [] \<or> 2 \<le> Suc t \<and> data_stream_in_ack (os (Suc t - 2))"
  proof -
    have "queue (uh_wr (run t)) \<noteq> [] \<Longrightarrow> queue (uh_wr (run (Suc t))) = [] \<Longrightarrow> 1 \<le> t \<and> data_stream_in_ack (os (t - 1))"
      by (auto simp: q reg(1) uart_tx_pending_def split: if_splits)
    then show ?thesis by (auto simp: reg(3) empty)
  qed
  moreover have "length (queue (uh_wr (run (Suc t)))) \<le> depth"
    using Suc unfolding q by (auto simp: uart_tx_pending_def)
  ultimately show ?case by blast
qed

text \<open>
  Once the driver writes no more, the queue gets shorter: a core that acknowledges within \<open>W\<close> cycles of
  a steady strobe takes a byte every \<open>W + 3\<close> cycles at the latest.
\<close>

lemma tx_one_leaves:
  fixes hs os
  assumes s: "s = uart_hw_next F a True h0 o0 s0"
  defines "run \<equiv> uart_hw_run F a hs os s"
  assumes gap: "\<forall>t. \<not> (uart_bus_is_write a (hs t) \<and> uart_bus_is_write a (hs (Suc t)))"
    and ack: "\<forall>t. data_stream_in_ack (os t) \<longrightarrow> r_wr_uart_strobe (uh_reg (run t)) \<and>
                \<not> data_stream_in_ack (os (t + 1)) \<and> \<not> data_stream_in_ack (os (t + 2))"
    and live: "\<forall>t. (\<forall>u \<le> W. r_wr_uart_strobe (uh_reg (run (t + u)))) \<longrightarrow> (\<exists>u \<le> W. data_stream_in_ack (os (t + u)))"
    and quiet: "\<forall>u \<ge> t. \<not> uart_bus_is_write a (hs u)" and k: "t < k" and ne: "queue (uh_wr (run k)) \<noteq> []"
  shows "\<exists>d \<le> W + 3. queue (uh_wr (run (k + d))) = tl (queue (uh_wr (run k)))"
proof -
  note reg = uart_hw_run_reg [OF s, of hs os, folded run_def]
  note inv = tx_direction [OF s gap ack [unfolded run_def], folded run_def]
  have nw: "\<not> r_wr_fifo_write (uh_reg (run (k + u)))" for u using quiet k by (simp add: reg(2))
  have q: "queue (uh_wr (run (Suc (k + u)))) =
      (if r_wr_uart_en (uh_reg (run (k + u))) then tl (queue (uh_wr (run (k + u)))) else queue (uh_wr (run (k + u))))" for u
    using wr_step [of "run (k + u)" a "hs (k + u)" "os (k + u)"] inv [of "k + u"] nw [of u]
    by (simp add: run_def uart_tx_pending_def)
  show ?thesis
  proof (cases "r_wr_uart_en (uh_reg (run k))")
    case True
    then show ?thesis using q [of 0] by (intro exI [of _ 1]) simp
  next
    case False
    have stay: "queue (uh_wr (run (k + u))) = queue (uh_wr (run k))" if "\<forall>v. Suc v < u \<longrightarrow> \<not> data_stream_in_ack (os (k + v))" for u
      using that
    proof (induction u)
      case (Suc u)
      have "\<not> r_wr_uart_en (uh_reg (run (k + u)))" using False Suc.prems by (cases u) (simp_all add: reg(1))
      with Suc q [of u] show ?case by simp
    qed simp
    obtain u where u: "u \<le> W + 1" "data_stream_in_ack (os (k + u))" "\<forall>v < u. \<not> data_stream_in_ack (os (k + v))"
    proof (cases "\<exists>u \<le> W + 1. data_stream_in_ack (os (k + u))")
      case True
      then have "(LEAST u. data_stream_in_ack (os (k + u))) \<le> W + 1" by (meson Least_le order_trans)
      moreover have "data_stream_in_ack (os (k + (LEAST u. data_stream_in_ack (os (k + u)))))" using True by (metis (mono_tags, lifting) LeastI)
      ultimately show ?thesis using that not_less_Least by blast
    next
      case False
      have "r_wr_uart_strobe (uh_reg (run (k + 1 + u)))" if "u \<le> W" for u
        using stay [of u] False that ne by (simp add: reg(3) empty)
      then obtain u where "u \<le> W" "data_stream_in_ack (os (k + 1 + u))" using live by blast
      then have "Suc u \<le> W + 1" "data_stream_in_ack (os (k + Suc u))" by simp_all
      with False show ?thesis by blast
    qed
    have "queue (uh_wr (run (k + Suc u))) = queue (uh_wr (run k))" by (rule stay) (use u(3) in auto)
    moreover have "r_wr_uart_en (uh_reg (run (k + Suc u)))" using u(2) by (simp add: reg(1))
    ultimately have "queue (uh_wr (run (k + Suc (Suc u)))) = tl (queue (uh_wr (run k)))" using q [of "Suc u"] by simp
    then show ?thesis using u(1) by (intro exI [of _ "Suc (Suc u)"]) simp
  qed
qed

lemma tx_all_leave:
  fixes hs os
  assumes s: "s = uart_hw_next F a True h0 o0 s0"
  defines "run \<equiv> uart_hw_run F a hs os s"
  assumes gap: "\<forall>t. \<not> (uart_bus_is_write a (hs t) \<and> uart_bus_is_write a (hs (Suc t)))"
    and ack: "\<forall>t. data_stream_in_ack (os t) \<longrightarrow> r_wr_uart_strobe (uh_reg (run t)) \<and>
                \<not> data_stream_in_ack (os (t + 1)) \<and> \<not> data_stream_in_ack (os (t + 2))"
    and live: "\<forall>t. (\<forall>u \<le> W. r_wr_uart_strobe (uh_reg (run (t + u)))) \<longrightarrow> (\<exists>u \<le> W. data_stream_in_ack (os (t + u)))"
    and quiet: "\<forall>u \<ge> t. \<not> uart_bus_is_write a (hs u)" and k: "t < k"
  shows "\<exists>d \<le> length (queue (uh_wr (run k))) * (W + 3). queue (uh_wr (run (k + d))) = []"
  using k
proof (induction "length (queue (uh_wr (run k)))" arbitrary: k)
  case 0
  then show ?case by auto
next
  case (Suc n)
  then have "queue (uh_wr (run k)) \<noteq> []" by auto
  then obtain d where d: "d \<le> W + 3" "queue (uh_wr (run (k + d))) = tl (queue (uh_wr (run k)))"
    using tx_one_leaves [OF s gap ack [unfolded run_def] live [unfolded run_def] quiet Suc.prems, folded run_def] by blast
  then have n: "n = length (queue (uh_wr (run (k + d))))" using Suc(2) by simp
  obtain e where "e \<le> n * (W + 3)" "queue (uh_wr (run (k + d + e))) = []"
    using Suc(1) [OF n] Suc.prems n by auto
  with d(1) show ?case
    unfolding Suc(2) [symmetric] by (intro exI [of _ "d + e"]) (simp add: add.assoc)
qed

end

subsection \<open>The interrupt line and the controller\<close>

text \<open>The line is up in the cycle in which a FIFO is found nonempty for the first time.\<close>

context sync_fifo
begin

lemma irq_edge:
  assumes "s = uart_hw_next F a True h0 o0 s0"
  shows "uart_hw_irq F (uart_hw_run F a hs os s t) \<longleftrightarrow>
    1 \<le> t \<and> (queue (uh_rd (uart_hw_run F a hs os s (t - 1))) = [] \<and> queue (uh_rd (uart_hw_run F a hs os s t)) \<noteq> [] \<or>
            queue (uh_wr (uart_hw_run F a hs os s (t - 1))) = [] \<and> queue (uh_wr (uart_hw_run F a hs os s t)) \<noteq> [])"
  by (cases t) (auto simp: uart_hw_irq_def assms after_reset empty)

end

text \<open>The peripheral and the interrupt hardware of the board on one bus.\<close>

primrec uart_board_run :: "'f fifo \<Rightarrow> u32 \<Rightarrow> nat \<Rightarrow> (nat \<Rightarrow> wb_host) \<Rightarrow> (nat \<Rightarrow> uart_core_out) \<Rightarrow> 'f uart_hw \<times> irq_board \<Rightarrow> nat \<Rightarrow>
    'f uart_hw \<times> irq_board" where
  "uart_board_run F a max_count hs os p 0 = p"
| "uart_board_run F a max_count hs os p (Suc t) =
     (case uart_board_run F a max_count hs os p t of (s, b) \<Rightarrow>
        (uart_hw_next F a False (hs t) (os t) s, irq_board_cycle max_count False (hs t) (uart_hw_irq F s) b))"

lemma uart_board_run_hw: "fst (uart_board_run F a mx hs os (s, b) t) = uart_hw_run F a hs os s t"
  by (induction t) (simp_all add: case_prod_beta)

definition became_nonempty :: "(nat \<Rightarrow> u8 list) \<Rightarrow> nat \<Rightarrow> bool" where
  "became_nonempty q u \<longleftrightarrow> q u = [] \<and> q (Suc u) \<noteq> []"

lemma pic_cycle_other:
  assumes "wb_cyc h \<longrightarrow> mmreg_decode 1 base (wb_adr h) = None"
  shows "pic_cycle n base False h q (mmreg_zero, r) = (mmreg_zero, latched n q r)"
  using assms by (auto simp: pic_cycle_def mmreg_next_def pic_next_def latched_def split: option.split)

lemma bit_latched_uart:
  "bit (pr_irqs (latched 2 (of_bool b OR push_bit 1 (of_bool u)) p)) 1 \<longleftrightarrow> bit (pr_irqs p) 1 \<or> bit (pr_mask p) 1 \<and> u"
  by (cases b) (auto simp: latched_def bit_or_iff bit_and_iff bit_take_bit_iff bit_push_bit_iff bit_1_iff)

lemma uart_board_pending:
  assumes "\<forall>u. wb_cyc (hs u) \<longrightarrow> mmreg_decode 1 0x40000030 (wb_adr (hs u)) = None"
  shows "\<exists>tm' p'. snd (uart_board_run F a mx hs os (s, (tm, (mmreg_zero, p))) t) = (tm', (mmreg_zero, p')) \<and>
           pr_mask p' = pr_mask p \<and>
           (bit (pr_irqs p') 1 \<longleftrightarrow> bit (pr_irqs p) 1 \<or> bit (pr_mask p) 1 \<and> (\<exists>u < t. uart_hw_irq F (uart_hw_run F a hs os s u)))"
proof (induction t)
  case (Suc t)
  let ?run = "uart_board_run F a mx hs os (s, (tm, (mmreg_zero, p)))"
  let ?i = "uart_hw_irq F (uart_hw_run F a hs os s t)"
  obtain tm' p' where IH: "snd (?run t) = (tm', (mmreg_zero, p'))" "pr_mask p' = pr_mask p"
    "bit (pr_irqs p') 1 \<longleftrightarrow> bit (pr_irqs p) 1 \<or> bit (pr_mask p) 1 \<and> (\<exists>u < t. uart_hw_irq F (uart_hw_run F a hs os s u))"
    using Suc by blast
  have r: "?run t = (uart_hw_run F a hs os s t, (tm', (mmreg_zero, p')))"
    using IH(1) uart_board_run_hw [of F a mx hs os s "(tm, (mmreg_zero, p))" t] by (metis prod.collapse)
  have pc: "pic_cycle 2 0x40000030 False (hs t) q (mmreg_zero, p') = (mmreg_zero, latched 2 q p')" for q
    by (rule pic_cycle_other) (use assms in blast)
  have n: "snd (?run (Suc t)) = (timer_cycle 0x40000020 mx False (hs t) tm',
      (mmreg_zero, latched 2 (of_bool (tr_irq (snd tm')) OR push_bit 1 (of_bool ?i)) p'))"
    by (simp add: r irq_board_cycle_def pc)
  have "pr_mask (latched 2 q p') = pr_mask p'" for q by (simp add: latched_def)
  then show ?case unfolding n using IH(2,3) bit_latched_uart [of "tr_irq (snd tm')" ?i p'] by (auto simp: less_Suc_eq)
qed simp

subsection \<open>Properties\<close>

text \<open>
  C20: The clocked peripheral is a pair of lossless queues. From a reset on, in every cycle: the bytes read so
  far and the receive FIFO are the bytes received so far, in order, where a byte counts as read when
  the status word of its read says the FIFO is not empty, and as received when the FIFO is not full; and
  the bytes the serial core has taken, the one that is leaving, the transmit FIFO and the byte in the
  write register are the bytes written so far, where a write counts when the status word in its cycle
  says the FIFO is not full. The FIFOs are only used within their contract. For the second part the
  hosts must not write in consecutive cycles, and the core takes at most every third cycle and only
  while the strobe is up.
\<close>

theorem wb_uart_refines_queues:
  assumes "sync_fifo F queue depth" and "s = uart_hw_next F a True h0 o0 s0"
    and "\<forall>t. \<not> (uart_bus_is_write a (hs t) \<and> uart_bus_is_write a (hs (Suc t)))"
    and "\<forall>t. data_stream_in_ack (os t) \<longrightarrow> r_wr_uart_strobe (uh_reg (uart_hw_run F a hs os s t)) \<and>
           \<not> data_stream_in_ack (os (t + 1)) \<and> \<not> data_stream_in_ack (os (t + 2))"
  shows "uart_read_bytes F a hs (uart_hw_run F a hs os s) t @ queue (uh_rd (uart_hw_run F a hs os s t)) =
           uart_received_bytes F os (uart_hw_run F a hs os s) t \<and>
         uart_sent_bytes F os (uart_hw_run F a hs os s) t @ uart_tx_pending queue (uart_hw_run F a hs os s t) =
           uart_written_bytes F a hs (uart_hw_run F a hs os s) t \<and>
         (r_wr_fifo_write (uh_reg (uart_hw_run F a hs os s t)) \<longrightarrow> length (queue (uh_wr (uart_hw_run F a hs os s t))) < depth) \<and>
         (r_wr_uart_en (uh_reg (uart_hw_run F a hs os s t)) \<longrightarrow> queue (uh_wr (uart_hw_run F a hs os s t)) \<noteq> [])"
  using sync_fifo.rx_direction [OF assms(1,2), of hs os t] sync_fifo.tx_direction [OF assms, of t] by blast

text \<open>
  Once the driver writes no more, the wait for an empty transmit FIFO ends: with a core that takes a byte
  within \<open>W\<close> cycles of a steady strobe, after at most \<open>length * (W + 3) + 1\<close> cycles bit 10 of the status word,
  the one \<open>noelv_serv_upload\<close> waits for, is set and the core has taken every byte written.
\<close>

lemma wb_uart_drains:
  assumes "sync_fifo F queue depth" and "s = uart_hw_next F a True h0 o0 s0"
    and "\<forall>t. \<not> (uart_bus_is_write a (hs t) \<and> uart_bus_is_write a (hs (Suc t)))"
    and "\<forall>t. data_stream_in_ack (os t) \<longrightarrow> r_wr_uart_strobe (uh_reg (uart_hw_run F a hs os s t)) \<and>
           \<not> data_stream_in_ack (os (t + 1)) \<and> \<not> data_stream_in_ack (os (t + 2))"
    and "\<forall>t. (\<forall>u \<le> W. r_wr_uart_strobe (uh_reg (uart_hw_run F a hs os s (t + u)))) \<longrightarrow>
           (\<exists>u \<le> W. data_stream_in_ack (os (t + u)))"
    and "\<forall>u \<ge> t. \<not> uart_bus_is_write a (hs u)"
  shows "\<exists>T \<le> t + 1 + length (uart_tx_pending queue (uart_hw_run F a hs os s t)) * (W + 3).
           bit (uart_hw_rdt F (uart_hw_run F a hs os s T)) 10 \<and>
           uart_sent_bytes F os (uart_hw_run F a hs os s) T = uart_written_bytes F a hs (uart_hw_run F a hs os s) T"
proof -
  let ?run = "uart_hw_run F a hs os s"
  note tx = sync_fifo.tx_direction [OF assms(1-4)]
  have q: "queue (uh_wr (?run (t + 1))) = uart_tx_pending queue (?run t)"
    using sync_fifo.wr_step [OF assms(1), of "?run t"] tx [of t] by simp
  obtain d where d: "d \<le> length (queue (uh_wr (?run (t + 1)))) * (W + 3)" "queue (uh_wr (?run (t + 1 + d))) = []"
    using sync_fifo.tx_all_leave [OF assms, of "t + 1"] by auto
  have "\<not> r_wr_fifo_write (uh_reg (?run (t + 1 + d)))"
    using assms(6) uart_hw_run_reg(2) [OF assms(2), of hs os "t + 1 + d"] by simp
  with d(2) have "uart_tx_pending queue (?run (t + 1 + d)) = []" by (simp add: uart_tx_pending_def)
  with tx [of "t + 1 + d"] have "uart_sent_bytes F os ?run (t + 1 + d) = uart_written_bytes F a hs ?run (t + 1 + d)" by simp
  moreover have "bit (uart_hw_rdt F (?run (t + 1 + d))) 10"
    using d(2) by (simp add: uart_hw_rdt_bits sync_fifo.empty [OF assms(1)])
  ultimately show ?thesis using d(1) unfolding q by (intro exI [of _ "t + 1 + d"]) simp
qed

text \<open>
  C25: When the UART's interrupt is pending: exactly from two cycles after a cycle in which one of the FIFOs has
  become nonempty. So a received byte that finds an empty FIFO interrupts, one that joins others does
  not; the end of a transmission never interrupts, but the first byte written into the idle transmitter
  does, though the entity promises it the other way round.
\<close>

theorem uart_interrupt_time:
  assumes "sync_fifo F queue depth" and "s = uart_hw_next F a True h0 o0 s0"
    and "\<forall>u. wb_cyc (hs u) \<longrightarrow> mmreg_decode 1 0x40000030 (wb_adr (hs u)) = None" and "\<not> bit (pr_irqs p) 1"
    and "uart_board_run F a max_count hs os (s, (tm, (mmreg_zero, p))) t = (s', (tm', (m', p')))"
  shows "bit (pr_irqs p') 1 \<longleftrightarrow> bit (pr_mask p) 1 \<and>
           (\<exists>u. u + 2 \<le> t \<and> (became_nonempty (\<lambda>v. queue (uh_rd (uart_hw_run F a hs os s v))) u \<or>
                            became_nonempty (\<lambda>v. queue (uh_wr (uart_hw_run F a hs os s v))) u))"
proof -
  let ?e = "\<lambda>u. became_nonempty (\<lambda>v. queue (uh_rd (uart_hw_run F a hs os s v))) u \<or>
    became_nonempty (\<lambda>v. queue (uh_wr (uart_hw_run F a hs os s v))) u"
  have "uart_hw_irq F (uart_hw_run F a hs os s u) \<longleftrightarrow> 1 \<le> u \<and> ?e (u - 1)" for u
    unfolding sync_fifo.irq_edge [OF assms(1,2)] became_nonempty_def by (cases u) simp_all
  then have "(\<exists>u < t. uart_hw_irq F (uart_hw_run F a hs os s u)) \<longleftrightarrow> (\<exists>u < t. 1 \<le> u \<and> ?e (u - 1))" by simp
  also have "\<dots> \<longleftrightarrow> (\<exists>u. u + 2 \<le> t \<and> ?e u)"
  proof
    assume "\<exists>u < t. 1 \<le> u \<and> ?e (u - 1)"
    then obtain u where u: "u < t" "1 \<le> u" "?e (u - 1)" by blast
    then have "u - 1 + 2 \<le> t" by simp
    with u(3) show "\<exists>u. u + 2 \<le> t \<and> ?e u" by blast
  next
    assume "\<exists>u. u + 2 \<le> t \<and> ?e u"
    then obtain u where u: "u + 2 \<le> t" "?e u" by blast
    then have "Suc u < t" "1 \<le> Suc u" "?e (Suc u - 1)" by simp_all
    then show "\<exists>u < t. 1 \<le> u \<and> ?e (u - 1)" by blast
  qed
  finally show ?thesis
    using uart_board_pending [OF assms(3), of F a max_count os s tm p t] assms(4,5) by auto
qed

subsection \<open>Witnesses\<close>

text \<open>A FIFO that fulfils the contract, with the depth of the entity.\<close>

definition list_fifo :: "u8 list fifo" where
  "list_fifo =
     \<lparr>fifo_next = (\<lambda>reset we d re q. if reset then [] else (if re then tl q else q) @ (if we then [d] else [])),
      fifo_out = (\<lambda>q. case q of [] \<Rightarrow> 0 | b # _ \<Rightarrow> b), fifo_is_full = fifo_full, fifo_is_empty = (\<lambda>q. q = [])\<rparr>"

interpretation listf: sync_fifo list_fifo "\<lambda>q. q" fifo_depth
  by unfold_locales (auto simp: list_fifo_def fifo_full_def fifo_depth_def split: list.split)

text \<open>The status word of the clocked peripheral is that of \<open>WbUart\<close>.\<close>

lemma uart_hw_rdt_wb_uart:
  "rd_fifo p = uh_rd s \<Longrightarrow> wr_fifo p = uh_wr s \<Longrightarrow> uart_hw_rdt list_fifo s = wb_uart_rdt 0 p"
  by (simp add: uart_hw_rdt_def wb_uart_rdt_def list_fifo_def)

text \<open>A byte written, a byte received, an acknowledgement and a read.\<close>

definition demo_uart_bus :: "nat \<Rightarrow> wb_host" where
  "demo_uart_bus t = (if t = 1 then wb_write 0x40000010 0x41 else if t = 5 then wb_read 0x40000010 else wb_quiet)"

definition demo_uart_core :: "nat \<Rightarrow> uart_core_out" where
  "demo_uart_core t = \<lparr>data_stream_in_ack = (t = 4), data_stream_out = 0x42, data_stream_out_stb = (t = 2)\<rparr>"

definition demo_uart_hw :: "nat \<Rightarrow> u8 list uart_hw" where
  "demo_uart_hw = uart_hw_run list_fifo 0x40000010 demo_uart_bus demo_uart_core
     (uart_hw_next list_fifo 0x40000010 True wb_quiet (demo_uart_core 0) \<lparr>uh_reg = reg_t_new, uh_rd = [], uh_wr = []\<rparr>)"

lemmas demo_uart_defs = demo_uart_bus_def demo_uart_core_def wb_write_def wb_read_def wb_quiet_def list_fifo_def fifo_full_def
  fifo_depth_def uart_hw_next_def uart_reg_next_def uart_bus_is_write_def uart_bus_is_read_def uart_hw_ack_def reg_t_new_def

lemma demo_uart_hw_0: "demo_uart_hw 0 = \<lparr>uh_reg = reg_t_new, uh_rd = [], uh_wr = []\<rparr>"
  by (simp add: demo_uart_hw_def demo_uart_defs)

lemma demo_uart_hw_Suc:
  "demo_uart_hw (Suc t) = uart_hw_next list_fifo 0x40000010 False (demo_uart_bus t) (demo_uart_core t) (demo_uart_hw t)"
  by (simp add: demo_uart_hw_def)

lemma demo_uart_hw_states:
  "demo_uart_hw 1 = \<lparr>uh_reg = reg_t_new, uh_rd = [], uh_wr = []\<rparr>"
  "demo_uart_hw 2 = \<lparr>uh_reg = reg_t_new\<lparr>r_bus_is_write := True, r_bus_d_in := 0x41, r_wr_fifo_write := True\<rparr>, uh_rd = [], uh_wr = []\<rparr>"
  "demo_uart_hw 3 = \<lparr>uh_reg = reg_t_new, uh_rd = [0x42], uh_wr = [0x41]\<rparr>"
  "demo_uart_hw 4 = \<lparr>uh_reg = reg_t_new\<lparr>r_wr_uart_strobe := True, r_rx_was_empty := False, r_tx_was_empty := False\<rparr>,
                    uh_rd = [0x42], uh_wr = [0x41]\<rparr>"
  "demo_uart_hw 5 = \<lparr>uh_reg = reg_t_new\<lparr>r_wr_uart_en := True, r_wr_uart_strobe := True, r_rx_was_empty := False, r_tx_was_empty := False\<rparr>,
                    uh_rd = [0x42], uh_wr = [0x41]\<rparr>"
  "demo_uart_hw 6 = \<lparr>uh_reg = reg_t_new\<lparr>r_bus_is_read := True, r_bus_d_out := 0x42, r_rd_fifo_read := True, r_wr_uart_strobe := True,
                    r_rx_was_empty := False, r_tx_was_empty := False\<rparr>, uh_rd = [], uh_wr = []\<rparr>"
proof -
  show s1: "demo_uart_hw 1 = \<lparr>uh_reg = reg_t_new, uh_rd = [], uh_wr = []\<rparr>"
    using demo_uart_hw_Suc [of 0] by (simp add: demo_uart_hw_0) (simp add: demo_uart_defs)
  show s2: "demo_uart_hw 2 = \<lparr>uh_reg = reg_t_new\<lparr>r_bus_is_write := True, r_bus_d_in := 0x41, r_wr_fifo_write := True\<rparr>, uh_rd = [], uh_wr = []\<rparr>"
    using demo_uart_hw_Suc [of 1] by (simp add: s1 [unfolded One_nat_def] numeral_2_eq_2) (simp add: demo_uart_defs)
  show s3: "demo_uart_hw 3 = \<lparr>uh_reg = reg_t_new, uh_rd = [0x42], uh_wr = [0x41]\<rparr>"
    using demo_uart_hw_Suc [of 2] by (simp add: s2) (simp add: demo_uart_defs)
  show s4: "demo_uart_hw 4 = \<lparr>uh_reg = reg_t_new\<lparr>r_wr_uart_strobe := True, r_rx_was_empty := False, r_tx_was_empty := False\<rparr>,
                    uh_rd = [0x42], uh_wr = [0x41]\<rparr>"
    using demo_uart_hw_Suc [of 3] by (simp add: s3) (simp add: demo_uart_defs)
  show s5: "demo_uart_hw 5 = \<lparr>uh_reg = reg_t_new\<lparr>r_wr_uart_en := True, r_wr_uart_strobe := True, r_rx_was_empty := False, r_tx_was_empty := False\<rparr>,
                    uh_rd = [0x42], uh_wr = [0x41]\<rparr>"
    using demo_uart_hw_Suc [of 4] by (simp add: s4) (simp add: demo_uart_defs)
  show "demo_uart_hw 6 = \<lparr>uh_reg = reg_t_new\<lparr>r_bus_is_read := True, r_bus_d_out := 0x42, r_rd_fifo_read := True, r_wr_uart_strobe := True,
                    r_rx_was_empty := False, r_tx_was_empty := False\<rparr>, uh_rd = [], uh_wr = []\<rparr>"
    using demo_uart_hw_Suc [of 5] by (simp add: s5) (simp add: demo_uart_defs)
qed

lemma demo_uart_hw_end: "demo_uart_hw (7 + n) = \<lparr>uh_reg = reg_t_new, uh_rd = [], uh_wr = []\<rparr>"
proof (induction n)
  case 0
  then show ?case using demo_uart_hw_Suc [of 6] by (simp add: demo_uart_hw_states) (simp add: demo_uart_defs)
next
  case (Suc n)
  then show ?case using demo_uart_hw_Suc [of "7 + n"] by simp (simp add: demo_uart_defs)
qed

lemma demo_uart_hw_strobe: "r_wr_uart_strobe (uh_reg (demo_uart_hw t)) \<longleftrightarrow> t \<in> {4, 5, 6}"
proof (cases "7 \<le> t")
  case True
  then obtain n where "t = 7 + n" using le_Suc_ex by blast
  then show ?thesis by (simp add: demo_uart_hw_end)
next
  case False
  then have "t \<in> {0, 1, 2, 3, 4, 5, 6}" by auto
  then show ?thesis
    by (elim insertE emptyE) (simp_all add: demo_uart_hw_0 demo_uart_hw_states demo_uart_hw_states(1) [unfolded One_nat_def])
qed

lemma demo_uart_ok:
  "\<forall>t. \<not> (uart_bus_is_write 0x40000010 (demo_uart_bus t) \<and> uart_bus_is_write 0x40000010 (demo_uart_bus (Suc t)))"
  "\<forall>t. data_stream_in_ack (demo_uart_core t) \<longrightarrow> r_wr_uart_strobe (uh_reg (demo_uart_hw t)) \<and>
     \<not> data_stream_in_ack (demo_uart_core (t + 1)) \<and> \<not> data_stream_in_ack (demo_uart_core (t + 2))"
  "\<forall>t. (\<forall>u \<le> 2. r_wr_uart_strobe (uh_reg (demo_uart_hw (t + u)))) \<longrightarrow> (\<exists>u \<le> 2. data_stream_in_ack (demo_uart_core (t + u)))"
  "\<forall>u \<ge> 2. \<not> uart_bus_is_write 0x40000010 (demo_uart_bus u)"
proof -
  show "\<forall>t. (\<forall>u \<le> 2. r_wr_uart_strobe (uh_reg (demo_uart_hw (t + u)))) \<longrightarrow> (\<exists>u \<le> 2. data_stream_in_ack (demo_uart_core (t + u)))"
  proof (intro allI impI)
    fix t
    assume "\<forall>u \<le> 2. r_wr_uart_strobe (uh_reg (demo_uart_hw (t + u)))"
    then have st: "t + u \<in> {4, 5, 6}" if "u \<le> 2" for u using that unfolding demo_uart_hw_strobe by blast
    have "t + 0 \<in> {4, 5, 6}" "t + 2 \<in> {4, 5, 6}" by (rule st, simp)+
    then have "t = 4" by auto
    then show "\<exists>u \<le> 2. data_stream_in_ack (demo_uart_core (t + u))" by (intro exI [of _ 0]) (simp add: demo_uart_core_def)
  qed
qed (auto simp: demo_uart_hw_strobe demo_uart_bus_def demo_uart_core_def uart_bus_is_write_def wb_write_def wb_read_def wb_quiet_def)

theorem wb_uart_refines_queues_witness:
  "uart_sent_bytes list_fifo demo_uart_core demo_uart_hw 6 = [0x41] \<and>
   uart_received_bytes list_fifo demo_uart_core demo_uart_hw 6 = [0x42] \<and>
   uart_read_bytes list_fifo 0x40000010 demo_uart_bus demo_uart_hw 6 = [0x42]"
proof -
  have r: "[0..<6] = [0, 1, 2, 3, 4, 5 :: nat]" by (simp add: upt_rec)
  have w: "uart_written_bytes list_fifo 0x40000010 demo_uart_bus demo_uart_hw 6 = [0x41]"
    unfolding uart_written_bytes_def r
    by (simp add: demo_uart_bus_def uart_bus_is_write_def wb_write_def wb_read_def wb_quiet_def uart_hw_rdt_bits
        demo_uart_hw_states [unfolded One_nat_def] listf.full fifo_depth_def)
  have rx: "uart_received_bytes list_fifo demo_uart_core demo_uart_hw 6 = [0x42]"
    unfolding uart_received_bytes_def r
    by (simp add: demo_uart_core_def uart_hw_rdt_bits demo_uart_hw_states listf.full fifo_depth_def)
  from wb_uart_refines_queues [OF listf.sync_fifo_axioms refl demo_uart_ok(1) demo_uart_ok(2) [unfolded demo_uart_hw_def], of 6,
      folded demo_uart_hw_def]
  show ?thesis unfolding w rx by (simp add: demo_uart_hw_states uart_tx_pending_def reg_t_new_def)
qed

lemma wb_uart_drains_witness:
  "\<exists>T \<le> 8. bit (uart_hw_rdt list_fifo (demo_uart_hw T)) 10 \<and>
     uart_sent_bytes list_fifo demo_uart_core demo_uart_hw T = uart_written_bytes list_fifo 0x40000010 demo_uart_bus demo_uart_hw T"
  using wb_uart_drains [OF listf.sync_fifo_axioms refl demo_uart_ok(1) demo_uart_ok(2,3) [unfolded demo_uart_hw_def] demo_uart_ok(4),
      folded demo_uart_hw_def]
  by (simp add: demo_uart_hw_states uart_tx_pending_def)

theorem uart_interrupt_time_witness:
  "bit (pr_irqs (snd (snd (snd (uart_board_run list_fifo 0x40000010 10 demo_uart_bus demo_uart_core (demo_uart_hw 0,
      ((mmreg_zero, \<lparr>tr_irq = False, tr_count = 3\<rparr>), (mmreg_zero, \<lparr>pr_mask = 2, pr_irqs = 0\<rparr>))) 4))))) 1"
proof -
  let ?b = "((mmreg_zero, \<lparr>tr_irq = False, tr_count = 3\<rparr>), (mmreg_zero, \<lparr>pr_mask = 2, pr_irqs = 0\<rparr>))"
  obtain s' tm' m' p' where r: "uart_board_run list_fifo 0x40000010 10 demo_uart_bus demo_uart_core (demo_uart_hw 0, ?b) 4 = (s', (tm', (m', p')))"
    by (metis prod.collapse)
  have start: "demo_uart_hw 0 = uart_hw_next list_fifo 0x40000010 True wb_quiet (demo_uart_core 0) \<lparr>uh_reg = reg_t_new, uh_rd = [], uh_wr = []\<rparr>"
    by (simp add: demo_uart_hw_def)
  have run: "uart_hw_run list_fifo 0x40000010 demo_uart_bus demo_uart_core (demo_uart_hw 0) = demo_uart_hw"
    by (simp add: demo_uart_hw_def)
  have other: "\<forall>u. wb_cyc (demo_uart_bus u) \<longrightarrow> mmreg_decode 1 0x40000030 (wb_adr (demo_uart_bus u)) = None"
    by (auto simp: demo_uart_bus_def wb_write_def wb_read_def wb_quiet_def mmreg_decode_def mask_eq_exp_minus_1)
  have "bit (2 :: u32) 1" by simp
  moreover have "became_nonempty (\<lambda>v. uh_rd (demo_uart_hw v)) 2"
    by (simp add: became_nonempty_def demo_uart_hw_states)
  ultimately have "bit (pr_irqs p') 1"
    using uart_interrupt_time [OF listf.sync_fifo_axioms start other _ r] unfolding run by (auto intro: exI [of _ 2])
  with r show ?thesis by simp
qed

end
