(* ===== verification/UartClock.thy ===== *)
theory UartClock
  imports UartHw UartIO
begin

text \<open>
  The polled driver on the clocked UART. An access of the processor is one cycle on the bus and some quiet
  cycles until the next one; the serial core of the external library is a machine with the contract
  \<open>serial_core\<close>. The peripheral of \<open>UartHw\<close>, with any FIFO and any core that keep their contracts and
  however long the processor takes between its accesses, provides the contract \<open>uart_dev\<close> over which the
  driver is verified, as long as the input still to come fits into the receive FIFO. So under this condition what is proved of
  the driver holds on the hardware, clock cycle by clock cycle.
\<close>

subsection \<open>The serial core and the accesses\<close>

record 'c core =
  core_out :: "bool \<Rightarrow> 'c \<Rightarrow> uart_core_out"
  core_next :: "bool \<Rightarrow> u8 \<Rightarrow> 'c \<Rightarrow> 'c"

text \<open>
  What the peripheral relies on in the core, which is not in the repository. Under the strobe the core takes the byte on its input
  (\<open>takes\<close>, and \<open>sent\<close> are the bytes it has taken), and says so once: in the same cycle or, from a register, in a later
  one (\<open>due\<close>: a byte is taken and not yet acknowledged). It does not take another before that, nor in the two
  cycles after the acknowledge, which the peripheral needs to move its FIFO (\<open>hold\<close> is how long it will not); it
  sends a byte of ten bits then, each many cycles long. Under the strobe the next acknowledge comes within \<open>W\<close> cycles. The bytes of the line arrive one by one.
\<close>

locale serial_core =
  fixes C :: "'c core" and cinv :: "'c \<Rightarrow> bool" and sent :: "'c \<Rightarrow> u8 list" and line :: "'c \<Rightarrow> u8 list"
    and takes :: "bool \<Rightarrow> 'c \<Rightarrow> bool" and due :: "'c \<Rightarrow> bool"
    and hold :: "'c \<Rightarrow> nat" and ack_wait :: "'c \<Rightarrow> nat" and arrival :: "'c \<Rightarrow> nat" and W :: nat
  assumes core_inv: "cinv c \<Longrightarrow> cinv (core_next C st b c)"
    and take_strobe: "cinv c \<Longrightarrow> takes st c \<Longrightarrow> st \<and> \<not> due c \<and> hold c = 0"
    and take_step: "cinv c \<Longrightarrow> sent (core_next C st b c) = sent c @ (if takes st c then [b] else [])"
    and ack_due: "cinv c \<Longrightarrow> data_stream_in_ack (core_out C st c) \<Longrightarrow> takes st c \<or> due c"
    and due_step: "cinv c \<Longrightarrow>
          due (core_next C st b c) \<longleftrightarrow> (takes st c \<or> due c) \<and> \<not> data_stream_in_ack (core_out C st c)"
    and ack_step: "cinv c \<Longrightarrow> data_stream_in_ack (core_out C st c) \<Longrightarrow> 2 \<le> hold (core_next C st b c)"
    and no_ack_step: "cinv c \<Longrightarrow> \<not> data_stream_in_ack (core_out C st c) \<Longrightarrow>
          hold c \<le> Suc (hold (core_next C st b c)) \<and> (st \<longrightarrow> ack_wait (core_next C st b c) < ack_wait c)"
    and ack_bound: "cinv c \<Longrightarrow> ack_wait c \<le> W"
    and rx_step: "cinv c \<Longrightarrow> data_stream_out_stb (core_out C st c) \<Longrightarrow>
          line c = data_stream_out (core_out C st c) # line (core_next C st b c)"
    and no_rx_step: "cinv c \<Longrightarrow> \<not> data_stream_out_stb (core_out C st c) \<Longrightarrow>
          line (core_next C st b c) = line c \<and> (line c \<noteq> [] \<longrightarrow> arrival (core_next C st b c) < arrival c)"

text \<open>Peripheral, core and the number of accesses so far, after which the processor pauses \<open>G\<close> of it cycles.\<close>

record ('f, 'c) clk_uart =
  cu_hw :: "'f uart_hw"
  cu_core :: 'c
  cu_count :: nat

definition clk_uart_cycle :: "'f fifo \<Rightarrow> 'c core \<Rightarrow> wb_host \<Rightarrow> ('f, 'c) clk_uart \<Rightarrow> ('f, 'c) clk_uart" where
  "clk_uart_cycle F C h d =
     (let st = r_wr_uart_strobe (uh_reg (cu_hw d)) in
      d\<lparr>cu_hw := uart_hw_next F UART_ADDRESS False h (core_out C st (cu_core d)) (cu_hw d),
        cu_core := core_next C st (fifo_out F (uh_wr (cu_hw d))) (cu_core d)\<rparr>)"

definition clk_uart_access :: "'f fifo \<Rightarrow> 'c core \<Rightarrow> (nat \<Rightarrow> nat) \<Rightarrow> wb_host \<Rightarrow> ('f, 'c) clk_uart \<Rightarrow> ('f, 'c) clk_uart" where
  "clk_uart_access F C G h d =
     ((clk_uart_cycle F C wb_quiet) ^^ G (cu_count d)) (clk_uart_cycle F C h (d\<lparr>cu_count := Suc (cu_count d)\<rparr>))"

definition clk_uart_bus :: "'f fifo \<Rightarrow> 'c core \<Rightarrow> (nat \<Rightarrow> nat) \<Rightarrow> ('f, 'c) clk_uart bus" where
  "clk_uart_bus F C G =
     \<lparr>rd32 = (\<lambda>a d. if a = UART_ADDRESS then (uart_hw_rdt F (cu_hw d), clk_uart_access F C G (wb_read a) d) else (0, d)),
      wr32 = (\<lambda>a v d. if a = UART_ADDRESS then clk_uart_access F C G (wb_write a v) d else d)\<rparr>"

subsection \<open>The observations of the contract\<close>

definition cu_inp :: "('f \<Rightarrow> u8 list) \<Rightarrow> ('c \<Rightarrow> u8 list) \<Rightarrow> ('f, 'c) clk_uart \<Rightarrow> u8 list" where
  "cu_inp queue line d = queue (uh_rd (cu_hw d)) @ line (cu_core d)"

text \<open>A byte that is taken but not yet acknowledged is still at the head of the FIFO.\<close>

definition cu_tx :: "('f \<Rightarrow> u8 list) \<Rightarrow> ('c \<Rightarrow> u8 list) \<Rightarrow> ('c \<Rightarrow> bool) \<Rightarrow> ('f, 'c) clk_uart \<Rightarrow> u8 list" where
  "cu_tx queue sent due d =
     sent (cu_core d) @ (if due (cu_core d) then tl (uart_tx_pending queue (cu_hw d)) else uart_tx_pending queue (cu_hw d))"

definition cu_room :: "('f \<Rightarrow> u8 list) \<Rightarrow> nat \<Rightarrow> ('f, 'c) clk_uart \<Rightarrow> bool" where
  "cu_room queue depth d \<longleftrightarrow> length (queue (uh_wr (cu_hw d))) < depth"

text \<open>
  Every cycle with a byte in the transmit FIFO brings the next acknowledgement or the next removal closer;
  every cycle with an empty receive FIFO the next byte.
\<close>

definition cu_tx_wait :: "('f \<Rightarrow> u8 list) \<Rightarrow> ('c \<Rightarrow> nat) \<Rightarrow> nat \<Rightarrow> ('f, 'c) clk_uart \<Rightarrow> nat" where
  "cu_tx_wait queue ack_wait W d =
     length (queue (uh_wr (cu_hw d))) * (W + 3) +
     (if queue (uh_wr (cu_hw d)) = [] \<or> r_wr_uart_en (uh_reg (cu_hw d)) then 0
      else if r_wr_uart_strobe (uh_reg (cu_hw d)) then 1 + ack_wait (cu_core d) else W + 2)"

definition cu_rx_wait :: "('f \<Rightarrow> u8 list) \<Rightarrow> ('c \<Rightarrow> nat) \<Rightarrow> ('f, 'c) clk_uart \<Rightarrow> nat" where
  "cu_rx_wait queue arrival d = (if queue (uh_rd (cu_hw d)) = [] then Suc (arrival (cu_core d)) else 0)"

text \<open>The invariant of a cycle, and that between accesses: then no byte is in the write register.\<close>

definition cu_ok :: "('f \<Rightarrow> u8 list) \<Rightarrow> nat \<Rightarrow> ('c \<Rightarrow> bool) \<Rightarrow> ('c \<Rightarrow> bool) \<Rightarrow> ('c \<Rightarrow> nat) \<Rightarrow> ('f, 'c) clk_uart \<Rightarrow> bool" where
  "cu_ok queue depth cinv due hold d \<longleftrightarrow>
     cinv (cu_core d) \<and> length (queue (uh_wr (cu_hw d))) \<le> depth \<and>
     (r_wr_fifo_write (uh_reg (cu_hw d)) \<longrightarrow> length (queue (uh_wr (cu_hw d))) < depth) \<and>
     (due (cu_core d) \<longrightarrow> queue (uh_wr (cu_hw d)) \<noteq> [] \<and> \<not> r_wr_uart_en (uh_reg (cu_hw d))) \<and>
     (r_wr_uart_en (uh_reg (cu_hw d)) \<longrightarrow> queue (uh_wr (cu_hw d)) \<noteq> [] \<and> 2 \<le> hold (cu_core d)) \<and>
     (r_wr_uart_strobe (uh_reg (cu_hw d)) \<and> queue (uh_wr (cu_hw d)) = [] \<longrightarrow> 1 \<le> hold (cu_core d))"

definition cu_inv :: "('f \<Rightarrow> u8 list) \<Rightarrow> nat \<Rightarrow> ('c \<Rightarrow> bool) \<Rightarrow> ('c \<Rightarrow> bool) \<Rightarrow> ('c \<Rightarrow> nat) \<Rightarrow> ('f, 'c) clk_uart \<Rightarrow> bool" where
  "cu_inv queue depth cinv due hold d \<longleftrightarrow>
     cu_ok queue depth cinv due hold d \<and> \<not> r_wr_fifo_write (uh_reg (cu_hw d))"

text \<open>
  The line has no flow control, and a byte that arrives at a full receive FIFO is lost. That no input is lost therefore
  takes the condition \<open>cu_fits\<close>: the bytes in the receive FIFO and all that are still to come fit into it together.
\<close>

definition cu_fits :: "('f \<Rightarrow> u8 list) \<Rightarrow> nat \<Rightarrow> ('c \<Rightarrow> u8 list) \<Rightarrow> ('f, 'c) clk_uart \<Rightarrow> bool" where
  "cu_fits queue depth line d \<longleftrightarrow> length (cu_inp queue line d) \<le> depth"

locale clocked_uart = sync_fifo F queue depth + serial_core C cinv sent line takes due hold ack_wait arrival W
  for F :: "'f fifo" and queue depth and C :: "'c core" and cinv sent line takes due hold ack_wait arrival W +
  fixes G :: "nat \<Rightarrow> nat"
  assumes pause: "1 \<le> G n"
begin

abbreviation "ok \<equiv> \<lambda>d. cu_ok queue depth cinv due hold d \<and> cu_fits queue depth line d"
abbreviation "good \<equiv> \<lambda>d. cu_inv queue depth cinv due hold d \<and> cu_fits queue depth line d"
abbreviation "cyc \<equiv> clk_uart_cycle F C"

lemma cycle_fields:
  "uh_reg (cu_hw (cyc h d)) = uart_reg_next F UART_ADDRESS False h (core_out C (r_wr_uart_strobe (uh_reg (cu_hw d))) (cu_core d)) (cu_hw d)"
  "cu_core (cyc h d) = core_next C (r_wr_uart_strobe (uh_reg (cu_hw d))) (fifo_out F (uh_wr (cu_hw d))) (cu_core d)"
  "cu_hw (cyc h d) = uart_hw_next F UART_ADDRESS False h (core_out C (r_wr_uart_strobe (uh_reg (cu_hw d))) (cu_core d)) (cu_hw d)"
  "cu_count (cyc h d) = cu_count d"
  by (simp_all add: clk_uart_cycle_def Let_def)

lemma cycle_wr: "ok d \<Longrightarrow> queue (uh_wr (cu_hw (cyc h d))) = uart_tx_pending queue (cu_hw d)"
  unfolding cycle_fields(3) by (rule wr_step) (simp_all add: cu_ok_def)

text \<open>The core takes a byte only when there is one at the head of the FIFO that is not about to leave.\<close>

lemma take_head:
  assumes "ok d" and "takes (r_wr_uart_strobe (uh_reg (cu_hw d))) (cu_core d)"
  shows "queue (uh_wr (cu_hw d)) \<noteq> [] \<and> \<not> r_wr_uart_en (uh_reg (cu_hw d)) \<and> \<not> due (cu_core d)"
  using take_strobe [OF _ assms(2)] assms(1) by (auto simp: cu_ok_def)

lemma ack_head:
  assumes "ok d" and "data_stream_in_ack (core_out C (r_wr_uart_strobe (uh_reg (cu_hw d))) (cu_core d))"
  shows "queue (uh_wr (cu_hw d)) \<noteq> [] \<and> \<not> r_wr_uart_en (uh_reg (cu_hw d))"
  using ack_due [OF _ assms(2)] take_head [OF assms(1)] assms(1) by (auto simp: cu_ok_def)

text \<open>One cycle, seen from the driver's side.\<close>

lemma cycle_tx:
  assumes "ok d"
  shows "cu_tx queue sent due (cyc h d) = cu_tx queue sent due d @
           (if uart_bus_is_write UART_ADDRESS h \<and> \<not> fifo_is_full F (uh_wr (cu_hw d)) then [ucast (wb_dat h)] else [])"
proof -
  let ?st = "r_wr_uart_strobe (uh_reg (cu_hw d))" and ?P = "uart_tx_pending queue (cu_hw d)"
  let ?b = "fifo_out F (uh_wr (cu_hw d))"
  let ?ack = "data_stream_in_ack (core_out C ?st (cu_core d))"
  let ?w = "if uart_bus_is_write UART_ADDRESS h \<and> \<not> fifo_is_full F (uh_wr (cu_hw d)) then [ucast (wb_dat h)] else []"
  have c: "cinv (cu_core d)" using assms by (simp add: cu_ok_def)
  have p: "uart_tx_pending queue (cu_hw (cyc h d)) = (if ?ack then tl ?P else ?P) @ ?w"
    by (subst uart_tx_pending_def, subst (1 2) cycle_wr [OF assms]) (simp add: cycle_fields(1))
  have s: "sent (cu_core (cyc h d)) = sent (cu_core d) @ (if takes ?st (cu_core d) then [?b] else [])"
    "due (cu_core (cyc h d)) \<longleftrightarrow> (takes ?st (cu_core d) \<or> due (cu_core d)) \<and> \<not> ?ack"
    using take_step [OF c] due_step [OF c] by (simp_all add: cycle_fields(2))
  have ne: "?P = ?b # tl ?P" if "takes ?st (cu_core d) \<or> due (cu_core d)"
  proof -
    have "queue (uh_wr (cu_hw d)) \<noteq> []" "\<not> r_wr_uart_en (uh_reg (cu_hw d))"
      using that take_head [OF assms] assms by (auto simp: cu_ok_def)
    then show ?thesis using head [of "uh_wr (cu_hw d)"] by (auto simp: uart_tx_pending_def neq_Nil_conv)
  qed
  consider (take) "takes ?st (cu_core d)" "\<not> due (cu_core d)" | (due) "\<not> takes ?st (cu_core d)" "due (cu_core d)"
    | (neither) "\<not> takes ?st (cu_core d)" "\<not> due (cu_core d)" "\<not> ?ack"
    using take_head [OF assms] ack_due [OF c] by blast
  then show ?thesis
  proof cases
    case take
    obtain P where P: "?P = ?b # P" using ne take by blast
    show ?thesis unfolding cu_tx_def p s P using take by simp
  next
    case due
    obtain x P where P: "?P = x # P" using ne due by blast
    show ?thesis unfolding cu_tx_def p s P using due by simp
  next
    case neither
    show ?thesis unfolding cu_tx_def p s using neither by simp
  qed
qed

lemma cycle_inp:
  assumes "ok d"
  shows "cu_inp queue line d =
    (if uart_bus_is_read UART_ADDRESS h then take 1 (queue (uh_rd (cu_hw d))) else []) @ cu_inp queue line (cyc h d)"
proof -
  let ?st = "r_wr_uart_strobe (uh_reg (cu_hw d))" and ?Q = "queue (uh_rd (cu_hw d))"
  let ?uo = "core_out C ?st (cu_core d)"
  have c: "cinv (cu_core d)" and fits: "length ?Q + length (line (cu_core d)) \<le> depth"
    using assms by (simp_all add: cu_ok_def cu_fits_def cu_inp_def)
  have "\<not> fifo_is_full F (uh_rd (cu_hw d))" if "data_stream_out_stb ?uo"
    using rx_step [OF c that, of 0] fits by (auto simp: full)
  then have q: "queue (uh_rd (cu_hw (cyc h d))) = (if uart_bus_is_read UART_ADDRESS h then tl ?Q else ?Q) @
      (if data_stream_out_stb ?uo then [data_stream_out ?uo] else [])"
    using rd_step [of UART_ADDRESS h ?uo "cu_hw d"] by (auto simp: cycle_fields(3))
  have l: "line (cu_core d) = (if data_stream_out_stb ?uo then [data_stream_out ?uo] else []) @ line (cu_core (cyc h d))"
    using rx_step [OF c] no_rx_step [OF c] by (simp add: cycle_fields(2))
  have "?Q = (if uart_bus_is_read UART_ADDRESS h then take 1 ?Q else []) @ (if uart_bus_is_read UART_ADDRESS h then tl ?Q else ?Q)"
    by (cases ?Q) simp_all
  then show ?thesis unfolding cu_inp_def q l by simp
qed

lemma cycle_reg:
  "r_wr_uart_en (uh_reg (cu_hw (cyc h d))) = data_stream_in_ack (core_out C (r_wr_uart_strobe (uh_reg (cu_hw d))) (cu_core d))"
  "r_wr_fifo_write (uh_reg (cu_hw (cyc h d))) \<longleftrightarrow> uart_bus_is_write UART_ADDRESS h \<and> length (queue (uh_wr (cu_hw d))) < depth"
  "r_wr_uart_strobe (uh_reg (cu_hw (cyc h d))) \<longleftrightarrow> queue (uh_wr (cu_hw d)) \<noteq> []"
  by (auto simp: cycle_fields(1) full empty)

lemma cycle_ok:
  assumes "ok d" and "uart_bus_is_write UART_ADDRESS h \<Longrightarrow> \<not> r_wr_fifo_write (uh_reg (cu_hw d))"
  shows "ok (cyc h d)"
proof -
  let ?st = "r_wr_uart_strobe (uh_reg (cu_hw d))"
  let ?ack = "data_stream_in_ack (core_out C ?st (cu_core d))"
  note d = assms(1) [unfolded cu_ok_def cu_fits_def]
  have c: "cinv (cu_core d)" using d by simp
  have q: "queue (uh_wr (cu_hw (cyc h d))) = uart_tx_pending queue (cu_hw d)" by (rule cycle_wr [OF assms(1)])
  have 1: "length (cu_inp queue line (cyc h d)) \<le> depth" using cycle_inp [OF assms(1), of h] d by simp
  have 2: "length (uart_tx_pending queue (cu_hw d)) \<le> depth" using d by (auto simp: uart_tx_pending_def)
  have 3: "length (uart_tx_pending queue (cu_hw d)) < depth" if "r_wr_fifo_write (uh_reg (cu_hw (cyc h d)))"
    using that assms(2) by (auto simp: cycle_reg uart_tx_pending_def)
  have 6: "uart_tx_pending queue (cu_hw d) \<noteq> [] \<and> \<not> ?ack" if "due (cu_core (cyc h d))"
    using that take_head [OF assms(1)] d due_step [OF c] by (auto simp: cycle_fields(2) uart_tx_pending_def)
  have 4: "uart_tx_pending queue (cu_hw d) \<noteq> [] \<and> 2 \<le> hold (cu_core (cyc h d))" if "?ack"
    using ack_head [OF assms(1) that] ack_step [OF c that] by (simp add: uart_tx_pending_def cycle_fields(2))
  have 5: "1 \<le> hold (cu_core (cyc h d))" if "queue (uh_wr (cu_hw d)) \<noteq> []" "uart_tx_pending queue (cu_hw d) = []"
  proof -
    have en: "r_wr_uart_en (uh_reg (cu_hw d))" using that by (auto simp: uart_tx_pending_def split: if_splits)
    then have "2 \<le> hold (cu_core d)" using d by simp
    moreover have "\<not> ?ack" using ack_head [OF assms(1)] en by blast
    ultimately have "2 \<le> Suc (hold (cu_core (cyc h d)))"
      using no_ack_step [OF c, of ?st "fifo_out F (uh_wr (cu_hw d))"] by (simp add: cycle_fields(2))
    then show ?thesis by simp
  qed
  show ?thesis
    unfolding cu_ok_def cu_fits_def using core_inv [OF c] 1 2 3 4 5 6 by (auto simp: cycle_fields(2) q cycle_reg(1,3))
qed

lemma cycle_tx_wait:
  assumes "ok d" and "\<not> r_wr_fifo_write (uh_reg (cu_hw d))"
  shows "length (queue (uh_wr (cu_hw (cyc h d)))) \<le> length (queue (uh_wr (cu_hw d)))"
    and "cu_tx_wait queue ack_wait W (cyc h d) \<le> cu_tx_wait queue ack_wait W d"
    and "queue (uh_wr (cu_hw d)) \<noteq> [] \<Longrightarrow> cu_tx_wait queue ack_wait W (cyc h d) < cu_tx_wait queue ack_wait W d"
proof -
  let ?st = "r_wr_uart_strobe (uh_reg (cu_hw d))" and ?Q = "queue (uh_wr (cu_hw d))"
  let ?ack = "data_stream_in_ack (core_out C ?st (cu_core d))"
  have c: "cinv (cu_core d)" using assms(1) by (simp add: cu_ok_def)
  have q: "queue (uh_wr (cu_hw (cyc h d))) = (if r_wr_uart_en (uh_reg (cu_hw d)) then tl ?Q else ?Q)"
    using cycle_wr [OF assms(1), of h] assms(2) by (simp add: uart_tx_pending_def)
  then show "length (queue (uh_wr (cu_hw (cyc h d)))) \<le> length ?Q" by simp
  have b: "ack_wait (cu_core (cyc h d)) \<le> W" unfolding cycle_fields(2) by (rule ack_bound [OF core_inv [OF c]])
  have na: "\<not> ?ack \<Longrightarrow> ?st \<Longrightarrow> ack_wait (cu_core (cyc h d)) < ack_wait (cu_core d)"
    using no_ack_step [OF c, of ?st "fifo_out F (uh_wr (cu_hw d))"] by (simp add: cycle_fields(2))
  show less: "cu_tx_wait queue ack_wait W (cyc h d) < cu_tx_wait queue ack_wait W d" if ne: "?Q \<noteq> []"
  proof (cases "r_wr_uart_en (uh_reg (cu_hw d))")
    case True
    obtain x xs where "?Q = x # xs" using ne by (cases ?Q) auto
    with True b show ?thesis by (simp add: cu_tx_wait_def q cycle_reg)
  next
    case False
    with ne b na show ?thesis by (auto simp: cu_tx_wait_def q cycle_reg)
  qed
  show "cu_tx_wait queue ack_wait W (cyc h d) \<le> cu_tx_wait queue ack_wait W d"
  proof (cases "?Q = []")
    case True
    then show ?thesis by (simp add: cu_tx_wait_def q)
  qed (use less in simp)
qed

lemma cycle_rx_wait:
  assumes "ok d" and "queue (uh_rd (cu_hw d)) = []" and "cu_inp queue line d \<noteq> []"
  shows "cu_rx_wait queue arrival (cyc h d) < cu_rx_wait queue arrival d"
proof -
  let ?uo = "core_out C (r_wr_uart_strobe (uh_reg (cu_hw d))) (cu_core d)"
  have c: "cinv (cu_core d)" using assms(1) by (simp add: cu_ok_def)
  have l: "line (cu_core d) \<noteq> []" using assms(2,3) by (simp add: cu_inp_def)
  have q: "queue (uh_rd (cu_hw (cyc h d))) = (if data_stream_out_stb ?uo then [data_stream_out ?uo] else [])"
    using assms(2) depth_pos rd_step [of UART_ADDRESS h ?uo "cu_hw d"] by (auto simp: cycle_fields(3) full)
  show ?thesis
    using no_rx_step [OF c] l assms(2) by (auto simp: cu_rx_wait_def q cycle_fields(2))
qed

text \<open>Quiet cycles, and a whole access.\<close>

lemma quiet_bus [simp]: "\<not> uart_bus_is_write UART_ADDRESS wb_quiet" "\<not> uart_bus_is_read UART_ADDRESS wb_quiet"
  by (simp_all add: uart_bus_is_write_def uart_bus_is_read_def wb_quiet_def)

lemma access_bus [simp]:
  "uart_bus_is_read UART_ADDRESS (wb_read UART_ADDRESS)" "\<not> uart_bus_is_write UART_ADDRESS (wb_read UART_ADDRESS)"
  "uart_bus_is_write UART_ADDRESS (wb_write UART_ADDRESS v)" "\<not> uart_bus_is_read UART_ADDRESS (wb_write UART_ADDRESS v)"
  "wb_dat (wb_write UART_ADDRESS v) = v"
  by (simp_all add: uart_bus_is_write_def uart_bus_is_read_def wb_read_def wb_write_def bit_iff_odd)

lemma count_irrelevant [simp]:
  "cu_ok queue depth cinv due hold (d\<lparr>cu_count := n\<rparr>) = cu_ok queue depth cinv due hold d"
  "cu_fits queue depth line (d\<lparr>cu_count := n\<rparr>) = cu_fits queue depth line d"
  "cu_tx queue sent due (d\<lparr>cu_count := n\<rparr>) = cu_tx queue sent due d" "cu_inp queue line (d\<lparr>cu_count := n\<rparr>) = cu_inp queue line d"
  "cu_tx_wait queue ack_wait W (d\<lparr>cu_count := n\<rparr>) = cu_tx_wait queue ack_wait W d"
  "cu_rx_wait queue arrival (d\<lparr>cu_count := n\<rparr>) = cu_rx_wait queue arrival d"
  by (simp_all add: cu_ok_def cu_fits_def cu_tx_def cu_inp_def cu_tx_wait_def cu_rx_wait_def)

lemma quiet_cycles:
  assumes "ok d"
  shows "ok ((cyc wb_quiet ^^ n) d) \<and> cu_tx queue sent due ((cyc wb_quiet ^^ n) d) = cu_tx queue sent due d \<and>
         cu_inp queue line ((cyc wb_quiet ^^ n) d) = cu_inp queue line d \<and>
         (1 \<le> n \<longrightarrow> \<not> r_wr_fifo_write (uh_reg (cu_hw ((cyc wb_quiet ^^ n) d))))"
proof (induction n)
  case (Suc n)
  then have o: "ok ((cyc wb_quiet ^^ n) d)" by blast
  show ?case using Suc cycle_ok [OF o, of wb_quiet] cycle_tx [OF o, of wb_quiet] cycle_inp [OF o, of wb_quiet] by (simp add: cycle_reg)
qed (simp add: assms)

lemma quiet_waits:
  assumes "ok d" and "\<not> r_wr_fifo_write (uh_reg (cu_hw d))"
  shows "length (queue (uh_wr (cu_hw ((cyc wb_quiet ^^ n) d)))) \<le> length (queue (uh_wr (cu_hw d))) \<and>
         cu_tx_wait queue ack_wait W ((cyc wb_quiet ^^ n) d) \<le> cu_tx_wait queue ack_wait W d \<and>
         (cu_inp queue line d \<noteq> [] \<longrightarrow> cu_rx_wait queue arrival ((cyc wb_quiet ^^ n) d) \<le> cu_rx_wait queue arrival d)"
proof (induction n)
  case (Suc n)
  let ?d = "(cyc wb_quiet ^^ n) d"
  have o: "ok ?d" "cu_inp queue line ?d = cu_inp queue line d" using quiet_cycles [OF assms(1), of n] by blast+
  have w: "\<not> r_wr_fifo_write (uh_reg (cu_hw ?d))" using quiet_cycles [OF assms(1), of n] assms(2) by (cases n) auto
  have "queue (uh_rd (cu_hw (cyc wb_quiet ?d))) \<noteq> []" if "queue (uh_rd (cu_hw ?d)) \<noteq> []"
    using that rd_step [of UART_ADDRESS wb_quiet _ "cu_hw ?d"] by (simp add: cycle_fields(3))
  then have "cu_inp queue line d \<noteq> [] \<longrightarrow> cu_rx_wait queue arrival (cyc wb_quiet ?d) \<le> cu_rx_wait queue arrival ?d"
    using cycle_rx_wait [OF o(1), of wb_quiet] o(2) by (cases "queue (uh_rd (cu_hw ?d)) = []") (auto simp: cu_rx_wait_def intro: less_imp_le)
  with Suc cycle_tx_wait(1,2) [OF o(1) w, of wb_quiet] show ?case by auto
qed simp

lemma access_facts:
  assumes "good d"
  shows "good (clk_uart_access F C G h d)"
    and "cu_tx queue sent due (clk_uart_access F C G h d) = cu_tx queue sent due d @
           (if uart_bus_is_write UART_ADDRESS h \<and> \<not> fifo_is_full F (uh_wr (cu_hw d)) then [ucast (wb_dat h)] else [])"
    and "cu_inp queue line d =
           (if uart_bus_is_read UART_ADDRESS h then take 1 (queue (uh_rd (cu_hw d))) else []) @ cu_inp queue line (clk_uart_access F C G h d)"
proof -
  let ?d = "d\<lparr>cu_count := Suc (cu_count d)\<rparr>"
  have o: "ok ?d" "\<not> r_wr_fifo_write (uh_reg (cu_hw ?d))" using assms by (simp_all add: cu_inv_def)
  have o1: "ok (cyc h ?d)" by (rule cycle_ok [OF o(1)]) (use o(2) in simp)
  note q = quiet_cycles [OF o1, of "G (cu_count d)"]
  show "good (clk_uart_access F C G h d)"
    unfolding cu_inv_def clk_uart_access_def using q pause by blast
  show "cu_tx queue sent due (clk_uart_access F C G h d) = cu_tx queue sent due d @
      (if uart_bus_is_write UART_ADDRESS h \<and> \<not> fifo_is_full F (uh_wr (cu_hw d)) then [ucast (wb_dat h)] else [])"
    unfolding clk_uart_access_def using q cycle_tx [OF o(1), of h] by simp
  show "cu_inp queue line d =
      (if uart_bus_is_read UART_ADDRESS h then take 1 (queue (uh_rd (cu_hw d))) else []) @ cu_inp queue line (clk_uart_access F C G h d)"
    unfolding clk_uart_access_def using q cycle_inp [OF o(1), of h] by simp
qed

lemma read_waits:
  assumes "good d"
  defines "d' \<equiv> clk_uart_access F C G (wb_read UART_ADDRESS) d"
  shows "length (queue (uh_wr (cu_hw d'))) \<le> length (queue (uh_wr (cu_hw d)))"
    and "queue (uh_wr (cu_hw d)) \<noteq> [] \<Longrightarrow> cu_tx_wait queue ack_wait W d' < cu_tx_wait queue ack_wait W d"
    and "queue (uh_rd (cu_hw d)) = [] \<Longrightarrow> cu_inp queue line d \<noteq> [] \<Longrightarrow> cu_rx_wait queue arrival d' < cu_rx_wait queue arrival d"
proof -
  let ?d = "d\<lparr>cu_count := Suc (cu_count d)\<rparr>" and ?r = "wb_read UART_ADDRESS"
  have o: "ok ?d" "\<not> r_wr_fifo_write (uh_reg (cu_hw ?d))" using assms(1) by (simp_all add: cu_inv_def)
  have o1: "ok (cyc ?r ?d)" "\<not> r_wr_fifo_write (uh_reg (cu_hw (cyc ?r ?d)))" using cycle_ok [OF o(1), of ?r] by (simp_all add: cycle_reg)
  note q = quiet_waits [OF o1, of "G (cu_count d)"]
  show "length (queue (uh_wr (cu_hw d'))) \<le> length (queue (uh_wr (cu_hw d)))"
    unfolding d'_def clk_uart_access_def using q cycle_tx_wait(1) [OF o, of ?r] by simp
  show "queue (uh_wr (cu_hw d)) \<noteq> [] \<Longrightarrow> cu_tx_wait queue ack_wait W d' < cu_tx_wait queue ack_wait W d"
    unfolding d'_def clk_uart_access_def using q cycle_tx_wait(3) [OF o, of ?r] by simp
  show "cu_rx_wait queue arrival d' < cu_rx_wait queue arrival d" if e: "queue (uh_rd (cu_hw d)) = []" "cu_inp queue line d \<noteq> []"
  proof -
    have "cu_inp queue line (cyc ?r ?d) \<noteq> []" using cycle_inp [OF o(1), of ?r] e by simp
    with q cycle_rx_wait [OF o(1), of ?r] e show ?thesis unfolding d'_def clk_uart_access_def by simp
  qed
qed

lemma quiet_drains:
  assumes "good d"
  shows "queue (uh_wr (cu_hw ((cyc wb_quiet ^^ n) d))) = [] \<or>
         cu_tx_wait queue ack_wait W ((cyc wb_quiet ^^ n) d) + n \<le> cu_tx_wait queue ack_wait W d"
proof (induction n)
  case (Suc n)
  let ?d = "(cyc wb_quiet ^^ n) d"
  have d: "ok d" "\<not> r_wr_fifo_write (uh_reg (cu_hw d))" using assms by (simp_all add: cu_inv_def)
  have o: "ok ?d" "\<not> r_wr_fifo_write (uh_reg (cu_hw ?d))" using quiet_cycles [OF d(1), of n] d(2) by (cases n; auto)+
  show ?case
  proof (cases "queue (uh_wr (cu_hw ?d)) = []")
    case True
    then show ?thesis using cycle_tx_wait(1) [OF o, of wb_quiet] by simp
  next
    case False
    then show ?thesis using cycle_tx_wait(3) [OF o False, of wb_quiet] Suc by simp
  qed
qed simp

lemma cu_tx_wait_le:
  assumes "ok d"
  shows "cu_tx_wait queue ack_wait W d \<le> depth * (W + 3) + W + 2"
proof -
  have "length (queue (uh_wr (cu_hw d))) * (W + 3) \<le> depth * (W + 3)" using assms by (intro mult_right_mono) (simp_all add: cu_ok_def)
  moreover have "cu_tx_wait queue ack_wait W d \<le> length (queue (uh_wr (cu_hw d))) * (W + 3) + (W + 2)"
    using assms ack_bound [of "cu_core d"] by (simp add: cu_ok_def cu_tx_wait_def)
  ultimately show ?thesis by linarith
qed

lemma quiet_sent:
  assumes "good d" and "depth * (W + 3) + W + 2 \<le> n"
  shows "sent (cu_core ((cyc wb_quiet ^^ n) d)) = cu_tx queue sent due d"
proof -
  let ?d = "(cyc wb_quiet ^^ n) d"
  have d: "ok d" using assms(1) by (simp add: cu_inv_def)
  have q: "ok ?d" "cu_tx queue sent due ?d = cu_tx queue sent due d" "\<not> r_wr_fifo_write (uh_reg (cu_hw ?d))"
    using quiet_cycles [OF d, of n] assms(2) by auto
  have "queue (uh_wr (cu_hw ?d)) = []"
  proof (rule ccontr)
    assume ne: "queue (uh_wr (cu_hw ?d)) \<noteq> []"
    then have "1 \<le> cu_tx_wait queue ack_wait W ?d" by (cases "queue (uh_wr (cu_hw ?d))") (simp_all add: cu_tx_wait_def)
    with quiet_drains [OF assms(1), of n] ne cu_tx_wait_le [OF d] assms(2) show False by simp
  qed
  with q show ?thesis by (auto simp: cu_tx_def uart_tx_pending_def cu_ok_def)
qed

end

text \<open>The clocked peripheral provides the contract of the polled driver.\<close>

sublocale clocked_uart \<subseteq> dev: uart_dev "clk_uart_bus F C G" "\<lambda>d. cu_inv queue depth cinv due hold d \<and> cu_fits queue depth line d" "cu_inp queue line"
  "\<lambda>d. length (cu_inp queue line d)" "cu_tx queue sent due" "cu_room queue depth" "cu_tx_wait queue ack_wait W"
  "cu_rx_wait queue arrival" "\<lambda>_. ()"
proof (unfold_locales, goal_cases)
  case (1 d v d')
  then show ?case using access_facts(1) by (auto simp: clk_uart_bus_def)
next
  case (2 d v d')
  then show ?case using access_facts(2) [OF 2(1), of "wb_read UART_ADDRESS"] by (auto simp: clk_uart_bus_def)
next
  case (4 d v d')
  then show ?case using access_facts(3) [OF 4(1), of "wb_read UART_ADDRESS"] by (auto simp: clk_uart_bus_def uart_hw_rdt_bits empty)
next
  case (5 d v d')
  then have v: "v = uart_hw_rdt F (cu_hw d)" "d' = clk_uart_access F C G (wb_read UART_ADDRESS) d" "queue (uh_rd (cu_hw d)) \<noteq> []"
    by (auto simp: clk_uart_bus_def uart_hw_rdt_bits empty)
  have "take 1 (queue (uh_rd (cu_hw d))) = [ucast v]" using v(3) head by (cases "queue (uh_rd (cu_hw d))") (auto simp: v(1) uart_hw_rdt_data)
  then show ?case using access_facts(3) [OF 5(1), of "wb_read UART_ADDRESS"] v(2) by simp
next
  case (6 d v d')
  then show ?case using read_waits(1) [OF 6(1)] by (auto simp: clk_uart_bus_def uart_hw_rdt_bits full cu_room_def)
next
  case (7 d v d')
  then have "queue (uh_wr (cu_hw d)) \<noteq> []" using depth_pos by (auto simp: clk_uart_bus_def uart_hw_rdt_bits full)
  then show ?case using read_waits(2) [OF 7(1)] 7(2) by (auto simp: clk_uart_bus_def)
next
  case (8 d v d')
  then show ?case using read_waits(3) [OF 8(1)] by (auto simp: clk_uart_bus_def uart_hw_rdt_bits empty)
next
  case (10 d w)
  then show ?case using access_facts(1) by (simp add: clk_uart_bus_def)
next
  case (11 d w)
  then show ?case using access_facts(2) [OF 11(1), of "wb_write UART_ADDRESS w"] by (simp add: clk_uart_bus_def full cu_room_def)
next
  case (12 d w)
  then show ?case using access_facts(3) [OF 12(1), of "wb_write UART_ADDRESS w"] by (simp add: clk_uart_bus_def)
next
  case (13 d w)
  then show ?case using access_facts(3) [OF 13(1), of "wb_write UART_ADDRESS w"] by (simp add: clk_uart_bus_def)
qed simp_all

context clocked_uart
begin

lemma driver_contract:
  "uart_dev (clk_uart_bus F C G) (\<lambda>d. cu_inv queue depth cinv due hold d \<and> cu_fits queue depth line d) (cu_inp queue line) (\<lambda>d. length (cu_inp queue line d))
     (cu_tx queue sent due) (cu_room queue depth) (cu_tx_wait queue ack_wait W) (cu_rx_wait queue arrival) (\<lambda>_. ())"
  by (rule dev.uart_dev_axioms)

text \<open>A text printed by the driver, and then time for the transmitter.\<close>

lemma printme_sent:
  assumes "fw_ok (\<lambda>d. cu_inv queue depth cinv due hold d \<and> cu_fits queue depth line d) s"
  shows "\<exists>s'. printme (clk_uart_bus F C G) p s = Some s' \<and> fw_ok (\<lambda>d. cu_inv queue depth cinv due hold d \<and> cu_fits queue depth line d) s' \<and>
           (\<forall>n \<ge> depth * (W + 3) + W + 2. sent (cu_core ((cyc wb_quiet ^^ n) (dev s'))) = cu_tx queue sent due (dev s) @ c_string p @ CRLF)"
proof -
  obtain s' where "printme (clk_uart_bus F C G) p s = Some s'" "dev.keeps s [] (c_string p @ CRLF) s'"
    using dev.printme_keeps [OF assms] by blast
  then show ?thesis using quiet_sent by (intro exI [of _ s']) (simp add: dev.keeps_def fw_ok_def)
qed

end

lemma clocked_uartI:
  "sync_fifo F queue depth \<Longrightarrow> serial_core C cinv sent line takes due hold ack_wait arrival W \<Longrightarrow> \<forall>n. 1 \<le> G n \<Longrightarrow>
     clocked_uart F queue depth C cinv sent line takes due hold ack_wait arrival W G"
  by (simp add: clocked_uart_def clocked_uart_axioms_def)

subsection \<open>A core with a fixed time per byte\<close>

text \<open>
  It takes a byte at once when it is idle and is then busy for \<open>T\<close> cycles; it acknowledges the byte in the same
  cycle or, with \<open>registered\<close>, in the next. The bytes of its line come in \<open>T\<close> cycles apart.
\<close>

record frame_core =
  fc_busy :: nat
  fc_ack :: bool
  fc_sent :: "u8 list"
  fc_next :: nat
  fc_line :: "u8 list"

definition fc_takes :: "bool \<Rightarrow> frame_core \<Rightarrow> bool" where
  "fc_takes st c \<longleftrightarrow> st \<and> fc_busy c = 0"

definition frame_core :: "bool \<Rightarrow> nat \<Rightarrow> frame_core core" where
  "frame_core registered T =
     \<lparr>core_out = (\<lambda>st c. \<lparr>data_stream_in_ack = (if registered then fc_ack c else fc_takes st c),
                         data_stream_out = (case fc_line c of [] \<Rightarrow> 0 | b # _ \<Rightarrow> b),
                         data_stream_out_stb = (fc_line c \<noteq> [] \<and> fc_next c = 0)\<rparr>),
      core_next = (\<lambda>st b c. \<lparr>fc_busy = (if fc_takes st c then T else fc_busy c - 1),
                            fc_ack = fc_takes st c,
                            fc_sent = (if fc_takes st c then fc_sent c @ [b] else fc_sent c),
                            fc_next = (if fc_line c \<noteq> [] \<and> fc_next c = 0 then T else fc_next c - 1),
                            fc_line = (if fc_line c \<noteq> [] \<and> fc_next c = 0 then tl (fc_line c) else fc_line c)\<rparr>)\<rparr>"

definition fc_ok :: "nat \<Rightarrow> frame_core \<Rightarrow> bool" where
  "fc_ok T c \<longleftrightarrow> fc_busy c \<le> T \<and> (fc_ack c \<longrightarrow> fc_busy c = T)"

definition fc_wait :: "bool \<Rightarrow> frame_core \<Rightarrow> nat" where
  "fc_wait registered c = (if registered \<and> fc_ack c then 0 else Suc (fc_busy c))"

lemma frame_core_ok:
  "3 \<le> T \<Longrightarrow> serial_core (frame_core registered T) (fc_ok T) fc_sent fc_line fc_takes (\<lambda>c. registered \<and> fc_ack c) fc_busy (fc_wait registered) fc_next (Suc T)"
  by unfold_locales (auto simp: frame_core_def fc_takes_def fc_ok_def fc_wait_def split: list.splits if_splits)

text \<open>The peripheral with the FIFO of \<open>UartHw\<close>, either core at 115200 baud and a processor that pauses three cycles.\<close>

interpretation frame_uart: clocked_uart list_fifo "\<lambda>q. q" fifo_depth "frame_core registered 3470" "fc_ok 3470" fc_sent fc_line fc_takes
  "\<lambda>c. registered \<and> fc_ack c" fc_busy "fc_wait registered" fc_next 3471 "\<lambda>_. 3"
  using clocked_uartI [OF listf.sync_fifo_axioms frame_core_ok [of 3470 registered], of "\<lambda>_. 3"] by simp

subsection \<open>Properties\<close>

text \<open>
  C18: The clocked peripheral provides the contract of the polled driver. With any FIFO and any serial core
  that keep their contracts, however long the processor takes from one access to the next, and as long as all the
  input still to come fits into the receive FIFO (\<open>cu_fits\<close>: 128 bytes; the line has no flow control, and more can be
  lost), an access behaves as \<open>uart_dev\<close> says: a read pops exactly the byte it shows and says truly whether there is one
  and whether there is room, a write into room sends exactly its byte, and polling makes progress. What is
  proved of the driver over this contract holds on the hardware under this condition.
\<close>

theorem clocked_uart_provides_driver_contract:
  assumes "sync_fifo F queue depth" and "serial_core C cinv sent line takes due hold ack_wait arrival W" and "\<forall>n. 1 \<le> G n"
  shows "uart_dev (clk_uart_bus F C G) (\<lambda>d. cu_inv queue depth cinv due hold d \<and> cu_fits queue depth line d) (cu_inp queue line)
           (\<lambda>d. length (cu_inp queue line d)) (cu_tx queue sent due) (cu_room queue depth) (cu_tx_wait queue ack_wait W)
           (cu_rx_wait queue arrival) (\<lambda>_. ())"
  by (rule clocked_uart.driver_contract [OF clocked_uartI [OF assms]])

text \<open>
  C19: A text that the program prints gets to the serial core. From any state of the driver and the hardware that is in
  order and whose input still to come fits into the receive FIFO: \<open>printme\<close> returns, and after at most
  \<open>depth * (W + 3) + W + 2\<close> more cycles the core has taken exactly the text and its line end, after what
  was sent before, each byte once and in order. The cycle is the one of the peripheral, the program the
  one of \<open>lib/uart\<close>.
\<close>

theorem clocked_print_sent:
  assumes "sync_fifo F queue depth" and "serial_core C cinv sent line takes due hold ack_wait arrival W" and "\<forall>n. 1 \<le> G n"
    and "ub_ok (ubuf s)" and "cu_inv queue depth cinv due hold (dev s)" and "length (cu_inp queue line (dev s)) \<le> depth"
  shows "\<exists>s'. printme (clk_uart_bus F C G) p s = Some s' \<and> ub_ok (ubuf s') \<and> cu_inv queue depth cinv due hold (dev s') \<and>
           (\<forall>n \<ge> depth * (W + 3) + W + 2.
              sent (cu_core ((clk_uart_cycle F C wb_quiet ^^ n) (dev s'))) = cu_tx queue sent due (dev s) @ c_string p @ CRLF)"
proof -
  have "fw_ok (\<lambda>d. cu_inv queue depth cinv due hold d \<and> cu_fits queue depth line d) s" using assms(4-6) by (simp add: fw_ok_def cu_fits_def)
  from clocked_uart.printme_sent [OF clocked_uartI [OF assms(1-3)] this, of p] show ?thesis by (auto simp: fw_ok_def)
qed

subsection \<open>Witnesses\<close>

text \<open>A system after reset whose line will deliver \<open>bs\<close>.\<close>

definition frame_reset :: "u8 list \<Rightarrow> (u8 list, frame_core) clk_uart" where
  "frame_reset bs =
     \<lparr>cu_hw = \<lparr>uh_reg = reg_t_new, uh_rd = [], uh_wr = []\<rparr>,
      cu_core = \<lparr>fc_busy = 0, fc_ack = False, fc_sent = [], fc_next = 3470, fc_line = bs\<rparr>, cu_count = 0\<rparr>"

lemma frame_reset_ok:
  "cu_inv (\<lambda>q. q) fifo_depth (fc_ok 3470) (\<lambda>c. registered \<and> fc_ack c) fc_busy (frame_reset bs)"
  "cu_fits (\<lambda>q. q) fifo_depth fc_line (frame_reset bs) \<longleftrightarrow> length bs \<le> fifo_depth"
  by (simp_all add: frame_reset_def cu_inv_def cu_ok_def cu_fits_def cu_inp_def fc_ok_def)

theorem clocked_uart_provides_driver_contract_witness:
  "\<exists>s'. uart_getline (clk_uart_bus list_fifo (frame_core True 3470) (\<lambda>_. 3)) [7, 7, 7, 7, 7, 7, 7, 7] 5 (fw_reset (frame_reset [97, 98, 10, 3])) =
          Some ((True, [97, 98, 10, 0, 7, 7, 7, 7]), s')"
proof -
  have f: "fifo_depth = 128" by (simp add: fifo_depth_def)
  have o: "fw_ok (\<lambda>d. cu_inv (\<lambda>q. q) fifo_depth (fc_ok 3470) (\<lambda>c. True \<and> fc_ack c) fc_busy d \<and> cu_fits (\<lambda>q. q) fifo_depth fc_line d)
      (fw_reset (frame_reset [97, 98, 10, 3]))"
    using frame_reset_ok(1) [of True] frame_reset_ok(2) [of "[97, 98, 10, 3]"] by (simp add: fw_ok_def fw_reset_def f)
  have i: "pending (cu_inp (\<lambda>q. q) fc_line) (fw_reset (frame_reset [97, 98, 10, 3])) = [97, 98] @ 0x0A # [3]"
    by (simp add: pending_def cu_inp_def fw_reset_def frame_reset_def)
  have e: "Suc (length [97, 98 :: u8]) \<le> exposed (\<lambda>d. length (cu_inp (\<lambda>q. q) fc_line d)) (fw_reset (frame_reset [97, 98, 10, 3]))"
    by (simp add: exposed_def cu_inp_def fw_reset_def frame_reset_def)
  show ?thesis
    using uart_dev.getline_line [OF clocked_uart_provides_driver_contract [OF listf.sync_fifo_axioms frame_core_ok [of 3470 True], of "\<lambda>_. 3"]
        o i _ _ _ e, of 5 "[7, 7, 7, 7, 7, 7, 7, 7]"] by auto
qed

theorem clocked_print_sent_witness:
  "\<exists>s'. printme (clk_uart_bus list_fifo (frame_core True 3470) (\<lambda>_. 3)) (cstr ''t'') (fw_reset (frame_reset [])) = Some s' \<and>
        fc_sent (cu_core ((clk_uart_cycle list_fifo (frame_core True 3470) wb_quiet ^^ 448145) (dev s'))) = [0x74, 0x0D, 0x0A]"
proof -
  have "c_string (cstr ''t'') = [0x74]" by (simp add: c_string_def)
  moreover have "cu_tx (\<lambda>q. q) fc_sent (\<lambda>c. True \<and> fc_ack c) (dev (fw_reset (frame_reset []))) = []"
    by (simp add: cu_tx_def uart_tx_pending_def fw_reset_def frame_reset_def)
  moreover have "fifo_depth * (3471 + 3) + 3471 + 2 \<le> 448145" by (simp add: fifo_depth_def)
  moreover have "ub_ok (ubuf (fw_reset (frame_reset [])))" "length (cu_inp (\<lambda>q. q) fc_line (dev (fw_reset (frame_reset [])))) \<le> fifo_depth"
    "cu_inv (\<lambda>q. q) fifo_depth (fc_ok 3470) (\<lambda>c. True \<and> fc_ack c) fc_busy (dev (fw_reset (frame_reset [])))"
    using frame_reset_ok(1) [of True] by (simp_all add: fw_reset_def cu_inp_def frame_reset_def)
  ultimately show ?thesis
    using clocked_print_sent [OF listf.sync_fifo_axioms frame_core_ok [of 3470 True], of "\<lambda>_. 3" "fw_reset (frame_reset [])" "cstr ''t''"]
    by (auto simp: CRLF_def)
qed

end
