(* ===== verification/Reg.thy ===== *)
theory Reg
  imports Bus
begin

text \<open>
  \<open>lib/reg.h\<close> and \<open>lib/reg.cc\<close>: memory-mapped registers. On the target a register access is a
  \<open>volatile\<close> access at the register's address; on a host it goes to the map \<open>mock_regs\<close>. The
  host build is the bus \<open>mock_bus\<close>, so every driver written over \<open>Reg\<close> runs on both.
\<close>

record reg =
  reg_address :: u32

definition Reg_ctor :: "u32 \<Rightarrow> reg" where
  "Reg_ctor address = \<lparr>reg_address = address\<rparr>"

text \<open>The target branch (\<open>__riscv\<close>): the value read, the status 0 and the new device state.\<close>

definition lib_reg_read :: "('d, 'z) bus_scheme \<Rightarrow> u32 \<Rightarrow> 'd \<Rightarrow> (int \<times> u32) \<times> 'd" where
  "lib_reg_read B address d = (case rd32 B address d of (v, d') \<Rightarrow> ((0, v), d'))"

definition lib_reg_write :: "('d, 'z) bus_scheme \<Rightarrow> u32 \<Rightarrow> u32 \<Rightarrow> 'd \<Rightarrow> int \<times> 'd" where
  "lib_reg_write B address v d = (0, wr32 B address v d)"

definition Reg_Read :: "('d, 'z) bus_scheme \<Rightarrow> reg \<Rightarrow> 'd \<Rightarrow> (int \<times> u32) \<times> 'd" where
  "Reg_Read B r d = lib_reg_read B (reg_address r) d"

definition Reg_Write :: "('d, 'z) bus_scheme \<Rightarrow> reg \<Rightarrow> u32 \<Rightarrow> 'd \<Rightarrow> int \<times> 'd" where
  "Reg_Write B r v d = lib_reg_write B (reg_address r) v d"

lemmas reg_simps [fw_simps] =
  Reg_ctor_def Reg_Read_def Reg_Write_def lib_reg_read_def lib_reg_write_def

text \<open>Over registers that hold what was written, in the terms of \<open>Reg\<close>.\<close>

context reg_file
begin

lemma Reg_Read_val: "reg_address r \<in> regs \<Longrightarrow> fst (Reg_Read B r d) = (0, val d (reg_address r))"
  by (simp add: reg_simps read_val split: prod.split) (metis fst_conv read_val)

lemma Reg_Read_frame:
  "reg_address r \<in> regs \<Longrightarrow> a \<in> regs \<Longrightarrow> val (snd (Reg_Read B r d)) a = val d a"
  by (simp add: reg_simps split: prod.split) (metis snd_conv read_frame)

lemma Reg_Write_val:
  "reg_address r \<in> regs \<Longrightarrow> a \<in> regs \<Longrightarrow>
   val (snd (Reg_Write B r v d)) a = (if a = reg_address r then v else val d a)"
  by (simp add: reg_simps write_val)

end

subsection \<open>The host build\<close>

text \<open>
  \<open>mock_regs\<close> is a \<open>std::map\<close>; its \<open>operator[]\<close> inserts a 0 for a key it does not hold, so a
  read changes the map although no reader can tell.
\<close>

type_synonym mock_regs = "u32 \<rightharpoonup> u32"

definition map_index :: "u32 \<Rightarrow> mock_regs \<Rightarrow> u32 \<times> mock_regs" where
  "map_index address m =
     (case m address of Some v \<Rightarrow> (v, m) | None \<Rightarrow> (0, m(address \<mapsto> 0)))"

definition mock_read :: "u32 \<Rightarrow> mock_regs \<Rightarrow> u32 \<times> mock_regs" where
  "mock_read address m = map_index address m"

definition mock_write :: "u32 \<Rightarrow> u32 \<Rightarrow> mock_regs \<Rightarrow> mock_regs" where
  "mock_write address v m = m(address \<mapsto> v)"

definition mock_bus :: "mock_regs bus" where
  "mock_bus = \<lparr>rd32 = mock_read, wr32 = mock_write\<rparr>"

definition SetMockValue :: "u32 \<Rightarrow> u32 \<Rightarrow> mock_regs \<Rightarrow> mock_regs" where
  "SetMockValue address v m = m(address \<mapsto> v)"

definition GetMockValue :: "u32 \<Rightarrow> mock_regs \<Rightarrow> u32 \<times> mock_regs" where
  "GetMockValue address m = map_index address m"

definition ClearMockValues :: "mock_regs \<Rightarrow> mock_regs" where
  "ClearMockValues m = Map.empty"

definition mock_val :: "mock_regs \<Rightarrow> u32 \<Rightarrow> u32" where
  "mock_val m a = (case m a of Some v \<Rightarrow> v | None \<Rightarrow> 0)"

lemmas mock_defs =
  mock_bus_def mock_read_def mock_write_def map_index_def mock_val_def
  SetMockValue_def GetMockValue_def ClearMockValues_def

text \<open>The host registers behave like a register file on the whole address space.\<close>

interpretation mock: reg_file mock_bus mock_val UNIV
  by unfold_locales (auto simp: mock_defs split: option.splits)

text \<open>
  On the host build a register reads back what was last stored in it, whichever of
  \<open>Reg::Write\<close> and \<open>SetMockValue\<close> stored it; another register keeps its value; every access
  reports success; a register never written reads 0, also after \<open>ClearMockValues\<close>; and reading
  changes the value of no register.
\<close>

theorem host_registers_read_back:
  "Reg_Read mock_bus r (snd (Reg_Write mock_bus r v m)) =
     ((0, v), snd (Reg_Write mock_bus r v m)) \<and>
   fst (Reg_Write mock_bus r v m) = 0 \<and>
   fst (Reg_Read mock_bus r (SetMockValue a v m)) =
     (0, if a = reg_address r then v else mock_val m (reg_address r)) \<and>
   fst (GetMockValue a (snd (Reg_Write mock_bus r v m))) =
     (if a = reg_address r then v else mock_val m a) \<and>
   fst (Reg_Read mock_bus r (ClearMockValues m)) = (0, 0) \<and>
   mock_val (snd (Reg_Read mock_bus r m)) = mock_val m \<and>
   mock_val (snd (GetMockValue a m)) = mock_val m"
  by (auto simp: fw_simps mock_defs fun_eq_iff split: option.splits)

end
