(* ===== verification/UartIrq.thy ===== *)
theory UartIrq
  imports Ring Reg WbUart
begin

text \<open>
  The interrupt-driven UART receiver of \<open>lib/uart.h\<close> and \<open>lib/uart.cc\<close>: the class \<open>Uart\<close> with a
  ring of 256 bytes that \<open>InterruptHandler\<close> fills at \<open>begin_\<close> and \<open>Read\<close> takes from at \<open>end_\<close>.
  The pointers are offsets into \<open>buffer_\<close>. The handler is shown to end after at most 256 reads and
  to store exactly what the device delivers, or to flag an overrun. \<open>Read\<close> is shown not to remove
  anything: it never advances \<open>end_\<close>, so it hands out the oldest byte again and again.
\<close>

definition kBufferSize :: nat where
  "kBufferSize = 256"

definition kReg :: u32 where
  "kReg = 0"

record uart =
  u_reg :: reg
  buffer :: "u8 list"
  begin_pos :: nat
  end_pos :: nat
  overrun :: bool

text \<open>The constructor leaves the array as it finds it (\<open>garbage\<close>).\<close>

definition Uart_ctor :: "u8 list \<Rightarrow> u32 \<Rightarrow> uart" where
  "Uart_ctor garbage base_address =
     \<lparr>u_reg = Reg_ctor (base_address + kReg), buffer = garbage, begin_pos = 0, end_pos = 0,
      overrun = False\<rparr>"

definition IsOverrun :: "uart \<Rightarrow> bool" where
  "IsOverrun u = overrun u"

definition IsEmpty :: "uart \<Rightarrow> bool" where
  "IsEmpty u \<longleftrightarrow> \<not> overrun u \<and> begin_pos u = end_pos u"

text \<open>Lines 24 to 27 of the handler: store a byte at \<open>begin_\<close>, advance it and wrap it.\<close>

definition Uart_push :: "u8 \<Rightarrow> uart \<Rightarrow> uart" where
  "Uart_push c u =
     (let b = begin_pos u + 1
      in u\<lparr>buffer := (buffer u)[begin_pos u := c], begin_pos := if b = kBufferSize then 0 else b\<rparr>)"

partial_function (option) Uart_InterruptHandler ::
    "('d, 'b) bus_scheme \<Rightarrow> uart \<Rightarrow> 'd \<Rightarrow> (uart \<times> 'd) option" where
  "Uart_InterruptHandler B u d =
     (case Reg_Read B (u_reg u) d of ((_, status), d1) \<Rightarrow>
        if uart_is_empty status then Some (u, d1)
        else let u1 = Uart_push (ucast (status AND 255)) u
             in if begin_pos u1 = end_pos u1 then Some (u1\<lparr>overrun := True\<rparr>, d1)
                else Uart_InterruptHandler B u1 d1)"

text \<open>
  \<open>Read\<close>, with its counter as the recursion: the bytes stored through \<open>buf\<close> and the object. As in
  the code, \<open>end_\<close> changes only when it stands behind the array.
\<close>

primrec Uart_Read :: "nat \<Rightarrow> uart \<Rightarrow> u8 list \<times> uart" where
  "Uart_Read 0 u = ([], u)"
| "Uart_Read (Suc len) u =
     (if begin_pos u \<noteq> end_pos u
      then let c = buffer u ! end_pos u;
               u1 = (if end_pos u = kBufferSize then u\<lparr>end_pos := 0\<rparr> else u);
               (cs, u2) = Uart_Read len u1
           in (c # cs, u2)
      else ([], u))"

text \<open>
  \<open>ReadLine\<close> busy-waits for interrupts: \<open>irq\<close> is what runs in one turn of the wait. The caller's
  array is \<open>buf\<close>, filled from \<open>pos\<close>; \<open>cbuf[-1]\<close> is the slot the last \<open>Read\<close> was aimed at.
\<close>

partial_function (option) Uart_wait ::
    "(uart \<times> 'd \<Rightarrow> uart \<times> 'd) \<Rightarrow> uart \<times> 'd \<Rightarrow> (uart \<times> 'd) option" where
  "Uart_wait irq w = (if IsEmpty (fst w) then Uart_wait irq (irq w) else Some w)"

partial_function (option) Uart_ReadLine ::
    "(uart \<times> 'd \<Rightarrow> uart \<times> 'd) \<Rightarrow> u8 list \<Rightarrow> nat \<Rightarrow> nat \<Rightarrow> uart \<times> 'd \<Rightarrow>
     ((int \<times> u8 list) \<times> (uart \<times> 'd)) option" where
  "Uart_ReadLine irq buf pos len w =
     (if len > 0
      then Option.bind (Uart_wait irq w) (\<lambda>w1.
             if IsOverrun (fst w1) then Some ((-1, buf), w1)
             else case Uart_Read 1 (fst w1) of (cs, u2) \<Rightarrow>
                    (let buf1 = (case cs of [] \<Rightarrow> buf | c # _ \<Rightarrow> buf[pos := c])
                     in if buf1 ! pos = 0x0D then Some ((0, buf1), (u2, snd w1))
                        else Uart_ReadLine irq buf1 (pos + 1) (len - length cs) (u2, snd w1)))
      else Some ((0, buf), w))"

declare Uart_InterruptHandler.simps [code] Uart_wait.simps [code] Uart_ReadLine.simps [code]

subsection \<open>The ring\<close>

definition uart_ok :: "uart \<Rightarrow> bool" where
  "uart_ok u \<longleftrightarrow> length (buffer u) = 256 \<and> begin_pos u < 256 \<and> end_pos u < 256"

interpretation ui: ring_store Uart_push buffer end_pos begin_pos uart_ok
  by unfold_locales
    (auto simp: Uart_push_def uart_ok_def ring_ok_def kBufferSize_def Let_def mod_Suc)

definition received :: "uart \<Rightarrow> u8 list" where
  "received u = ring_contents (buffer u) (end_pos u) (begin_pos u)"

lemma received_queue: "received = ui.queue"
  by (rule ext) (simp add: received_def ui.queue_def)

lemma length_received: "uart_ok u \<Longrightarrow> length (received u) \<le> 255"
  using ui.length_queue_less [of u] by (simp add: received_queue uart_ok_def)

lemma push_received:
  "uart_ok u \<Longrightarrow> length (received u) < 255 \<Longrightarrow> received (Uart_push c u) = received u @ [c]"
  using ui.store_appends [of u c] by (simp add: received_queue uart_ok_def)

lemma push_overrun: "uart_ok u \<Longrightarrow> length (received u) = 255 \<Longrightarrow> received (Uart_push c u) = []"
  using ui.store_overruns [of u c] by (simp add: received_queue uart_ok_def)

lemma push_full_iff:
  "uart_ok u \<Longrightarrow>
   begin_pos (Uart_push c u) = end_pos (Uart_push c u) \<longleftrightarrow> length (received u) = 255"
  using ui.store_full_iff [of u c] by (simp add: received_queue uart_ok_def)

lemma push_fields [simp]: "u_reg (Uart_push c u) = u_reg u" "overrun (Uart_push c u) = overrun u"
  by (simp_all add: Uart_push_def Let_def)

lemma received_overrun [simp]: "received (u\<lparr>overrun := b\<rparr>) = received u"
  by (simp add: received_def)

lemma uart_ok_overrun [simp]: "uart_ok (u\<lparr>overrun := b\<rparr>) = uart_ok u"
  by (simp add: uart_ok_def)

text \<open>
  What the device delivers to at most \<open>n\<close> status reads: the bytes up to the first empty status,
  and the device afterwards.
\<close>

fun drain :: "('d, 'b) bus_scheme \<Rightarrow> reg \<Rightarrow> nat \<Rightarrow> 'd \<Rightarrow> u8 list \<times> 'd" where
  "drain B r 0 d = ([], d)"
| "drain B r (Suc n) d =
     (case Reg_Read B r d of ((_, status), d1) \<Rightarrow>
        if uart_is_empty status then ([], d1)
        else case drain B r n d1 of (cs, d2) \<Rightarrow> (ucast status # cs, d2))"

lemma length_drain: "length (fst (drain B r n d)) \<le> n"
  by (induction B r n d rule: drain.induct) (auto split: prod.splits)

text \<open>On a UART that meets the contract of the polled driver, they are the front of the input.\<close>

context uart_dev
begin

lemma drain_input:
  "dinv d \<Longrightarrow> reg_address r = UART_ADDRESS \<Longrightarrow> drain B r n d = (cs, d') \<Longrightarrow>
   dinv d' \<and> oth d' = oth d \<and> tx d' = tx d \<and> inp d = cs @ inp d'"
proof (induction n arbitrary: d cs d')
  case 0
  then show ?case by simp
next
  case (Suc n)
  obtain v d1 where rd: "rd32 B UART_ADDRESS d = (v, d1)" by fastforce
  note laws = read_inv [OF Suc.prems(1) rd] read_tx [OF Suc.prems(1) rd] read_oth [OF Suc.prems(1) rd]
    read_empty [OF Suc.prems(1) rd] read_byte [OF Suc.prems(1) rd]
  obtain cs1 d2 where dr: "drain B r n d1 = (cs1, d2)" by fastforce
  show ?case
    using Suc.prems Suc.IH [OF laws(1) Suc.prems(2) dr] laws
    by (auto simp: reg_simps rd dr split: if_splits)
qed

end

lemma handler_spec:
  assumes "uart_ok u"
  shows "\<exists>u'. Uart_InterruptHandler B u d = Some (u', snd (drain B (u_reg u) (256 - length (received u)) d)) \<and>
           uart_ok u' \<and> u_reg u' = u_reg u \<and>
           (let cs = fst (drain B (u_reg u) (256 - length (received u)) d)
            in if length cs < 256 - length (received u)
               then received u' = received u @ cs \<and> overrun u' = overrun u
               else received u' = [] \<and> overrun u')"
  using assms
proof (induction "255 - length (received u)" arbitrary: u d)
  case (0 u d)
  then have full: "length (received u) = 255" using length_received [of u] by simp
  obtain z st d1 where rd: "Reg_Read B (u_reg u) d = ((z, st), d1)" by (metis prod.collapse)
  show ?case
    using push_full_iff [OF 0(2)] push_overrun [OF 0(2) full] ui.store_ok [OF 0(2)] full 0(2)
    by (subst Uart_InterruptHandler.simps) (auto simp: rd Let_def numeral_eq_Suc [of num.One])
next
  case (Suc k u d)
  obtain z st d1 where rd: "Reg_Read B (u_reg u) d = ((z, st), d1)" by (metis prod.collapse)
  have room: "length (received u) < 255" and n: "256 - length (received u) = Suc (255 - length (received u))"
    using Suc.hyps(2) by simp_all
  show ?case
  proof (cases "uart_is_empty st")
    case True
    then show ?thesis using Suc.prems n by (subst Uart_InterruptHandler.simps) (simp add: rd Let_def)
  next
    case False
    let ?u = "Uart_push (ucast st) u"
    have ok: "uart_ok ?u" and q: "received ?u = received u @ [ucast st]"
      using ui.store_ok [OF Suc.prems] push_received [OF Suc.prems room] by simp_all
    have k: "k = 255 - length (received ?u)" and m: "256 - length (received ?u) = 255 - length (received u)"
      using Suc.hyps(2) q by simp_all
    have ne: "begin_pos ?u \<noteq> end_pos ?u" using push_full_iff [OF Suc.prems] room by simp
    from Suc.hyps(1) [OF k ok, of d1] False ne q n show ?thesis
      by (subst Uart_InterruptHandler.simps) (auto simp: rd m Let_def split: prod.splits if_splits)
  qed
qed


lemma Read_repeats_aux:
  assumes "uart_ok u" and "begin_pos u \<noteq> end_pos u"
  shows "Uart_Read len u = (replicate len (buffer u ! end_pos u), u)"
  using assms by (induction len) (auto simp: uart_ok_def kBufferSize_def)

lemma hd_received: "uart_ok u \<Longrightarrow> begin_pos u \<noteq> end_pos u \<Longrightarrow> received u = buffer u ! end_pos u # tl (received u)"
  using ring_pop [OF ui.ok_ring, of u] by (simp add: received_def)

lemma received_empty_iff: "uart_ok u \<Longrightarrow> received u = [] \<longleftrightarrow> begin_pos u = end_pos u"
  using ui.queue_empty_iff [of u] by (auto simp: received_queue)

lemma wait_nonempty: "\<not> IsEmpty (fst w) \<Longrightarrow> Uart_wait irq w = Some w"
  by (subst Uart_wait.simps) simp

lemma Read_overrun [simp]: "overrun (snd (Uart_Read n u)) = overrun u"
  by (induction n arbitrary: u) (simp_all add: Let_def split_beta)

lemma Read_one:
  assumes "uart_ok u" and "received u = c # rest"
  shows "Uart_Read 1 u = ([c], u)"
proof -
  have ne: "begin_pos u \<noteq> end_pos u" using assms received_empty_iff by fastforce
  with hd_received [OF assms(1) ne] assms(2) Read_repeats_aux [OF assms(1) ne, of 1] show ?thesis
    by simp
qed

subsection \<open>Properties\<close>

text \<open>
  C7: On any hardware the interrupt handler ends after at most \<open>256 - length (received u)\<close> reads of
  the register. If the device stops delivering before the ring is full, exactly the delivered bytes
  are appended in order and the overrun flag is unchanged; otherwise the flag is set and the ring is
  empty again, so everything it held is lost.
\<close>

theorem uart_interrupt_handler_spec:
  assumes "uart_ok u" and "free = 256 - length (received u)"
    and "drain B (u_reg u) free d = (cs, d')"
  shows "length cs \<le> free \<and>
         (\<exists>u'. Uart_InterruptHandler B u d = Some (u', d') \<and> uart_ok u' \<and> u_reg u' = u_reg u \<and>
               (if length cs < free then received u' = received u @ cs \<and> overrun u' = overrun u
                else received u' = [] \<and> overrun u'))"
  using handler_spec [OF assms(1), of B d] length_drain [of B "u_reg u" free d] assms(2,3)
  by (auto simp: Let_def split: if_splits)

text \<open>
  \<open>Read\<close> never consumes: asked for \<open>len\<close> bytes of a nonempty ring it returns the oldest byte
  \<open>len\<close> times and leaves the ring as it was, although the ring may hold fewer and other bytes.
\<close>

lemma uart_read_repeats_oldest:
  assumes "uart_ok u" and "received u = c # rest"
  shows "Uart_Read len u = (replicate len c, u)"
proof -
  have ne: "begin_pos u \<noteq> end_pos u" using assms received_empty_iff by fastforce
  from hd_received [OF assms(1) ne] assms(2) have "buffer u ! end_pos u = c" by simp
  then show ?thesis using Read_repeats_aux [OF assms(1) ne] by simp
qed

text \<open>
  As a consequence \<open>ReadLine\<close> on a ring whose oldest byte is not CR fills the whole buffer of the
  caller with that byte and reports success, whatever line was received.
\<close>

lemma uart_readline_fills_with_oldest:
  assumes "uart_ok u" and "received u = c # rest" and "\<not> overrun u" and "c \<noteq> 0x0D"
    and "pos + len \<le> length buf"
  shows "Uart_ReadLine irq buf pos len (u, d) =
           Some ((0, take pos buf @ replicate len c @ drop (pos + len) buf), (u, d))"
  using assms(5)
proof (induction len arbitrary: buf pos)
  case 0
  then show ?case by (subst Uart_ReadLine.simps) simp
next
  case (Suc len)
  have w: "Uart_wait irq (u, d) = Some (u, d)"
    using assms(2,3) received_empty_iff [OF assms(1)] by (intro wait_nonempty) (auto simp: IsEmpty_def)
  have r: "Uart_Read (Suc 0) u = ([c], u)"
    using Read_one [OF assms(1,2)] by simp
  have nth: "buf[pos := c] ! pos = c" using Suc.prems by simp
  have tk: "take (Suc pos) (buf[pos := c]) = take pos buf @ [c]"
    using Suc.prems by (simp add: take_Suc_conv_app_nth)
  have "Uart_ReadLine irq (buf[pos := c]) (Suc pos) len (u, d) =
      Some ((0, take pos buf @ c # replicate len c @ drop (Suc pos + len) buf), (u, d))"
    using Suc.IH [of "Suc pos" "buf[pos := c]"] Suc.prems by (simp add: tk)
  then show ?case
    using assms(3,4) nth by (subst Uart_ReadLine.simps) (simp add: w r IsOverrun_def Let_def del: Uart_Read.simps)
qed

text \<open>
  An overrun is permanent: the flag is never cleared, every later \<open>ReadLine\<close> for at least one
  byte fails with -1 without touching the caller's buffer, and no interrupt makes it recover.
\<close>

lemma uart_overrun_is_permanent:
  assumes "overrun u" and "0 < len"
  shows "Uart_ReadLine irq buf pos len (u, d) = Some ((-1, buf), (u, d)) \<and>
         overrun (snd (Uart_Read n u)) \<and>
         (uart_ok u \<longrightarrow> (\<exists>u' d'. Uart_InterruptHandler B u d = Some (u', d') \<and> overrun u'))"
proof (intro conjI impI)
  show "Uart_ReadLine irq buf pos len (u, d) = Some ((-1, buf), (u, d))"
    using assms wait_nonempty [of "(u, d)" irq]
    by (subst Uart_ReadLine.simps) (simp add: IsEmpty_def IsOverrun_def)
  show "overrun (snd (Uart_Read n u))"
    using assms(1) by simp
  assume "uart_ok u"
  from handler_spec [OF this, of B d] assms(1)
  show "\<exists>u' d'. Uart_InterruptHandler B u d = Some (u', d') \<and> overrun u'"
    by (fastforce simp: Let_def split: if_splits)
qed


subsection \<open>Witnesses\<close>

lemma drain_numeral:
  "drain B r (numeral k) d =
     (case Reg_Read B r d of ((_, status), d1) \<Rightarrow>
        if uart_is_empty status then ([], d1)
        else case drain B r (pred_numeral k) d1 of (cs, d2) \<Rightarrow> (ucast status # cs, d2))"
  by (simp add: numeral_eq_Suc)

text \<open>A peripheral that has received \<open>AB\<close> and a driver object at the address of the UART.\<close>

abbreviation demo_uart :: uart where
  "demo_uart \<equiv> Uart_ctor (replicate 256 0) UART_ADDRESS"

abbreviation demo_rx :: wb_uart where
  "demo_rx \<equiv> \<lparr>rd_fifo = [65, 66], wr_fifo = [], line_in = [], line_held = [], line_out = []\<rparr>"

lemma demo_uart_facts: "uart_ok demo_uart" "received demo_uart = []" "u_reg demo_uart = \<lparr>reg_address = UART_ADDRESS\<rparr>"
  "overrun demo_uart = False"
  by (simp_all add: Uart_ctor_def uart_ok_def received_def kReg_def Reg_ctor_def)

lemma demo_drain:
  "fst (drain (wb_uart_bus 0) \<lparr>reg_address = UART_ADDRESS\<rparr> 256 demo_rx) = [65, 66]"
  by (simp add: drain_numeral reg_simps wb_uart_bus_def wb_uart_read_def wb_uart_rdt_empty
      wb_uart_rdt_data wb_uart_line_quiet split: prod.split)

theorem uart_interrupt_handler_spec_witness:
  "\<exists>u' d'. Uart_InterruptHandler (wb_uart_bus 0) demo_uart demo_rx = Some (u', d') \<and>
           received u' = [65, 66] \<and> \<not> overrun u'"
proof -
  obtain cs d' where dr: "drain (wb_uart_bus 0) (u_reg demo_uart) 256 demo_rx = (cs, d')" by fastforce
  then have "cs = [65, 66]" using demo_drain by (simp add: demo_uart_facts)
  moreover have "(256 :: nat) = 256 - length (received demo_uart)" by (simp add: demo_uart_facts)
  ultimately show ?thesis
    using uart_interrupt_handler_spec [OF demo_uart_facts(1) _ dr] by (auto simp: demo_uart_facts)
qed

text \<open>A ring that holds \<open>AB\<close>, and one that has overrun.\<close>

abbreviation demo_ring :: uart where
  "demo_ring \<equiv> \<lparr>u_reg = \<lparr>reg_address = 0\<rparr>, buffer = [65, 66] @ replicate 254 0, begin_pos = 2,
                end_pos = 0, overrun = False\<rparr>"

lemma demo_ring_facts: "uart_ok demo_ring" "received demo_ring = [65, 66]"
  by (simp_all add: uart_ok_def received_def ring_contents_def ring_used_def upt_conv_Cons)

lemma uart_read_repeats_oldest_witness:
  "Uart_Read 3 demo_ring = ([65, 65, 65], demo_ring)"
  using uart_read_repeats_oldest [OF demo_ring_facts, of 3] by (simp add: numeral_eq_Suc)

lemma uart_readline_fills_with_oldest_witness:
  "Uart_ReadLine id [1, 2, 3, 4] 0 3 (demo_ring, ()) = Some ((0, [65, 65, 65, 4]), (demo_ring, ()))"
proof -
  have h: "\<not> overrun demo_ring" "(65 :: u8) \<noteq> 0x0D" "0 + 3 \<le> length [1, 2, 3, 4 :: u8]" by simp_all
  have "replicate 3 (65 :: u8) = [65, 65, 65]" by (simp add: numeral_eq_Suc)
  with uart_readline_fills_with_oldest [OF demo_ring_facts h, of id "()"] show ?thesis by simp
qed

lemma uart_overrun_is_permanent_witness:
  "Uart_ReadLine id [1] 0 1 (demo_ring\<lparr>overrun := True\<rparr>, demo_rx) =
     Some ((-1, [1]), (demo_ring\<lparr>overrun := True\<rparr>, demo_rx))"
proof -
  have h: "overrun (demo_ring\<lparr>overrun := True\<rparr>)" "(0 :: nat) < 1" by simp_all
  from uart_overrun_is_permanent [OF h, of id "[1]" 0 demo_rx 0 "wb_uart_bus 0"] show ?thesis by blast
qed

end
