(* ===== verification/UartBounds.thy ===== *)
theory UartBounds
  imports UartIO
begin

text \<open>
  What holds of the polled driver on any bus whatsoever, with a broken or hostile device behind the
  register too: no operation ever leaves the bounds of the ring, of the format buffer or of the
  caller's line buffer. The other properties of the driver assume the contract \<open>uart_dev\<close>; this one
  assumes nothing of the bus.
\<close>

definition bufs_ok :: "('d, 'z) fw_scheme \<Rightarrow> bool" where
  "bufs_ok s \<longleftrightarrow> ub_ok (ubuf s) \<and> length (fmtbuf s) = 256"

lemma bufs_ok_updates [simp]:
  "bufs_ok (s\<lparr>dev := d\<rparr>) = bufs_ok s"
  "bufs_ok s \<Longrightarrow> ub_ok u \<Longrightarrow> bufs_ok (s\<lparr>ubuf := u\<rparr>)"
  "bufs_ok s \<Longrightarrow> ub_ok u \<Longrightarrow> bufs_ok (s\<lparr>dev := d, ubuf := u\<rparr>)"
  "bufs_ok s \<Longrightarrow> length b = 256 \<Longrightarrow> bufs_ok (s\<lparr>fmtbuf := b\<rparr>)"
  by (simp_all add: bufs_ok_def)

lemma CanWrite_bufs: "bufs_ok s \<Longrightarrow> bufs_ok (snd (UartBuf_CanWrite B s))"
  using ub.store_ok [of "ubuf s"]
  by (auto simp: UartBuf_CanWrite_def uart_access_defs Let_def bufs_ok_def split: prod.split)

lemma PutAsync_bufs: "bufs_ok s \<Longrightarrow> bufs_ok (snd (UartBuf_PutAsync B c s))"
  using CanWrite_bufs [of s B] by (auto simp: UartBuf_PutAsync_def uart_raw_write_def split: prod.splits)

lemma GetAsync_bufs: "bufs_ok s \<Longrightarrow> bufs_ok (snd (UartBuf_GetAsync B s))"
  using ub_ok_take [of "ubuf s"]
  by (auto simp: UartBuf_GetAsync_def uart_access_defs Let_def bufs_ok_def split: prod.split)

lemma Put_bufs:
  assumes "UartBuf_Put B c s = Some r"
  shows "bufs_ok s \<longrightarrow> bufs_ok (snd r)"
  using assms
proof (rule UartBuf_Put.raw_induct [where P = "\<lambda>B c s r. bufs_ok s \<longrightarrow> bufs_ok (snd r)", rotated], goal_cases)
  case (1 Put B c s r)
  obtain ret s1 where p: "UartBuf_PutAsync B c s = (ret, s1)" by fastforce
  with 1(2) have "if ret then r = (ret, s1) else Put B c s1 = Some r" by (simp split: if_splits)
  with 1(1) [of B c s1 r] PutAsync_bufs [of s B c] show ?case by (simp add: p split: if_splits)
qed

lemma Get_bufs:
  assumes "UartBuf_Get B s = Some r"
  shows "bufs_ok s \<longrightarrow> bufs_ok (snd r)"
  using assms
proof (rule UartBuf_Get.raw_induct [where P = "\<lambda>B s r. bufs_ok s \<longrightarrow> bufs_ok (snd r)", rotated], goal_cases)
  case (1 Get B s r)
  from 1(2) GetAsync_bufs [of s B] show ?case by (auto split: prod.splits option.splits dest: 1(1))
qed

lemma wait_available_bufs:
  assumes "uart_wait_available B s = Some s'"
  shows "bufs_ok s \<longrightarrow> bufs_ok s'"
  using assms
proof (rule uart_wait_available.raw_induct [where P = "\<lambda>B s r. bufs_ok s \<longrightarrow> bufs_ok r", rotated], goal_cases)
  case (1 wait B s s')
  from 1(2) CanWrite_bufs [of s B] show ?case by (auto split: prod.splits if_splits dest: 1(1))
qed

lemma putchar_bufs: "uart_putchar B c s = Some s' \<Longrightarrow> bufs_ok s \<Longrightarrow> bufs_ok s'"
  using Put_bufs [of B c s] by (auto simp: uart_putchar_def)

lemma getchar_bufs: "uart_getchar B s = Some (c, s') \<Longrightarrow> bufs_ok s \<Longrightarrow> bufs_ok s'"
  using Get_bufs [of B s] by (auto simp: uart_getchar_def)

lemma print_bufs: "uart_print B str s = Some (n, s') \<Longrightarrow> bufs_ok s \<Longrightarrow> bufs_ok s'"
  by (induction str arbitrary: s) (auto simp: bind_eq_Some_conv dest: putchar_bufs split: if_splits)

lemma printme_bufs: "printme B p s = Some s' \<Longrightarrow> bufs_ok s \<Longrightarrow> bufs_ok s'"
  by (auto simp: printme_def bind_eq_Some_conv dest: print_bufs)

lemma format_buf_bufs: "bufs_ok s \<Longrightarrow> bufs_ok (snd (format_buf f args s))"
  using length_vsnprintf [of 256 "fmtbuf s" f args]
  by (auto simp: format_buf_def bufs_ok_def Let_def split: prod.split)

lemma kprintf_bufs: "kprintf B f args s = Some (n, s') \<Longrightarrow> bufs_ok s \<Longrightarrow> bufs_ok s'"
  using format_buf_bufs [of s f args]
  by (auto simp: kprintf_def Let_def bind_eq_Some_conv dest: print_bufs split: prod.splits)

lemma printmef_bufs: "printmef B f args s = Some (n, s') \<Longrightarrow> bufs_ok s \<Longrightarrow> bufs_ok s'"
  using format_buf_bufs [of s f args]
  by (auto simp: printmef_def Let_def bind_eq_Some_conv dest: printme_bufs split: prod.splits)

text \<open>Line input: every store is below the \<open>n\<close> bytes the caller has granted.\<close>

lemma getline_loop_bufs:
  "getline_loop B buf pos n s = Some ((b, p, k), s') \<Longrightarrow> bufs_ok s \<Longrightarrow>
   bufs_ok s' \<and> length b = length buf \<and> p + k = pos + n \<and> (0 < n \<longrightarrow> pos < p) \<and>
   (\<forall>m \<ge> pos + n. drop m b = drop m buf)"
proof (induction n arbitrary: buf pos s)
  case (Suc n)
  obtain c s1 where s1: "uart_getchar B s = Some (c, s1)"
    "(if c = 0x0A then Some ((buf[pos := c], pos + 1, n), s1) else getline_loop B (buf[pos := c]) (pos + 1) n s1) =
       Some ((b, p, k), s')"
    using Suc.prems(1) by (auto simp: bind_eq_Some_conv Let_def)
  have ok: "bufs_ok s1" using getchar_bufs [OF s1(1) Suc.prems(2)] .
  show ?case
  proof (cases "c = 0x0A")
    case True
    with s1(2) ok show ?thesis by auto
  next
    case False
    with s1(2) have "getline_loop B (buf[pos := c]) (pos + 1) n s1 = Some ((b, p, k), s')" by simp
    from Suc.IH [OF this ok] this show ?thesis by (cases n) auto
  qed
qed auto

lemma getline_bufs:
  assumes "uart_getline B buf n s = Some ((line_ok, b), s')" and "bufs_ok s"
  shows "bufs_ok s' \<and> length b = length buf \<and> drop n b = drop n buf"
proof (cases "n = 0")
  case True
  with assms show ?thesis by (simp add: uart_getline_def)
next
  case False
  with assms(1) obtain b1 p k where l: "getline_loop B buf 0 n s = Some ((b1, p, k), s')"
    "b = (if k = 0 then b1[p - 1 := 0] else b1[p := 0])"
    by (auto simp: uart_getline_def bind_eq_Some_conv split: if_splits)
  from getline_loop_bufs [OF l(1) assms(2)] False l(2) show ?thesis by auto
qed

subsection \<open>Properties\<close>

text \<open>
  C30: Memory safety on any bus, with no assumption about the device: from a state whose ring indices are
  below 256 and whose buffers have their 256 bytes, every entry point of the driver that returns leaves
  such a state, so no access of the ring or of the format buffer is ever out of range; and
  \<open>uart_getline\<close> writes only into the first \<open>n\<close> bytes it was given.
\<close>

theorem driver_stays_in_bounds:
  assumes "bufs_ok s"
  shows "bufs_ok (snd (UartBuf_CanWrite B s)) \<and> bufs_ok (snd (UartBuf_GetAsync B s)) \<and>
         bufs_ok (snd (UartBuf_PutAsync B c s)) \<and>
         pred_option bufs_ok (uart_putchar B c s) \<and> pred_option (\<lambda>(c, s'). bufs_ok s') (uart_getchar B s) \<and>
         pred_option bufs_ok (uart_wait_available B s) \<and> pred_option bufs_ok (printme B p s) \<and>
         pred_option (\<lambda>(n, s'). bufs_ok s') (kprintf B f args s) \<and>
         pred_option (\<lambda>(n, s'). bufs_ok s') (printmef B f args s) \<and>
         pred_option (\<lambda>((line_ok, b), s'). bufs_ok s' \<and> length b = length buf \<and> drop n b = drop n buf)
           (uart_getline B buf n s)"
  using assms CanWrite_bufs GetAsync_bufs PutAsync_bufs
    putchar_bufs [of B c s] getchar_bufs [of B s] wait_available_bufs [of B s] printme_bufs [of B p s]
    kprintf_bufs [of B f args s] printmef_bufs [of B f args s] getline_bufs [of B buf n s]
  by (auto simp: option.pred_set)

text \<open>A bus that never has anything but a byte to deliver and never refuses one.\<close>

theorem driver_stays_in_bounds_witness:
  "bufs_ok (snd (UartBuf_CanWrite \<lparr>rd32 = (\<lambda>a d. (0x41, d)), wr32 = (\<lambda>a v d. d)\<rparr> (fw_reset ())))"
proof -
  have "bufs_ok (fw_reset ())" by (simp add: bufs_ok_def fw_reset_def)
  from driver_stays_in_bounds [OF this, of "\<lparr>rd32 = (\<lambda>a d. (0x41, d)), wr32 = (\<lambda>a v d. d)\<rparr>" 0 "[]" "[]" "[]" "[]" 0]
  show ?thesis by blast
qed

end
