(* ===== verification/Soc.thy ===== *)
theory Soc
  imports UartIO Reg
begin

text \<open>
  The bus of the whole system as the firmware sees it: the UART, memory-mapped registers (interrupt
  controller, timer, percontrol) and byte-addressed RAM. The contract \<open>soc_bus\<close> extends \<open>uart_dev\<close>:
  registers in \<open>regs\<close> hold what was written and disturb nothing else. \<open>soc_host\<close> adds RAM whose
  bytes hold what was stored. The provider composes the peripheral model \<open>wb_uart\<close>, the host
  registers of \<open>lib/reg.cc\<close> and a RAM; it is the machine on which the programs are run in the
  witnesses.
\<close>

locale soc_bus = uart_dev B dinv inp avail tx room tx_wait rx_wait "\<lambda>d. (val d, ram d)"
  for B :: "('d, 'b) mem_bus_scheme" and dinv inp avail tx room tx_wait rx_wait
    and val :: "'d \<Rightarrow> u32 \<Rightarrow> u32" and ram :: "'d \<Rightarrow> u32 \<Rightarrow> u8" +
  fixes regs :: "u32 set"
  assumes reg_read: "a \<in> regs \<Longrightarrow> dinv d \<Longrightarrow> rd32 B a d = (v, d') \<Longrightarrow>
           v = val d a \<and> dinv d' \<and> val d' = val d \<and> ram d' = ram d \<and> tx d' = tx d \<and> inp d' = inp d \<and> avail d' = avail d"
    and reg_write: "a \<in> regs \<Longrightarrow> dinv d \<Longrightarrow>
           dinv (wr32 B a v d) \<and> val (wr32 B a v d) = (val d)(a := v) \<and> ram (wr32 B a v d) = ram d \<and>
           tx (wr32 B a v d) = tx d \<and> inp (wr32 B a v d) = inp d \<and> avail (wr32 B a v d) = avail d"

text \<open>The laws in terms of \<open>Reg\<close> and of single accesses.\<close>

context soc_bus
begin

lemma Reg_Read_soc:
  assumes "reg_address r \<in> regs" and "dinv d"
  obtains d' where "Reg_Read B r d = ((0, val d (reg_address r)), d')" and "dinv d'"
    and "val d' = val d" and "ram d' = ram d" and "tx d' = tx d" and "inp d' = inp d" and "avail d' = avail d"
proof -
  obtain v d' where "rd32 B (reg_address r) d = (v, d')" by fastforce
  with reg_read [OF assms this] that show thesis by (simp add: reg_simps)
qed

lemma reg_write_simps:
  assumes "a \<in> regs" and "dinv d"
  shows "dinv (wr32 B a v d)" and "val (wr32 B a v d) = (val d)(a := v)" and "ram (wr32 B a v d) = ram d"
    and "tx (wr32 B a v d) = tx d" and "inp (wr32 B a v d) = inp d" and "avail (wr32 B a v d) = avail d"
  using reg_write [OF assms] by simp_all

end

subsection \<open>A host that sends line by line\<close>

text \<open>
  For an upload the contract also says what the other side does: each XON releases one more line of
  the input. \<open>tx_left\<close> is what the transmitter still has to put on the wire, shown by bit 10 of the
  status word, and a word read from the RAM is its four bytes, least significant first.
\<close>

definition first_line :: "u8 list \<Rightarrow> u8 list" where
  "first_line xs = (case dropWhile (\<lambda>b. b \<noteq> 0x0A) xs of [] \<Rightarrow> xs | b # _ \<Rightarrow> takeWhile (\<lambda>b. b \<noteq> 0x0A) xs @ [b])"

definition put_word :: "u32 \<Rightarrow> u32 \<Rightarrow> (u32 \<Rightarrow> u8) \<Rightarrow> u32 \<Rightarrow> u8" where
  "put_word a v f = f(a := ucast v, a + 1 := ucast (drop_bit 8 v), a + 2 := ucast (drop_bit 16 v),
                      a + 3 := ucast (drop_bit 24 v))"

definition ram_word :: "(u32 \<Rightarrow> u8) \<Rightarrow> u32 \<Rightarrow> u32" where
  "ram_word f a = ucast (f a) OR push_bit 8 (ucast (f (a + 1))) OR push_bit 16 (ucast (f (a + 2))) OR
                  push_bit 24 (ucast (f (a + 3)))"

lemma ram_word_put_word: "ram_word (put_word a v f) a = v"
proof -
  have "ram_word (put_word a v f) a =
      ucast (ucast v :: u8) OR push_bit 8 (ucast (ucast (drop_bit 8 v) :: u8)) OR
      push_bit 16 (ucast (ucast (drop_bit 16 v) :: u8)) OR push_bit 24 (ucast (ucast (drop_bit 24 v) :: u8))"
    by (simp add: ram_word_def put_word_def)
  also have "\<dots> = v"
  proof (rule bit_word_eqI)
    fix n
    assume "n < LENGTH(32)"
    then show "bit (ucast (ucast v :: u8) OR push_bit 8 (ucast (ucast (drop_bit 8 v) :: u8)) OR
      push_bit 16 (ucast (ucast (drop_bit 16 v) :: u8)) OR push_bit 24 (ucast (ucast (drop_bit 24 v) :: u8)) :: u32) n
      = bit v n"
      by (cases "24 \<le> n"; cases "16 \<le> n"; cases "8 \<le> n") (auto simp: bit_simps)
  qed
  finally show ?thesis .
qed

lemma split_at_newline:
  "0x0A \<notin> set m \<Longrightarrow> takeWhile (\<lambda>b. b \<noteq> 0x0A) (m @ 0x0A # r) = m \<and>
     dropWhile (\<lambda>b. b \<noteq> 0x0A) (m @ 0x0A # r) = 0x0A # r"
  by (induction m) auto

lemma host_lineE:
  assumes "host_line l"
  obtains m where "l = m @ [0x0A]" and "0x0A \<notin> set m"
  using assms by (cases l rule: rev_cases) (auto simp: host_line_def)

lemma first_line_host: "host_line l \<Longrightarrow> first_line (l @ r) = l"
  by (erule host_lineE) (simp add: first_line_def split_at_newline)

lemma first_line_Nil [simp]: "first_line [] = []"
  by (simp add: first_line_def)

locale soc_host = soc_bus B dinv inp avail tx room tx_wait rx_wait val ram regs
  for B :: "('d, 'b) mem_bus_scheme" and dinv inp avail tx room tx_wait rx_wait
    and val :: "'d \<Rightarrow> u32 \<Rightarrow> u32" and ram :: "'d \<Rightarrow> u32 \<Rightarrow> u8" and regs +
  fixes ram_area :: "u32 set" and tx_left :: "'d \<Rightarrow> nat"
  assumes xon: "dinv d \<Longrightarrow> room d \<Longrightarrow> d' = wr32 B UART_ADDRESS (ucast XON) d \<Longrightarrow>
           avail d' = avail d + length (first_line (drop (avail d) (inp d)))"
    and ram_read: "a \<in> ram_area \<Longrightarrow> dinv d \<Longrightarrow> rd32 B a d = (v, d') \<Longrightarrow>
           v = ram_word (ram d) a \<and> dinv d' \<and> val d' = val d \<and> ram d' = ram d \<and> tx d' = tx d \<and>
           inp d' = inp d \<and> avail d' = avail d"
    and ram_write32: "a \<in> ram_area \<Longrightarrow> dinv d \<Longrightarrow>
           dinv (wr32 B a v d) \<and> ram (wr32 B a v d) = put_word a v (ram d) \<and> val (wr32 B a v d) = val d \<and>
           tx (wr32 B a v d) = tx d \<and> inp (wr32 B a v d) = inp d \<and> avail (wr32 B a v d) = avail d"
    and ram_write: "a \<in> ram_area \<Longrightarrow> dinv d \<Longrightarrow>
           dinv (wr8 B a b d) \<and> ram (wr8 B a b d) = (ram d)(a := b) \<and> val (wr8 B a b d) = val d \<and>
           tx (wr8 B a b d) = tx d \<and> inp (wr8 B a b d) = inp d \<and> avail (wr8 B a b d) = avail d"
    and read_tx_left: "dinv d \<Longrightarrow> rd32 B UART_ADDRESS d = (v, d') \<Longrightarrow>
           bit v 10 = (tx_left d = 0) \<and> tx_left d' = tx_left d - 1"
    and reg_write_tx_left: "a \<in> regs \<Longrightarrow> dinv d \<Longrightarrow> tx_left (wr32 B a v d) = tx_left d"

context soc_host
begin

text \<open>Sending XON: the polls before it lose nothing, and it exposes one more line.\<close>

lemma putchar_xon:
  assumes "fw_ok dinv s" and "exposed avail s \<le> 255"
  shows "\<exists>s'. uart_putchar B XON s = Some s' \<and> fw_ok dinv s' \<and> same_rest s s' \<and>
           tx (dev s') = tx (dev s) @ [XON] \<and> val (dev s') = val (dev s) \<and> ram (dev s') = ram (dev s) \<and>
           pending inp s' = pending inp s \<and>
           exposed avail s' = exposed avail s + length (first_line (drop (exposed avail s) (pending inp s)))"
proof -
  obtain s1 where s1: "UartBuf_Put B XON s = Some (True, uart_raw_write B (ucast XON) s1)"
    "keeps s [] [] s1" "room (dev s1)" using Put_writes [OF assms(1)] by blast
  let ?s' = "uart_raw_write B (ucast XON) s1"
  from s1(2) assms(2) have ok1: "fw_ok dinv s1" and p1: "pending inp s1 = pending inp s"
    "exposed avail s1 = exposed avail s" and "tx (dev s1) = tx (dev s)"
    by (simp_all add: keeps_def)
  moreover from ok1 have d: "dinv (dev s1)" by (simp add: fw_ok_def)
  ultimately have "keeps s [] [XON] ?s'"
    using keeps_trans [OF s1(2) raw_write_keeps [OF ok1 s1(3), of "ucast XON"]] by simp
  moreover have "pending inp ?s' = pending inp s"
    using write_inp [OF d s1(3)] p1(1) by (simp add: pending_def uart_raw_write_def)
  moreover have "drop (exposed avail s1) (pending inp s1) = drop (avail (dev s1)) (inp (dev s1))"
    by (simp add: exposed_def pending_def)
  then have "exposed avail ?s' = exposed avail s1 + length (first_line (drop (exposed avail s1) (pending inp s1)))"
    using xon [OF d s1(3) refl] by (simp add: exposed_def uart_raw_write_def)
  ultimately show ?thesis using s1(1) by (auto simp: uart_putchar_def keeps_def p1)
qed

end

text \<open>A character written while the transmit FIFO is full is dropped.\<close>

locale soc_full = soc_bus B dinv inp avail tx room tx_wait rx_wait val ram regs
  for B :: "('d, 'b) mem_bus_scheme" and dinv inp avail tx room tx_wait rx_wait
    and val :: "'d \<Rightarrow> u32 \<Rightarrow> u32" and ram :: "'d \<Rightarrow> u32 \<Rightarrow> u8" and regs +
  assumes write_full: "dinv d \<Longrightarrow> \<not> room d \<Longrightarrow>
           dinv (wr32 B UART_ADDRESS w d) \<and> tx (wr32 B UART_ADDRESS w d) = tx d \<and> val (wr32 B UART_ADDRESS w d) = val d"

subsection \<open>A composed machine\<close>

record soc =
  s_uart :: wb_uart
  s_regs :: mock_regs
  s_ram :: "u32 \<Rightarrow> u8"

text \<open>The addresses \<open>R\<close> other than the UART answer as RAM, all others as registers.\<close>

definition soc_read :: "(u32 \<Rightarrow> bool) \<Rightarrow> u32 \<Rightarrow> soc \<Rightarrow> u32 \<times> soc" where
  "soc_read R a m =
     (if a = UART_ADDRESS then map_prod id (\<lambda>p. m\<lparr>s_uart := p\<rparr>) (wb_uart_read 0 (s_uart m))
      else if R a then (ram_word (s_ram m) a, m)
      else map_prod id (\<lambda>r. m\<lparr>s_regs := r\<rparr>) (mock_read a (s_regs m)))"

definition soc_write :: "(u32 \<Rightarrow> bool) \<Rightarrow> u32 \<Rightarrow> u32 \<Rightarrow> soc \<Rightarrow> soc" where
  "soc_write R a v m =
     (if a = UART_ADDRESS then m\<lparr>s_uart := wb_uart_write v (s_uart m)\<rparr>
      else if R a then m\<lparr>s_ram := put_word a v (s_ram m)\<rparr>
      else m\<lparr>s_regs := mock_write a v (s_regs m)\<rparr>)"

definition soc_bus_on :: "(u32 \<Rightarrow> bool) \<Rightarrow> soc mem_bus" where
  "soc_bus_on R = \<lparr>rd32 = soc_read R, wr32 = soc_write R,
                   wr8 = (\<lambda>a b m. if R a \<and> a \<noteq> UART_ADDRESS then m\<lparr>s_ram := (s_ram m)(a := b)\<rparr> else m)\<rparr>"

text \<open>The machine of the SERV systems, with its RAM below the peripherals, and that of the DDR3 systems.\<close>

definition is_ram :: "u32 \<Rightarrow> bool" where
  "is_ram a \<longleftrightarrow> 0x40000 \<le> a \<and> a < 0x40000000"

definition is_ddr :: "u32 \<Rightarrow> bool" where
  "is_ddr a \<longleftrightarrow> 0x80000000 \<le> a"

abbreviation soc_mem_bus :: "soc mem_bus" where
  "soc_mem_bus \<equiv> soc_bus_on is_ram"

abbreviation ddr_mem_bus :: "soc mem_bus" where
  "ddr_mem_bus \<equiv> soc_bus_on is_ddr"

abbreviation soc_regs :: "u32 set" where
  "soc_regs \<equiv> {a. a \<noteq> UART_ADDRESS \<and> \<not> is_ram a}"

lemma soc_uart_read: "rd32 (soc_bus_on R) UART_ADDRESS m = (v, m') \<Longrightarrow>
  \<exists>p'. wb_uart_read 0 (s_uart m) = (v, p') \<and> m' = m\<lparr>s_uart := p'\<rparr>"
  by (auto simp: soc_bus_on_def soc_read_def map_prod_def split: prod.splits)

lemma soc_uart_write: "wr32 (soc_bus_on R) UART_ADDRESS v m = m\<lparr>s_uart := wb_uart_write v (s_uart m)\<rparr>"
  by (simp add: soc_bus_on_def soc_write_def)

lemma wbu_next_line:
  assumes "wbu_inv p"
  shows "length (concat (take 1 (drop (xons (wr_fifo p)) (line_held p)))) =
         length (first_line (drop (wbu_avail p) (wbu_inp p)))"
proof -
  let ?n = "xons (wr_fifo p)"
  have "wbu_inp p = (rd_fifo p @ line_in p @ concat (take ?n (line_held p))) @ concat (drop ?n (line_held p))"
    by (simp add: wbu_inp_def flip: concat_append)
  then have d: "drop (wbu_avail p) (wbu_inp p) = concat (drop ?n (line_held p))"
    by (simp only: wbu_avail_def append_eq_conv_conj [THEN iffD1, OF refl, THEN conjunct2, symmetric])
  show ?thesis
  proof (cases "drop ?n (line_held p)")
    case Nil
    then show ?thesis unfolding d by simp
  next
    case (Cons l ls)
    then have "l \<in> set (line_held p)" by (metis in_set_dropD list.set_intros(1))
    with assms have "host_line l" by (simp add: wbu_inv_def)
    with Cons show ?thesis unfolding d by (simp add: first_line_host)
  qed
qed

interpretation soc: soc_host "soc_bus_on R" "\<lambda>m. wbu_inv (s_uart m)" "\<lambda>m. wbu_inp (s_uart m)"
  "\<lambda>m. wbu_avail (s_uart m)" "\<lambda>m. wbu_tx (s_uart m)" "\<lambda>m. wbu_room (s_uart m)" "\<lambda>m. wbu_tx_wait (s_uart m)"
  "\<lambda>m. wbu_rx_wait (s_uart m)" "\<lambda>m. mock_val (s_regs m)" s_ram
  "{a. a \<noteq> UART_ADDRESS \<and> \<not> R a}" "{a. R a \<and> a \<noteq> UART_ADDRESS}" "\<lambda>m. length (wr_fifo (s_uart m))"
proof (unfold_locales, goal_cases)
  case (1 d v d') then show ?case by (auto dest!: soc_uart_read simp: wb_uart_read_facts)
next
  case (2 d v d') then show ?case by (auto dest!: soc_uart_read simp: wb_uart_read_facts)
next
  case (3 d v d') then show ?case by (auto dest!: soc_uart_read)
next
  case (4 d v d') then show ?case by (auto dest!: soc_uart_read simp: wb_uart_read_facts)
next
  case (5 d v d') then show ?case by (auto dest!: soc_uart_read simp: wb_uart_read_facts)
next
  case (6 d v d')
  then obtain p' where r: "wb_uart_read 0 (s_uart d) = (v, p')" "d' = d\<lparr>s_uart := p'\<rparr>"
    by (auto dest!: soc_uart_read)
  with 6 wbu.read_room [of "s_uart d" 0 v p'] show ?case by (simp add: wb_uart_bus_def)
next
  case (7 d v d')
  then obtain p' where r: "wb_uart_read 0 (s_uart d) = (v, p')" "d' = d\<lparr>s_uart := p'\<rparr>"
    by (auto dest!: soc_uart_read)
  with 7 wbu.read_full [of "s_uart d" 0 v p'] show ?case by (simp add: wb_uart_bus_def)
next
  case (8 d v d')
  then obtain p' where r: "wb_uart_read 0 (s_uart d) = (v, p')" "d' = d\<lparr>s_uart := p'\<rparr>"
    by (auto dest!: soc_uart_read)
  with 8 wbu.read_wait [of "s_uart d" 0 v p'] show ?case by (simp add: wb_uart_bus_def)
next
  case (15 a d v d')
  then show ?case
    by (auto simp: soc_bus_on_def soc_read_def mock_defs fun_eq_iff split: option.splits if_splits)
next
  case (17 d d')
  then show ?case using wbu_next_line [of "s_uart d"] by (simp add: soc_uart_write wb_uart_write_facts)
next
  case (18 a d v d')
  then show ?case by (auto simp: soc_bus_on_def soc_read_def)
next
  case (21 d v d')
  then obtain p' where r: "wb_uart_read 0 (s_uart d) = (v, p')" "d' = d\<lparr>s_uart := p'\<rparr>"
    by (auto dest!: soc_uart_read)
  then have "v = wb_uart_rdt 0 (s_uart d)" by (simp add: wb_uart_read_def)
  with r wb_uart_read_facts(7) [OF 21(1) r(1)] show ?case by (simp add: wb_uart_rdt_tx_empty)
qed (auto simp: soc_uart_write wb_uart_write_facts wbu_avail_le,
    auto simp: soc_bus_on_def soc_write_def mock_defs fun_eq_iff split: option.splits)

interpretation soc_dropping: soc_full "soc_bus_on R" "\<lambda>m. wbu_inv (s_uart m)" "\<lambda>m. wbu_inp (s_uart m)"
  "\<lambda>m. wbu_avail (s_uart m)" "\<lambda>m. wbu_tx (s_uart m)" "\<lambda>m. wbu_room (s_uart m)" "\<lambda>m. wbu_tx_wait (s_uart m)"
  "\<lambda>m. wbu_rx_wait (s_uart m)" "\<lambda>m. mock_val (s_regs m)" s_ram "{a. a \<noteq> UART_ADDRESS \<and> \<not> R a}"
  by unfold_locales (simp add: soc_uart_write wbu_room_def wb_uart_write_def fifo_full_def wb_uart_line_facts)

lemma is_ram_not_uart: "{a. is_ram a \<and> a \<noteq> UART_ADDRESS} = {a. is_ram a}"
  by (auto simp: is_ram_def UART_ADDRESS_def)

lemma is_ddr_not_uart: "{a. is_ddr a \<and> a \<noteq> UART_ADDRESS} = {a. is_ddr a}"
  by (auto simp: is_ddr_def UART_ADDRESS_def)

lemmas soc_machine_full = soc_dropping.soc_full_axioms [of is_ram]
lemmas soc_machine_bus = soc.soc_bus_axioms [of is_ram]
lemmas soc_machine = soc.soc_host_axioms [of is_ram, unfolded is_ram_not_uart]
lemmas ddr_machine = soc.soc_host_axioms [of is_ddr, unfolded is_ddr_not_uart]

text \<open>The machine after reset, with input \<open>bs\<close> to come on the line.\<close>

definition soc_reset :: "u8 list \<Rightarrow> soc" where
  "soc_reset bs = \<lparr>s_uart = wbu_reset bs, s_regs = Map.empty, s_ram = (\<lambda>_. 0)\<rparr>"

lemma soc_reset_ok: "wbu_inv (s_uart (soc_reset bs))" "wbu_inp (s_uart (soc_reset bs)) = bs"
  "wbu_tx (s_uart (soc_reset bs)) = []" "wbu_avail (s_uart (soc_reset bs)) = length bs"
  by (simp_all add: soc_reset_def wbu_reset_def wbu_defs)

end
