(* ===== verification/Timer.thy ===== *)
theory Timer
  imports Reg
begin

text \<open>
  The countdown timer driver of \<open>lib/timer.h\<close> and \<open>lib/timer.cc\<close>: a handle on two registers and the
  count it reloads after each interrupt. Its lemmas live in the locale \<open>reg_file\<close>, that is, over any
  registers that hold what was written.
\<close>

definition timer_kDefaultBaseAddress :: u32 where
  "timer_kDefaultBaseAddress = 0x40000020"

definition timer_kIrqReg :: u32 where
  "timer_kIrqReg = 0x0"

definition timer_kCounterReg :: u32 where
  "timer_kCounterReg = 0x4"

record timer =
  t_irq :: reg
  t_counter :: reg
  default_counter :: u32

definition Timer_ClearIrq :: "('d, 'b) bus_scheme \<Rightarrow> timer \<Rightarrow> 'd \<Rightarrow> int \<times> 'd" where
  "Timer_ClearIrq B t d = Reg_Write B (t_irq t) 0 d"

definition Timer_ReadIrq :: "('d, 'b) bus_scheme \<Rightarrow> timer \<Rightarrow> 'd \<Rightarrow> (int \<times> u32) \<times> 'd" where
  "Timer_ReadIrq B t d = Reg_Read B (t_irq t) d"

definition Timer_ReadCounter :: "('d, 'b) bus_scheme \<Rightarrow> timer \<Rightarrow> 'd \<Rightarrow> (int \<times> u32) \<times> 'd" where
  "Timer_ReadCounter B t d = Reg_Read B (t_counter t) d"

definition Timer_WriteCounter :: "('d, 'b) bus_scheme \<Rightarrow> timer \<Rightarrow> u32 \<Rightarrow> 'd \<Rightarrow> int \<times> 'd" where
  "Timer_WriteCounter B t v d = Reg_Write B (t_counter t) v d"

definition Timer_ctor :: "('d, 'b) bus_scheme \<Rightarrow> u32 \<Rightarrow> u32 \<Rightarrow> 'd \<Rightarrow> timer \<times> 'd" where
  "Timer_ctor B base_address dflt d =
     (let t = \<lparr>t_irq = Reg_ctor (base_address + timer_kIrqReg),
               t_counter = Reg_ctor (base_address + timer_kCounterReg), default_counter = dflt\<rparr>;
          (_, d1) = Reg_Write B (t_counter t) dflt d;
          (_, d2) = Timer_ClearIrq B t d1
      in (t, d2))"

definition Timer_InterruptHandler :: "('d, 'b) bus_scheme \<Rightarrow> timer \<Rightarrow> 'd \<Rightarrow> 'd" where
  "Timer_InterruptHandler B t d =
     (let (_, d1) = Timer_WriteCounter B t (default_counter t) d;
          (_, d2) = Timer_ClearIrq B t d1
      in d2)"

lemmas timer_defs = Timer_ClearIrq_def Timer_ReadIrq_def Timer_ReadCounter_def
  Timer_WriteCounter_def Timer_ctor_def Timer_InterruptHandler_def timer_kIrqReg_def
  timer_kCounterReg_def

text \<open>The two registers of a timer object are different registers.\<close>

definition timer_ok :: "timer \<Rightarrow> bool" where
  "timer_ok t \<longleftrightarrow> reg_address (t_irq t) \<noteq> reg_address (t_counter t)"

lemma timer_ctor_ok: "timer_ok (fst (Timer_ctor B base dflt d))"
  by (simp add: timer_ok_def timer_defs fw_simps)

context reg_file
begin

text \<open>\<open>armed\<close>: the counter holds the reload value and no interrupt is pending.\<close>

definition armed :: "timer \<Rightarrow> 'd \<Rightarrow> bool" where
  "armed t d \<longleftrightarrow> val d (reg_address (t_counter t)) = default_counter t \<and>
                val d (reg_address (t_irq t)) = 0"

lemma handler_arms:
  assumes "reg_address (t_irq t) \<in> regs" and "reg_address (t_counter t) \<in> regs" and "timer_ok t"
  shows "armed t (Timer_InterruptHandler B t d)"
    and "a \<in> regs \<Longrightarrow> a \<notin> {reg_address (t_irq t), reg_address (t_counter t)} \<Longrightarrow>
         val (Timer_InterruptHandler B t d) a = val d a"
  using assms by (auto simp: armed_def timer_ok_def timer_defs fw_simps write_val)

lemma ctor_arms:
  assumes "base \<in> regs" and "base + 4 \<in> regs" and "Timer_ctor B base dflt d = (t, d')"
  shows "armed t d'" and "reg_address (t_irq t) = base" and "reg_address (t_counter t) = base + 4"
    and "default_counter t = dflt"
    and "a \<in> regs \<Longrightarrow> a \<notin> {base, base + 4} \<Longrightarrow> val d' a = val d a"
  using assms by (auto simp: armed_def timer_defs fw_simps write_val Let_def)

end

subsection \<open>Properties\<close>

text \<open>
  Over registers that hold what was written, the constructor and the interrupt handler both leave
  the timer loaded with its default count and with no interrupt pending, as its own accessors then
  report, and they change no other register; a count set by \<open>WriteCounter\<close> in between is what
  \<open>ReadCounter\<close> reports until the next interrupt reloads the default.
\<close>

lemma timer_is_reloaded:
  assumes "reg_file B val regs" and "base \<in> regs" and "base + 4 \<in> regs"
    and "Timer_ctor B base dflt d = (t, d0)"
    and "Timer_WriteCounter B t v d0 = (z, d1)"
    and "d2 = Timer_InterruptHandler B t d1"
  shows "fst (Timer_ReadCounter B t d0) = (0, dflt) \<and> fst (Timer_ReadIrq B t d0) = (0, 0) \<and>
         z = 0 \<and> fst (Timer_ReadCounter B t d1) = (0, v) \<and>
         fst (Timer_ReadCounter B t d2) = (0, dflt) \<and> fst (Timer_ReadIrq B t d2) = (0, 0) \<and>
         (\<forall>a. a \<in> regs \<and> a \<noteq> base \<and> a \<noteq> base + 4 \<longrightarrow> val d2 a = val d a)"
proof -
  note R = reg_file.Reg_Read_val [OF assms(1)]
  have t: "t = \<lparr>t_irq = \<lparr>reg_address = base\<rparr>, t_counter = \<lparr>reg_address = base + 4\<rparr>, default_counter = dflt\<rparr>"
    and d0: "d0 = wr32 B base 0 (wr32 B (base + 4) dflt d)"
    using assms(4) by (simp_all add: timer_defs fw_simps)
  have d: "z = 0" "d1 = wr32 B (base + 4) v d0" "d2 = wr32 B base 0 (wr32 B (base + 4) dflt d1)"
    using assms(5,6) by (simp_all add: t timer_defs fw_simps)
  show ?thesis
    using assms(2,3)
    by (simp add: Timer_ReadCounter_def Timer_ReadIrq_def R t d0 d reg_file.write_val [OF assms(1)])
qed

text \<open>The property on the registers of the host build.\<close>

lemma timer_is_reloaded_witness:
  "\<exists>t d0 d1 d2. Timer_ctor mock_bus timer_kDefaultBaseAddress 500 Map.empty = (t, d0) \<and>
     Timer_WriteCounter mock_bus t 3 d0 = (0, d1) \<and> d2 = Timer_InterruptHandler mock_bus t d1 \<and>
     fst (Timer_ReadCounter mock_bus t d1) = (0, 3) \<and> fst (Timer_ReadCounter mock_bus t d2) = (0, 500)"
proof -
  obtain t d0 where c: "Timer_ctor mock_bus timer_kDefaultBaseAddress 500 Map.empty = (t, d0)"
    by (cases "Timer_ctor mock_bus timer_kDefaultBaseAddress 500 Map.empty") simp
  obtain z d1 where w: "Timer_WriteCounter mock_bus t 3 d0 = (z, d1)"
    by (cases "Timer_WriteCounter mock_bus t 3 d0") simp
  show ?thesis
    using timer_is_reloaded [OF mock.reg_file_axioms _ _ c w refl] c w by auto
qed

end
