(* ===== verification/Pic.thy ===== *)
theory Pic
  imports Soc UartIrq Timer
begin

text \<open>
  The interrupt controller driver of \<open>lib/pic.h\<close> and \<open>lib/pic.cc\<close>, with the machine-level state it
  programs: the control and status registers, the global \<open>pic::instance\<close> and the objects its
  pointers refer to. Objects live in stores indexed by numbers and a pointer is an \<open>option\<close>. The
  interrupt handler ties the other drivers together: it prints, reads the controller, and runs the
  handlers of the timer and of the interrupt-driven UART.
\<close>

definition pic_kBaseAddress :: u32 where
  "pic_kBaseAddress = 0x40000030"

definition kTimerIrqBit :: u32 where
  "kTimerIrqBit = push_bit 0 1"

definition kUartIrqBit :: u32 where
  "kUartIrqBit = push_bit 1 1"

definition MASK_REG :: u32 where
  "MASK_REG = 0"

definition IRQ_REG :: u32 where
  "IRQ_REG = 4"

definition kExternalTimerIrq :: nat where
  "kExternalTimerIrq = 7"

record pic =
  pic_mask :: u32
  timer_handler :: "nat option"
  uart_handler :: "nat option"
  mask_reg :: reg
  irq_reg :: reg

text \<open>What \<open>mtvec\<close> points to: the reset value, or the handler of \<open>pic.cc\<close>.\<close>

datatype isr = Isr_reset | Isr_default_handler

record 'd machine = "'d fw" +
  mie :: u32
  mstatus :: u32
  mcause :: u32
  mtvec :: isr
  pic_instance :: "nat option"
  pics :: "nat \<Rightarrow> pic"
  timers :: "nat \<Rightarrow> timer"
  uarts :: "nat \<Rightarrow> uart"

subsection \<open>Control and status registers\<close>

definition set_interrupt_handler :: "isr \<Rightarrow> ('d, 'z) machine_scheme \<Rightarrow> ('d, 'z) machine_scheme" where
  "set_interrupt_handler handler w = w\<lparr>mtvec := handler, mstatus := mstatus w OR 8\<rparr>"

definition get_mcause :: "('d, 'z) machine_scheme \<Rightarrow> u32" where
  "get_mcause w = mcause w"

definition enable_interrupt :: "nat \<Rightarrow> ('d, 'z) machine_scheme \<Rightarrow> ('d, 'z) machine_scheme" where
  "enable_interrupt irq w = w\<lparr>mie := mie w OR push_bit irq 1\<rparr>"

definition disable_interrupt :: "nat \<Rightarrow> ('d, 'z) machine_scheme \<Rightarrow> ('d, 'z) machine_scheme" where
  "disable_interrupt irq w = w\<lparr>mie := mie w AND NOT (push_bit irq 1)\<rparr>"

definition check_enabled :: "nat \<Rightarrow> ('d, 'z) machine_scheme \<Rightarrow> int" where
  "check_enabled irq w = (if mie w AND push_bit irq 1 \<noteq> 0 then 1 else 0)"

lemmas csr_defs = set_interrupt_handler_def get_mcause_def enable_interrupt_def
  disable_interrupt_def check_enabled_def kExternalTimerIrq_def

subsection \<open>The class Pic\<close>

text \<open>An object \<open>p\<close> of the store, seen by a method that runs on it.\<close>

definition Pic_ClearIrq ::
    "('d, 'b) bus_scheme \<Rightarrow> nat \<Rightarrow> u32 \<Rightarrow> ('d, 'z) machine_scheme \<Rightarrow> int \<times> ('d, 'z) machine_scheme" where
  "Pic_ClearIrq B p m w = on_dev (Reg_Write B (irq_reg (pics w p)) 0) w"

definition Pic_SetMask ::
    "('d, 'b) bus_scheme \<Rightarrow> nat \<Rightarrow> u32 \<Rightarrow> ('d, 'z) machine_scheme \<Rightarrow> int \<times> ('d, 'z) machine_scheme" where
  "Pic_SetMask B p m w = on_dev (Reg_Write B (mask_reg (pics w p)) m) w"

definition Pic_ReadMask ::
    "('d, 'b) bus_scheme \<Rightarrow> nat \<Rightarrow> ('d, 'z) machine_scheme \<Rightarrow> (int \<times> u32) \<times> ('d, 'z) machine_scheme" where
  "Pic_ReadMask B p w = on_dev (Reg_Read B (mask_reg (pics w p))) w"

definition Pic_EnableInterrupts :: "('d, 'z) machine_scheme \<Rightarrow> ('d, 'z) machine_scheme" where
  "Pic_EnableInterrupts w = enable_interrupt kExternalTimerIrq w"

definition Pic_DisableInterrupts :: "('d, 'z) machine_scheme \<Rightarrow> ('d, 'z) machine_scheme" where
  "Pic_DisableInterrupts w = disable_interrupt kExternalTimerIrq w"

definition Pic_SetTimerHandler ::
    "nat \<Rightarrow> nat option \<Rightarrow> ('d, 'z) machine_scheme \<Rightarrow> ('d, 'z) machine_scheme" where
  "Pic_SetTimerHandler p h w = w\<lparr>pics := (pics w)(p := (pics w p)\<lparr>timer_handler := h\<rparr>)\<rparr>"

definition Pic_SetUartHandler ::
    "nat \<Rightarrow> nat option \<Rightarrow> ('d, 'z) machine_scheme \<Rightarrow> ('d, 'z) machine_scheme" where
  "Pic_SetUartHandler p h w = w\<lparr>pics := (pics w)(p := (pics w p)\<lparr>uart_handler := h\<rparr>)\<rparr>"

text \<open>
  The constructor initialises the mask and the two registers and leaves the handler pointers as the
  memory of the object \<open>p\<close> holds them.
\<close>

definition Pic_ctor ::
    "('d, 'b) bus_scheme \<Rightarrow> nat \<Rightarrow> u32 \<Rightarrow> ('d, 'z) machine_scheme \<Rightarrow> ('d, 'z) machine_scheme" where
  "Pic_ctor B p base_address w =
     (let obj = (pics w p)\<lparr>pic_mask := 0, mask_reg := Reg_ctor (base_address + MASK_REG),
                           irq_reg := Reg_ctor (base_address + IRQ_REG)\<rparr>;
          w1 = Pic_DisableInterrupts (w\<lparr>pics := (pics w)(p := obj)\<rparr>);
          (_, w2) = on_dev (Reg_Write B (mask_reg obj) 0) w1;
          (_, w3) = on_dev (Reg_Write B (irq_reg obj) 0) w2
      in set_interrupt_handler Isr_default_handler (w3\<lparr>pic_instance := Some p\<rparr>))"

text \<open>The calls of the interrupt handler through its two pointers.\<close>

definition call_timer ::
    "('d, 'b) bus_scheme \<Rightarrow> nat \<Rightarrow> ('d, 'z) machine_scheme \<Rightarrow> ('d, 'z) machine_scheme" where
  "call_timer B t w = w\<lparr>dev := Timer_InterruptHandler B (timers w t) (dev w)\<rparr>"

definition call_uart ::
    "('d, 'b) bus_scheme \<Rightarrow> nat \<Rightarrow> ('d, 'z) machine_scheme \<Rightarrow> ('d, 'z) machine_scheme option" where
  "call_uart B u w =
     do { (x, d) \<leftarrow> Uart_InterruptHandler B (uarts w u) (dev w);
          Some (w\<lparr>dev := d, uarts := (uarts w)(u := x)\<rparr>) }"

definition Pic_InterruptHandler ::
    "('d, 'b) bus_scheme \<Rightarrow> nat \<Rightarrow> ('d, 'z) machine_scheme \<Rightarrow> ('d, 'z) machine_scheme option" where
  "Pic_InterruptHandler B p w =
     (let cause = get_mcause w
      in if cause AND 0x80000000 \<noteq> 0 \<and> cause AND 0x7 = 7
         then do {
           w1 \<leftarrow> uart_putchar B (0x21 :: u8) w;
           let (_, w2) = Pic_ReadMask B p w1;
           let ((_, irqs), w3) = on_dev (Reg_Read B (irq_reg (pics w2 p))) w2;
           let w4 = (case timer_handler (pics w3 p) of
                       Some t \<Rightarrow> if irqs AND kTimerIrqBit \<noteq> 0 then call_timer B t w3 else w3
                     | None \<Rightarrow> w3);
           w5 \<leftarrow> (case uart_handler (pics w4 p) of
                     Some u \<Rightarrow> if irqs AND kUartIrqBit \<noteq> 0 then call_uart B u w4 else Some w4
                   | None \<Rightarrow> Some w4);
           Some (snd (Pic_ClearIrq B p (kTimerIrqBit OR kUartIrqBit) w5)) }
         else Some w)"

definition default_handler ::
    "('d, 'b) bus_scheme \<Rightarrow> ('d, 'z) machine_scheme \<Rightarrow> ('d, 'z) machine_scheme option" where
  "default_handler B w =
     (case pic_instance w of None \<Rightarrow> Some w | Some p \<Rightarrow> Pic_InterruptHandler B p w)"

definition read_irqs ::
    "('d, 'b) bus_scheme \<Rightarrow> ('d, 'z) machine_scheme \<Rightarrow> u32 \<times> ('d, 'z) machine_scheme" where
  "read_irqs B w =
     (case pic_instance w of
        None \<Rightarrow> (0, w)
      | Some p \<Rightarrow> (case on_dev (Reg_Read B (irq_reg (pics w p))) w of ((_, ret), w1) \<Rightarrow> (ret, w1)))"

text \<open>
  The handler of \<open>lib/arch\<close>: call \<open>main_handler\<close>, when there is one, with a null pointer and the
  pending interrupts.
\<close>

definition arch_default_handler ::
    "('d, 'b) bus_scheme \<Rightarrow> (u32 \<Rightarrow> ('d, 'z) machine_scheme \<Rightarrow> ('d, 'z) machine_scheme option) option \<Rightarrow>
     ('d, 'z) machine_scheme \<Rightarrow> ('d, 'z) machine_scheme option" where
  "arch_default_handler B main_handler w =
     (case main_handler of
        None \<Rightarrow> Some w
      | Some h \<Rightarrow> (case read_irqs B w of (irqs, w1) \<Rightarrow> h irqs w1))"

text \<open>The handler for x86-64 is a copy, for the tests on the host.\<close>

definition x86_default_handler ::
    "('d, 'b) bus_scheme \<Rightarrow> (u32 \<Rightarrow> ('d, 'z) machine_scheme \<Rightarrow> ('d, 'z) machine_scheme option) option \<Rightarrow>
     ('d, 'z) machine_scheme \<Rightarrow> ('d, 'z) machine_scheme option" where
  "x86_default_handler B main_handler w =
     (case main_handler of
        None \<Rightarrow> Some w
      | Some h \<Rightarrow> (case read_irqs B w of (irqs, w1) \<Rightarrow> h irqs w1))"

lemma arch_handlers_agree: "x86_default_handler = arch_default_handler"
  by (simp add: fun_eq_iff x86_default_handler_def arch_default_handler_def)

lemmas pic_method_defs = Pic_ClearIrq_def Pic_SetMask_def Pic_ReadMask_def Pic_EnableInterrupts_def
  Pic_DisableInterrupts_def Pic_SetTimerHandler_def Pic_SetUartHandler_def on_dev_def reg_simps

subsection \<open>The bits\<close>

lemma high_bit_iff: "(c :: u32) AND 0x80000000 \<noteq> 0 \<longleftrightarrow> bit c 31"
  using word_and_bit_eq_0_iff [of 31 c] by (simp add: push_bit_eq_mult)

lemma low_bits_iff: "(c :: u32) AND 7 = 7 \<longleftrightarrow> bit c 0 \<and> bit c 1 \<and> bit c 2"
proof -
  have m: "(7 :: u32) = mask 3" by (simp add: mask_eq_exp_minus_1)
  have b: "bit (mask 3 :: u32) n \<longleftrightarrow> n < 3" for n by (auto simp: bit_mask_iff)
  show ?thesis unfolding m bit_eq_iff bit_and_iff b by (auto simp: numeral_eq_Suc less_Suc_eq)
qed

lemma bit_irq: "bit ((2 :: u32) ^ k) n \<longleftrightarrow> n = k \<and> n < 32"
  by (auto simp: bit_exp_iff)

lemma mie_bits:
  "bit (mie (enable_interrupt k w)) n \<longleftrightarrow> n = k \<and> n < 32 \<or> bit (mie w) n"
  "bit (mie (disable_interrupt k w)) n \<longleftrightarrow> n \<noteq> k \<and> bit (mie w) n"
  unfolding enable_interrupt_def disable_interrupt_def
  by (auto simp: bit_or_iff bit_and_iff bit_not_iff bit_irq dest: bit_imp_le_length)

lemma mstatus_bits: "bit (mstatus (set_interrupt_handler h w)) n \<longleftrightarrow> n = 3 \<or> bit (mstatus w) n"
proof -
  have e: "mstatus (set_interrupt_handler h w) = mstatus w OR 2 ^ 3"
    by (simp add: set_interrupt_handler_def)
  have "n = 3 \<and> n < 32 \<longleftrightarrow> n = 3" by auto
  then show ?thesis unfolding e bit_or_iff bit_irq by auto
qed

lemma check_enabled_iff: "k < 32 \<Longrightarrow> check_enabled k w = (if bit (mie w) k then 1 else 0)"
  using word_and_bit_eq_0_iff [of k "mie w"] by (simp add: check_enabled_def)

lemma irq_bit_iffs:
  "irqs AND kTimerIrqBit \<noteq> 0 \<longleftrightarrow> bit irqs 0" "irqs AND kUartIrqBit \<noteq> 0 \<longleftrightarrow> bit irqs 1"
  using word_and_bit_eq_0_iff [of 0 irqs] word_and_bit_eq_0_iff [of 1 irqs]
  by (simp_all add: kTimerIrqBit_def kUartIrqBit_def)


subsection \<open>What one interrupt does\<close>

text \<open>
  The specification of the handler. \<open>serviced_timer\<close> and \<open>serviced_uart\<close> say which objects an
  interrupt status reaches; \<open>timer_val\<close> is the timer's effect on the registers; \<open>uart_took\<close> says
  what happens to the receiver object when the bytes \<open>cs\<close> are drained into it.
\<close>

definition serviced_timer :: "pic \<Rightarrow> u32 \<Rightarrow> nat option" where
  "serviced_timer x irqs = (if bit irqs 0 then timer_handler x else None)"

definition serviced_uart :: "pic \<Rightarrow> u32 \<Rightarrow> nat option" where
  "serviced_uart x irqs = (if bit irqs 1 then uart_handler x else None)"

definition timer_val :: "timer \<Rightarrow> (u32 \<Rightarrow> u32) \<Rightarrow> u32 \<Rightarrow> u32" where
  "timer_val t f = f(reg_address (t_counter t) := default_counter t, reg_address (t_irq t) := 0)"

definition uart_took :: "uart \<Rightarrow> u8 list \<Rightarrow> uart \<Rightarrow> bool" where
  "uart_took x cs x' \<longleftrightarrow> uart_ok x' \<and> u_reg x' = u_reg x \<and>
     (if length cs < 256 - length (received x) then received x' = received x @ cs \<and> overrun x' = overrun x
      else received x' = [] \<and> overrun x')"

definition same_control :: "('d, 'z) machine_scheme \<Rightarrow> ('d, 'z) machine_scheme \<Rightarrow> bool" where
  "same_control w w' \<longleftrightarrow>
     mie w' = mie w \<and> mstatus w' = mstatus w \<and> mcause w' = mcause w \<and> mtvec w' = mtvec w \<and>
     pic_instance w' = pic_instance w \<and> pics w' = pics w \<and> timers w' = timers w \<and> fmtbuf w' = fmtbuf w"

lemma same_rest_control: "same_rest w w' \<Longrightarrow> same_control w w' \<and> uarts w' = uarts w"
  by (cases w; cases w') (simp add: same_rest_def same_control_def)

lemma same_control_dev [simp]: "same_control w (w\<lparr>dev := d\<rparr>)" "same_control w (w\<lparr>dev := d, uarts := u\<rparr>)"
  by (simp_all add: same_control_def)

lemma same_control_trans: "same_control w w1 \<Longrightarrow> same_control w1 w2 \<Longrightarrow> same_control w w2"
  by (simp add: same_control_def)

context soc_bus
begin

lemma timer_handler_soc:
  assumes "reg_address (t_irq t) \<in> regs" and "reg_address (t_counter t) \<in> regs" and "dinv d"
    and "d' = Timer_InterruptHandler B t d"
  shows "dinv d' \<and> val d' = timer_val t (val d) \<and> ram d' = ram d \<and> tx d' = tx d \<and> inp d' = inp d"
  using assms by (simp add: timer_defs reg_simps reg_write_simps timer_val_def)

lemma call_uart_soc:
  assumes "uart_ok (uarts w u)" and "reg_address (u_reg (uarts w u)) = UART_ADDRESS" and "dinv (dev w)"
  obtains d x cs where "call_uart B u w = Some (w\<lparr>dev := d, uarts := (uarts w)(u := x)\<rparr>)"
    and "dinv d" and "val d = val (dev w)" and "ram d = ram (dev w)" and "tx d = tx (dev w)"
    and "inp (dev w) = cs @ inp d" and "uart_took (uarts w u) cs x"
proof -
  let ?x = "uarts w u"
  let ?n = "256 - length (received ?x)"
  obtain cs d where dr: "drain B (u_reg ?x) ?n (dev w) = (cs, d)" by fastforce
  from handler_spec [OF assms(1), of B "dev w"] obtain x where
    x: "Uart_InterruptHandler B ?x (dev w) = Some (x, d)" "uart_took ?x cs x"
    by (auto simp: dr uart_took_def Let_def)
  from drain_input [OF assms(3,2) dr] x that show thesis by (auto simp: call_uart_def)
qed

text \<open>Running the two handlers on the pending interrupts \<open>irqs\<close>.\<close>

lemma service_soc:
  assumes d: "dinv (dev w)"
    and t: "\<And>t. timer_handler (pics w p) = Some t \<Longrightarrow>
              reg_address (t_irq (timers w t)) \<in> regs \<and> reg_address (t_counter (timers w t)) \<in> regs"
    and u: "\<And>u. uart_handler (pics w p) = Some u \<Longrightarrow>
              uart_ok (uarts w u) \<and> reg_address (u_reg (uarts w u)) = UART_ADDRESS"
    and w4: "w4 = (case timer_handler (pics w p) of
                     Some t \<Rightarrow> if irqs AND kTimerIrqBit \<noteq> 0 then call_timer B t w else w
                   | None \<Rightarrow> w)"
  obtains d' us cs where
    "(case uart_handler (pics w4 p) of
        Some u \<Rightarrow> if irqs AND kUartIrqBit \<noteq> 0 then call_uart B u w4 else Some w4
      | None \<Rightarrow> Some w4) = Some (w\<lparr>dev := d', uarts := us\<rparr>)"
    and "dinv d'" and "ram d' = ram (dev w)" and "tx d' = tx (dev w)" and "inp (dev w) = cs @ inp d'"
    and "val d' = (case serviced_timer (pics w p) irqs of
                     None \<Rightarrow> val (dev w) | Some t \<Rightarrow> timer_val (timers w t) (val (dev w)))"
    and "case serviced_uart (pics w p) irqs of
           None \<Rightarrow> cs = [] \<and> us = uarts w
         | Some u \<Rightarrow> us = (uarts w)(u := us u) \<and> uart_took (uarts w u) cs (us u)"
proof -
  define d4 where "d4 = dev w4"
  have w4': "w4 = w\<lparr>dev := d4\<rparr>"
    and d4: "dinv d4 \<and> ram d4 = ram (dev w) \<and> tx d4 = tx (dev w) \<and> inp d4 = inp (dev w) \<and>
      val d4 = (case serviced_timer (pics w p) irqs of
                  None \<Rightarrow> val (dev w) | Some t \<Rightarrow> timer_val (timers w t) (val (dev w)))"
    using timer_handler_soc [OF _ _ d refl] t d
    by (auto simp: d4_def w4 irq_bit_iffs serviced_timer_def call_timer_def split: option.splits)
  show thesis
  proof (cases "serviced_uart (pics w p) irqs")
    case None
    with that [of "uarts w" d4 "[]"] d4 show thesis
      by (auto simp: w4' serviced_uart_def irq_bit_iffs split: option.splits if_splits)
  next
    case (Some u)
    then have h: "uart_handler (pics w p) = Some u" "bit irqs 1"
      by (auto simp: serviced_uart_def split: if_splits)
    have c: "uart_ok (uarts w4 u)" "reg_address (u_reg (uarts w4 u)) = UART_ADDRESS" "dinv (dev w4)"
      using u [OF h(1)] d4 by (simp_all add: w4')
    obtain d' x cs where
      "call_uart B u w4 = Some (w4\<lparr>dev := d', uarts := (uarts w4)(u := x)\<rparr>)"
      "dinv d'" "val d' = val (dev w4)" "ram d' = ram (dev w4)" "tx d' = tx (dev w4)"
      "inp (dev w4) = cs @ inp d'" "uart_took (uarts w4 u) cs x"
      by (rule call_uart_soc [OF c])
    with that [of "(uarts w)(u := x)" d' cs] d4 h Some show thesis
      by (simp add: w4' irq_bit_iffs)
  qed
qed

lemma InterruptHandler_soc:
  assumes ok: "fw_ok dinv w"
    and cause: "bit (mcause w) 31" "bit (mcause w) 0 \<and> bit (mcause w) 1 \<and> bit (mcause w) 2"
    and r: "reg_address (mask_reg (pics w p)) \<in> regs" "reg_address (irq_reg (pics w p)) \<in> regs"
    and t: "\<And>t. timer_handler (pics w p) = Some t \<Longrightarrow>
              reg_address (t_irq (timers w t)) \<in> regs \<and> reg_address (t_counter (timers w t)) \<in> regs"
    and u: "\<And>u. uart_handler (pics w p) = Some u \<Longrightarrow>
              uart_ok (uarts w u) \<and> reg_address (u_reg (uarts w u)) = UART_ADDRESS"
    and irqs: "irqs = val (dev w) (reg_address (irq_reg (pics w p)))"
  shows "\<exists>w' cs. Pic_InterruptHandler B p w = Some w' \<and> fw_ok dinv w' \<and> same_control w w' \<and>
           tx (dev w') = tx (dev w) @ [0x21] \<and> ram (dev w') = ram (dev w) \<and>
           val (dev w') = (case serviced_timer (pics w p) irqs of
                             None \<Rightarrow> val (dev w) | Some t \<Rightarrow> timer_val (timers w t) (val (dev w)))
                           (reg_address (irq_reg (pics w p)) := 0) \<and>
           (case serviced_uart (pics w p) irqs of
              None \<Rightarrow> cs = [] \<and> uarts w' = uarts w
            | Some u \<Rightarrow> uarts w' = (uarts w)(u := uarts w' u) \<and> uart_took (uarts w u) cs (uarts w' u)) \<and>
           (exposed avail w \<le> 255 \<longrightarrow> pending inp w = saved (ubuf w') @ cs @ inp (dev w')) \<and>
           map_option ubuf (uart_putchar B 0x21 w) = Some (ubuf w')"
proof -
  obtain w1 where w1: "uart_putchar B 0x21 w = Some w1" and k: "keeps w [] [0x21] w1"
    using putchar_returns [OF ok] by blast
  from k have ok1: "fw_ok dinv w1" and sr: "same_rest w w1" and tx1: "tx (dev w1) = tx (dev w) @ [0x21]"
    and v1: "val (dev w1) = val (dev w)" "ram (dev w1) = ram (dev w)"
    and p1: "exposed avail w \<le> 255 \<longrightarrow> pending inp w = pending inp w1"
    by (simp_all add: keeps_def XON_def)
  from same_rest_control [OF sr] have sc: "same_control w w1" and us1: "uarts w1 = uarts w" by simp_all
  then have pics1: "pics w1 = pics w" "timers w1 = timers w" by (simp_all add: same_control_def)
  have d1: "dinv (dev w1)" using ok1 by (simp add: fw_ok_def)
  have m1: "reg_address (mask_reg (pics w1 p)) \<in> regs" "reg_address (irq_reg (pics w1 p)) \<in> regs"
    using r by (simp_all add: pics1)
  obtain d2 where d2: "Reg_Read B (mask_reg (pics w1 p)) (dev w1) =
      ((0, val (dev w1) (reg_address (mask_reg (pics w1 p)))), d2)"
    "dinv d2" "val d2 = val (dev w1)" "ram d2 = ram (dev w1)" "tx d2 = tx (dev w1)" "inp d2 = inp (dev w1)"
    by (rule Reg_Read_soc [OF m1(1) d1])
  obtain d3 where d3: "Reg_Read B (irq_reg (pics w1 p)) d2 =
      ((0, val d2 (reg_address (irq_reg (pics w1 p)))), d3)"
    "dinv d3" "val d3 = val d2" "ram d3 = ram d2" "tx d3 = tx d2" "inp d3 = inp d2"
    by (rule Reg_Read_soc [OF m1(2) d2(2)])
  have i: "val d2 (reg_address (irq_reg (pics w1 p))) = irqs" by (simp add: d2 v1 pics1 irqs)
  define w3 where "w3 = w1\<lparr>dev := d3\<rparr>"
  define w4 where "w4 = (case timer_handler (pics w3 p) of
      Some t \<Rightarrow> if irqs AND kTimerIrqBit \<noteq> 0 then call_timer B t w3 else w3 | None \<Rightarrow> w3)"
  have c3: "dinv (dev w3)" using d3 by (simp add: w3_def)
  have t3: "timer_handler (pics w3 p) = Some t \<Longrightarrow>
      reg_address (t_irq (timers w3 t)) \<in> regs \<and> reg_address (t_counter (timers w3 t)) \<in> regs" for t
    using t by (simp add: w3_def pics1)
  have u3: "uart_handler (pics w3 p) = Some u \<Longrightarrow>
      uart_ok (uarts w3 u) \<and> reg_address (u_reg (uarts w3 u)) = UART_ADDRESS" for u
    using u by (simp add: w3_def pics1 us1)
  obtain d' us cs where sv: "(case uart_handler (pics w4 p) of
        Some u \<Rightarrow> if irqs AND kUartIrqBit \<noteq> 0 then call_uart B u w4 else Some w4
      | None \<Rightarrow> Some w4) = Some (w3\<lparr>dev := d', uarts := us\<rparr>)"
    and d': "dinv d'" "ram d' = ram (dev w3)" "tx d' = tx (dev w3)" "inp (dev w3) = cs @ inp d'"
    and vd': "val d' = (case serviced_timer (pics w3 p) irqs of
                     None \<Rightarrow> val (dev w3) | Some t \<Rightarrow> timer_val (timers w3 t) (val (dev w3)))"
    and us: "case serviced_uart (pics w3 p) irqs of None \<Rightarrow> cs = [] \<and> us = uarts w3
         | Some u \<Rightarrow> us = (uarts w3)(u := us u) \<and> uart_took (uarts w3 u) cs (us u)"
    by (rule service_soc [OF c3 t3 u3 w4_def])
  let ?a = "reg_address (irq_reg (pics w p))"
  define w' where "w' = w3\<lparr>dev := wr32 B ?a 0 d', uarts := us\<rparr>"
  have run: "Pic_InterruptHandler B p w = Some w'"
    using cause w1 sv i
    by (simp add: Pic_InterruptHandler_def get_mcause_def high_bit_iff low_bits_iff Pic_ReadMask_def
        on_dev_def d2(1) d3(1) w3_def [symmetric] w4_def [symmetric] Pic_ClearIrq_def Reg_Write_def lib_reg_write_def)
      (simp add: w3_def w'_def pics1)
  note wr = reg_write_simps [OF r(2) d'(1)]
  have "fw_ok dinv w'" using ok1 by (simp add: fw_ok_def w'_def w3_def wr)
  moreover have "same_control w w'" using sc by (simp add: same_control_def w'_def w3_def)
  moreover have "pending inp w1 = saved (ubuf w') @ cs @ inp (dev w')"
    using d' d3 d2 by (simp add: pending_def w'_def w3_def wr)
  moreover have "map_option ubuf (uart_putchar B 0x21 w) = Some (ubuf w')"
    by (simp add: w1 w'_def w3_def)
  ultimately show ?thesis
    using run p1 us vd' d' d3 d2 tx1 v1
    by (intro exI [of _ w'] exI [of _ cs])
      (auto simp: w'_def w3_def wr pics1 us1 split: option.splits)
qed

end

subsection \<open>Properties\<close>

text \<open>
  C33: One interrupt, end to end. On a machine that meets the bus contract, whenever \<open>mcause\<close> has bit
  31 and its three low bits set (which is more than the machine timer cause 7 of the comment: 15, 23
  and so on pass too), the handler returns; it sends \<open>!\<close>; the pending bits decide which handlers run;
  a serviced timer is reloaded and its interrupt cleared; a serviced UART object receives exactly the
  bytes drained from the device or flags an overrun; the whole interrupt register is cleared, bits
  that were pending but have no handler included; and no other register, no RAM, no control register
  and no other object changes. No input byte is lost, but it may end up in the polled driver's ring.
\<close>

theorem pic_interrupt_serviced:
  assumes "soc_bus B dinv inp avail tx room tx_wait rx_wait val ram regs"
    and "fw_ok dinv w" and "exposed avail w \<le> 255"
    and "pic_instance w = Some p" and "x = pics w p"
    and "bit (mcause w) 31" and "bit (mcause w) 0 \<and> bit (mcause w) 1 \<and> bit (mcause w) 2"
    and "reg_address (mask_reg x) \<in> regs" and "reg_address (irq_reg x) \<in> regs"
    and "\<And>t. timer_handler x = Some t \<Longrightarrow>
           reg_address (t_irq (timers w t)) \<in> regs \<and> reg_address (t_counter (timers w t)) \<in> regs"
    and "\<And>u. uart_handler x = Some u \<Longrightarrow>
           uart_ok (uarts w u) \<and> reg_address (u_reg (uarts w u)) = UART_ADDRESS"
    and "irqs = val (dev w) (reg_address (irq_reg x))"
  shows "\<exists>w' cs. default_handler B w = Some w' \<and> fw_ok dinv w' \<and> same_control w w' \<and>
           tx (dev w') = tx (dev w) @ [0x21] \<and> ram (dev w') = ram (dev w) \<and>
           val (dev w') = (case serviced_timer x irqs of
                             None \<Rightarrow> val (dev w) | Some t \<Rightarrow> timer_val (timers w t) (val (dev w)))
                           (reg_address (irq_reg x) := 0) \<and>
           (case serviced_uart x irqs of
              None \<Rightarrow> cs = [] \<and> uarts w' = uarts w
            | Some u \<Rightarrow> uarts w' = (uarts w)(u := uarts w' u) \<and> uart_took (uarts w u) cs (uarts w' u)) \<and>
           pending inp w = saved (ubuf w') @ cs @ inp (dev w')"
  using soc_bus.InterruptHandler_soc [OF assms(1,2,6,7), where p = p, OF _ _ _ _ refl] assms(3-5,8-12)
  by (auto simp: default_handler_def)

text \<open>
  The \<open>!\<close> the handler prints steals the byte that raised the interrupt: when the device has a byte
  and room to transmit, \<open>uart_putchar\<close> pops that byte into the ring of the polled driver, and the
  object whose handler runs afterwards only sees the bytes behind it.
\<close>

lemma pic_putchar_steals_byte:
  assumes "soc_bus B dinv inp avail tx room tx_wait rx_wait val ram regs"
    and "fw_ok dinv w" and "exposed avail w \<le> 255"
    and "pic_instance w = Some p" and "x = pics w p"
    and "bit (mcause w) 31" and "bit (mcause w) 0 \<and> bit (mcause w) 1 \<and> bit (mcause w) 2"
    and "reg_address (mask_reg x) \<in> regs" and "reg_address (irq_reg x) \<in> regs"
    and "timer_handler x = None" and "uart_handler x = Some u"
    and "uart_ok (uarts w u)" and "reg_address (u_reg (uarts w u)) = UART_ADDRESS"
    and "bit (val (dev w) (reg_address (irq_reg x))) 1"
    and "rd32 B UART_ADDRESS (dev w) = (v, d)" and "\<not> uart_is_empty v" and "\<not> uart_is_full v"
  shows "\<exists>w' cs. default_handler B w = Some w' \<and> saved (ubuf w') = saved (ubuf w) @ [ucast v] \<and>
           uart_took (uarts w u) cs (uarts w' u) \<and> inp (dev w) = ucast v # cs @ inp (dev w')"
proof -
  have dev: "uart_dev B dinv inp avail tx room tx_wait rx_wait (\<lambda>d. (val d, ram d))"
    using assms(1) by (simp add: soc_bus_def)
  from assms(2) have ok: "dinv (dev w)" "ub_ok (ubuf w)" by (simp_all add: fw_ok_def)
  have i: "inp (dev w) = ucast v # inp d" "avail (dev w) = Suc (avail d)"
    using uart_dev.read_byte [OF dev ok(1) assms(15,16)] by simp_all
  then have "length (saved (ubuf w)) < 255" using assms(3) by (simp add: exposed_def)
  then have q: "UartBuf_save (ucast v) (ubuf w) = b \<Longrightarrow> saved b = saved (ubuf w) @ [ucast v]" for b
    using saved_save [OF ok(2), of "ucast v"] by auto
  have s: "map_option ubuf (uart_putchar B 0x21 w) = Some (UartBuf_save (ucast v) (ubuf w))"
    using assms(15-17)
    by (subst uart_putchar_def, subst UartBuf_Put.simps)
      (simp add: UartBuf_PutAsync_def UartBuf_CanWrite_def uart_access_defs)
  note handler = soc_bus.InterruptHandler_soc [OF assms(1,2,6,7), where p = p, OF _ _ _ _ refl]
  have "serviced_uart (pics w p) (val (dev w) (reg_address (irq_reg (pics w p)))) = Some u"
    using assms(5,11,14) by (simp add: serviced_uart_def)
  with handler assms(3,5,8-13) obtain w' cs where w': "Pic_InterruptHandler B p w = Some w'"
    "uart_took (uarts w u) cs (uarts w' u)" "pending inp w = saved (ubuf w') @ cs @ inp (dev w')"
    "UartBuf_save (ucast v) (ubuf w) = ubuf w'"
    by (auto simp: s)
  from q [OF w'(4)] w' show ?thesis
    by (intro exI [of _ w'] exI [of _ cs]) (simp add: default_handler_def assms(4) pending_def i)
qed

text \<open>
  The handler does nothing at all, no bus access included, when no controller has been constructed
  or when \<open>mcause\<close> is an exception or lacks one of its three low bits.
\<close>

theorem pic_ignores_other_causes:
  assumes "pic_instance w = None \<or>
           \<not> (bit (mcause w) 31 \<and> bit (mcause w) 0 \<and> bit (mcause w) 1 \<and> bit (mcause w) 2)"
  shows "default_handler B w = Some w"
  using assms
  by (auto simp: default_handler_def Pic_InterruptHandler_def get_mcause_def high_bit_iff low_bits_iff
      split: option.splits)

text \<open>
  Constructing a controller leaves the machine safe: the external timer interrupt is masked in
  \<open>mie\<close> and no other source is affected, the controller has an empty mask and nothing pending, the
  trap vector points to \<open>default_handler\<close> with this object behind it, and only then are interrupts
  enabled globally, with the other bits of \<open>mstatus\<close> kept. The two handler pointers keep whatever the
  memory held.
\<close>

lemma pic_ctor_quiesces:
  assumes "reg_file B val regs" and "base \<in> regs" and "base + 4 \<in> regs"
    and "w' = Pic_ctor B p base w"
  shows "check_enabled 7 w' = 0 \<and> (\<forall>n. n < 32 \<and> n \<noteq> 7 \<longrightarrow> bit (mie w') n = bit (mie w) n) \<and>
         fst (Pic_ReadMask B p w') = (0, 0) \<and> fst (read_irqs B w') = 0 \<and>
         (\<forall>a. a \<in> regs \<and> a \<noteq> base \<and> a \<noteq> base + 4 \<longrightarrow> val (dev w') a = val (dev w) a) \<and>
         mtvec w' = Isr_default_handler \<and> pic_instance w' = Some p \<and>
         (\<forall>n. n < 32 \<longrightarrow> bit (mstatus w') n = (n = 3 \<or> bit (mstatus w) n)) \<and>
         timer_handler (pics w' p) = timer_handler (pics w p) \<and>
         uart_handler (pics w' p) = uart_handler (pics w p)"
proof -
  note R = reg_file.Reg_Read_val [OF assms(1)]
  note W = reg_file.write_val [OF assms(1)]
  have f: "dev w' = wr32 B (base + 4) 0 (wr32 B base 0 (dev w))"
    "mask_reg (pics w' p) = \<lparr>reg_address = base\<rparr>" "irq_reg (pics w' p) = \<lparr>reg_address = base + 4\<rparr>"
    "mie w' = mie (disable_interrupt 7 w)" "mstatus w' = mstatus (set_interrupt_handler Isr_default_handler w)"
    "mtvec w' = Isr_default_handler" "pic_instance w' = Some p"
    "timer_handler (pics w' p) = timer_handler (pics w p)"
    "uart_handler (pics w' p) = uart_handler (pics w p)"
    by (simp_all add: assms(4) Pic_ctor_def pic_method_defs csr_defs MASK_REG_def IRQ_REG_def Let_def)
  have "check_enabled 7 w' = 0"
    by (simp add: check_enabled_iff f mie_bits)
  moreover have "fst (Pic_ReadMask B p w') = (0, 0)"
    using R [of "\<lparr>reg_address = base\<rparr>" "dev w'"] assms(2,3)
    by (simp add: Pic_ReadMask_def on_dev_def f W split_beta)
  moreover have "fst (read_irqs B w') = 0"
    using R [of "\<lparr>reg_address = base + 4\<rparr>" "dev w'"] assms(2,3)
    by (simp add: read_irqs_def on_dev_def f W split_beta)
  ultimately show ?thesis using assms(2,3) by (simp add: f(1,4-9) W mie_bits mstatus_bits)
qed

text \<open>
  \<open>EnableInterrupts\<close> and \<open>DisableInterrupts\<close> set and clear the external timer bit of \<open>mie\<close> and
  leave its other bits, \<open>mstatus\<close> and the device alone, and \<open>check_enabled\<close> tells them apart.
\<close>

theorem pic_enable_disable:
  "bit (mie (Pic_EnableInterrupts w)) n = (n = 7 \<or> bit (mie w) n) \<and>
   bit (mie (Pic_DisableInterrupts w)) n = (n \<noteq> 7 \<and> bit (mie w) n) \<and>
   check_enabled kExternalTimerIrq (Pic_EnableInterrupts w) = 1 \<and>
   check_enabled kExternalTimerIrq (Pic_DisableInterrupts w) = 0 \<and>
   mstatus (Pic_EnableInterrupts w) = mstatus w \<and> dev (Pic_EnableInterrupts w) = dev w \<and>
   mstatus (Pic_DisableInterrupts w) = mstatus w \<and> dev (Pic_DisableInterrupts w) = dev w"
proof -
  have "n = 7 \<and> n < 32 \<longleftrightarrow> n = 7" by auto
  then show ?thesis
    by (simp add: Pic_EnableInterrupts_def Pic_DisableInterrupts_def kExternalTimerIrq_def mie_bits
        check_enabled_iff) (simp add: enable_interrupt_def disable_interrupt_def)
qed

text \<open>
  Over registers that hold what was written, \<open>SetMask\<close> and \<open>ReadMask\<close> round-trip every mask,
  and \<open>ClearIrq\<close> clears every pending interrupt whatever mask it is given, so it also clears
  interrupts the caller did not name; \<open>read_irqs\<close> then reports none.
\<close>

lemma pic_mask_and_clear:
  assumes "reg_file B val regs" and "reg_address (mask_reg (pics w p)) \<in> regs"
    and "reg_address (irq_reg (pics w p)) \<in> regs"
    and "reg_address (mask_reg (pics w p)) \<noteq> reg_address (irq_reg (pics w p))"
    and "Pic_SetMask B p m w = (r, w1)" and "Pic_ClearIrq B p c w1 = (r', w2)"
    and "pic_instance w = Some p"
  shows "r = 0 \<and> r' = 0 \<and> fst (Pic_ReadMask B p w1) = (0, m) \<and> fst (Pic_ReadMask B p w2) = (0, m) \<and>
         fst (read_irqs B w1) = fst (read_irqs B w) \<and> fst (read_irqs B w2) = 0"
proof -
  note R = reg_file.Reg_Read_val [OF assms(1)] and W = reg_file.write_val [OF assms(1)]
  have w: "r = 0" "r' = 0"
    "w1 = w\<lparr>dev := wr32 B (reg_address (mask_reg (pics w p))) m (dev w)\<rparr>"
    "w2 = w1\<lparr>dev := wr32 B (reg_address (irq_reg (pics w p))) 0 (dev w1)\<rparr>"
    using assms(5,6) by (auto simp: Pic_SetMask_def Pic_ClearIrq_def on_dev_def reg_simps)
  have rm: "fst (Pic_ReadMask B p v) = fst (Reg_Read B (mask_reg (pics v p)) (dev v))"
    and ri: "pic_instance v = Some p \<Longrightarrow>
      fst (read_irqs B v) = snd (fst (Reg_Read B (irq_reg (pics v p)) (dev v)))" for v
    by (simp_all add: Pic_ReadMask_def read_irqs_def on_dev_def split_beta)
  show ?thesis using assms(2-4,7) by (simp add: w rm ri R W)
qed

subsection \<open>Witnesses\<close>

text \<open>
  A machine with a controller at its default address, a timer with reload value 1000 and a receiver
  object at the address of the UART. \<open>uart_soc\<close> has a byte in the receive FIFO.
\<close>

abbreviation demo_pic :: "nat option \<Rightarrow> nat option \<Rightarrow> pic" where
  "demo_pic t u \<equiv> \<lparr>pic_mask = 0, timer_handler = t, uart_handler = u,
     mask_reg = \<lparr>reg_address = 0x40000030\<rparr>, irq_reg = \<lparr>reg_address = 0x40000034\<rparr>\<rparr>"

definition demo_timer :: timer where
  "demo_timer = \<lparr>t_irq = \<lparr>reg_address = 0x40000020\<rparr>, t_counter = \<lparr>reg_address = 0x40000024\<rparr>,
                 default_counter = 1000\<rparr>"

definition demo_machine :: "'d \<Rightarrow> pic \<Rightarrow> 'd machine" where
  "demo_machine d x =
     \<lparr>dev = d, ubuf = UartBuf_ctor, fmtbuf = replicate 256 0, mie = 0, mstatus = 0, mcause = 0x8000000F,
      mtvec = Isr_reset, pic_instance = Some 0, pics = (\<lambda>_. x), timers = (\<lambda>_. demo_timer),
      uarts = (\<lambda>_. demo_uart)\<rparr>"

definition irq_soc :: "u32 \<Rightarrow> u8 list \<Rightarrow> soc" where
  "irq_soc irqs bs =
     \<lparr>s_uart = (wbu_reset [])\<lparr>rd_fifo := bs\<rparr>, s_regs = [0x40000034 \<mapsto> irqs], s_ram = (\<lambda>_. 0)\<rparr>"

lemma demo_facts:
  assumes "length bs \<le> 128"
  shows "fw_ok (\<lambda>m. wbu_inv (s_uart m)) (demo_machine (irq_soc irqs bs) x)"
    and "pending (\<lambda>m. wbu_inp (s_uart m)) (demo_machine (irq_soc irqs bs) x) = bs"
    and "exposed (\<lambda>m. wbu_avail (s_uart m)) (demo_machine (irq_soc irqs bs) x) = length bs"
    and "saved (ubuf (demo_machine (irq_soc irqs bs) x)) = []"
    and "mock_val (s_regs (irq_soc irqs bs)) = (\<lambda>_. 0)(0x40000034 := irqs)"
    and "wbu_tx (s_uart (irq_soc irqs bs)) = []"
  using assms
  by (auto simp: demo_machine_def irq_soc_def fw_ok_def pending_def exposed_def wbu_reset_def wbu_defs UartBuf_ctor_def
      ub_ok_def saved_def mock_val_def fun_eq_iff fifo_depth_def)

lemma demo_machine_fields [simp]:
  "pic_instance (demo_machine d x) = Some 0" "pics (demo_machine d x) p = x"
  "timers (demo_machine d x) t = demo_timer" "uarts (demo_machine d x) u = demo_uart"
  "dev (demo_machine d x) = d" "mcause (demo_machine d x) = 0x8000000F"
  by (simp_all add: demo_machine_def)

lemma demo_cause: "bit (0x8000000F :: u32) 31"
    "bit (0x8000000F :: u32) 0 \<and> bit (0x8000000F :: u32) 1 \<and> bit (0x8000000F :: u32) 2"
  by (simp_all flip: high_bit_iff low_bits_iff)

theorem pic_interrupt_serviced_witness:
  "\<exists>w'. default_handler soc_mem_bus (demo_machine (irq_soc 1 []) (demo_pic (Some 0) None)) = Some w' \<and>
        wbu_tx (s_uart (dev w')) = [0x21] \<and>
        mock_val (s_regs (dev w')) = (\<lambda>_. 0)(0x40000024 := 1000)"
proof -
  let ?x = "demo_pic (Some 0) None"
  let ?w = "demo_machine (irq_soc 1 []) ?x"
  have l: "length ([] :: u8 list) \<le> 128" by simp
  note f = demo_facts(1-4) [OF l, of 1 ?x] demo_facts(5,6) [OF l, of 1]
  have "bit (1 :: u32) 0" and b: "\<not> bit (1 :: u32) 1" by simp_all
  then have s: "serviced_timer ?x 1 = Some 0" "serviced_uart ?x 1 = None"
    unfolding serviced_timer_def serviced_uart_def by simp_all
  have v: "(timer_val demo_timer ((\<lambda>_. 0)(0x40000034 := 1)))(0x40000034 := 0) = (\<lambda>_. 0)(0x40000024 := 1000)"
    by (auto simp: timer_val_def demo_timer_def fun_eq_iff)
  show ?thesis
    using pic_interrupt_serviced [OF soc_machine_bus f(1), where p = 0 and x = ?x and irqs = 1] f s v
    by (auto simp: demo_cause demo_timer_def UART_ADDRESS_def is_ram_def)
qed

lemma pic_putchar_steals_byte_witness:
  "\<exists>w'. default_handler soc_mem_bus (demo_machine (irq_soc 2 [65]) (demo_pic None (Some 0))) = Some w' \<and>
        saved (ubuf w') = [65] \<and> received (uarts w' 0) = []"
proof -
  let ?x = "demo_pic None (Some 0)"
  let ?w = "demo_machine (irq_soc 2 [65]) ?x"
  have l: "length ([65] :: u8 list) \<le> 128" by simp
  note f = demo_facts(1-4) [OF l, of 2 ?x] demo_facts(5,6) [OF l, of 2]
  let ?u = "s_uart (irq_soc 2 [65])"
  obtain v d where r: "rd32 soc_mem_bus UART_ADDRESS (dev ?w) = (v, d)" by fastforce
  then have v: "v = wb_uart_rdt 0 ?u" using soc_uart_read by (fastforce simp: wb_uart_read_def)
  have "rd_fifo ?u = [65]" "wr_fifo ?u = []" by (simp_all add: irq_soc_def wbu_reset_def)
  then have e: "\<not> uart_is_empty v" "\<not> uart_is_full v" "ucast v = (65 :: u8)"
    by (simp_all add: v wb_uart_rdt_empty wb_uart_rdt_full wb_uart_rdt_data fifo_full_def fifo_depth_def)
  have i: "wbu_inp ?u = [65]" by (simp add: irq_soc_def wbu_reset_def wbu_inp_def)
  have a: "{0x40000030, 0x40000034} \<inter> {UART_ADDRESS} = {}" "{0x40000030, 0x40000034} \<subseteq> soc_regs"
    by (simp_all add: UART_ADDRESS_def is_ram_def)
  have "bit (2 :: u32) 1" by simp
  with pic_putchar_steals_byte [OF soc_machine_bus f(1) _ _ refl, where p = 0 and u = 0 and v = v and d = d]
    r e f i a obtain w' cs where w': "default_handler soc_mem_bus ?w = Some w'"
      "saved (ubuf w') = [65]" "uart_took demo_uart cs (uarts w' 0)" "[65] = 65 # cs @ wbu_inp (s_uart (dev w'))"
    by (auto simp: demo_cause demo_uart_facts)
  then have "received (uarts w' 0) = []" by (auto simp: uart_took_def demo_uart_facts)
  with w' show ?thesis by blast
qed

theorem pic_ignores_other_causes_witness:
  "let w = (demo_machine (irq_soc 1 []) (demo_pic None None))\<lparr>mcause := 0x80000003\<rparr>
   in default_handler soc_mem_bus w = Some w"
proof -
  have "\<not> bit (0x80000003 :: u32) 2" by simp
  then show ?thesis unfolding Let_def by (intro pic_ignores_other_causes) simp
qed

lemma pic_ctor_quiesces_witness:
  "\<exists>w'. w' = Pic_ctor mock_bus 0 pic_kBaseAddress (demo_machine Map.empty (demo_pic None None)) \<and>
        check_enabled 7 w' = 0 \<and> pic_instance w' = Some 0 \<and> fst (read_irqs mock_bus w') = 0"
  using pic_ctor_quiesces [OF mock.reg_file_axioms, of pic_kBaseAddress
      "Pic_ctor mock_bus 0 pic_kBaseAddress (demo_machine Map.empty (demo_pic None None))" 0
      "demo_machine Map.empty (demo_pic None None)"] by simp

lemma pic_mask_and_clear_witness:
  "\<exists>w1 w2. Pic_SetMask mock_bus 0 3 (demo_machine [0x40000034 \<mapsto> 2] (demo_pic None None)) = (0, w1) \<and>
           Pic_ClearIrq mock_bus 0 1 w1 = (0, w2) \<and> fst (read_irqs mock_bus w2) = 0 \<and>
           fst (Pic_ReadMask mock_bus 0 w2) = (0, 3)"
proof -
  let ?w = "demo_machine [0x40000034 \<mapsto> 2] (demo_pic None None)"
  obtain r w1 where w1: "Pic_SetMask mock_bus 0 3 ?w = (r, w1)" by fastforce
  obtain r' w2 where w2: "Pic_ClearIrq mock_bus 0 1 w1 = (r', w2)" by fastforce
  from pic_mask_and_clear [OF mock.reg_file_axioms _ _ _ w1 w2] w1 w2 show ?thesis by auto
qed

end
