(* ===== verification/PicTest.thy ===== *)
theory PicTest
  imports Pic "HOL-Library.Sublist"
begin

text \<open>
  The program \<open>bin/pic_test\<close>: it sets up the interrupt controller, the timer and the interrupt-driven
  receiver and then prints the timer's counter for ever, while interrupts arrive. Its runs are a step
  relation: steps of the program, one for each access to the device and to the ring that it shares with the interrupt
  handler, interrupts between any two of them, and steps of the hardware alone. The first property says what every run
  keeps, the second what an interrupt inside \<open>CanWrite\<close> does to the input.
\<close>

definition uart_kBaseAddress :: u32 where
  "uart_kBaseAddress = 0x40000010"

subsection \<open>The program\<close>

text \<open>
  The objects \<open>pic\<close>, \<open>uart\<close> and \<open>timer\<close> are number 0 of their stores. The constructor of the receiver
  leaves its buffer as the memory holds it.
\<close>

definition pic_test_init :: "('d, 'b) bus_scheme \<Rightarrow> ('d, 'z) machine_scheme \<Rightarrow> ('d, 'z) machine_scheme" where
  "pic_test_init B w0 =
     (let w1 = Pic_ctor B 0 pic_kBaseAddress w0;
          w2 = w1\<lparr>uarts := (uarts w1)(0 := Uart_ctor (buffer (uarts w1 0)) uart_kBaseAddress)\<rparr>;
          (t, w3) = on_dev (Timer_ctor B timer_kDefaultBaseAddress 100000) w2;
          w4 = w3\<lparr>timers := (timers w3)(0 := t)\<rparr>;
          (_, w5) = on_dev (Timer_WriteCounter B (timers w4 0) 100000) w4;
          w6 = Pic_SetTimerHandler 0 (Some 0) (Pic_SetUartHandler 0 (Some 0) w5);
          (_, w7) = Pic_SetMask B 0 kTimerIrqBit w6
      in Pic_EnableInterrupts w7)"

definition crlf :: string where
  "crlf = [CHR 0x0D, CHR 0x0A]"

definition error_format :: string where
  "error_format = ''Error reading timer counter'' @ crlf"

definition counter_format :: string where
  "counter_format = ''timer: %u'' @ crlf"

text \<open>One turn of the endless loop, undisturbed; \<open>once\<close> is the local variable of that name.\<close>

definition pic_test_turn ::
    "('d, 'b) bus_scheme \<Rightarrow> bool \<Rightarrow> ('d, 'z) machine_scheme \<Rightarrow> (bool \<times> ('d, 'z) machine_scheme) option" where
  "pic_test_turn B once w =
     (case on_dev (Timer_ReadCounter B (timers w 0)) w of ((r, counter_val), w1) \<Rightarrow>
        do { (once', w2) \<leftarrow>
               (if r \<noteq> 0
                then do { w2 \<leftarrow> (if \<not> once then map_option snd (kprintf B error_format [] w1) else Some w1);
                          Some (True, w2) }
                else Some (once, w1));
             (_, w3) \<leftarrow> kprintf B counter_format [counter_val] w2;
             Some (once', w3) })"

subsection \<open>The program with interrupts\<close>

text \<open>
  Where the program is. It has read the counter and not yet used it, or it is inside a call of \<open>kprintf\<close> with
  a part of the text still to be printed. A character is printed by \<open>uart_putchar\<close>, which calls \<open>CanWrite\<close> until
  it returns true and then writes; every access that it makes to the device and every load and store of the ring that it
  shares with the interrupt handler is a step of its own, and the local variables it has meanwhile are part of its
  place: the word \<open>v\<close> read from the register and the index \<open>x\<close> loaded from \<open>wr_\<close>. Formatting is one
  step: it touches the format buffer only, which the handler does not use.
\<close>

datatype put_pc =
    Poll
  | Polled u32
  | Store_at u32 nat
  | Stored u32
  | Advance u32 nat
  | Checked u32

datatype pic_test_text = Error_text u32 | Counter_text bool

datatype pic_test_pc =
    Read_counter bool
  | Counter_read bool int u32
  | Print pic_test_text "u8 list" put_pc

inductive pic_test_main ::
    "('d, 'b) bus_scheme \<Rightarrow> pic_test_pc \<times> ('d, 'z) machine_scheme \<Rightarrow> pic_test_pc \<times> ('d, 'z) machine_scheme \<Rightarrow> bool"
  for B where
  read:
    "on_dev (Timer_ReadCounter B (timers w 0)) w = ((r, v), w1) \<Longrightarrow>
     pic_test_main B (Read_counter once, w) (Counter_read once r v, w1)"
| to_counter:
    "r = 0 \<or> once \<Longrightarrow> format_buf counter_format [v] w = (n, w1) \<Longrightarrow>
     pic_test_main B (Counter_read once r v, w) (Print (Counter_text once) (fmtbuf w1) Poll, w1)"
| to_error:
    "r \<noteq> 0 \<Longrightarrow> \<not> once \<Longrightarrow> format_buf error_format [] w = (n, w1) \<Longrightarrow>
     pic_test_main B (Counter_read once r v, w) (Print (Error_text v) (fmtbuf w1) Poll, w1)"
| poll:
    "c \<noteq> 0 \<Longrightarrow> uart_raw_read B w = (v, w1) \<Longrightarrow> pic_test_main B (Print t (c # cs) Poll, w) (Print t (c # cs) (Polled v), w1)"
| no_byte:
    "uart_is_empty v \<Longrightarrow> pic_test_main B (Print t cs (Polled v), w) (Print t cs (Checked v), w)"
| load_index:
    "\<not> uart_is_empty v \<Longrightarrow> pic_test_main B (Print t cs (Polled v), w) (Print t cs (Store_at v (ub_wr (ubuf w))), w)"
| store_byte:
    "pic_test_main B (Print t cs (Store_at v x), w)
       (Print t cs (Stored v), w\<lparr>ubuf := (ubuf w)\<lparr>ub_buf := (ub_buf (ubuf w))[x := ucast (v AND 255)]\<rparr>\<rparr>)"
| load_wr:
    "pic_test_main B (Print t cs (Stored v), w) (Print t cs (Advance v (ub_wr (ubuf w))), w)"
| store_wr:
    "pic_test_main B (Print t cs (Advance v x), w) (Print t cs (Checked v), w\<lparr>ubuf := (ubuf w)\<lparr>ub_wr := (x + 1) mod 256\<rparr>\<rparr>)"
| retry:
    "uart_is_full v \<Longrightarrow> pic_test_main B (Print t cs (Checked v), w) (Print t cs Poll, w)"
| send:
    "\<not> uart_is_full v \<Longrightarrow>
     pic_test_main B (Print t (c # cs) (Checked v), w) (Print t cs Poll, uart_raw_write B (ucast c) w)"
| error_done:
    "c_string cs = [] \<Longrightarrow> format_buf counter_format [v] w = (n, w1) \<Longrightarrow>
     pic_test_main B (Print (Error_text v) cs Poll, w) (Print (Counter_text True) (fmtbuf w1) Poll, w1)"
| counter_done:
    "c_string cs = [] \<Longrightarrow> pic_test_main B (Print (Counter_text once) cs Poll, w) (Read_counter once, w)"

text \<open>
  An interrupt is taken when the source and interrupts altogether are enabled, at the places \<open>irq_at\<close>; the processor
  takes no other before the handler has returned, so the handler is one step. \<open>env\<close> is what the hardware
  may do by itself.
\<close>

inductive pic_test_step ::
    "('d, 'b) bus_scheme \<Rightarrow> (pic_test_pc \<Rightarrow> bool) \<Rightarrow> ('d \<Rightarrow> 'd \<Rightarrow> bool) \<Rightarrow>
     pic_test_pc \<times> ('d, 'z) machine_scheme \<Rightarrow> pic_test_pc \<times> ('d, 'z) machine_scheme \<Rightarrow> bool"
  for B irq_at env where
  program: "pic_test_main B st st' \<Longrightarrow> pic_test_step B irq_at env st st'"
| interrupt:
    "irq_at pc \<Longrightarrow> bit (mstatus w) 3 \<Longrightarrow> check_enabled kExternalTimerIrq w = 1 \<Longrightarrow>
     default_handler B (w\<lparr>mcause := 0x80000007\<rparr>) = Some w1 \<Longrightarrow> pic_test_step B irq_at env (pc, w) (pc, w1)"
| hardware: "env (dev w) d \<Longrightarrow> pic_test_step B irq_at env (pc, w) (pc, w\<lparr>dev := d\<rparr>)"

text \<open>The places inside \<open>PutAsync\<close>: the register is read, the character is not yet written.\<close>

fun in_PutAsync :: "pic_test_pc \<Rightarrow> bool" where
  "in_PutAsync (Print t cs p) \<longleftrightarrow> p \<noteq> Poll"
| "in_PutAsync _ \<longleftrightarrow> False"

inductive_cases read_counterE: "pic_test_main B (Read_counter once, w) st"
inductive_cases counter_readE: "pic_test_main B (Counter_read once r v, w) st"
inductive_cases pollE: "pic_test_main B (Print t cs Poll, w) st"
inductive_cases polledE: "pic_test_main B (Print t cs (Polled v), w) st"
inductive_cases store_atE: "pic_test_main B (Print t cs (Store_at v x), w) st"
inductive_cases storedE: "pic_test_main B (Print t cs (Stored v), w) st"
inductive_cases advanceE: "pic_test_main B (Print t cs (Advance v x), w) st"
inductive_cases checkedE: "pic_test_main B (Print t cs (Checked v), w) st"

text \<open>Without interrupts the program runs in one way only.\<close>

lemma pic_test_main_det: "pic_test_main B st st1 \<Longrightarrow> pic_test_main B st st2 \<Longrightarrow> st1 = st2"
proof (induction arbitrary: st2 rule: pic_test_main.induct)
  case (read w r v w1 once) from this(2) read(1) show ?case by (auto elim: read_counterE)
next
  case (to_counter r once v w n w1) from this(3) to_counter(1,2) show ?case by (auto elim: counter_readE)
next
  case (to_error r once v w n w1) from this(4) to_error(1-3) show ?case by (auto elim: counter_readE)
next
  case (poll c w v w1 t cs) from this(3) poll(1,2) show ?case by (auto elim!: pollE simp: c_string_Cons)
next
  case (no_byte v t cs w) from this(2) no_byte(1) show ?case by (auto elim: polledE)
next
  case (load_index v t cs w) from this(2) load_index(1) show ?case by (auto elim: polledE)
next
  case (store_byte t cs v x w) then show ?case by (auto elim: store_atE)
next
  case (load_wr t cs v w) then show ?case by (auto elim: storedE)
next
  case (store_wr t cs v x w) then show ?case by (auto elim: advanceE)
next
  case (retry v t cs w) from this(2) retry(1) show ?case by (auto elim: checkedE)
next
  case (send v t c cs w) from this(2) send(1) show ?case by (auto elim: checkedE)
next
  case (error_done cs v w n w1) from this(3) error_done(1,2) show ?case by (auto elim!: pollE simp: c_string_Cons)
next
  case (counter_done cs once w) from this(2) counter_done(1) show ?case by (auto elim!: pollE simp: c_string_Cons)
qed

subsection \<open>A turn is a run of steps\<close>

text \<open>Undisturbed, the steps of \<open>PutAsync\<close> are \<open>PutAsync\<close>, and so on up to a whole text.\<close>

lemma PutAsync_steps:
  assumes "c \<noteq> 0" and "UartBuf_PutAsync B c w = (ok, w')"
  shows "(pic_test_main B)\<^sup>*\<^sup>* (Print t (c # cs) Poll, w) (Print t (if ok then cs else c # cs) Poll, w')"
proof -
  obtain v w1 where v: "uart_raw_read B w = (v, w1)" by fastforce
  let ?u = "ubuf w1"
  let ?w2 = "if uart_is_empty v then w1 else w1\<lparr>ubuf := UartBuf_save (ucast (v AND 255)) ?u\<rparr>"
  have p: "pic_test_main B (Print t (c # cs) Poll, w) (Print t (c # cs) (Polled v), w1)" by (rule poll [OF assms(1) v])
  have b: "(pic_test_main B)\<^sup>*\<^sup>* (Print t (c # cs) (Polled v), w1) (Print t (c # cs) (Checked v), ?w2)"
  proof (cases "uart_is_empty v")
    case True
    then show ?thesis using no_byte [OF True, of B t "c # cs" w1] by (simp add: r_into_rtranclp)
  next
    case False
    let ?w3 = "w1\<lparr>ubuf := ?u\<lparr>ub_buf := (ub_buf ?u)[ub_wr ?u := ucast (v AND 255)]\<rparr>\<rparr>"
    let ?w4 = "?w3\<lparr>ubuf := (ubuf ?w3)\<lparr>ub_wr := (ub_wr (ubuf ?w3) + 1) mod 256\<rparr>\<rparr>"
    have "(pic_test_main B)\<^sup>*\<^sup>* (Print t (c # cs) (Polled v), w1) (Print t (c # cs) (Checked v), ?w4)"
      by (rule converse_rtranclp_into_rtranclp, rule load_index [OF False], rule converse_rtranclp_into_rtranclp, rule store_byte,
          rule converse_rtranclp_into_rtranclp, rule load_wr, rule r_into_rtranclp, rule store_wr)
    moreover have "?w4 = ?w2" using False by (simp add: UartBuf_save_def)
    ultimately show ?thesis by simp
  qed
  have a: "UartBuf_PutAsync B c w = (if uart_is_full v then (False, ?w2) else (True, uart_raw_write B (ucast c) ?w2))"
    by (simp add: UartBuf_PutAsync_def UartBuf_CanWrite_def v)
  have f: "pic_test_main B (Print t (c # cs) (Checked v), ?w2) (Print t (if ok then cs else c # cs) Poll, w')"
  proof (cases "uart_is_full v")
    case True
    then show ?thesis using retry [OF True, of B t "c # cs" ?w2] a assms(2) by simp
  next
    case False
    then show ?thesis using send [OF False, of B t c cs ?w2] a assms(2) by simp
  qed
  from p b f show ?thesis by (meson converse_rtranclp_into_rtranclp rtranclp.rtrancl_into_rtrancl)
qed

lemma Put_steps:
  assumes "UartBuf_Put B c w = Some r" and "c \<noteq> 0"
  shows "(pic_test_main B)\<^sup>*\<^sup>* (Print t (c # cs) Poll, w) (Print t cs Poll, snd r)"
proof -
  have "c \<noteq> 0 \<longrightarrow> (pic_test_main B)\<^sup>*\<^sup>* (Print t (c # cs) Poll, w) (Print t cs Poll, snd r)"
    using assms(1)
  proof (rule UartBuf_Put.raw_induct [where
        P = "\<lambda>B c w r. c \<noteq> 0 \<longrightarrow> (pic_test_main B)\<^sup>*\<^sup>* (Print t (c # cs) Poll, w) (Print t cs Poll, snd r)", rotated], goal_cases)
    case (1 Put B c w r)
    obtain ok w1 where a: "UartBuf_PutAsync B c w = (ok, w1)" by fastforce
    with 1(2) have "if ok then r = (ok, w1) else Put B c w1 = Some r" by (simp split: if_splits)
    with 1(1) [of B c w1 r] PutAsync_steps [OF _ a, of t cs] show ?case by (auto split: if_splits)
  qed
  with assms(2) show ?thesis by simp
qed

lemma print_steps:
  "uart_print B cs w = Some (n, w') \<Longrightarrow>
   \<exists>cs'. c_string cs' = [] \<and> (pic_test_main B)\<^sup>*\<^sup>* (Print t cs Poll, w) (Print t cs' Poll, w')"
proof (induction cs arbitrary: w)
  case Nil
  then show ?case by (intro exI [of _ "[]"]) auto
next
  case (Cons c cs)
  show ?case
  proof (cases "c = 0")
    case True
    with Cons.prems show ?thesis by (intro exI [of _ "c # cs"]) (auto simp: c_string_Cons)
  next
    case False
    with Cons.prems obtain w1 where w1: "uart_putchar B c w = Some w1" "uart_print B cs w1 = Some (n, w')"
      by (cases "uart_putchar B c w") auto
    then obtain r where "UartBuf_Put B c w = Some (r, w1)" by (auto simp: uart_putchar_def)
    from Put_steps [OF this False, of t cs] Cons.IH [OF w1(2)] show ?thesis by simp (meson rtranclp_trans)
  qed
qed

lemma kprintf_split:
  assumes "kprintf B f args w = Some (n, w')"
  obtains k w1 m where "format_buf f args w = (k, w1)" and "uart_print B (fmtbuf w1) w1 = Some (m, w')"
  using assms by (cases "format_buf f args w") (auto simp: kprintf_def Let_def bind_eq_Some_conv)

text \<open>The text of a counter, as it is sent.\<close>

definition counter_line :: "u32 \<Rightarrow> u8 list" where
  "counter_line v = cstr ''timer: '' @ map digit_char (nat_digits 10 (unat v)) @ CRLF"

lemma counter_text: "take 255 (vformat counter_format [v]) = counter_line v"
proof -
  have v: "vformat counter_format [v] = counter_line v"
    by (simp add: counter_format_def crlf_def counter_line_def skip_zero_flag_def is_digit_def width_value_def
        conv_text_def pad_field_def CRLF_def Let_def)
  have "unat v < 2 ^ LENGTH(32)" by (rule unsigned_less)
  then have "unat v < 10 ^ Suc 9" by simp
  from length_nat_digits [OF _ this] have "length (counter_line v) \<le> 255" by (simp add: counter_line_def CRLF_def)
  then show ?thesis unfolding v by (rule take_all)
qed

lemma counter_line_plain: "0x21 \<notin> set (counter_line v)"
proof -
  have "digit_char d \<noteq> 0x21" if "d \<in> set (nat_digits 10 (unat v))" for d
  proof
    assume "digit_char d = 0x21"
    moreover have "d < 10" using nat_digits_less [OF _ that] by simp
    ultimately show False using unat_digit_char [of d] by simp
  qed
  then show ?thesis by (auto simp: counter_line_def CRLF_def)
qed


subsection \<open>The configuration of the machine\<close>

text \<open>
  What \<open>pic_test_init\<close> sets up and every later step relies on: the objects are in place, the controller
  lets the timer through and the trap vector leads to its handler, with interrupts enabled.
\<close>

definition pt_config :: "('d \<Rightarrow> u32 \<Rightarrow> u32) \<Rightarrow> ('d, 'z) machine_scheme \<Rightarrow> bool" where
  "pt_config val w \<longleftrightarrow>
     pic_instance w = Some 0 \<and> timer_handler (pics w 0) = Some 0 \<and> uart_handler (pics w 0) = Some 0 \<and>
     mask_reg (pics w 0) = \<lparr>reg_address = 0x40000030\<rparr> \<and> irq_reg (pics w 0) = \<lparr>reg_address = 0x40000034\<rparr> \<and>
     timers w 0 = \<lparr>t_irq = \<lparr>reg_address = 0x40000020\<rparr>, t_counter = \<lparr>reg_address = 0x40000024\<rparr>,
                   default_counter = 100000\<rparr> \<and>
     uart_ok (uarts w 0) \<and> u_reg (uarts w 0) = \<lparr>reg_address = UART_ADDRESS\<rparr> \<and>
     mtvec w = Isr_default_handler \<and> bit (mie w) 7 \<and> bit (mstatus w) 3 \<and> length (fmtbuf w) = 256 \<and>
     val (dev w) 0x40000030 = kTimerIrqBit"

definition pt_regs :: "u32 set" where
  "pt_regs = {0x40000020, 0x40000024, 0x40000030, 0x40000034}"

lemma pt_config_same:
  "same_control w w' \<Longrightarrow> uarts w' 0 = uarts w 0 \<Longrightarrow> val (dev w') 0x40000030 = val (dev w) 0x40000030 \<Longrightarrow>
   pt_config val w' = pt_config val w"
  by (simp add: pt_config_def same_control_def)

lemma pt_config_updates [simp]:
  "pt_config val (w\<lparr>mcause := c\<rparr>) = pt_config val w"
  "length b = 256 \<Longrightarrow> pt_config val w \<Longrightarrow> pt_config val (w\<lparr>fmtbuf := b\<rparr>)"
  "val d 0x40000030 = val (dev w) 0x40000030 \<Longrightarrow> pt_config val (w\<lparr>dev := d\<rparr>) = pt_config val w"
  by (simp_all add: pt_config_def)

text \<open>
  The marks of the interrupt handler taken out of what was sent, and the text still to be printed.
  \<open>pt_out\<close>: since the output \<open>t0\<close> whole lines of the counter have been sent but for the rest \<open>r\<close> of the last, with
  none of their characters missing when \<open>exact\<close> holds.
\<close>

definition quiet :: "u8 list \<Rightarrow> u8 list" where
  "quiet bs = filter (\<lambda>b. b \<noteq> 0x21) bs"

definition pt_out :: "bool \<Rightarrow> u8 list \<Rightarrow> u8 list \<Rightarrow> u8 list \<Rightarrow> bool" where
  "pt_out exact t0 t r \<longleftrightarrow>
     (\<exists>vs zs ys. quiet t = quiet t0 @ zs \<and> ys @ r = concat (map counter_line vs) \<and> subseq zs ys \<and> (exact \<longrightarrow> zs = ys))"

fun to_print :: "pic_test_pc \<Rightarrow> u8 list" where
  "to_print (Print t cs p) = c_string cs"
| "to_print _ = []"

fun place_word :: "put_pc \<Rightarrow> u32 option" where
  "place_word Poll = None"
| "place_word (Polled v) = Some v"
| "place_word (Store_at v x) = Some v"
| "place_word (Stored v) = Some v"
| "place_word (Advance v x) = Some v"
| "place_word (Checked v) = Some v"

text \<open>
  The counter has always been read without an error, what is left to print has no mark in it, and \<open>PutAsync\<close> is
  called with a character of it. \<open>room_kept\<close>: the room that the word promised is still there.
\<close>

fun pc_ok :: "pic_test_pc \<Rightarrow> bool" where
  "pc_ok (Read_counter once) \<longleftrightarrow> \<not> once"
| "pc_ok (Counter_read once r v) \<longleftrightarrow> \<not> once \<and> r = 0"
| "pc_ok (Print (Error_text v) cs p) \<longleftrightarrow> False"
| "pc_ok (Print (Counter_text once) cs p) \<longleftrightarrow>
     \<not> once \<and> 0x21 \<notin> set (c_string cs) \<and> (p \<noteq> Poll \<longrightarrow> c_string cs \<noteq> [])"

fun room_kept :: "('d \<Rightarrow> bool) \<Rightarrow> pic_test_pc \<Rightarrow> 'd \<Rightarrow> bool" where
  "room_kept room (Print t cs p) d \<longleftrightarrow>
     (case place_word p of None \<Rightarrow> True | Some v \<Rightarrow> \<not> uart_is_full v \<longrightarrow> room d)"
| "room_kept room _ d \<longleftrightarrow> True"

lemma room_kept_outside: "\<not> in_PutAsync pc \<Longrightarrow> room_kept room pc d"
  by (cases pc) auto

lemma pt_out_mark: "pt_out e t0 (t @ [0x21]) r = pt_out e t0 t r"
  by (simp add: pt_out_def quiet_def)

lemma pt_out_start: "pt_out e t0 t0 []"
  unfolding pt_out_def by (intro exI [of _ "[]"]) auto

lemma pt_out_line:
  assumes "pt_out e t0 t []"
  shows "pt_out e t0 t (counter_line v)"
proof -
  from assms obtain vs zs ys where "quiet t = quiet t0 @ zs" "ys = concat (map counter_line vs)" "subseq zs ys" "e \<longrightarrow> zs = ys"
    by (auto simp: pt_out_def)
  then show ?thesis unfolding pt_out_def by (intro exI [of _ "vs @ [v]"] exI [of _ zs] exI [of _ ys]) simp
qed

lemma pt_out_sent:
  assumes "pt_out e t0 t (c # r)" and "c \<noteq> 0x21"
  shows "pt_out e t0 (t @ [c]) r"
proof -
  from assms(1) obtain vs zs ys where "quiet t = quiet t0 @ zs" "ys @ c # r = concat (map counter_line vs)" "subseq zs ys" "e \<longrightarrow> zs = ys"
    by (auto simp: pt_out_def)
  then show ?thesis unfolding pt_out_def using assms(2)
    by (intro exI [of _ vs] exI [of _ "zs @ [c]"] exI [of _ "ys @ [c]"]) (simp add: quiet_def)
qed

lemma pt_out_lost:
  assumes "pt_out False t0 t (c # r)"
  shows "pt_out False t0 t r"
proof -
  from assms obtain vs zs ys where "quiet t = quiet t0 @ zs" "ys @ c # r = concat (map counter_line vs)" "subseq zs ys"
    by (auto simp: pt_out_def)
  moreover from this(3) have "subseq zs (ys @ [c])" by (rule subseq_rev_drop_many)
  ultimately show ?thesis unfolding pt_out_def by (intro exI [of _ vs] exI [of _ zs] exI [of _ "ys @ [c]"]) simp
qed

context soc_bus
begin

lemma pic_test_init_config:
  assumes r: "pt_regs \<subseteq> regs" and d: "dinv (dev w0)" and l: "length (fmtbuf w0) = 256" "length (buffer (uarts w0 0)) = 256"
    and w: "w = pic_test_init B w0"
  shows "pt_config val w" and "dinv (dev w)" and "tx (dev w) = tx (dev w0)" and "inp (dev w) = inp (dev w0)"
    and "ram (dev w) = ram (dev w0)" and "ubuf w = ubuf w0" and "avail (dev w) = avail (dev w0)"
    and "val (dev w) = (val (dev w0))(0x40000020 := 0, 0x40000024 := 100000, 0x40000030 := 1, 0x40000034 := 0)"
proof -
  let ?d1 = "wr32 B 0x40000030 0 (dev w0)"
  let ?d2 = "wr32 B 0x40000034 0 ?d1"
  let ?d3 = "wr32 B 0x40000024 100000 ?d2"
  let ?d4 = "wr32 B 0x40000020 0 ?d3"
  let ?d5 = "wr32 B 0x40000024 100000 ?d4"
  let ?d6 = "wr32 B 0x40000030 1 ?d5"
  have a: "0x40000020 \<in> regs" "0x40000024 \<in> regs" "0x40000030 \<in> regs" "0x40000034 \<in> regs"
    using r by (simp_all add: pt_regs_def)
  note w1 = reg_write_simps [OF a(3) d, of 0]
  note w2 = reg_write_simps [OF a(4) w1(1), of 0]
  note w3 = reg_write_simps [OF a(2) w2(1), of 100000]
  note w4 = reg_write_simps [OF a(1) w3(1), of 0]
  note w5 = reg_write_simps [OF a(2) w4(1), of 100000]
  note w6 = reg_write_simps [OF a(3) w5(1), of 1]
  have f: "dev w = ?d6" "ubuf w = ubuf w0" "fmtbuf w = fmtbuf w0" "pic_instance w = Some 0"
    "timer_handler (pics w 0) = Some 0" "uart_handler (pics w 0) = Some 0"
    "mask_reg (pics w 0) = \<lparr>reg_address = 0x40000030\<rparr>" "irq_reg (pics w 0) = \<lparr>reg_address = 0x40000034\<rparr>"
    "timers w 0 = \<lparr>t_irq = \<lparr>reg_address = 0x40000020\<rparr>, t_counter = \<lparr>reg_address = 0x40000024\<rparr>,
                   default_counter = 100000\<rparr>"
    "uarts w 0 = Uart_ctor (buffer (uarts w0 0)) uart_kBaseAddress" "mtvec w = Isr_default_handler"
    "mie w = mie (enable_interrupt 7 (disable_interrupt 7 w0))"
    "mstatus w = mstatus (set_interrupt_handler Isr_default_handler w0)"
    by (simp_all add: w pic_test_init_def Pic_ctor_def pic_method_defs csr_defs MASK_REG_def IRQ_REG_def
        timer_defs pic_kBaseAddress_def timer_kDefaultBaseAddress_def kTimerIrqBit_def Let_def)
  have v: "val (dev w) = (val (dev w0))(0x40000020 := 0, 0x40000024 := 100000, 0x40000030 := 1, 0x40000034 := 0)"
    by (auto simp: f(1) w1 w2 w3 w4 w5 w6 fun_eq_iff)
  show "pt_config val w"
    using l by (simp add: pt_config_def f(2-13) v mie_bits mstatus_bits kTimerIrqBit_def Uart_ctor_def uart_ok_def
        uart_kBaseAddress_def kReg_def Reg_ctor_def UART_ADDRESS_def)
  show "val (dev w) = (val (dev w0))(0x40000020 := 0, 0x40000024 := 100000, 0x40000030 := 1, 0x40000034 := 0)"
    by (rule v)
  show "dinv (dev w)" "tx (dev w) = tx (dev w0)" "inp (dev w) = inp (dev w0)" "ram (dev w) = ram (dev w0)"
    "ubuf w = ubuf w0" "avail (dev w) = avail (dev w0)"
    by (simp_all add: f(1,2) w1 w2 w3 w4 w5 w6)
qed

text \<open>
  The invariant of a run whose output was \<open>t0\<close> at the start.
\<close>

definition pt_inv :: "bool \<Rightarrow> u8 list \<Rightarrow> pic_test_pc \<times> ('d, 'z) machine_scheme \<Rightarrow> bool" where
  "pt_inv exact t0 st = (case st of (pc, w) \<Rightarrow>
     fw_ok dinv w \<and> pt_config val w \<and> pc_ok pc \<and> (exact \<longrightarrow> room_kept room pc (dev w)) \<and>
     pt_out exact t0 (tx (dev w)) (to_print pc))"

lemma pt_invD:
  assumes "pt_inv e t0 (pc, w)"
  shows "ub_ok (ubuf w)" and "dinv (dev w)" and "pt_config val w" and "pc_ok pc"
    and "e \<Longrightarrow> room_kept room pc (dev w)" and "pt_out e t0 (tx (dev w)) (to_print pc)"
  using assms by (auto simp: pt_inv_def fw_ok_def)

lemma interrupt_inv:
  assumes r: "pt_regs \<subseteq> regs" and i: "pt_inv e t0 (pc, w)"
  obtains w' where "default_handler B (w\<lparr>mcause := 0x80000007\<rparr>) = Some w'"
    and "(e \<longrightarrow> \<not> in_PutAsync pc) \<Longrightarrow> pt_inv e t0 (pc, w')"
proof -
  let ?w = "w\<lparr>mcause := 0x80000007\<rparr>"
  from i have w: "fw_ok dinv w" "pt_config val w" "pc_ok pc" and out: "pt_out e t0 (tx (dev w)) (to_print pc)"
    by (simp_all add: pt_inv_def)
  have ok: "fw_ok dinv ?w" using w(1) by (simp add: fw_ok_def)
  have cause: "bit (mcause ?w) 31" "bit (mcause ?w) 0 \<and> bit (mcause ?w) 1 \<and> bit (mcause ?w) 2"
    by (simp_all flip: high_bit_iff low_bits_iff)
  have regs: "reg_address (mask_reg (pics ?w 0)) \<in> regs" "reg_address (irq_reg (pics ?w 0)) \<in> regs"
    "\<And>t. timer_handler (pics ?w 0) = Some t \<Longrightarrow>
       reg_address (t_irq (timers ?w t)) \<in> regs \<and> reg_address (t_counter (timers ?w t)) \<in> regs"
    "\<And>u. uart_handler (pics ?w 0) = Some u \<Longrightarrow>
       uart_ok (uarts ?w u) \<and> reg_address (u_reg (uarts ?w u)) = UART_ADDRESS"
    using r w(2) by (auto simp: pt_config_def pt_regs_def)
  from InterruptHandler_soc [OF ok cause regs refl] obtain w' cs where h: "Pic_InterruptHandler B 0 ?w = Some w'"
    and w': "fw_ok dinv w'" "same_control ?w w'"
    "tx (dev w') = tx (dev w) @ [0x21]"
    "val (dev w') = (case serviced_timer (pics w 0) (val (dev w) 0x40000034) of None \<Rightarrow> val (dev w)
                      | Some t \<Rightarrow> timer_val (timers w t) (val (dev w)))(0x40000034 := 0)"
    "case serviced_uart (pics w 0) (val (dev w) 0x40000034) of None \<Rightarrow> uarts w' = uarts w
       | Some u \<Rightarrow> uarts w' = (uarts w)(u := uarts w' u) \<and> uart_took (uarts w u) cs (uarts w' u)"
    using w(2) by (auto simp: pt_config_def split: option.splits)
  have m: "val (dev w') 0x40000030 = val (dev w) 0x40000030"
    using w(2) by (auto simp: w'(4) timer_val_def pt_config_def serviced_timer_def split: option.splits if_splits)
  have u: "uart_ok (uarts w' 0) \<and> u_reg (uarts w' 0) = u_reg (uarts w 0)"
    using w'(5) w(2) by (auto simp: pt_config_def serviced_uart_def uart_took_def split: option.splits if_splits)
  have "pt_config val w'" using w'(2) w(2) m u by (simp add: pt_config_def same_control_def)
  then have "pt_inv e t0 (pc, w')" if "e \<longrightarrow> \<not> in_PutAsync pc"
    using w'(1,3) w(3) out that by (auto simp: pt_inv_def pt_out_mark room_kept_outside)
  moreover have "default_handler B ?w = Some w'" using h w(2) by (simp add: default_handler_def pt_config_def)
  ultimately show thesis using that by blast
qed

end

text \<open>The steps of the program, with what the device does with a character for which it has no room.\<close>

context soc_full
begin

lemma read_inv_step:
  assumes r: "pt_regs \<subseteq> regs" and i: "pt_inv e t0 (Read_counter once, w)"
    and rd: "on_dev (Timer_ReadCounter B (timers w 0)) w = ((r, v), w1)"
  shows "pt_inv e t0 (Counter_read once r v, w1)"
proof -
  note w = pt_invD [OF i]
  have a: "reg_address (t_counter (timers w 0)) \<in> regs" using r w(3) by (simp add: pt_config_def pt_regs_def)
  obtain u d where d: "Reg_Read B (t_counter (timers w 0)) (dev w) = ((0, u), d)" "dinv d" "val d = val (dev w)"
    "tx d = tx (dev w)" using Reg_Read_soc [OF a w(2)] by metis
  from rd have "r = 0" "w1 = w\<lparr>dev := d\<rparr>" by (auto simp: on_dev_def Timer_ReadCounter_def d(1))
  then show ?thesis using w d by (simp add: pt_inv_def fw_ok_def)
qed

lemma format_inv_step:
  assumes i: "pt_inv e t0 (Counter_read once r v, w)" and f: "format_buf counter_format [v] w = (n, w1)"
  shows "pt_inv e t0 (Print (Counter_text once) (fmtbuf w1) Poll, w1)"
proof -
  note w = pt_invD [OF i]
  have "length (fmtbuf w) = 256" "CHR 0x00 \<notin> set counter_format"
    using w(3) by (simp_all add: counter_format_def crlf_def pt_config_def)
  then obtain b where b: "format_buf counter_format [v] w = (int (length (vformat counter_format [v])), w\<lparr>fmtbuf := b\<rparr>)"
    "length b = 256" "c_string b = counter_line v" using format_buf_spec [of w counter_format "[v]"] counter_text by metis
  from f b(1) have "w1 = w\<lparr>fmtbuf := b\<rparr>" by simp
  then show ?thesis using w b counter_line_plain pt_out_line [of e t0 "tx (dev w)" v] by (simp add: pt_inv_def fw_ok_def)
qed

lemma poll_inv_step:
  assumes i: "pt_inv e t0 (Print (Counter_text once) (c # cs) Poll, w)" and c: "c \<noteq> 0" and p: "uart_raw_read B w = (v, w1)"
  shows "pt_inv e t0 (Print (Counter_text once) (c # cs) (Polled v), w1)"
proof -
  note w = pt_invD [OF i]
  obtain d where d: "rd32 B UART_ADDRESS (dev w) = (v, d)" "w1 = w\<lparr>dev := d\<rparr>"
    using p by (auto simp: uart_raw_read_def split: prod.splits)
  note k = read_inv [OF w(2) d(1)] read_tx [OF w(2) d(1)] read_oth [OF w(2) d(1)] read_room [OF w(2) d(1)]
  show ?thesis using w c k by (simp add: pt_inv_def fw_ok_def d(2) c_string_Cons)
qed

lemma send_inv_step:
  assumes i: "pt_inv e t0 (Print (Counter_text once) (c # cs) (Checked v), w)" and f: "\<not> uart_is_full v"
  shows "pt_inv e t0 (Print (Counter_text once) cs Poll, uart_raw_write B (ucast c) w)"
proof -
  note w = pt_invD [OF i]
  from w(4) have c: "c \<noteq> 0" "c \<noteq> 0x21" "\<not> once" "0x21 \<notin> set (c_string cs)" by (auto simp: c_string_Cons split: if_splits)
  let ?d = "wr32 B UART_ADDRESS (ucast c) (dev w)"
  have o: "pt_out e t0 (tx (dev w)) (c # c_string cs)" using w(6) c(1) by (simp add: c_string_Cons)
  have "dinv ?d \<and> val ?d = val (dev w) \<and> pt_out e t0 (tx ?d) (c_string cs)"
  proof (cases "room (dev w)")
    case True
    note k = write_inv [OF w(2) True, of "ucast c"] write_tx [OF w(2) True, of "ucast c"] write_oth [OF w(2) True, of "ucast c"]
    with pt_out_sent [OF o c(2)] show ?thesis by simp
  next
    case False
    with w(5) f have "\<not> e" by auto
    with o have "pt_out e t0 (tx (dev w)) (c_string cs)" using pt_out_lost by auto
    with write_full [OF w(2) False, of "ucast c"] show ?thesis by simp
  qed
  then show ?thesis using w c by (simp add: pt_inv_def fw_ok_def uart_raw_write_def)
qed

text \<open>The program's steps keep the invariant, and it always has one.\<close>

lemma main_inv:
  assumes r: "pt_regs \<subseteq> regs" and "pic_test_main B st st'" and "pt_inv e t0 st"
  shows "pt_inv e t0 st'"
  using assms(2,3)
proof (cases rule: pic_test_main.cases)
  case (read w r v w1 once)
  with assms(3) show ?thesis using read_inv_step [OF assms(1)] by blast
next
  case (to_counter r once v w n w1)
  with assms(3) show ?thesis using format_inv_step by blast
next
  case (poll c w v w1 t cs)
  with assms(3) have "\<exists>once. t = Counter_text once" by (cases t) (auto dest: pt_invD(4))
  with poll assms(3) show ?thesis using poll_inv_step by blast
next
  case (send v t c cs w)
  with assms(3) have "\<exists>once. t = Counter_text once" by (cases t) (auto dest: pt_invD(4))
  with send assms(3) show ?thesis using send_inv_step by blast
next
  case (counter_done cs once w)
  with assms(3) show ?thesis by (auto simp: pt_inv_def)
next
  case (to_error r once v w n w1)
  with assms(3) show ?thesis by (auto dest: pt_invD(4))
next
  case (error_done cs v w n w1)
  with assms(3) show ?thesis by (auto dest: pt_invD(4))
next
  case (no_byte v t cs w)
  with assms(3) show ?thesis by (cases t) (auto simp: pt_inv_def)
next
  case (load_index v t cs w)
  with assms(3) show ?thesis by (cases t) (auto simp: pt_inv_def)
next
  case (store_byte t cs v x w)
  with assms(3) show ?thesis by (cases t) (auto simp: pt_inv_def fw_ok_def ub_ok_def pt_config_def)
next
  case (load_wr t cs v w)
  with assms(3) show ?thesis by (cases t) (auto simp: pt_inv_def)
next
  case (store_wr t cs v x w)
  with assms(3) show ?thesis by (cases t) (auto simp: pt_inv_def fw_ok_def ub_ok_def pt_config_def)
next
  case (retry v t cs w)
  with assms(3) show ?thesis by (cases t) (auto simp: pt_inv_def)
qed

end

text \<open>There is always a next step: \<open>PutAsync\<close> is inside a character, and a string at its end goes on to the head of the loop.\<close>

lemma main_progress:
  assumes "pc_ok pc"
  shows "\<exists>st. pic_test_main B (pc, w) st"
proof (cases pc)
  case (Read_counter once)
  obtain r v w1 where "on_dev (Timer_ReadCounter B (timers w 0)) w = ((r, v), w1)" by (metis prod.collapse)
  from read [OF this] Read_counter show ?thesis by blast
next
  case (Counter_read once r v)
  obtain n w1 where "format_buf counter_format [v] w = (n, w1)" by fastforce
  from to_counter [OF _ this, of r once] Counter_read assms show ?thesis by auto
next
  case (Print t cs p)
  with assms obtain once where t: "t = Counter_text once" by (cases t) auto
  show ?thesis
  proof (cases "c_string cs = []")
    case True
    with assms Print t have "p = Poll" by auto
    with counter_done [OF True] Print t show ?thesis by blast
  next
    case False
    then obtain c cs' where cs: "cs = c # cs'" "c \<noteq> 0" by (cases cs) (auto simp: c_string_Cons split: if_splits)
    show ?thesis
    proof (cases p)
      case Poll
      obtain v w1 where "uart_raw_read B w = (v, w1)" by fastforce
      from poll [OF cs(2) this] show ?thesis unfolding Print cs(1) Poll by blast
    next
      case (Polled v)
      then show ?thesis unfolding Print by (cases "uart_is_empty v") (blast intro: no_byte load_index)+
    next
      case (Checked v)
      then show ?thesis unfolding Print cs(1) by (cases "uart_is_full v") (blast intro: retry send)+
    qed (use Print in \<open>blast intro: store_byte load_wr store_wr\<close>)+
  qed
qed

context soc_full
begin

lemma pic_test_step_inv:
  assumes r: "pt_regs \<subseteq> regs"
    and env: "\<And>d d'. env d d' \<Longrightarrow> dinv d \<Longrightarrow>
       dinv d' \<and> tx d' = tx d \<and> val d' 0x40000030 = val d 0x40000030 \<and> (room d \<longrightarrow> room d')"
    and x: "e \<Longrightarrow> \<forall>pc. in_PutAsync pc \<longrightarrow> \<not> irq_at pc"
    and "pic_test_step B irq_at env st st'" and "pt_inv e t0 st"
  shows "pt_inv e t0 st'"
  using assms(4,5)
proof (induction rule: pic_test_step.induct)
  case (program st st')
  then show ?case using main_inv [OF r] by blast
next
  case (interrupt pc w w1)
  obtain w' where w': "default_handler B (w\<lparr>mcause := 0x80000007\<rparr>) = Some w'"
    "(e \<longrightarrow> \<not> in_PutAsync pc) \<Longrightarrow> pt_inv e t0 (pc, w')" using interrupt_inv [OF r interrupt.prems] by blast
  have "e \<longrightarrow> \<not> in_PutAsync pc" using x interrupt.hyps(1) by blast
  with w' interrupt.hyps(4) show ?case by simp
next
  case (hardware w d pc)
  note w = pt_invD [OF hardware.prems]
  from env [OF hardware.hyps w(2)] have d: "dinv d" "tx d = tx (dev w)" "val d 0x40000030 = val (dev w) 0x40000030"
    "room (dev w) \<longrightarrow> room d" by simp_all
  have "room_kept room pc d" if "room_kept room pc (dev w)"
    using that d(4) by (cases "(room, pc, d)" rule: room_kept.cases) (auto split: option.splits)
  with w d show ?case by (simp add: pt_inv_def fw_ok_def)
qed

lemma pic_test_run_inv:
  assumes r: "pt_regs \<subseteq> regs"
    and env: "\<And>d d'. env d d' \<Longrightarrow> dinv d \<Longrightarrow>
       dinv d' \<and> tx d' = tx d \<and> val d' 0x40000030 = val d 0x40000030 \<and> (room d \<longrightarrow> room d')"
    and x: "e \<Longrightarrow> \<forall>pc. in_PutAsync pc \<longrightarrow> \<not> irq_at pc"
    and "(pic_test_step B irq_at env)\<^sup>*\<^sup>* st st'" and "pt_inv e t0 st"
  shows "pt_inv e t0 st'"
  using assms(4)
proof (induction rule: rtranclp_induct)
  case base
  show ?case by (rule assms(5))
next
  case (step st1 st2)
  show ?case by (rule pic_test_step_inv [OF r env x step.hyps(2) step.IH])
qed

end

subsection \<open>Properties\<close>

text \<open>
  C8: Every run of \<open>pic_test\<close>, with interrupts taken at any of the places \<open>irq_at\<close> between two accesses of
  the program to the device or to the ring, and the hardware moving at any time: the machine stays
  configured (the objects in place, the mask of the controller, the trap vector, the enabled
  interrupts, the sizes of the buffers), the program is never stuck, an interrupt taken there returns, and the
  message about an error is never printed. When no interrupt is taken inside \<open>PutAsync\<close>, between its reading of the register and its write, what was sent is, the
  marks of the interrupt handler taken out, whole lines \<open>timer: n\<close> up to the part of the last that is still to be printed.
  When interrupts may be taken there too, characters of these lines may be missing, for the mark can
  take the room that the program had found, but none is added, changed or out of order.
\<close>

theorem pic_test_runs:
  assumes "soc_full B dinv inp avail tx room tx_wait rx_wait val ram regs" and "pt_regs \<subseteq> regs"
    and "fw_ok dinv w0" and "length (fmtbuf w0) = 256" and "length (buffer (uarts w0 0)) = 256"
    and "\<And>d d'. env d d' \<Longrightarrow> dinv d \<Longrightarrow>
       dinv d' \<and> tx d' = tx d \<and> val d' 0x40000030 = val d 0x40000030 \<and> (room d \<longrightarrow> room d')"
    and "(pic_test_step B irq_at env)\<^sup>*\<^sup>* (Read_counter False, pic_test_init B w0) (pc, w)"
  shows "pt_config val w \<and> (\<exists>st. pic_test_main B (pc, w) st) \<and>
         (\<exists>w'. default_handler B (w\<lparr>mcause := 0x80000007\<rparr>) = Some w') \<and> (\<forall>v cs p. pc \<noteq> Print (Error_text v) cs p) \<and>
         (\<exists>vs zs ys. quiet (tx (dev w)) = quiet (tx (dev w0)) @ zs \<and>
            ys @ to_print pc = concat (map counter_line vs) \<and> subseq zs ys \<and>
            ((\<forall>pc. in_PutAsync pc \<longrightarrow> \<not> irq_at pc) \<longrightarrow> zs = ys))"
proof -
  let ?e = "\<forall>pc. in_PutAsync pc \<longrightarrow> \<not> irq_at pc"
  have b: "soc_bus B dinv inp avail tx room tx_wait rx_wait val ram regs" using assms(1) by (simp add: soc_full_def)
  note i = soc_bus.pt_inv_def [OF b]
  have d: "dinv (dev w0)" using assms(3) by (simp add: fw_ok_def)
  note c = soc_bus.pic_test_init_config [OF b assms(2) d assms(4,5) refl]
  have "soc_bus.pt_inv dinv tx room val ?e (tx (dev w0)) (Read_counter False, pic_test_init B w0)"
    using c(1,2,3,6) assms(3) pt_out_start by (simp add: i fw_ok_def)
  from soc_full.pic_test_run_inv [OF assms(1,2,6) _ assms(7) this]
  have inv: "soc_bus.pt_inv dinv tx room val ?e (tx (dev w0)) (pc, w)" by blast
  then have p: "pt_config val w" "pc_ok pc" "pt_out ?e (tx (dev w0)) (tx (dev w)) (to_print pc)"
    by (simp_all only: i prod.case)
  from main_progress [OF p(2)] obtain st where "pic_test_main B (pc, w) st" by blast
  moreover have "pc \<noteq> Print (Error_text v) cs p" for v cs p using p(2) by auto
  moreover obtain w' where "default_handler B (w\<lparr>mcause := 0x80000007\<rparr>) = Some w'"
    by (rule soc_bus.interrupt_inv [OF b assms(2) inv])
  ultimately show ?thesis using p(1,3) unfolding pt_out_def by blast
qed

text \<open>
  The steps refine the loop as it is written: on any bus, whenever a turn of the loop returns, the
  program steps alone, without an interrupt, lead from the head of the loop with \<open>once\<close> to its head
  with the value and the state the turn returns, on the path with the error message as well.
\<close>

lemma print_counter_steps:
  assumes "kprintf B counter_format [v] w = Some (n, w')" and "format_buf counter_format [v] w = (k, w1)"
  shows "(pic_test_main B)\<^sup>*\<^sup>* (Print (Counter_text once) (fmtbuf w1) Poll, w1) (Read_counter once, w')"
proof -
  obtain m where "uart_print B (fmtbuf w1) w1 = Some (m, w')" using kprintf_split [OF assms(1)] assms(2) by force
  from print_steps [OF this] show ?thesis by (meson counter_done rtranclp.rtrancl_into_rtrancl)
qed

lemma pic_test_turn_steps:
  assumes "pic_test_turn B once w = Some (once', w')"
  shows "(pic_test_main B)\<^sup>*\<^sup>* (Read_counter once, w) (Read_counter once', w')"
proof -
  obtain r v w1 where rd: "on_dev (Timer_ReadCounter B (timers w 0)) w = ((r, v), w1)" by (metis prod.collapse)
  note start = read [OF rd, of once]
  show ?thesis
  proof (cases "r = 0 \<or> once")
    case True
    with assms obtain n where p: "kprintf B counter_format [v] w1 = Some (n, w')" and o: "once' = once"
      by (auto simp: pic_test_turn_def rd bind_eq_Some_conv split: if_splits)
    obtain k w2 where f: "format_buf counter_format [v] w1 = (k, w2)" by fastforce
    from start to_counter [OF True f] print_counter_steps [OF p f, of once] show ?thesis
      unfolding o by (meson converse_rtranclp_into_rtranclp)
  next
    case False
    with assms obtain n m w3 where p: "kprintf B error_format [] w1 = Some (n, w3)"
      "kprintf B counter_format [v] w3 = Some (m, w')" and o: "once'"
      by (auto simp: pic_test_turn_def rd bind_eq_Some_conv)
    obtain k w2 l where f: "format_buf error_format [] w1 = (k, w2)" "uart_print B (fmtbuf w2) w2 = Some (l, w3)"
      using kprintf_split [OF p(1)] .
    obtain k' w4 where g: "format_buf counter_format [v] w3 = (k', w4)" by fastforce
    from False have e: "r \<noteq> 0" "\<not> once" by simp_all
    have o': "once' = True" using o by simp
    obtain cs where cs: "c_string cs = []" "(pic_test_main B)\<^sup>*\<^sup>* (Print (Error_text v) (fmtbuf w2) Poll, w2) (Print (Error_text v) cs Poll, w3)"
      using print_steps [OF f(2)] by blast
    have "(pic_test_main B)\<^sup>*\<^sup>* (Print (Error_text v) cs Poll, w3) (Read_counter True, w')"
      using error_done [OF cs(1) g] print_counter_steps [OF p(2) g, of True] by (rule converse_rtranclp_into_rtranclp)
    with start to_error [OF e f(1)] cs(2) show ?thesis
      unfolding o' by (meson converse_rtranclp_into_rtranclp rtranclp_trans)
  qed
qed

subsection \<open>An interrupt inside CanWrite\<close>

text \<open>\<open>CanWrite\<close> is a read of the register and what it does with the word; an interrupt between the two.\<close>

definition CanWrite_finish :: "u32 \<Rightarrow> ('d, 'z) fw_scheme \<Rightarrow> bool \<times> ('d, 'z) fw_scheme" where
  "CanWrite_finish v s =
     (\<not> uart_is_full v,
      if \<not> uart_is_empty v then s\<lparr>ubuf := UartBuf_save (ucast (v AND 255)) (ubuf s)\<rparr> else s)"

lemma CanWrite_split: "UartBuf_CanWrite B s = (case uart_raw_read B s of (v, s1) \<Rightarrow> CanWrite_finish v s1)"
  by (simp add: UartBuf_CanWrite_def CanWrite_finish_def Let_def split: prod.split)

definition CanWrite_interrupted ::
    "('d, 'b) bus_scheme \<Rightarrow> ('d, 'z) machine_scheme \<Rightarrow> (bool \<times> ('d, 'z) machine_scheme) option" where
  "CanWrite_interrupted B w =
     (case uart_raw_read B w of (v, w1) \<Rightarrow>
        map_option (CanWrite_finish v) (default_handler B (w1\<lparr>mcause := 0x80000007\<rparr>)))"

text \<open>What \<open>uart_putchar\<close> of the handler does to the ring when a byte has arrived and there is room.\<close>

lemma putchar_saves:
  assumes "rd32 B UART_ADDRESS (dev w) = (v, d)" and "\<not> uart_is_empty v" and "\<not> uart_is_full v"
  shows "map_option ubuf (uart_putchar B c w) = Some (UartBuf_save (ucast v) (ubuf w))"
  using assms
  by (subst uart_putchar_def, subst UartBuf_Put.simps)
    (simp add: UartBuf_PutAsync_def UartBuf_CanWrite_def uart_access_defs)

text \<open>
  C9: The polled driver is not safe against the interrupt that uses it too: when the interrupt arrives
  between the register read of \<open>CanWrite\<close> and the saving of the byte it has popped, the handler's own
  \<open>uart_putchar\<close> saves the next byte first. The two bytes then stand in the ring in the wrong order,
  and every later read of the program delivers them so.
\<close>

theorem interrupted_CanWrite_reorders:
  assumes "soc_bus B dinv inp avail tx room tx_wait rx_wait val ram regs" and "pt_regs \<subseteq> regs"
    and "fw_ok dinv w" and "exposed avail w \<le> 255" and "pt_config val w"
    and "rd32 B UART_ADDRESS (dev w) = (v, d)" and "\<not> uart_is_empty v"
    and "rd32 B UART_ADDRESS d = (v', d')" and "\<not> uart_is_empty v'" and "\<not> uart_is_full v'"
  shows "\<exists>ok w' cs. CanWrite_interrupted B w = Some (ok, w') \<and>
           inp (dev w) = ucast v # ucast v' # cs @ inp (dev w') \<and>
           saved (ubuf w') = saved (ubuf w) @ [ucast v', ucast v]"
proof -
  have dev: "uart_dev B dinv inp avail tx room tx_wait rx_wait (\<lambda>d. (val d, ram d))"
    using assms(1) by (simp add: soc_bus_def)
  have w: "dinv (dev w)" "ub_ok (ubuf w)" using assms(3) by (simp_all add: fw_ok_def)
  note d = uart_dev.read_inv [OF dev w(1) assms(6)] uart_dev.read_oth [OF dev w(1) assms(6)]
  note i = uart_dev.read_byte [OF dev w(1) assms(6,7)] uart_dev.read_byte [OF dev d(1) assms(8,9)]
  let ?w = "w\<lparr>dev := d, mcause := 0x80000007\<rparr>"
  have len: "length (saved (ubuf w)) + Suc (Suc (avail d')) \<le> 255" using assms(4) i by (simp add: exposed_def)
  define u1 where "u1 = UartBuf_save (ucast v') (ubuf w)"
  have u1: "saved u1 = saved (ubuf w) @ [ucast v']" "ub_ok u1"
    using saved_save [OF w(2)] ub.store_ok [OF w(2)] len by (simp_all add: u1_def)
  have ok: "fw_ok dinv ?w" "exposed avail ?w \<le> 255"
    using w d(1) i len by (simp_all add: fw_ok_def exposed_def)
  have cause: "bit (mcause ?w) 31" "bit (mcause ?w) 0 \<and> bit (mcause ?w) 1 \<and> bit (mcause ?w) 2"
    by (simp_all flip: high_bit_iff low_bits_iff)
  have regs: "reg_address (mask_reg (pics ?w 0)) \<in> regs" "reg_address (irq_reg (pics ?w 0)) \<in> regs"
    "\<And>t. timer_handler (pics ?w 0) = Some t \<Longrightarrow>
       reg_address (t_irq (timers ?w t)) \<in> regs \<and> reg_address (t_counter (timers ?w t)) \<in> regs"
    "\<And>u. uart_handler (pics ?w 0) = Some u \<Longrightarrow>
       uart_ok (uarts ?w u) \<and> reg_address (u_reg (uarts ?w u)) = UART_ADDRESS"
    using assms(2,5) by (auto simp: pt_config_def pt_regs_def)
  have ur: "map_option ubuf (uart_putchar B 0x21 ?w) = Some u1"
    using putchar_saves [of B ?w v' d' "0x21"] assms(8-10) by (simp add: u1_def)
  obtain w2 cs where w2: "Pic_InterruptHandler B 0 ?w = Some w2" "ubuf w2 = u1"
    "pending inp ?w = saved (ubuf w2) @ cs @ inp (dev w2)"
    using soc_bus.InterruptHandler_soc [OF assms(1) ok(1) cause regs refl] ok(2) unfolding ur by auto
  have "default_handler B ?w = Some w2" using w2(1) assms(5) by (simp add: default_handler_def pt_config_def)
  moreover have "uart_raw_read B w = (v, w\<lparr>dev := d\<rparr>)" by (simp add: uart_raw_read_def assms(6))
  ultimately have run: "CanWrite_interrupted B w =
      Some (\<not> uart_is_full v, w2\<lparr>ubuf := UartBuf_save (ucast v) u1\<rparr>)"
    using assms(7) w2(2) by (simp add: CanWrite_interrupted_def CanWrite_finish_def)
  have "saved (UartBuf_save (ucast v) u1) = saved (ubuf w) @ [ucast v', ucast v]"
    using saved_save [OF u1(2), of "ucast v"] len by (simp add: u1(1))
  moreover have "inp (dev w) = ucast v # ucast v' # cs @ inp (dev w2)"
    using w2(3) i by (simp add: pending_def w2(2) u1(1))
  ultimately show ?thesis using run
    by (intro exI [of _ "\<not> uart_is_full v"] exI [of _ "w2\<lparr>ubuf := UartBuf_save (ucast v) u1\<rparr>"] exI [of _ cs]) simp
qed

subsection \<open>Witnesses\<close>

text \<open>A machine before the program starts, and a timer that may expire at any time.\<close>

abbreviation pt_start :: "soc machine" where
  "pt_start \<equiv> demo_machine (irq_soc 0 []) (demo_pic None None)"

definition timer_fires :: "soc \<Rightarrow> soc \<Rightarrow> bool" where
  "timer_fires m m' \<longleftrightarrow> m' = m\<lparr>s_regs := (s_regs m)(0x40000034 \<mapsto> 1)\<rparr>"

lemma pt_start_facts:
  "fw_ok (\<lambda>m. wbu_inv (s_uart m)) pt_start" "length (fmtbuf pt_start) = 256" "length (buffer (uarts pt_start 0)) = 256"
  "pt_regs \<subseteq> soc_regs" "wbu_tx (s_uart (dev pt_start)) = []"
  using demo_facts(1) [of "[]" 0 "demo_pic None None"] demo_facts(6) [of "[]" 0] demo_uart_facts
  by (auto simp: demo_machine_def pt_regs_def is_ram_def UART_ADDRESS_def uart_ok_def irq_soc_def wbu_reset_def wbu_defs)

lemma timer_fires_env:
  "timer_fires d d' \<Longrightarrow> wbu_inv (s_uart d) \<Longrightarrow>
   wbu_inv (s_uart d') \<and> wbu_tx (s_uart d') = wbu_tx (s_uart d) \<and>
   mock_val (s_regs d') 0x40000030 = mock_val (s_regs d) 0x40000030 \<and> (wbu_room (s_uart d) \<longrightarrow> wbu_room (s_uart d'))"
  by (simp add: timer_fires_def mock_val_def)

theorem pic_test_runs_witness:
  "\<exists>w. (pic_test_step soc_mem_bus (\<lambda>_. True) timer_fires)\<^sup>*\<^sup>* (Read_counter False, pic_test_init soc_mem_bus pt_start)
          (Print (Counter_text False) (fmtbuf w) Poll, w) \<and>
       pt_config (\<lambda>m. mock_val (s_regs m)) w \<and> (\<exists>st. pic_test_main soc_mem_bus (Print (Counter_text False) (fmtbuf w) Poll, w) st)"
proof -
  let ?w0 = "pic_test_init soc_mem_bus pt_start"
  let ?d = "(dev ?w0)\<lparr>s_regs := (s_regs (dev ?w0))(0x40000034 \<mapsto> 1)\<rparr>"
  let ?w1 = "?w0\<lparr>dev := ?d\<rparr>"
  let ?step = "pic_test_step soc_mem_bus (\<lambda>_. True) timer_fires"
  obtain r v w2 where rd: "on_dev (Timer_ReadCounter soc_mem_bus (timers ?w1 0)) ?w1 = ((r, v), w2)" by (metis prod.collapse)
  then have r: "r = 0 \<or> False" by (auto simp: on_dev_def Timer_ReadCounter_def reg_simps split: prod.splits)
  obtain n w where f: "format_buf counter_format [v] w2 = (n, w)" by fastforce
  have "timer_fires (dev ?w0) ?d" by (simp add: timer_fires_def)
  then have "?step (Read_counter False, ?w0) (Read_counter False, ?w1)" by (rule pic_test_step.hardware)
  moreover have "?step (Read_counter False, ?w1) (Counter_read False r v, w2)" by (rule pic_test_step.program, rule read [OF rd])
  moreover have "?step (Counter_read False r v, w2) (Print (Counter_text False) (fmtbuf w) Poll, w)"
    by (rule pic_test_step.program, rule to_counter [OF r f])
  ultimately have "?step\<^sup>*\<^sup>* (Read_counter False, ?w0) (Print (Counter_text False) (fmtbuf w) Poll, w)"
    by (meson converse_rtranclp_into_rtranclp r_into_rtranclp)
  with pic_test_runs [OF soc_machine_full pt_start_facts(4,1,2,3) timer_fires_env this] show ?thesis by blast
qed

lemma pic_test_turn_steps_witness:
  "\<exists>w'. (pic_test_main soc_mem_bus)\<^sup>*\<^sup>* (Read_counter False, pt_start) (Read_counter False, w')"
proof -
  have u: "uart_dev soc_mem_bus (\<lambda>m. wbu_inv (s_uart m)) (\<lambda>m. wbu_inp (s_uart m)) (\<lambda>m. wbu_avail (s_uart m))
      (\<lambda>m. wbu_tx (s_uart m)) (\<lambda>m. wbu_room (s_uart m)) (\<lambda>m. wbu_tx_wait (s_uart m)) (\<lambda>m. wbu_rx_wait (s_uart m))
      (\<lambda>m. (mock_val (s_regs m), s_ram m))"
    using soc_machine_bus by (simp add: soc_bus_def)
  obtain r v w1 where rd: "on_dev (Timer_ReadCounter soc_mem_bus (timers pt_start 0)) pt_start = ((r, v), w1)"
    by (metis prod.collapse)
  then have r: "r = 0" by (auto simp: on_dev_def Timer_ReadCounter_def reg_simps split: prod.splits)
  have a: "demo_timer = \<lparr>t_irq = \<lparr>reg_address = 0x40000020\<rparr>, t_counter = \<lparr>reg_address = 0x40000024\<rparr>, default_counter = 1000\<rparr>"
    by (rule demo_timer_def)
  have w1: "uart_dev.io_ok (\<lambda>m. wbu_inv (s_uart m)) w1"
    using rd pt_start_facts(1,2)
    by (auto simp: uart_dev.io_ok_def [OF u] on_dev_def Timer_ReadCounter_def reg_simps a fw_ok_def
        soc_bus_on_def soc_read_def UART_ADDRESS_def is_ram_def map_prod_def split: prod.splits)
  have "CHR 0x00 \<notin> set counter_format" by (simp add: counter_format_def crlf_def)
  from uart_dev.kprintf_io [OF u w1 this, of "[v]"] obtain n w' where "kprintf soc_mem_bus counter_format [v] w1 = Some (n, w')"
    by blast
  then have "pic_test_turn soc_mem_bus False pt_start = Some (False, w')"
    unfolding pic_test_turn_def rd r by simp
  from pic_test_turn_steps [OF this] show ?thesis by blast
qed

text \<open>The configured machine with two bytes in the receive FIFO.\<close>

definition race_machine :: "soc machine" where
  "race_machine =
     (demo_machine ((irq_soc 0 [65, 66])\<lparr>s_regs := [0x40000030 \<mapsto> 1]\<rparr>) (demo_pic (Some 0) (Some 0)))
       \<lparr>mie := 128, mstatus := 8, mtvec := Isr_default_handler, timers := (\<lambda>_. demo_timer\<lparr>default_counter := 100000\<rparr>)\<rparr>"

theorem interrupted_CanWrite_reorders_witness:
  "\<exists>ok w'. CanWrite_interrupted soc_mem_bus race_machine = Some (ok, w') \<and> saved (ubuf w') = [66, 65]"
proof -
  let ?d = "dev race_machine"
  obtain v d where r: "rd32 soc_mem_bus UART_ADDRESS ?d = (v, d)" by fastforce
  obtain v' d' where r': "rd32 soc_mem_bus UART_ADDRESS d = (v', d')" by fastforce
  have u: "s_uart ?d = (wbu_reset [])\<lparr>rd_fifo := [65, 66]\<rparr>"
    by (simp add: race_machine_def demo_machine_def irq_soc_def)
  have v: "v = wb_uart_rdt 0 (s_uart ?d)" and d: "s_uart d = (wbu_reset [])\<lparr>rd_fifo := [66]\<rparr>"
    using soc_uart_read [OF r] by (auto simp: wb_uart_read_def u wbu_reset_def wb_uart_line_def wb_uart_send_def wb_uart_receive_def)
  have v': "v' = wb_uart_rdt 0 (s_uart d)" using soc_uart_read [OF r'] by (auto simp: wb_uart_read_def)
  have e: "\<not> uart_is_empty v" "\<not> uart_is_empty v'" "\<not> uart_is_full v'" "ucast v = (65 :: u8)" "ucast v' = (66 :: u8)"
    unfolding v v' by (simp_all add: u d wb_uart_rdt_empty wb_uart_rdt_full wb_uart_rdt_data fifo_full_def fifo_depth_def wbu_reset_def)
  have f: "fw_ok (\<lambda>m. wbu_inv (s_uart m)) race_machine" "exposed (\<lambda>m. wbu_avail (s_uart m)) race_machine \<le> 255"
    "saved (ubuf race_machine) = []"
    by (simp_all add: race_machine_def demo_machine_def fw_ok_def exposed_def irq_soc_def wbu_reset_def wbu_defs fifo_depth_def)
  have "bit (128 :: u32) 7" "bit (8 :: u32) 3" by simp_all
  then have c: "pt_config (\<lambda>m. mock_val (s_regs m)) race_machine"
    using demo_uart_facts
    by (auto simp: pt_config_def race_machine_def demo_machine_def demo_timer_def mock_val_def kTimerIrqBit_def)
  from interrupted_CanWrite_reorders [OF soc_machine_bus pt_start_facts(4) f(1,2) c r e(1) r' e(2,3)] show ?thesis
    by (auto simp: f(3) e(4,5))
qed

end
