(* ===== verification/Ihex.thy ===== *)
theory Ihex
  imports Soc
begin

text \<open>
  The Intel HEX receiver of \<open>lib/ihex/ihex.cc\<close>: the callback \<open>ihex_data_read\<close> that stores the bytes of
  a data record, prints progress and notes the end of the file. The parser that calls it is the
  external library \<open>kk_ihex\<close>; it is a parameter here (\<open>ihex_lib\<close>): each of its functions is a run
  that may call the callback any number of times, with the fields of \<open>struct ihex_state\<close> the callback
  looks at, and goes on with what the callback returned.
\<close>

subsection \<open>Code that may stop in an endless loop\<close>

text \<open>
  A function that may end in \<open>for(;;);\<close> either returns a value or hangs in a state; \<open>None\<close> still is a
  wait that never ends.
\<close>

datatype ('r, 's) outcome = Returned 'r 's | Hung 's

definition obind ::
    "('a, 's) outcome option \<Rightarrow> ('a \<Rightarrow> 's \<Rightarrow> ('b, 's) outcome option) \<Rightarrow> ('b, 's) outcome option" where
  "obind m f = Option.bind m (\<lambda>out. case out of Returned x s \<Rightarrow> f x s | Hung s \<Rightarrow> Some (Hung s))"

lemma obind_simps [simp]:
  "obind (Some (Returned x s)) f = f x s" "obind (Some (Hung s)) f = Some (Hung s)" "obind None f = None"
  by (simp_all add: obind_def)

text \<open>What comes after a step that never returns does not matter.\<close>

lemma obind_never: "(\<And>x s. m \<noteq> Some (Returned x s)) \<Longrightarrow> obind m f = obind m g"
  by (auto simp: obind_def split: outcome.split Option.bind_split)

lemma obind_stopped: "obind (obind m (\<lambda>_ _. None)) f = obind m (\<lambda>_ _. None)"
  by (auto simp: obind_def split: outcome.split Option.bind_split)

subsection \<open>The parser library\<close>

record ihex_record =
  linear_address :: u32
  ihex_address :: u32
  ihex_length :: u8
  line_length :: u8
  ihex_data :: "u8 list"

datatype 'i ihex_run =
    Ihex_done 'i
  | Ihex_call ihex_record u8 bool "bool \<Rightarrow> 'i ihex_run"

record 'i ihex_lib =
  ihex_begin_read :: 'i
  ihex_read_bytes :: "u8 list \<Rightarrow> 'i \<Rightarrow> 'i ihex_run"
  ihex_end_read :: "'i \<Rightarrow> 'i ihex_run"
  IHEX_DATA_RECORD :: u8
  IHEX_END_OF_FILE_RECORD :: u8

primrec run_ihex ::
    "(ihex_record \<Rightarrow> u8 \<Rightarrow> bool \<Rightarrow> 's \<Rightarrow> (bool, 's) outcome option) \<Rightarrow> 'i ihex_run \<Rightarrow> 's \<Rightarrow>
     ('i, 's) outcome option" where
  "run_ihex cb (Ihex_done i) s = Some (Returned i s)"
| "run_ihex cb (Ihex_call r t e k) s = obind (cb r t e s) (\<lambda>b s1. run_ihex cb (k b) s1)"

subsection \<open>The callback\<close>

text \<open>The static variables of the receiver, and a loader program: those and its line buffer \<open>buf\<close>.\<close>

record ihex_vars =
  gEof :: bool
  ihex_line :: int
  dot_count :: int

record 'd loader = "'d fw" +
  ih :: ihex_vars
  linebuf :: "u8 list"

text \<open>The loop that copies \<open>n\<close> bytes of the record from index \<open>i\<close>, byte by byte, to memory.\<close>

primrec store_loop :: "('d, 'b) mem_bus_scheme \<Rightarrow> u32 \<Rightarrow> u8 list \<Rightarrow> nat \<Rightarrow> nat \<Rightarrow> 'd \<Rightarrow> 'd" where
  "store_loop B address bytes 0 i d = d"
| "store_loop B address bytes (Suc n) i d =
     store_loop B address bytes n (i + 1) (wr8 B (address + of_nat i) (bytes ! i) d)"

definition newline :: string where
  "newline = [CHR 0x0A]"

text \<open>The end of the callback: a checksum error stops the program, else the line is counted.\<close>

definition ihex_checksum ::
    "('d, 'b) bus_scheme \<Rightarrow> u8 \<Rightarrow> bool \<Rightarrow> ('d, 'z) loader_scheme \<Rightarrow>
     (bool, ('d, 'z) loader_scheme) outcome option" where
  "ihex_checksum B type checksum_error s1 =
     (if checksum_error
      then do { (_, s2) \<leftarrow> printmef B (''ihex err: line %d type: %d'' @ newline)
                             [of_int (ihex_line (ih s1)), ucast type] s1;
                Some (Hung s2) }
      else Some (Returned True (s1\<lparr>ih := (ih s1)\<lparr>ihex_line := ihex_line (ih s1) + 1\<rparr>\<rparr>)))"

definition ihex_data_read ::
    "('d, 'b) mem_bus_scheme \<Rightarrow> 'i ihex_lib \<Rightarrow> ihex_record \<Rightarrow> u8 \<Rightarrow> bool \<Rightarrow> ('d, 'z) loader_scheme \<Rightarrow>
     (bool, ('d, 'z) loader_scheme) outcome option" where
  "ihex_data_read B L ihex type checksum_error s0 =
     do { s1 \<leftarrow>
            (if type = IHEX_DATA_RECORD L then
               do { s1 \<leftarrow> (if dot_count (ih s0) = 0
                           then map_option snd (kprintf B ''%08x: '' [linear_address ihex] s0) else Some s0);
                    let s2 = s1\<lparr>dev := store_loop B (linear_address ihex) (ihex_data ihex)
                                         (unat (ihex_length ihex)) 0 (dev s1)\<rparr>;
                    (_, s3) \<leftarrow> kprintf B ''.'' [] s2;
                    let s4 = s3\<lparr>ih := (ih s3)\<lparr>dot_count := dot_count (ih s3) + 1\<rparr>\<rparr>;
                    if dot_count (ih s4) \<ge> 40
                    then do { (_, s5) \<leftarrow> kprintf B newline [] s4;
                              Some (s5\<lparr>ih := (ih s5)\<lparr>dot_count := 0\<rparr>\<rparr>) }
                    else Some s4 }
             else if type = IHEX_END_OF_FILE_RECORD L then
               do { s2 \<leftarrow> (if dot_count (ih s0) \<noteq> 0
                           then do { (_, s1) \<leftarrow> kprintf B newline [] s0;
                                     Some (s1\<lparr>ih := (ih s1)\<lparr>dot_count := 0\<rparr>\<rparr>) }
                           else Some s0);
                    s3 \<leftarrow> printme B (cstr ''EOF'') s2;
                    Some (s3\<lparr>ih := (ih s3)\<lparr>gEof := True\<rparr>\<rparr>) }
             else Some s0);
          ihex_checksum B type checksum_error s1 }"

subsection \<open>What a record means\<close>

text \<open>The bytes of a record, memory with them stored from an address on, and the addresses they take.\<close>

definition payload :: "ihex_record \<Rightarrow> u8 list" where
  "payload r = map (\<lambda>i. ihex_data r ! i) [0..<unat (ihex_length r)]"

primrec poke :: "u32 \<Rightarrow> u8 list \<Rightarrow> (u32 \<Rightarrow> u8) \<Rightarrow> u32 \<Rightarrow> u8" where
  "poke a [] f = f"
| "poke a (b # bs) f = poke (a + 1) bs (f(a := b))"

definition span :: "u32 \<Rightarrow> nat \<Rightarrow> u32 set" where
  "span a n = (\<lambda>i. a + of_nat i) ` {..<n}"

definition apply_record :: "'i ihex_lib \<Rightarrow> ihex_record \<Rightarrow> u8 \<Rightarrow> (u32 \<Rightarrow> u8) \<Rightarrow> u32 \<Rightarrow> u8" where
  "apply_record L r t = (if t = IHEX_DATA_RECORD L then poke (linear_address r) (payload r) else id)"

definition record_area :: "'i ihex_lib \<Rightarrow> ihex_record \<Rightarrow> u8 \<Rightarrow> u32 set" where
  "record_area L r t = (if t = IHEX_DATA_RECORD L then span (linear_address r) (unat (ihex_length r)) else {})"

text \<open>What the stores of a record do to the hardware, wherever they go.\<close>

definition record_stores :: "('d, 'b) mem_bus_scheme \<Rightarrow> 'i ihex_lib \<Rightarrow> ihex_record \<Rightarrow> u8 \<Rightarrow> 'd \<Rightarrow> 'd" where
  "record_stores B L r t d =
     (if t = IHEX_DATA_RECORD L then store_loop B (linear_address r) (ihex_data r) (unat (ihex_length r)) 0 d else d)"

lemma bad_record_never_returns: "ihex_data_read B L r t True s \<noteq> Some (Returned b s')"
  by (auto simp: ihex_data_read_def ihex_checksum_def bind_eq_Some_conv)

text \<open>The progress output for a record, and the static variables after it.\<close>

definition vars_next :: "'i ihex_lib \<Rightarrow> u8 \<Rightarrow> ihex_vars \<Rightarrow> ihex_vars" where
  "vars_next L t v =
     (if t = IHEX_DATA_RECORD L
      then v\<lparr>dot_count := (if dot_count v + 1 \<ge> 40 then 0 else dot_count v + 1)\<rparr>
      else if t = IHEX_END_OF_FILE_RECORD L then v\<lparr>dot_count := 0, gEof := True\<rparr> else v)"

definition row_head :: "ihex_vars \<Rightarrow> u32 \<Rightarrow> u8 list" where
  "row_head v a = (if dot_count v = 0 then vformat ''%08x: '' [a] else [])"

definition record_text :: "'i ihex_lib \<Rightarrow> ihex_record \<Rightarrow> u8 \<Rightarrow> ihex_vars \<Rightarrow> u8 list" where
  "record_text L r t v =
     (if t = IHEX_DATA_RECORD L
      then row_head v (linear_address r) @ cstr ''.'' @
           (if dot_count v + 1 \<ge> 40 then [0x0A] else [])
      else if t = IHEX_END_OF_FILE_RECORD L
      then (if dot_count v \<noteq> 0 then [0x0A] else []) @ cstr ''EOF'' @ CRLF
      else [])"

definition checksum_text :: "u8 \<Rightarrow> ihex_vars \<Rightarrow> u8 list" where
  "checksum_text t v = take 255 (vformat (''ihex err: line %d type: %d'' @ newline) [of_int (ihex_line v), ucast t]) @ CRLF"

definition vars_good :: "'i ihex_lib \<Rightarrow> u8 \<Rightarrow> ihex_vars \<Rightarrow> ihex_vars" where
  "vars_good L t v = (vars_next L t v)\<lparr>ihex_line := ihex_line v + 1\<rparr>"

lemma vars_next_line: "ihex_line (vars_next L t v) = ihex_line v"
  by (simp add: vars_next_def)

text \<open>
  The records a run of the library delivers when the callback always answers true, the value the run
  ends with, and what handling such a list of records does.
\<close>

type_synonym ihex_calls = "(ihex_record \<times> u8 \<times> bool) list"

primrec lib_calls :: "'i ihex_run \<Rightarrow> ihex_calls \<times> 'i" where
  "lib_calls (Ihex_done i) = ([], i)"
| "lib_calls (Ihex_call r t e k) = map_prod (\<lambda>cs. (r, t, e) # cs) id (lib_calls (k True))"

fun calls_ram :: "'i ihex_lib \<Rightarrow> ihex_calls \<Rightarrow> (u32 \<Rightarrow> u8) \<Rightarrow> u32 \<Rightarrow> u8" where
  "calls_ram L [] = id"
| "calls_ram L ((r, t, e) # cs) = calls_ram L cs \<circ> apply_record L r t"

fun calls_vars :: "'i ihex_lib \<Rightarrow> ihex_calls \<Rightarrow> ihex_vars \<Rightarrow> ihex_vars" where
  "calls_vars L [] v = v"
| "calls_vars L ((r, t, e) # cs) v = calls_vars L cs (vars_good L t v)"

fun calls_text :: "'i ihex_lib \<Rightarrow> ihex_calls \<Rightarrow> ihex_vars \<Rightarrow> u8 list" where
  "calls_text L [] v = []"
| "calls_text L ((r, t, e) # cs) v = record_text L r t v @ calls_text L cs (vars_good L t v)"

definition calls_ok :: "'i ihex_lib \<Rightarrow> u32 set \<Rightarrow> ihex_calls \<Rightarrow> bool" where
  "calls_ok L area cs \<longleftrightarrow> (\<forall>(r, t, e) \<in> set cs. \<not> e \<and> record_area L r t \<subseteq> area)"

lemma calls_vars_eof:
  "gEof (calls_vars L cs v) \<longleftrightarrow>
     gEof v \<or> (\<exists>(r, t, e) \<in> set cs. t = IHEX_END_OF_FILE_RECORD L \<and> t \<noteq> IHEX_DATA_RECORD L)"
  by (induction L cs v rule: calls_vars.induct) (auto simp: vars_good_def vars_next_def)

lemma calls_vars_line: "ihex_line (calls_vars L cs v) = ihex_line v + int (length cs)"
  by (induction L cs v rule: calls_vars.induct) (simp_all add: vars_good_def)

lemma calls_append:
  "calls_ram L (cs @ cs') = calls_ram L cs' \<circ> calls_ram L cs"
  "calls_vars L (cs @ cs') v = calls_vars L cs' (calls_vars L cs v)"
  "calls_text L (cs @ cs') v = calls_text L cs v @ calls_text L cs' (calls_vars L cs v)"
  "calls_ok L area (cs @ cs') \<longleftrightarrow> calls_ok L area cs \<and> calls_ok L area cs'"
  by (induction L cs v rule: calls_vars.induct) (auto simp: calls_ok_def comp_assoc)

lemma poke_outside: "x \<notin> span a (length bs) \<Longrightarrow> poke a bs f x = f x"
proof (induction bs arbitrary: a f)
  case (Cons b bs)
  have "a \<in> span a (length (b # bs))" unfolding span_def by (intro image_eqI [of _ _ 0]) auto
  moreover have "span (a + 1) (length bs) \<subseteq> span a (length (b # bs))"
    unfolding span_def by (auto intro!: image_eqI [of _ _ "Suc _"])
  ultimately have "x \<noteq> a" "x \<notin> span (a + 1) (length bs)" using Cons.prems by auto
  with Cons.IH [of "a + 1"] show ?case by simp
qed simp

lemma span_Suc: "span a (Suc n) = insert a (span (a + 1) n)"
  by (simp add: span_def lessThan_Suc_eq_insert_0 image_image add.assoc)

lemma poke_inside:
  assumes "i < length bs" and "length bs \<le> 2 ^ 32"
  shows "poke a bs f (a + of_nat i) = bs ! i"
  using assms
proof (induction bs arbitrary: a f i)
  case (Cons b bs)
  show ?case
  proof (cases i)
    case 0
    have "a \<notin> span (a + 1) (length bs)"
    proof
      assume "a \<in> span (a + 1) (length bs)"
      then obtain j where j: "j < length bs" "a = a + 1 + of_nat j" by (auto simp: span_def)
      from j(2) have "a + (1 + of_nat j) = a + 0" by (simp only: add.assoc add_0_right)
      then have "(1 :: u32) + of_nat j = 0" by (simp only: add_left_cancel)
      then have "(of_nat (Suc j) :: u32) = 0" by simp
      then have "2 ^ 32 dvd Suc j" by (simp only: word_of_nat_eq_0_iff) simp
      then have "2 ^ 32 \<le> Suc j" by (rule dvd_imp_le) simp
      with j(1) Cons.prems show False by simp
    qed
    then show ?thesis by (simp add: 0 poke_outside)
  next
    case (Suc j)
    with Cons.IH [of j "a + 1"] Cons.prems show ?thesis by (simp add: add.assoc)
  qed
qed simp

subsection \<open>The callback over a machine with RAM\<close>

lemma loader_frame:
  fixes s s' :: "('d, 'z) loader_scheme"
  assumes "fw.more s' = fw.more s"
  shows "ih s' = ih s" and "linebuf s' = linebuf s" and "loader.more s' = loader.more s"
  using assms by (cases s; cases s'; simp)+

text \<open>Formats without a NUL or an XON, which is all of them.\<close>

definition plain :: "string \<Rightarrow> bool" where
  "plain f \<longleftrightarrow> CHR 0x00 \<notin> set f \<and> CHR 0x11 \<notin> set f"

lemma of_char_u8_inj: "(of_char c :: u8) = of_char c' \<longleftrightarrow> c = c'"
proof
  assume "(of_char c :: u8) = of_char c'"
  then have "(of_nat (of_char c) :: u8) = of_nat (of_char c')" by (simp only: of_nat_of_char)
  then have "(of_char c :: nat) mod 256 = of_char c' mod 256"
    by (simp add: word_of_nat_eq_iff take_bit_eq_mod)
  then have "(of_char c :: nat) = of_char c'" by simp
  then show "c = c'" by (simp only: of_char_eq_iff)
qed simp

lemma of_char_XON: "(of_char c :: u8) = XON \<longleftrightarrow> c = CHR 0x11"
proof -
  have "(of_char (CHR 0x11) :: u8) = XON" by (simp add: XON_def)
  then show ?thesis by (metis of_char_u8_inj)
qed

lemma plain_chars: "plain f \<Longrightarrow> XON \<notin> of_char ` set f \<and> 0 \<notin> (of_char :: char \<Rightarrow> u8) ` set f"
  unfolding plain_def by (metis imageE of_char_XON of_char_u8_eq_0_iff)

lemma XON_plain: "plain f \<Longrightarrow> XON \<notin> set (vformat f args)"
  using vformat_ctl [OF XON_text(1)] plain_chars by blast

lemma plain_cstr: "plain f \<Longrightarrow> c_string (cstr f) = cstr f \<and> XON \<notin> set (cstr f)"
  using plain_chars [of f] c_string_id [of "cstr f"] by (simp add: cstr_def)

context soc_host
begin

definition ready :: "('d, 'z) fw_scheme \<Rightarrow> bool" where
  "ready s \<longleftrightarrow> io_ok s \<and> exposed avail s \<le> 255"

text \<open>
  \<open>wrote s sent f s'\<close>: a program went from \<open>s\<close> to \<open>s'\<close>, sent \<open>sent\<close>, changed the RAM by \<open>f\<close>, lost no
  input and changed neither a register nor the line buffer.
\<close>

definition wrote ::
    "('d, 'z) loader_scheme \<Rightarrow> u8 list \<Rightarrow> ((u32 \<Rightarrow> u8) \<Rightarrow> u32 \<Rightarrow> u8) \<Rightarrow> ('d, 'z) loader_scheme \<Rightarrow> bool" where
  "wrote s sent f s' \<longleftrightarrow>
     ready s' \<and> pending inp s' = pending inp s \<and> exposed avail s' = exposed avail s \<and>
     tx (dev s') = tx (dev s) @ sent \<and> val (dev s') = val (dev s) \<and> ram (dev s') = f (ram (dev s)) \<and>
     linebuf s' = linebuf s"

lemma wrote_refl: "ready s \<Longrightarrow> wrote s [] id s"
  by (simp add: wrote_def)

lemma wrote_trans: "wrote s a f s1 \<Longrightarrow> wrote s1 b g s2 \<Longrightarrow> wrote s (a @ b) (g \<circ> f) s2"
  by (simp add: wrote_def)

lemma wrote_ready: "wrote s a f s' \<Longrightarrow> ready s'"
  by (simp add: wrote_def)

lemma ready_ih [simp]: "ready (s\<lparr>ih := v\<rparr>) = ready s"
  by (simp add: ready_def io_ok_def fw_ok_def exposed_def)

lemma wrote_ih [simp]: "wrote s a f (s'\<lparr>ih := v\<rparr>) = wrote s a f s'"
  by (simp add: wrote_def pending_def exposed_def)

lemma wrote_from_ih [simp]: "wrote (s\<lparr>ih := v\<rparr>) a f s' = wrote s a f s'"
  by (simp add: wrote_def pending_def exposed_def)

lemma io_keeps_wrote:
  assumes "ready s" and "io_keeps s [] sent s'" and "XON \<notin> set sent"
  shows "wrote s sent id s' \<and> ih s' = ih s"
  using assms loader_frame [of s' s] by (auto simp: ready_def wrote_def io_keeps_def)

lemma kprintf_wrote:
  assumes "ready s" and "plain f"
  shows "\<exists>n s'. kprintf B f args s = Some (n, s') \<and> wrote s (take 255 (vformat f args)) id s' \<and> ih s' = ih s"
proof -
  have "io_ok s" and "CHR 0x00 \<notin> set f" using assms by (simp_all add: ready_def plain_def)
  from kprintf_io [OF this, of args] obtain s' where
    "kprintf B f args s = Some (int (length (vformat f args)), s')"
    "io_keeps s [] (take 255 (vformat f args)) s'" by blast
  moreover have "XON \<notin> set (take 255 (vformat f args))"
    using XON_plain [OF assms(2)] by (meson in_set_takeD)
  ultimately show ?thesis using io_keeps_wrote [OF assms(1)] by blast
qed

lemma printmef_wrote:
  assumes "ready s" and "plain f"
  shows "\<exists>n s'. printmef B f args s = Some (n, s') \<and>
                wrote s (take 255 (vformat f args) @ CRLF) id s' \<and> ih s' = ih s"
proof -
  have "io_ok s" and "CHR 0x00 \<notin> set f" using assms by (simp_all add: ready_def plain_def)
  from printmef_io [OF this, of args] obtain s' where
    "printmef B f args s = Some (int (length (vformat f args)), s')"
    "io_keeps s [] (take 255 (vformat f args) @ CRLF) s'" by blast
  moreover have "XON \<notin> set (take 255 (vformat f args) @ CRLF)"
    using XON_plain [OF assms(2)] by (auto dest: in_set_takeD)
  ultimately show ?thesis using io_keeps_wrote [OF assms(1)] by blast
qed

lemma printme_wrote:
  assumes "ready s" and "plain f"
  shows "\<exists>s'. printme B (cstr f) s = Some s' \<and> wrote s (cstr f @ CRLF) id s' \<and> ih s' = ih s"
proof -
  have "io_ok s" using assms by (simp add: ready_def)
  from printme_io [OF this, of "cstr f"] obtain s' where
    "printme B (cstr f) s = Some s'" "io_keeps s [] (cstr f @ CRLF) s'"
    using plain_cstr [OF assms(2)] by auto
  then show ?thesis using io_keeps_wrote [OF assms(1)] plain_cstr [OF assms(2)] by auto
qed

lemma putchar_wrote:
  assumes "ready s" and "c \<noteq> XON"
  shows "\<exists>s'. uart_putchar B c s = Some s' \<and> wrote s [c] id s' \<and> ih s' = ih s"
proof -
  have "io_ok s" using assms by (simp add: ready_def)
  from putchar_io [OF this, of c] show ?thesis using io_keeps_wrote [OF assms(1)] assms(2) by auto
qed

text \<open>The copy loop stores the payload and leaves the rest of the machine alone.\<close>

lemma store_loop_ram:
  assumes "dinv d" and "span (a + of_nat i) n \<subseteq> ram_area"
  shows "dinv (store_loop B a bs n i d) \<and>
         ram (store_loop B a bs n i d) = poke (a + of_nat i) (map ((!) bs) [i..<i + n]) (ram d) \<and>
         val (store_loop B a bs n i d) = val d \<and> tx (store_loop B a bs n i d) = tx d \<and>
         inp (store_loop B a bs n i d) = inp d \<and> avail (store_loop B a bs n i d) = avail d"
  using assms
proof (induction n arbitrary: i d)
  case (Suc n)
  let ?d = "wr8 B (a + of_nat i) (bs ! i) d"
  from Suc.prems(2) have "a + of_nat i \<in> ram_area" and s: "span (a + of_nat (Suc i)) n \<subseteq> ram_area"
    by (simp_all add: span_Suc ac_simps)
  with Suc.prems(1) have w: "dinv ?d" "ram ?d = (ram d)(a + of_nat i := bs ! i)" "val ?d = val d" "tx ?d = tx d"
    "inp ?d = inp d" "avail ?d = avail d" using ram_write by simp_all
  have e: "[i..<Suc (i + n)] = i # [Suc i..<Suc (i + n)]" by (simp add: upt_conv_Cons)
  from Suc.IH [OF w(1) s] w show ?case by (simp add: ac_simps e fun_upd_def del: upt_Suc)
qed simp

lemma store_record:
  assumes "ready s" and "span a n \<subseteq> ram_area"
  shows "wrote s [] (poke a (map (\<lambda>i. bs ! i) [0..<n])) (s\<lparr>dev := store_loop B a bs n 0 (dev s)\<rparr>)"
  using store_loop_ram [of "dev s" a 0 n bs] assms
  by (auto simp: ready_def io_ok_def fw_ok_def wrote_def pending_def exposed_def)

text \<open>The address in front of a row of dots.\<close>

lemma row_start:
  assumes "ready s"
  shows "\<exists>s1. (if dot_count (ih s) = 0 then map_option snd (kprintf B ''%08x: '' [a] s) else Some s) = Some s1 \<and>
              wrote s (row_head (ih s) a) id s1 \<and> ih s1 = ih s"
proof (cases "dot_count (ih s) = 0")
  case True
  have "plain ''%08x: ''" by (simp add: plain_def)
  from kprintf_wrote [OF assms this, of "[a]"] obtain n s1 where
    s1: "kprintf B ''%08x: '' [a] s = Some (n, s1)" "wrote s (take 255 (vformat ''%08x: '' [a])) id s1" "ih s1 = ih s"
    by blast
  have "length (vformat ''%08x: '' [a]) \<le> 255"
    using hex08 [of a] by (simp add: skip_zero_flag_def is_digit_def width_value_def Let_def)
  then have "take 255 (vformat ''%08x: '' [a]) = vformat ''%08x: '' [a]" by (rule take_all)
  with s1 True show ?thesis by (intro exI [of _ s1]) (simp only: row_head_def refl if_True option.map snd_conv simp_thms)
next
  case False
  with wrote_refl [OF assms] show ?thesis by (simp only: row_head_def if_False) blast
qed

lemma data_record_stored:
  assumes s: "ready s" and area: "span (linear_address r) (unat (ihex_length r)) \<subseteq> ram_area"
  shows "\<exists>n s3. kprintf B ''.'' [] (s\<lparr>dev := store_loop B (linear_address r) (ihex_data r)
                    (unat (ihex_length r)) 0 (dev s)\<rparr>) = Some (n, s3) \<and> ih s3 = ih s \<and>
                wrote s (cstr ''.'') (poke (linear_address r) (payload r)) s3"
proof -
  define s2 where "s2 = s\<lparr>dev := store_loop B (linear_address r) (ihex_data r) (unat (ihex_length r)) 0 (dev s)\<rparr>"
  have w2: "wrote s [] (poke (linear_address r) (payload r)) s2"
    using store_record [OF s area, of "ihex_data r"] by (simp add: s2_def payload_def)
  have "plain ''.''" by (simp add: plain_def)
  moreover have "take 255 (vformat ''.'' []) = cstr ''.''" by simp
  ultimately obtain n s3 where s3: "kprintf B ''.'' [] s2 = Some (n, s3)" "wrote s2 (cstr ''.'') id s3" "ih s3 = ih s2"
    using kprintf_wrote [OF wrote_ready [OF w2], of "''.''" "[]"] by metis
  moreover from wrote_trans [OF w2 s3(2)] have "wrote s (cstr ''.'') (poke (linear_address r) (payload r)) s3"
    by simp
  moreover have "ih s2 = ih s" by (simp add: s2_def)
  ultimately show ?thesis unfolding s2_def by auto
qed

text \<open>The line feed after a full row, and the end of the file.\<close>

lemma newline_wrote:
  assumes "ready s"
  shows "\<exists>n s'. kprintf B newline [] s = Some (n, s') \<and> wrote s [0x0A] id s' \<and> ih s' = ih s"
proof -
  have "plain newline" and v: "take 255 (vformat newline []) = [0x0A]" by (simp_all add: plain_def newline_def)
  with kprintf_wrote [OF assms, of newline "[]"] show ?thesis by metis
qed

text \<open>What the callback has done when it comes to look at the checksum.\<close>

definition handled ::
    "'i ihex_lib \<Rightarrow> ihex_record \<Rightarrow> u8 \<Rightarrow> ('d, 'z) loader_scheme \<Rightarrow> ('d, 'z) loader_scheme \<Rightarrow> bool" where
  "handled L r t s s' \<longleftrightarrow>
     wrote s (record_text L r t (ih s)) (apply_record L r t) s' \<and> ih s' = vars_next L t (ih s)"

lemma data_handled:
  assumes s: "ready s" and t: "t = IHEX_DATA_RECORD L" and area: "record_area L r t \<subseteq> ram_area"
  shows "\<exists>s'. handled L r t s s' \<and> ihex_data_read B L r t e s = ihex_checksum B t e s'"
proof -
  obtain s1 where s1: "(if dot_count (ih s) = 0 then map_option snd (kprintf B ''%08x: '' [linear_address r] s)
      else Some s) = Some s1"
    "wrote s (row_head (ih s) (linear_address r)) id s1" "ih s1 = ih s"
    using row_start [OF s, of "linear_address r"] by blast
  have a: "span (linear_address r) (unat (ihex_length r)) \<subseteq> ram_area"
    using area by (simp add: record_area_def t)
  obtain n s3 where s3: "kprintf B ''.'' [] (s1\<lparr>dev := store_loop B (linear_address r) (ihex_data r)
                    (unat (ihex_length r)) 0 (dev s1)\<rparr>) = Some (n, s3)" "ih s3 = ih s1"
      "wrote s1 (cstr ''.'') (poke (linear_address r) (payload r)) s3"
    using data_record_stored [OF wrote_ready [OF s1(2)] a] by blast
  let ?v = "(ih s)\<lparr>dot_count := dot_count (ih s) + 1\<rparr>"
  let ?s4 = "s3\<lparr>ih := ?v\<rparr>"
  obtain m s5 where s5: "kprintf B newline [] ?s4 = Some (m, s5)" "wrote s3 [0x0A] id s5" "ih s5 = ?v"
    using newline_wrote [of ?s4] wrote_ready [OF s3(3)] by auto
  let ?s' = "if dot_count (ih s) + 1 \<ge> 40 then s5\<lparr>ih := ?v\<lparr>dot_count := 0\<rparr>\<rparr> else ?s4"
  have w: "wrote s (row_head (ih s) (linear_address r) @ cstr ''.'')
      (poke (linear_address r) (payload r)) s3"
    using wrote_trans [OF s1(2) s3(3)] by (simp only: comp_id)
  from wrote_trans [OF w s5(2)] w have "handled L r t s ?s'"
    by (simp only: handled_def record_text_def apply_record_def vars_next_def t refl if_True wrote_ih id_comp
        append_assoc append_Nil2 loader.simps split: if_split) simp
  moreover have "ihex_data_read B L r t e s = ihex_checksum B t e ?s'"
    using s1(3) s3(2) s5(1,3)
    by (simp only: ihex_data_read_def t refl if_True s1(1) s3(1) Let_def bind.bind_lunit prod.case) simp
  ultimately show ?thesis by blast
qed

lemma eof_handled:
  assumes s: "ready s" and t: "t \<noteq> IHEX_DATA_RECORD L" "t = IHEX_END_OF_FILE_RECORD L"
  shows "\<exists>s'. handled L r t s s' \<and> ihex_data_read B L r t e s = ihex_checksum B t e s'"
proof -
  let ?v = "(ih s)\<lparr>dot_count := 0\<rparr>"
  have eof: "plain ''EOF''" by (simp add: plain_def)
  obtain m s1 where s1: "kprintf B newline [] s = Some (m, s1)" "wrote s [0x0A] id s1" "ih s1 = ih s"
    using newline_wrote [OF s] by blast
  let ?s2 = "if dot_count (ih s) \<noteq> 0 then s1\<lparr>ih := ?v\<rparr> else s"
  have w2: "wrote s (if dot_count (ih s) \<noteq> 0 then [0x0A] else []) id ?s2" using s1(2) wrote_refl [OF s] by simp
  have v2: "ih ?s2 = ?v" by (cases "ih s") simp
  obtain s3 where s3: "printme B (cstr ''EOF'') ?s2 = Some s3" "wrote ?s2 (cstr ''EOF'' @ CRLF) id s3" "ih s3 = ?v"
    using printme_wrote [OF wrote_ready [OF w2] eof] v2 by metis
  have "handled L r t s (s3\<lparr>ih := ?v\<lparr>gEof := True\<rparr>\<rparr>)"
    using wrote_trans [OF w2 s3(2)] t
    by (simp add: handled_def record_text_def apply_record_def vars_next_def)
  moreover have "ihex_data_read B L r t e s = ihex_checksum B t e (s3\<lparr>ih := ?v\<lparr>gEof := True\<rparr>\<rparr>)"
    using t s1 s3 by (cases "dot_count (ih s) = 0") (simp_all add: ihex_data_read_def)
  ultimately show ?thesis by blast
qed

text \<open>Whatever the record: the callback handles it and then looks at the checksum.\<close>

lemma data_read_handled:
  assumes "ready s" and "record_area L r t \<subseteq> ram_area"
  shows "\<exists>s'. handled L r t s s' \<and> ihex_data_read B L r t e s = ihex_checksum B t e s'"
proof -
  consider "t = IHEX_DATA_RECORD L" | "t \<noteq> IHEX_DATA_RECORD L" "t = IHEX_END_OF_FILE_RECORD L"
    | "t \<noteq> IHEX_DATA_RECORD L" "t \<noteq> IHEX_END_OF_FILE_RECORD L" by blast
  then show ?thesis
  proof cases
    case 1
    from data_handled [OF assms(1) 1 assms(2)] show ?thesis .
  next
    case 2
    from eof_handled [OF assms(1) 2] show ?thesis .
  next
    case 3
    then have "handled L r t s s" and "ihex_data_read B L r t e s = ihex_checksum B t e s"
      using wrote_refl [OF assms(1)]
      by (simp_all add: handled_def record_text_def apply_record_def vars_next_def ihex_data_read_def)
    then show ?thesis by blast
  qed
qed

lemma data_read_good:
  assumes "ready s" and "record_area L r t \<subseteq> ram_area"
  shows "\<exists>s'. ihex_data_read B L r t False s = Some (Returned True s') \<and>
              wrote s (record_text L r t (ih s)) (apply_record L r t) s' \<and> ih s' = vars_good L t (ih s)"
proof -
  obtain s1 where s1: "handled L r t s s1" "ihex_data_read B L r t False s = ihex_checksum B t False s1"
    using data_read_handled [OF assms] by blast
  then show ?thesis by (auto simp: handled_def ihex_checksum_def vars_good_def vars_next_line)
qed

lemma data_read_bad:
  assumes "ready s" and "record_area L r t \<subseteq> ram_area"
  shows "\<exists>s'. ihex_data_read B L r t True s = Some (Hung s') \<and>
              wrote s (record_text L r t (ih s) @ checksum_text t (vars_next L t (ih s))) (apply_record L r t) s' \<and>
              ih s' = vars_next L t (ih s)"
proof -
  obtain s1 where s1: "handled L r t s s1" "ihex_data_read B L r t True s = ihex_checksum B t True s1"
    using data_read_handled [OF assms] by blast
  have w: "wrote s (record_text L r t (ih s)) (apply_record L r t) s1" and v: "ih s1 = vars_next L t (ih s)"
    using s1(1) by (simp_all add: handled_def)
  have "plain (''ihex err: line %d type: %d'' @ newline)" by (simp add: plain_def newline_def)
  from printmef_wrote [OF wrote_ready [OF w] this, of "[of_int (ihex_line (ih s1)), ucast t]"] obtain n s2 where
    s2: "printmef B (''ihex err: line %d type: %d'' @ newline) [of_int (ihex_line (ih s1)), ucast t] s1 = Some (n, s2)"
    "wrote s1 (checksum_text t (ih s1)) id s2" "ih s2 = ih s1" by (auto simp: checksum_text_def)
  have "ihex_data_read B L r t True s = Some (Hung s2)"
    by (simp only: s1(2) ihex_checksum_def if_True s2(1) bind.bind_lunit prod.case)
  moreover from wrote_trans [OF w s2(2)] v have
    "wrote s (record_text L r t (ih s) @ checksum_text t (vars_next L t (ih s))) (apply_record L r t) s2" by simp
  ultimately show ?thesis using s2(3) v by auto
qed

text \<open>
  A data record with a bad checksum that may go anywhere: if the hardware still works after its stores, the program
  stops, and has not changed a register but by these stores.
\<close>

lemma data_read_bad_anywhere:
  assumes s: "ready s"
  shows "\<exists>d. dinv d \<and> val d = val (dev s) \<and> ram d = ram (dev s) \<and>
           (dinv (record_stores B L r t d) \<and> avail (record_stores B L r t d) \<le> avail d \<longrightarrow>
             (\<exists>s'. ihex_data_read B L r t True s = Some (Hung s') \<and> val (dev s') = val (record_stores B L r t d) \<and>
                   ram (dev s') = ram (record_stores B L r t d)))"
proof (cases "t = IHEX_DATA_RECORD L")
  case False
  then have "record_area L r t \<subseteq> ram_area" by (simp add: record_area_def)
  moreover have "dinv (dev s)" using s by (simp add: ready_def io_ok_def fw_ok_def)
  ultimately show ?thesis
    using data_read_bad [OF s, of L r t] False
    by (intro exI [of _ "dev s"]) (auto simp: record_stores_def wrote_def apply_record_def)
next
  case True
  obtain s1 where s1: "(if dot_count (ih s) = 0 then map_option snd (kprintf B ''%08x: '' [linear_address r] s)
      else Some s) = Some s1" "wrote s (row_head (ih s) (linear_address r)) id s1" "ih s1 = ih s"
    using row_start [OF s, of "linear_address r"] by blast
  let ?d1 = "record_stores B L r t (dev s1)"
  have st: "?d1 = store_loop B (linear_address r) (ihex_data r) (unat (ihex_length r)) 0 (dev s1)"
    by (simp add: record_stores_def True)
  let ?s2 = "s1\<lparr>dev := ?d1\<rparr>"
  have "\<exists>s'. ihex_data_read B L r t True s = Some (Hung s') \<and> val (dev s') = val ?d1 \<and> ram (dev s') = ram ?d1"
    if d1: "dinv ?d1" "avail ?d1 \<le> avail (dev s1)"
  proof -
    have r2: "ready ?s2" using s1(2) d1 by (auto simp: wrote_def ready_def io_ok_def fw_ok_def exposed_def)
    have "plain ''.''" by (simp add: plain_def)
    from kprintf_wrote [OF r2 this, of "[]"] obtain n s3 where s3: "kprintf B ''.'' [] ?s2 = Some (n, s3)"
      "wrote ?s2 (take 255 (vformat ''.'' [])) id s3" "ih s3 = ih ?s2" by blast
    let ?v = "(ih s)\<lparr>dot_count := dot_count (ih s) + 1\<rparr>"
    let ?s4 = "s3\<lparr>ih := ?v\<rparr>"
    have r4: "ready ?s4" using wrote_ready [OF s3(2)] by simp
    from newline_wrote [OF r4] obtain m s5 where s5: "kprintf B newline [] ?s4 = Some (m, s5)" "wrote ?s4 [0x0A] id s5"
      "ih s5 = ?v" by auto
    let ?s6 = "if dot_count (ih s) + 1 \<ge> 40 then s5\<lparr>ih := ?v\<lparr>dot_count := 0\<rparr>\<rparr> else ?s4"
    have v6: "val (dev ?s6) = val ?d1" "ram (dev ?s6) = ram ?d1" "ready ?s6"
      using s3(2) s5(2) r4 wrote_ready [OF s5(2)] by (simp_all add: wrote_def)
    have p: "plain (''ihex err: line %d type: %d'' @ newline)" by (simp add: plain_def newline_def)
    obtain k s7 where s7: "printmef B (''ihex err: line %d type: %d'' @ newline) [of_int (ihex_line (ih ?s6)), ucast t] ?s6 = Some (k, s7)"
      "wrote ?s6 (take 255 (vformat (''ihex err: line %d type: %d'' @ newline) [of_int (ihex_line (ih ?s6)), ucast t]) @ CRLF) id s7"
      using printmef_wrote [OF v6(3) p, of "[of_int (ihex_line (ih ?s6)), ucast t]"] by blast
    have "ihex_data_read B L r t True s = ihex_checksum B t True ?s6"
      using s1(3) s3(1) [unfolded st] s3(3) s5(1,3)
      by (simp only: ihex_data_read_def True refl if_True s1(1) Let_def bind.bind_lunit prod.case) simp
    also have "\<dots> = Some (Hung s7)" by (simp only: ihex_checksum_def if_True s7(1) bind.bind_lunit prod.case)
    finally show ?thesis using s7(2) v6 by (simp add: wrote_def)
  qed
  then show ?thesis using s1(2) by (intro exI [of _ "dev s1"]) (auto simp: wrote_def ready_def io_ok_def fw_ok_def)
qed

text \<open>A run of the library: the records it delivers are handled one after another.\<close>

lemma run_ihex_good:
  "ready s \<Longrightarrow> lib_calls run = (cs, i) \<Longrightarrow> calls_ok L ram_area cs \<Longrightarrow>
   \<exists>s'. run_ihex (ihex_data_read B L) run s = Some (Returned i s') \<and>
        wrote s (calls_text L cs (ih s)) (calls_ram L cs) s' \<and> ih s' = calls_vars L cs (ih s)"
proof (induction run arbitrary: s cs)
  case (Ihex_done i)
  then show ?case using wrote_refl by (auto simp: id_def)
next
  case (Ihex_call r t e k)
  obtain cs' where cs': "lib_calls (k True) = (cs', i)" "cs = (r, t, e) # cs'"
    using Ihex_call.prems(2) by (cases "lib_calls (k True)") auto
  then have e: "\<not> e" "record_area L r t \<subseteq> ram_area" "calls_ok L ram_area cs'"
    using Ihex_call.prems(3) by (auto simp: calls_ok_def)
  obtain s1 where s1: "ihex_data_read B L r t False s = Some (Returned True s1)"
    "wrote s (record_text L r t (ih s)) (apply_record L r t) s1" "ih s1 = vars_good L t (ih s)"
    using data_read_good [OF Ihex_call.prems(1) e(2)] by blast
  from Ihex_call.IH [OF _ wrote_ready [OF s1(2)] cs'(1) e(3)] obtain s2 where
    "run_ihex (ihex_data_read B L) (k True) s1 = Some (Returned i s2)"
    "wrote s1 (calls_text L cs' (ih s1)) (calls_ram L cs') s2" "ih s2 = calls_vars L cs' (ih s1)" by auto
  moreover from wrote_trans [OF s1(2) this(2)] have
    "wrote s (calls_text L cs (ih s)) (calls_ram L cs) s2" by (simp only: cs'(2) calls_text.simps calls_ram.simps s1(3))
  moreover have "run_ihex (ihex_data_read B L) (Ihex_call r t e k) s = Some (Returned i s2)"
    using s1(1) e(1) calculation(1) by simp
  ultimately show ?case using s1(3) by (simp only: cs'(2) calls_vars.simps) blast
qed

lemma run_ihex_stops:
  "ready s \<Longrightarrow> fst (lib_calls run) = cs @ (r, t, True) # cs' \<Longrightarrow> calls_ok L ram_area cs \<Longrightarrow>
   \<exists>s'. wrote s (calls_text L cs (ih s)) (calls_ram L cs) s' \<and>
        run_ihex (ihex_data_read B L) run s = obind (ihex_data_read B L r t True s') (\<lambda>_ _. None)"
proof (induction run arbitrary: s cs)
  case (Ihex_done i)
  then show ?case by simp
next
  case (Ihex_call r1 t1 e1 k)
  show ?case
  proof (cases cs)
    case Nil
    with Ihex_call.prems(2) have "r1 = r" "t1 = t" "e1" by (auto split: prod.splits)
    then have "run_ihex (ihex_data_read B L) (Ihex_call r1 t1 e1 k) s = obind (ihex_data_read B L r t True s) (\<lambda>_ _. None)"
      by (simp add: obind_never [OF bad_record_never_returns])
    with Nil wrote_refl [OF Ihex_call.prems(1)] show ?thesis by (intro exI [of _ s]) (simp add: id_def)
  next
    case (Cons c cs1)
    with Ihex_call.prems(2,3) have c: "c = (r1, t1, False)" "\<not> e1" "record_area L r1 t1 \<subseteq> ram_area"
      "calls_ok L ram_area cs1" "fst (lib_calls (k True)) = cs1 @ (r, t, True) # cs'"
      by (auto simp: calls_ok_def split: prod.splits)
    obtain s1 where s1: "ihex_data_read B L r1 t1 False s = Some (Returned True s1)"
      "wrote s (record_text L r1 t1 (ih s)) (apply_record L r1 t1) s1" "ih s1 = vars_good L t1 (ih s)"
      using data_read_good [OF Ihex_call.prems(1) c(3)] by blast
    obtain s2 where s2: "wrote s1 (calls_text L cs1 (ih s1)) (calls_ram L cs1) s2"
      "run_ihex (ihex_data_read B L) (k True) s1 = obind (ihex_data_read B L r t True s2) (\<lambda>_ _. None)"
      using Ihex_call.IH [OF rangeI wrote_ready [OF s1(2)] c(5,4)] by blast
    from wrote_trans [OF s1(2) s2(1)] have "wrote s (calls_text L cs (ih s)) (calls_ram L cs) s2"
      by (simp only: Cons c(1) calls_text.simps calls_ram.simps s1(3))
    moreover have "run_ihex (ihex_data_read B L) (Ihex_call r1 t1 e1 k) s = obind (ihex_data_read B L r t True s2) (\<lambda>_ _. None)"
      using s1(1) c(2) s2(2) by simp
    ultimately show ?thesis by blast
  qed
qed

end

subsection \<open>Properties\<close>

text \<open>
  C37: Over any machine with RAM and any parser library: whatever records the library delivers in a
  run, if their checksums are good and their data lies in the RAM, the run returns, the RAM holds
  every data record stored in order (later ones over earlier ones), the progress output is exactly
  \<open>calls_text\<close>, no input is lost and no register is written, \<open>gEof\<close> is set exactly when an
  end-of-file record was among them, and each record advanced the line count by one.
\<close>

theorem ihex_records_stored:
  assumes "soc_host B dinv inp avail tx room tx_wait rx_wait val ram regs ram_area tx_left"
    and "fw_ok dinv s" and "length (fmtbuf s) = 256" and "exposed avail s \<le> 255"
    and "lib_calls run = (cs, i)"
    and "\<forall>(r, t, e) \<in> set cs. \<not> e \<and>
           (t = IHEX_DATA_RECORD L \<longrightarrow> span (linear_address r) (unat (ihex_length r)) \<subseteq> ram_area)"
  shows "\<exists>s'. run_ihex (ihex_data_read B L) run s = Some (Returned i s') \<and>
           ram (dev s') = calls_ram L cs (ram (dev s)) \<and>
           tx (dev s') = tx (dev s) @ calls_text L cs (ih s) \<and>
           pending inp s' = pending inp s \<and> val (dev s') = val (dev s) \<and>
           (gEof (ih s') \<longleftrightarrow> gEof (ih s) \<or>
              (\<exists>(r, t, e) \<in> set cs. t = IHEX_END_OF_FILE_RECORD L \<and> t \<noteq> IHEX_DATA_RECORD L)) \<and>
           ihex_line (ih s') = ihex_line (ih s) + int (length cs)"
proof -
  note d = soc_host.ready_def [OF assms(1)] soc_host.wrote_def [OF assms(1)]
  have u: "uart_dev B dinv inp avail tx room tx_wait rx_wait (\<lambda>d. (val d, ram d))"
    using assms(1) by (simp add: soc_host_def soc_bus_def)
  have "soc_host.ready dinv avail s"
    using assms(2-4) by (simp add: d(1) uart_dev.io_ok_def [OF u])
  moreover have "calls_ok L ram_area cs"
    using assms(6) by (fastforce simp: calls_ok_def record_area_def split: if_splits)
  ultimately obtain s' where "run_ihex (ihex_data_read B L) run s = Some (Returned i s')"
    "soc_host.wrote dinv inp avail tx val ram s (calls_text L cs (ih s)) (calls_ram L cs) s'"
    "ih s' = calls_vars L cs (ih s)" using soc_host.run_ihex_good [OF assms(1) _ assms(5)] by blast
  then show ?thesis
    by (intro exI [of _ s']) (simp only: d(2) calls_vars_eof calls_vars_line simp_thms)
qed

text \<open>
  C38: A record with a bad checksum stops the program for ever, but only after its bytes have been
  stored: memory then holds the corrupt record, and an end-of-file record with a bad checksum has
  already set \<open>gEof\<close>. What was printed ends with the message about the checksum.
\<close>

theorem ihex_bad_record_stored:
  assumes "soc_host B dinv inp avail tx room tx_wait rx_wait val ram regs ram_area tx_left"
    and "fw_ok dinv s" and "length (fmtbuf s) = 256" and "exposed avail s \<le> 255"
    and "span (linear_address r) (unat (ihex_length r)) \<subseteq> ram_area"
  shows "\<exists>s'. ihex_data_read B L r t True s = Some (Hung s') \<and>
           ram (dev s') = (if t = IHEX_DATA_RECORD L then poke (linear_address r) (payload r) (ram (dev s))
                           else ram (dev s)) \<and>
           tx (dev s') = tx (dev s) @ record_text L r t (ih s) @ checksum_text t (ih s) \<and>
           val (dev s') = val (dev s) \<and> pending inp s' = pending inp s \<and> gEof (ih s') = gEof (vars_next L t (ih s))"
proof -
  note d = soc_host.ready_def [OF assms(1)] soc_host.wrote_def [OF assms(1)]
  have u: "uart_dev B dinv inp avail tx room tx_wait rx_wait (\<lambda>d. (val d, ram d))"
    using assms(1) by (simp add: soc_host_def soc_bus_def)
  have "soc_host.ready dinv avail s"
    using assms(2-4) by (simp add: d(1) uart_dev.io_ok_def [OF u])
  moreover have "record_area L r t \<subseteq> ram_area" using assms(5) by (simp add: record_area_def)
  ultimately obtain s' where "ihex_data_read B L r t True s = Some (Hung s')"
    "soc_host.wrote dinv inp avail tx val ram s (record_text L r t (ih s) @ checksum_text t (vars_next L t (ih s)))
       (apply_record L r t) s'" "ih s' = vars_next L t (ih s)"
    using soc_host.data_read_bad [OF assms(1)] by blast
  moreover have "checksum_text t (vars_next L t (ih s)) = checksum_text t (ih s)"
    by (simp add: checksum_text_def vars_next_line)
  ultimately show ?thesis by (auto simp: d(2) apply_record_def)
qed

subsection \<open>Witnesses\<close>

text \<open>
  A parser for one record per line, \<open>:LLAAAATT\<close>, the data and a checksum, in lower-case hex digits,
  with \<open>base\<close> for the upper half of the address: an instance of the parameter to run the programs with.
\<close>

fun hex_bytes :: "u8 list \<Rightarrow> u8 list" where
  "hex_bytes (a # b # r) = of_nat (16 * digit_value a + digit_value b) # hex_bytes r"
| "hex_bytes r = []"

definition line_record :: "u32 \<Rightarrow> u8 list \<Rightarrow> unit ihex_run" where
  "line_record base bs =
     (case bs of
        n # ah # al # t # rest \<Rightarrow>
          Ihex_call \<lparr>linear_address = base + ucast ah * 256 + ucast al, ihex_address = ucast ah * 256 + ucast al,
                     ihex_length = n, line_length = n, ihex_data = rest\<rparr>
            t (sum_list bs \<noteq> 0) (\<lambda>_. Ihex_done ())
      | _ \<Rightarrow> Ihex_done ())"

definition line_lib :: "u32 \<Rightarrow> unit ihex_lib" where
  "line_lib base =
     \<lparr>ihex_begin_read = (), ihex_read_bytes = (\<lambda>l _. line_record base (hex_bytes (butlast (tl l)))),
      ihex_end_read = (\<lambda>_. Ihex_done ()), IHEX_DATA_RECORD = 0, IHEX_END_OF_FILE_RECORD = 1\<rparr>"

definition demo_line1 :: "u8 list" where
  "demo_line1 = cstr '':020010000708df'' @ [0x0A]"

definition demo_eof :: "u8 list" where
  "demo_eof = cstr '':00000001ff'' @ [0x0A]"

definition demo_record :: ihex_record where
  "demo_record = \<lparr>linear_address = 0x40010, ihex_address = 0x10, ihex_length = 2, line_length = 2,
                  ihex_data = [7, 8, 0xDF]\<rparr>"

definition eof_record :: ihex_record where
  "eof_record = \<lparr>linear_address = 0x40000, ihex_address = 0, ihex_length = 0, line_length = 0, ihex_data = [0xFF]\<rparr>"

lemma line_lib_calls:
  "lib_calls (ihex_read_bytes (line_lib 0x40000) demo_line1 i) = ([(demo_record, 0, False)], ())"
  "lib_calls (ihex_read_bytes (line_lib 0x40000) demo_eof i) = ([(eof_record, 1, False)], ())"
  by (simp_all add: line_lib_def line_record_def demo_line1_def demo_eof_def demo_record_def eof_record_def
      digit_value_def)

definition loader_reset :: "'d \<Rightarrow> 'd loader" where
  "loader_reset d = fw.extend (fw_reset d)
     \<lparr>ih = \<lparr>gEof = False, ihex_line = 1, dot_count = 0\<rparr>, linebuf = replicate 256 0\<rparr>"

lemma loader_reset_fields [simp]:
  "dev (loader_reset d) = d" "ubuf (loader_reset d) = UartBuf_ctor" "fmtbuf (loader_reset d) = replicate 256 0"
  "ih (loader_reset d) = \<lparr>gEof = False, ihex_line = 1, dot_count = 0\<rparr>" "linebuf (loader_reset d) = replicate 256 0"
  by (simp_all add: loader_reset_def fw_reset_def fw.defs)

lemma loader_reset_ok:
  "fw_ok (\<lambda>m. wbu_inv (s_uart m)) (loader_reset (soc_reset bs))"
  "exposed (\<lambda>m. wbu_avail (s_uart m)) (loader_reset (soc_reset bs)) = length bs"
  "pending (\<lambda>m. wbu_inp (s_uart m)) (loader_reset (soc_reset bs)) = bs"
  by (simp_all add: fw_ok_def exposed_def pending_def soc_reset_ok)

lemma demo_area: "span (linear_address demo_record) (unat (ihex_length demo_record)) \<subseteq> {a. is_ram a}"
proof -
  have n: "unat (ihex_length demo_record) = Suc (Suc 0)" by (simp add: demo_record_def)
  show ?thesis by (simp only: n span_Suc) (simp add: span_def demo_record_def is_ram_def)
qed

lemma demo_payload: "payload demo_record = [7, 8]" "linear_address demo_record = 0x40010"
proof -
  have "unat (ihex_length demo_record) = Suc (Suc 0)" by (simp add: demo_record_def)
  then show "payload demo_record = [7, 8]" by (simp only: payload_def) (simp add: demo_record_def)
qed (simp add: demo_record_def)

lemma line_lib_codes [simp]:
  "IHEX_DATA_RECORD (line_lib base) = 0" "IHEX_END_OF_FILE_RECORD (line_lib base) = 1"
  by (simp_all add: line_lib_def)

theorem ihex_records_stored_witness:
  "\<exists>s'. run_ihex (ihex_data_read soc_mem_bus (line_lib 0x40000)) (ihex_read_bytes (line_lib 0x40000) demo_line1 ())
          (loader_reset (soc_reset [])) = Some (Returned () s') \<and>
        s_ram (dev s') 0x40010 = 7 \<and> s_ram (dev s') 0x40011 = 8 \<and> \<not> gEof (ih s')"
proof -
  let ?s = "loader_reset (soc_reset [])"
  have f: "length (fmtbuf ?s) = 256" "exposed (\<lambda>m. wbu_avail (s_uart m)) ?s \<le> 255"
    by (simp_all add: loader_reset_ok)
  have "\<forall>(r, t, e) \<in> set [(demo_record, 0, False)]. \<not> e \<and>
      (t = IHEX_DATA_RECORD (line_lib 0x40000) \<longrightarrow> span (linear_address r) (unat (ihex_length r)) \<subseteq> {a. is_ram a})"
    using demo_area by simp
  from ihex_records_stored [OF soc_machine loader_reset_ok(1) f line_lib_calls(1) this] obtain s' where
    "run_ihex (ihex_data_read soc_mem_bus (line_lib 0x40000)) (ihex_read_bytes (line_lib 0x40000) demo_line1 ()) ?s =
       Some (Returned () s')"
    "s_ram (dev s') = calls_ram (line_lib 0x40000) [(demo_record, 0, False)] (s_ram (dev ?s))" "\<not> gEof (ih s')"
    by auto
  then show ?thesis by (auto simp: apply_record_def demo_payload)
qed

theorem ihex_bad_record_stored_witness:
  "\<exists>s'. ihex_data_read soc_mem_bus (line_lib 0x40000) demo_record 0 True (loader_reset (soc_reset [])) = Some (Hung s') \<and>
        s_ram (dev s') 0x40010 = 7"
proof -
  let ?s = "loader_reset (soc_reset [])"
  have f: "length (fmtbuf ?s) = 256" "exposed (\<lambda>m. wbu_avail (s_uart m)) ?s \<le> 255"
    by (simp_all add: loader_reset_ok)
  from ihex_bad_record_stored [OF soc_machine loader_reset_ok(1) f demo_area, of "line_lib 0x40000" 0] show ?thesis
    by (auto simp: demo_payload)
qed

end
