(* ===== verification/Upload.thy ===== *)
theory Upload
  imports Ihex
begin

text \<open>
  The upload that the loaders share: the loop of \<open>bin/noelv_serv_upload\<close> and \<open>bin/rv32_ddr3exec\<close>,
  which throttles the host: it reads a line, sends XOFF while it works on it and XON when it wants the
  next one. The lemmas follow an upload of any number of lines, and the two ways it is stopped.
\<close>

definition XOFF :: u8 where
  "XOFF = 0x13"

subsection \<open>The upload loop\<close>

text \<open>The \<open>while (!gEof)\<close> loop of both programs; \<open>None\<close> when it waits for input that never comes.\<close>

partial_function (option) upload_loop ::
    "('d, 'b) mem_bus_scheme \<Rightarrow> 'i ihex_lib \<Rightarrow> bool \<Rightarrow> 'i \<Rightarrow> ('d, 'z) loader_scheme \<Rightarrow>
     ('i, ('d, 'z) loader_scheme) outcome option" where
  "upload_loop B L first_pass i s =
     (if gEof (ih s) then Some (Returned i s)
      else do { s1 \<leftarrow> (if \<not> first_pass then uart_putchar B XON s else Some s);
                ((line_ok, b), s2) \<leftarrow> uart_getline B (linebuf s1) 256 s1;
                s3 \<leftarrow> uart_putchar B XOFF (s2\<lparr>linebuf := b\<rparr>);
                if line_ok = False
                then do { s4 \<leftarrow> uart_putchar B XON s3;
                          s5 \<leftarrow> printme B (cstr ''1 err'') s4;
                          Some (Hung s5) }
                else do { out \<leftarrow> run_ihex (ihex_data_read B L)
                                    (ihex_read_bytes L (c_string (linebuf s3)) i) s3;
                          case out of Returned i' s4 \<Rightarrow> upload_loop B L False i' s4
                                    | Hung s4 \<Rightarrow> Some (Hung s4) } })"

declare upload_loop.simps [code]

subsection \<open>An upload, line by line\<close>

text \<open>A line of the file that fits the line buffer: a host line without NUL, at most 255 bytes with its newline.\<close>

definition good_line :: "u8 list \<Rightarrow> bool" where
  "good_line l \<longleftrightarrow> host_line l \<and> 0 \<notin> set l \<and> length l < 256"

text \<open>What the parser library makes of the lines: for each line the records it delivers.\<close>

fun feed :: "'i ihex_lib \<Rightarrow> 'i \<Rightarrow> u8 list list \<Rightarrow> ihex_calls list \<times> 'i" where
  "feed L i [] = ([], i)"
| "feed L i (l # ls) =
     (case lib_calls (ihex_read_bytes L l i) of (cs, i1) \<Rightarrow> map_prod (\<lambda>css. cs # css) id (feed L i1 ls))"

lemma feed_append:
  "feed L i (ls @ ls') = (case feed L i ls of (css, i1) \<Rightarrow> map_prod ((@) css) id (feed L i1 ls'))"
  by (induction L i ls rule: feed.induct) (auto simp: map_prod_def split: prod.splits)

lemma length_feed: "length (fst (feed L i ls)) = length ls"
  by (induction L i ls rule: feed.induct) (auto split: prod.splits)

definition has_eof :: "'i ihex_lib \<Rightarrow> ihex_calls \<Rightarrow> bool" where
  "has_eof L cs \<longleftrightarrow> (\<exists>(r, t, e) \<in> set cs. t = IHEX_END_OF_FILE_RECORD L \<and> t \<noteq> IHEX_DATA_RECORD L)"

lemma gEof_calls_vars: "gEof (calls_vars L cs v) \<longleftrightarrow> gEof v \<or> has_eof L cs"
  by (simp add: calls_vars_eof has_eof_def)

text \<open>The bytes sent during an upload: XON, XOFF and the progress output, line by line.\<close>

fun upload_text :: "'i ihex_lib \<Rightarrow> bool \<Rightarrow> ihex_vars \<Rightarrow> ihex_calls list \<Rightarrow> u8 list" where
  "upload_text L first v [] = []"
| "upload_text L first v (cs # css) =
     (if first then [] else [XON]) @ [XOFF] @ calls_text L cs v @
     upload_text L False (calls_vars L cs v) css"

definition hex_line :: "char \<Rightarrow> u32 \<Rightarrow> u8 list" where
  "hex_line c a = cstr (c # '': 0x'') @ vformat ''%08x'' [a] @ [0x0A]"

lemma upload_text_append:
  "upload_text L first v (css @ css') =
     upload_text L first v css @ upload_text L (first \<and> css = []) (calls_vars L (concat css) v) css'"
  by (induction L first v css rule: upload_text.induct) (simp_all add: calls_append)


text \<open>The static variables when the loop starts.\<close>

abbreviation boot_vars :: "ihex_vars \<Rightarrow> ihex_vars" where
  "boot_vars v \<equiv> v\<lparr>gEof := False, ihex_line := 1\<rparr>"

lemma XOFF_not_XON [simp]: "XOFF \<noteq> XON"
  by (simp add: XOFF_def XON_def)

context soc_host
begin

text \<open>
  \<open>at_line s p k\<close>: a loader in good order, with \<open>p\<close> still to be read and \<open>k\<close> bytes of it exposed.
\<close>

definition at_line :: "('d, 'z) loader_scheme \<Rightarrow> u8 list \<Rightarrow> nat \<Rightarrow> bool" where
  "at_line s p k \<longleftrightarrow> ready s \<and> length (linebuf s) = 256 \<and> pending inp s = p \<and> exposed avail s = k"

definition sent_only :: "('d, 'z) loader_scheme \<Rightarrow> u8 list \<Rightarrow> ('d, 'z) loader_scheme \<Rightarrow> bool" where
  "sent_only s out s' \<longleftrightarrow> tx (dev s') = tx (dev s) @ out \<and> val (dev s') = val (dev s) \<and>
     ram (dev s') = ram (dev s) \<and> ih s' = ih s"

lemma at_line_wrote: "at_line s p k \<Longrightarrow> wrote s out f s' \<Longrightarrow> at_line s' p k"
  by (simp add: at_line_def wrote_def)

lemma sent_only_trans: "sent_only s a s1 \<Longrightarrow> sent_only s1 b s2 \<Longrightarrow> sent_only s (a @ b) s2"
  by (simp add: sent_only_def)

lemma wrote_sent_only: "wrote s out id s' \<Longrightarrow> ih s' = ih s \<Longrightarrow> sent_only s out s'"
  by (simp add: wrote_def sent_only_def)

lemma xon_step:
  assumes "at_line s p 0" and "length (first_line p) < 256"
  shows "\<exists>s'. uart_putchar B XON s = Some s' \<and> at_line s' p (length (first_line p)) \<and> sent_only s [XON] s'"
proof -
  have "fw_ok dinv s" "exposed avail s \<le> 255" "length (fmtbuf s) = 256"
    using assms(1) by (auto simp: at_line_def ready_def io_ok_def)
  with putchar_xon [of s] obtain s' where s': "uart_putchar B XON s = Some s'" "fw_ok dinv s'" "same_rest s s'"
    "tx (dev s') = tx (dev s) @ [XON]" "val (dev s') = val (dev s)" "ram (dev s') = ram (dev s)"
    "pending inp s' = pending inp s"
    "exposed avail s' = exposed avail s + length (first_line (drop (exposed avail s) (pending inp s)))" by blast
  then have "fw.more s' = fw.more s" "fmtbuf s' = fmtbuf s" by (simp_all add: same_rest_def)
  with loader_frame [of s' s] s' assms show ?thesis
    by (auto simp: at_line_def ready_def io_ok_def sent_only_def)
qed

lemma getline_step:
  assumes "at_line s (l @ rest) k" and "length l \<le> k" and "good_line l"
  shows "\<exists>b s1. uart_getline B (linebuf s) 256 s = Some ((True, b), s1) \<and> c_string b = l \<and>
           at_line (s1\<lparr>linebuf := b\<rparr>) rest (k - length l) \<and> sent_only s [] (s1\<lparr>linebuf := b\<rparr>)"
proof -
  obtain m where m: "l = m @ [0x0A]" "0x0A \<notin> set m"
    using assms(3) by (auto simp: good_line_def elim: host_lineE)
  have n: "0 \<notin> set l" "Suc (length m) < 256" using assms(3) by (auto simp: good_line_def m)
  have ok: "fw_ok dinv s" "length (fmtbuf s) = 256" "length (linebuf s) = 256" "pending inp s = m @ 0x0A # rest"
    "Suc (length m) \<le> exposed avail s" "exposed avail s = k" "k \<le> 255"
    using assms(1,2) by (auto simp: at_line_def ready_def io_ok_def m)
  let ?b = "m @ 0x0A # 0 # drop (length m + 2) (linebuf s)"
  from getline_line [OF ok(1,4) m(2) n(2), of "linebuf s"] ok(3,5) obtain s1 where
    s1: "uart_getline B (linebuf s) 256 s = Some ((True, ?b), s1)" "pending inp s1 = rest"
      "exposed avail s = Suc (length m) + exposed avail s1"
      "fw_ok dinv s1" "same_rest s s1" "tx (dev s1) = tx (dev s)" "val (dev s1) = val (dev s)"
      "ram (dev s1) = ram (dev s)" by auto
  have fr: "ih s1 = ih s" "fmtbuf s1 = fmtbuf s" using s1(5) loader_frame [of s1 s] by (simp_all add: same_rest_def)
  have "at_line (s1\<lparr>linebuf := ?b\<rparr>) rest (k - length l)"
    using s1 fr ok n by (simp add: at_line_def ready_def io_ok_def fw_ok_def pending_def exposed_def m)
  moreover have "sent_only s [] (s1\<lparr>linebuf := ?b\<rparr>)" using s1 fr by (simp add: sent_only_def)
  moreover have "?b = l @ 0 # drop (length m + 2) (linebuf s)" by (simp add: m)
  with n(1) have "c_string ?b = l" by (simp only: c_string_no_nul not_False_eq_True)
  ultimately show ?thesis using s1(1) by blast
qed

lemma line_step:
  assumes "at_line s (l @ rest) (length l)" and "good_line l"
  shows "\<exists>b s1 s2. uart_getline B (linebuf s) 256 s = Some ((True, b), s1) \<and>
           uart_putchar B XOFF (s1\<lparr>linebuf := b\<rparr>) = Some s2 \<and> c_string (linebuf s2) = l \<and>
           at_line s2 rest 0 \<and> sent_only s [XOFF] s2"
proof -
  obtain b s1 where s1: "uart_getline B (linebuf s) 256 s = Some ((True, b), s1)" "c_string b = l"
    "at_line (s1\<lparr>linebuf := b\<rparr>) rest 0" "sent_only s [] (s1\<lparr>linebuf := b\<rparr>)"
    using getline_step [OF assms(1) order_refl assms(2)] by auto
  from putchar_wrote [of "s1\<lparr>linebuf := b\<rparr>" XOFF] s1(3) obtain s2 where
    s2: "uart_putchar B XOFF (s1\<lparr>linebuf := b\<rparr>) = Some s2" "wrote (s1\<lparr>linebuf := b\<rparr>) [XOFF] id s2"
      "ih s2 = ih (s1\<lparr>linebuf := b\<rparr>)" by (auto simp: at_line_def)
  have "linebuf s2 = b" using s2(2) by (simp add: wrote_def)
  with s1(2) have "c_string (linebuf s2) = l" by simp
  moreover have "at_line s2 rest 0" using at_line_wrote [OF s1(3) s2(2)] .
  moreover have "sent_only s [XOFF] s2" using sent_only_trans [OF s1(4) wrote_sent_only [OF s2(2,3)]] by simp
  ultimately show ?thesis using s1(1) s2(1) by blast
qed

lemma first_line_good: "good_line l \<Longrightarrow> first_line (l @ rest) = l"
  by (simp add: good_line_def first_line_host)

text \<open>One turn of the loop up to the call of the parser.\<close>

lemma upload_turn:
  assumes "\<not> gEof (ih s)" and "at_line s (l @ rest) (if first then length l else 0)" and "good_line l"
  shows "\<exists>s3. upload_loop B L first i s =
           Option.bind (run_ihex (ihex_data_read B L) (ihex_read_bytes L l i) s3)
             (\<lambda>out. case out of Returned i' s4 \<Rightarrow> upload_loop B L False i' s4 | Hung s4 \<Rightarrow> Some (Hung s4)) \<and>
           at_line s3 rest 0 \<and> sent_only s ((if first then [] else [XON]) @ [XOFF]) s3"
proof -
  obtain s1 where s1: "(if \<not> first then uart_putchar B XON s else Some s) = Some s1"
    "at_line s1 (l @ rest) (length l)" "sent_only s (if first then [] else [XON]) s1"
  proof (cases first)
    case True
    with assms(2) that [of s] show thesis by (simp add: sent_only_def)
  next
    case False
    have "length (first_line (l @ rest)) < 256" using first_line_good assms(3) by (simp add: good_line_def)
    with xon_step [of s "l @ rest"] that assms(2) first_line_good [OF assms(3)] False show thesis by auto
  qed
  obtain b s2 s3 where s3: "uart_getline B (linebuf s1) 256 s1 = Some ((True, b), s2)"
    "uart_putchar B XOFF (s2\<lparr>linebuf := b\<rparr>) = Some s3" "c_string (linebuf s3) = l" "at_line s3 rest 0"
    "sent_only s1 [XOFF] s3" using line_step [OF s1(2) assms(3)] by blast
  have "upload_loop B L first i s =
           Option.bind (run_ihex (ihex_data_read B L) (ihex_read_bytes L l i) s3)
             (\<lambda>out. case out of Returned i' s4 \<Rightarrow> upload_loop B L False i' s4 | Hung s4 \<Rightarrow> Some (Hung s4))"
    by (subst upload_loop.simps)
      (simp only: assms(1) if_False s1(1) s3(1,2,3) bind.bind_lunit prod.case simp_thms)
  with s3(4) sent_only_trans [OF s1(3) s3(5)] show ?thesis by blast
qed

text \<open>A whole turn for a line whose records are all good.\<close>

lemma turn_good:
  assumes "\<not> gEof (ih s)" and "at_line s (l @ rest) (if first then length l else 0)" and "good_line l"
    and "lib_calls (ihex_read_bytes L l i) = (cs, i1)" and "calls_ok L ram_area cs"
  shows "\<exists>s'. upload_loop B L first i s = upload_loop B L False i1 s' \<and> at_line s' rest 0 \<and>
           tx (dev s') = tx (dev s) @ upload_text L first (ih s) [cs] \<and> val (dev s') = val (dev s) \<and>
           ram (dev s') = calls_ram L cs (ram (dev s)) \<and> ih s' = calls_vars L cs (ih s)"
proof -
  obtain s3 where s3: "upload_loop B L first i s =
           Option.bind (run_ihex (ihex_data_read B L) (ihex_read_bytes L l i) s3)
             (\<lambda>out. case out of Returned i' s4 \<Rightarrow> upload_loop B L False i' s4 | Hung s4 \<Rightarrow> Some (Hung s4))"
    "at_line s3 rest 0" "sent_only s ((if first then [] else [XON]) @ [XOFF]) s3"
    using upload_turn [OF assms(1-3), of L i] by (elim exE conjE) (rule that)
  have "ready s3" using s3(2) by (simp add: at_line_def)
  from run_ihex_good [OF this assms(4,5)] obtain s4 where s4:
    "run_ihex (ihex_data_read B L) (ihex_read_bytes L l i) s3 = Some (Returned i1 s4)"
    "wrote s3 (calls_text L cs (ih s3)) (calls_ram L cs) s4" "ih s4 = calls_vars L cs (ih s3)" by blast
  have "upload_loop B L first i s = upload_loop B L False i1 s4"
    by (simp only: s3(1) s4(1) bind.bind_lunit outcome.case)
  moreover have "at_line s4 rest 0" using at_line_wrote [OF s3(2) s4(2)] .
  ultimately show ?thesis
    using s3(3) s4(2,3) by (intro exI [of _ s4]) (simp add: sent_only_def wrote_def)
qed

text \<open>Lines without an end-of-file record: the loop goes on after them.\<close>

lemma upload_prefix:
  assumes "\<not> gEof (ih s)" and "at_line s (concat ls @ rest) (if first then length (first_line (concat ls @ rest)) else 0)"
    and "\<forall>l \<in> set ls. good_line l" and "feed L i ls = (css, i')" and "calls_ok L ram_area (concat css)"
    and "\<forall>cs \<in> set css. \<not> has_eof L cs"
  shows "\<exists>s'. upload_loop B L first i s = upload_loop B L (first \<and> ls = []) i' s' \<and> \<not> gEof (ih s') \<and>
           at_line s' rest (if first \<and> ls = [] then length (first_line rest) else 0) \<and>
           tx (dev s') = tx (dev s) @ upload_text L first (ih s) css \<and> val (dev s') = val (dev s) \<and>
           ram (dev s') = calls_ram L (concat css) (ram (dev s)) \<and> ih s' = calls_vars L (concat css) (ih s)"
  using assms
proof (induction ls arbitrary: first i s css)
  case Nil
  then show ?case by (intro exI [of _ s]) (simp cong: if_cong)
next
  case (Cons l ls)
  obtain cs i1 css1 where f: "lib_calls (ihex_read_bytes L l i) = (cs, i1)" "feed L i1 ls = (css1, i')"
    "css = cs # css1" using Cons.prems(4)
    by (cases "lib_calls (ihex_read_bytes L l i)"; cases "feed L (snd (lib_calls (ihex_read_bytes L l i))) ls") auto
  have ok: "calls_ok L ram_area cs" "calls_ok L ram_area (concat css1)" and gl: "good_line l"
    using Cons.prems(3,5) by (simp_all add: f(3) calls_append)
  have h: "at_line s (l @ concat ls @ rest) (if first then length l else 0)"
    using Cons.prems(2) first_line_good [OF gl] by (simp split: if_splits)
  obtain s1 where s1: "upload_loop B L first i s = upload_loop B L False i1 s1" "at_line s1 (concat ls @ rest) 0"
    "tx (dev s1) = tx (dev s) @ upload_text L first (ih s) [cs]" "val (dev s1) = val (dev s)"
    "ram (dev s1) = calls_ram L cs (ram (dev s))" "ih s1 = calls_vars L cs (ih s)"
    using turn_good [OF Cons.prems(1) h gl f(1) ok(1)] by (elim exE conjE) (rule that)
  have e: "\<not> has_eof L cs" "\<forall>cs \<in> set css1. \<not> has_eof L cs" using Cons.prems(6) by (simp_all add: f(3))
  then have g: "\<not> gEof (ih s1)" using Cons.prems(1) s1(6) by (simp add: gEof_calls_vars)
  have "at_line s1 (concat ls @ rest) (if False then length (first_line (concat ls @ rest)) else 0)"
    and "\<forall>l \<in> set ls. good_line l" using s1(2) Cons.prems(3) by simp_all
  from Cons.IH [OF g this f(2) ok(2) e(2)] obtain s' where s':
    "upload_loop B L False i1 s1 = upload_loop B L (False \<and> ls = []) i' s'" "\<not> gEof (ih s')"
    "at_line s' rest (if False \<and> ls = [] then length (first_line rest) else 0)"
    "tx (dev s') = tx (dev s1) @ upload_text L False (ih s1) css1" "val (dev s') = val (dev s1)"
    "ram (dev s') = calls_ram L (concat css1) (ram (dev s1))" "ih s' = calls_vars L (concat css1) (ih s1)"
    by (elim exE conjE) (rule that)
  with s1 show ?case by (intro exI [of _ s']) (simp add: f(3) calls_append)
qed

text \<open>An upload whose records are all good, ending with the line that has the end-of-file record.\<close>

lemma upload_good:
  assumes "\<not> gEof (ih s)" and "ls = ls0 @ [l]"
    and "at_line s (concat ls @ rest) (if first then length (first_line (concat ls @ rest)) else 0)"
    and "\<forall>l \<in> set ls. good_line l" and "feed L i ls = (css, i')" and "calls_ok L ram_area (concat css)"
    and "\<forall>cs \<in> set (butlast css). \<not> has_eof L cs" and "has_eof L (last css)"
  shows "\<exists>s'. upload_loop B L first i s = Some (Returned i' s') \<and> at_line s' rest 0 \<and>
           tx (dev s') = tx (dev s) @ upload_text L first (ih s) css \<and> val (dev s') = val (dev s) \<and>
           ram (dev s') = calls_ram L (concat css) (ram (dev s)) \<and> ih s' = calls_vars L (concat css) (ih s)"
proof -
  obtain css0 i0 cs i1 where f: "feed L i ls0 = (css0, i0)" "lib_calls (ihex_read_bytes L l i0) = (cs, i1)"
    by (metis surj_pair)
  then have css: "css = css0 @ [cs]" "i1 = i'" using assms(5) by (simp_all add: assms(2) feed_append)
  have ok: "calls_ok L ram_area (concat css0)" "calls_ok L ram_area cs" and gl: "good_line l"
    "\<forall>l \<in> set ls0. good_line l" and e: "\<forall>cs \<in> set css0. \<not> has_eof L cs" "has_eof L cs"
    using assms(4,6-8) by (simp_all add: assms(2) css(1) calls_append)
  have h: "at_line s (concat ls0 @ l @ rest) (if first then length (first_line (concat ls0 @ l @ rest)) else 0)"
    using assms(3) by (simp add: assms(2) cong: if_cong)
  obtain s1 where s1: "upload_loop B L first i s = upload_loop B L (first \<and> ls0 = []) i0 s1" "\<not> gEof (ih s1)"
    "at_line s1 (l @ rest) (if first \<and> ls0 = [] then length (first_line (l @ rest)) else 0)"
    "tx (dev s1) = tx (dev s) @ upload_text L first (ih s) css0" "val (dev s1) = val (dev s)"
    "ram (dev s1) = calls_ram L (concat css0) (ram (dev s))" "ih s1 = calls_vars L (concat css0) (ih s)"
    using upload_prefix [OF assms(1) h gl(2) f(1) ok(1) e(1)] by (elim exE conjE) (rule that)
  have "at_line s1 (l @ rest) (if first \<and> ls0 = [] then length l else 0)"
    using s1(3) by (simp only: first_line_good [OF gl(1)])
  from turn_good [OF s1(2) this gl(1) f(2) ok(2)] obtain s2 where s2:
    "upload_loop B L (first \<and> ls0 = []) i0 s1 = upload_loop B L False i1 s2" "at_line s2 rest 0"
    "tx (dev s2) = tx (dev s1) @ upload_text L (first \<and> ls0 = []) (ih s1) [cs]" "val (dev s2) = val (dev s1)"
    "ram (dev s2) = calls_ram L cs (ram (dev s1))" "ih s2 = calls_vars L cs (ih s1)"
    by (elim exE conjE) (rule that)
  have "gEof (ih s2)" using e(2) s2(6) by (simp add: gEof_calls_vars)
  then have "upload_loop B L False i1 s2 = Some (Returned i1 s2)" by (subst upload_loop.simps) simp
  moreover have "css0 = [] \<longleftrightarrow> ls0 = []" using length_feed [of L i ls0] f(1) by auto
  ultimately show ?thesis
    using s1 s2 by (intro exI [of _ s2]) (simp add: css upload_text_append calls_append)
qed

text \<open>The prompts before the loop.\<close>

lemma prompt:
  assumes "at_line s p k" and "plain f"
  shows "\<exists>s'. printme B (cstr f) s = Some s' \<and> at_line s' p k \<and> sent_only s (cstr f @ CRLF) s'"
proof -
  have "ready s" using assms(1) by (simp add: at_line_def)
  from printme_wrote [OF this assms(2)] at_line_wrote [OF assms(1)] wrote_sent_only show ?thesis by blast
qed

lemma at_line_ih [simp]: "at_line (s\<lparr>ih := v\<rparr>) p k = at_line s p k"
  by (simp add: at_line_def pending_def exposed_def)

text \<open>
  From the start of the loop to the XON after it, which both loaders share: the upload of \<open>ls\<close> and
  the end of the parser.
\<close>

lemma upload_complete:
  assumes "ls \<noteq> []" and "\<not> gEof (ih s)" and "at_line s (concat ls @ rest) (length (hd ls))"
    and "\<forall>l \<in> set ls. good_line l" and "length (first_line rest) < 256"
    and "feed L (ihex_begin_read L) ls = (css, i)" and "lib_calls (ihex_end_read L i) = (ce, i')"
    and "calls_ok L ram_area (concat css @ ce)"
    and "\<forall>cs \<in> set (butlast css). \<not> has_eof L cs" and "has_eof L (last css)"
  shows "\<exists>s1 s2 s3. upload_loop B L True (ihex_begin_read L) s = Some (Returned i s1) \<and>
           run_ihex (ihex_data_read B L) (ihex_end_read L i) s1 = Some (Returned i' s2) \<and>
           uart_putchar B XON s2 = Some s3 \<and> at_line s3 rest (length (first_line rest)) \<and>
           tx (dev s3) = tx (dev s) @ upload_text L True (ih s) css @
                         calls_text L ce (calls_vars L (concat css) (ih s)) @ [XON] \<and>
           val (dev s3) = val (dev s) \<and> ram (dev s3) = calls_ram L (concat css @ ce) (ram (dev s)) \<and>
           ih s3 = calls_vars L (concat css @ ce) (ih s)"
proof -
  have ok: "calls_ok L ram_area (concat css)" "calls_ok L ram_area ce"
    using assms(8) by (simp_all add: calls_append)
  obtain ls0 l where ls: "ls = ls0 @ [l]" using assms(1) by (cases ls rule: rev_cases) auto
  have "first_line (concat ls @ rest) = hd ls"
    using assms(1,4) first_line_good by (cases ls) auto
  then have "at_line s (concat ls @ rest) (if True then length (first_line (concat ls @ rest)) else 0)"
    using assms(3) by simp
  from upload_good [OF assms(2) ls this assms(4,6) ok(1) assms(9,10)] obtain s1 where s1:
    "upload_loop B L True (ihex_begin_read L) s = Some (Returned i s1)" "at_line s1 rest 0"
    "tx (dev s1) = tx (dev s) @ upload_text L True (ih s) css" "val (dev s1) = val (dev s)"
    "ram (dev s1) = calls_ram L (concat css) (ram (dev s))" "ih s1 = calls_vars L (concat css) (ih s)" by blast
  have "ready s1" using s1(2) by (simp add: at_line_def)
  from run_ihex_good [OF this assms(7) ok(2)] obtain s2 where s2:
    "run_ihex (ihex_data_read B L) (ihex_end_read L i) s1 = Some (Returned i' s2)"
    "wrote s1 (calls_text L ce (ih s1)) (calls_ram L ce) s2" "ih s2 = calls_vars L ce (ih s1)" by blast
  obtain s3 where s3: "uart_putchar B XON s2 = Some s3" "at_line s3 rest (length (first_line rest))"
    "sent_only s2 [XON] s3" using xon_step [OF at_line_wrote [OF s1(2) s2(2)] assms(5)] by blast
  show ?thesis
    using s1 s2 s3 by (intro exI [of _ s1] exI [of _ s2] exI [of _ s3])
      (simp add: sent_only_def wrote_def calls_append)
qed

text \<open>An upload that is stopped: by a record with a bad checksum, or by a line that does not fit.\<close>

lemma upload_stops:
  assumes "\<not> gEof (ih s)" and "at_line s (concat ls @ l @ rest) (length (first_line (concat ls @ l @ rest)))"
    and "\<forall>l \<in> set (l # ls). good_line l" and "feed L i ls = (css, i1)" and "\<forall>cs \<in> set css. \<not> has_eof L cs"
    and "fst (lib_calls (ihex_read_bytes L l i1)) = cs @ (r, t, True) # cs'"
    and "calls_ok L ram_area (concat css @ cs)"
  shows "\<exists>s'. ready s' \<and> val (dev s') = val (dev s) \<and> ram (dev s') = calls_ram L (concat css @ cs) (ram (dev s)) \<and>
           upload_loop B L True i s = obind (ihex_data_read B L r t True s') (\<lambda>_ _. None)"
proof -
  have ok: "calls_ok L ram_area (concat css)" "calls_ok L ram_area cs" and gl: "good_line l"
    "\<forall>l \<in> set ls. good_line l" using assms(3,7) by (simp_all add: calls_append)
  have h: "at_line s (concat ls @ l @ rest) (if True then length (first_line (concat ls @ l @ rest)) else 0)"
    using assms(2) by simp
  obtain s1 where s1: "upload_loop B L True i s = upload_loop B L (True \<and> ls = []) i1 s1" "\<not> gEof (ih s1)"
    "at_line s1 (l @ rest) (if True \<and> ls = [] then length (first_line (l @ rest)) else 0)"
    "tx (dev s1) = tx (dev s) @ upload_text L True (ih s) css" "val (dev s1) = val (dev s)"
    "ram (dev s1) = calls_ram L (concat css) (ram (dev s))" "ih s1 = calls_vars L (concat css) (ih s)"
    using upload_prefix [OF assms(1) h gl(2) assms(4) ok(1) assms(5)] by (elim exE conjE) (rule that)
  have "at_line s1 (l @ rest) (if True \<and> ls = [] then length l else 0)"
    using s1(3) by (simp only: first_line_good [OF gl(1)])
  from upload_turn [OF s1(2) this gl(1), of L i1] obtain s2 where s2: "upload_loop B L (True \<and> ls = []) i1 s1 =
           Option.bind (run_ihex (ihex_data_read B L) (ihex_read_bytes L l i1) s2)
             (\<lambda>out. case out of Returned i' s4 \<Rightarrow> upload_loop B L False i' s4 | Hung s4 \<Rightarrow> Some (Hung s4))"
    "at_line s2 rest 0" "sent_only s1 ((if True \<and> ls = [] then [] else [XON]) @ [XOFF]) s2"
    by (elim exE conjE) (rule that)
  have "ready s2" using s2(2) by (simp add: at_line_def)
  from run_ihex_stops [OF this assms(6) ok(2)] obtain s3 where s3:
    "wrote s2 (calls_text L cs (ih s2)) (calls_ram L cs) s3"
    "run_ihex (ihex_data_read B L) (ihex_read_bytes L l i1) s2 = obind (ihex_data_read B L r t True s3) (\<lambda>_ _. None)"
    by (elim exE conjE) (rule that)
  have "upload_loop B L True i s = obind (ihex_data_read B L r t True s3) (\<lambda>_ _. None)"
    unfolding s1(1) s2(1) s3(2)
    by (cases "ihex_data_read B L r t True s3") (auto simp: obind_def split: outcome.split)
  then show ?thesis
    using s1(5,6) s2(3) s3(1) wrote_ready [OF s3(1)]
    by (intro exI [of _ s3]) (simp add: wrote_def sent_only_def calls_append)
qed

lemma long_line:
  assumes "\<not> gEof (ih s)" and "at_line s (l @ rest) 0" and "length l = 256" and "0x0A \<notin> set (butlast l)"
    and "256 \<le> length (first_line (l @ rest))"
  shows "\<exists>s'. upload_loop B L False i s = Some (Hung s') \<and> val (dev s') = val (dev s) \<and> ram (dev s') = ram (dev s) \<and>
           tx (dev s') = tx (dev s) @ [XON, XOFF, XON] @ cstr ''1 err'' @ CRLF"
proof -
  have s: "fw_ok dinv s" "exposed avail s \<le> 255" "exposed avail s = 0" "pending inp s = l @ rest" "length (linebuf s) = 256"
    using assms(2) by (auto simp: at_line_def ready_def io_ok_def)
  from putchar_xon [OF s(1,2)] obtain s1 where s1: "uart_putchar B XON s = Some s1" "fw_ok dinv s1" "same_rest s s1"
    "tx (dev s1) = tx (dev s) @ [XON]" "val (dev s1) = val (dev s)" "ram (dev s1) = ram (dev s)"
    "pending inp s1 = l @ rest" "exposed avail s1 = length (first_line (l @ rest))" using s(3,4) by auto
  have "linebuf s1 = linebuf s" using s1(3) loader_frame [of s1 s] by (simp add: same_rest_def)
  with getline_long [OF s1(2,7) assms(4,3), of "linebuf s1"] s(5) s1(8) assms(5) obtain b s2 where s2:
    "uart_getline B (linebuf s1) 256 s1 = Some ((False, b), s2)" "fw_ok dinv s2" "tx (dev s2) = tx (dev s1)"
    "val (dev s2) = val (dev s1)" "ram (dev s2) = ram (dev s1)" by auto
  have "fw_ok dinv (s2\<lparr>linebuf := b\<rparr>)" using s2(2) by (simp add: fw_ok_def)
  from putchar_returns [OF this, of XOFF] obtain s3 where s3: "uart_putchar B XOFF (s2\<lparr>linebuf := b\<rparr>) = Some s3"
    "keeps (s2\<lparr>linebuf := b\<rparr>) [] [XOFF] s3" by blast
  then have "fw_ok dinv s3" by (simp add: keeps_def)
  from putchar_returns [OF this, of XON] obtain s4 where s4: "uart_putchar B XON s3 = Some s4" "keeps s3 [] [XON] s4" by blast
  then have "fw_ok dinv s4" by (simp add: keeps_def)
  from printme_keeps [OF this, of "cstr ''1 err''"] obtain s5 where s5: "printme B (cstr ''1 err'') s4 = Some s5"
    "keeps s4 [] (c_string (cstr ''1 err'') @ CRLF) s5" by blast
  have "plain ''1 err''" by (simp add: plain_def)
  then have c: "c_string (cstr ''1 err'') = cstr ''1 err''" using plain_cstr by blast
  have "upload_loop B L False i s = Some (Hung s5)"
    by (subst upload_loop.simps)
      (simp only: assms(1) if_False if_True s1(1) s2(1) s3(1) s4(1) s5(1) bind.bind_lunit prod.case simp_thms)
  then show ?thesis
    using s1(4-6) s2(3-5) s3(2) s4(2) s5(2) unfolding c by (intro exI [of _ s5]) (simp add: keeps_def)
qed

text \<open>A line with a word in hex, as the loaders report before they jump.\<close>

lemma hex_line_wrote:
  assumes "ready s" and "c \<noteq> CHR ''%''" and "plain [c]"
  shows "\<exists>n s'. kprintf B ((c # '': 0x%08x'') @ newline) [a] s = Some (n, s') \<and> wrote s (hex_line c a) id s' \<and> ih s' = ih s"
proof -
  have f: "plain ((c # '': 0x%08x'') @ newline)" using assms(3) by (auto simp: plain_def newline_def)
  have "take 255 (vformat ((c # '': 0x%08x'') @ newline) [a]) = hex_line c a"
    using assms(2) hex08 [of a]
    by (simp add: hex_line_def newline_def skip_zero_flag_def is_digit_def width_value_def Let_def)
  with kprintf_wrote [OF assms(1) f, of "[a]"] show ?thesis by metis
qed

end

lemma at_line_start:
  assumes "soc_host B dinv inp avail tx room tx_wait rx_wait val ram regs ram_area tx_left"
    and "fw_ok dinv s" and "length (fmtbuf s) = 256" and "length (linebuf s) = 256" and "exposed avail s \<le> 255"
  shows "soc_host.at_line dinv inp avail s (pending inp s) (exposed avail s)"
proof -
  have u: "uart_dev B dinv inp avail tx room tx_wait rx_wait (\<lambda>d. (val d, ram d))"
    using assms(1) by (simp add: soc_host_def soc_bus_def)
  show ?thesis using assms(2-5)
    by (simp add: soc_host.at_line_def [OF assms(1)] soc_host.ready_def [OF assms(1)] uart_dev.io_ok_def [OF u])
qed

subsection \<open>A demonstration\<close>

text \<open>The machine at reset with \<open>l\<close> on the line and the lines \<open>ls\<close> held back by the host.\<close>

definition upload_soc :: "u8 list \<Rightarrow> u8 list list \<Rightarrow> soc" where
  "upload_soc l ls = \<lparr>s_uart = (wbu_reset l)\<lparr>line_held := ls\<rparr>, s_regs = Map.empty, s_ram = (\<lambda>_. 0)\<rparr>"

abbreviation upload_start :: "u8 list \<Rightarrow> u8 list list \<Rightarrow> soc loader" where
  "upload_start l ls \<equiv> loader_reset (upload_soc l ls)"

lemma upload_soc_fields: "s_ram (upload_soc l ls) = (\<lambda>_. 0)" "mock_val (s_regs (upload_soc l ls)) a = 0"
  by (simp_all add: upload_soc_def mock_val_def)

lemma upload_start_facts:
  assumes "\<forall>l \<in> set ls. host_line l"
  shows "fw_ok (\<lambda>m. wbu_inv (s_uart m)) (upload_start l ls)"
    and "length (fmtbuf (upload_start l ls)) = 256" "length (linebuf (upload_start l ls)) = 256"
    and "pending (\<lambda>m. wbu_inp (s_uart m)) (upload_start l ls) = l @ concat ls"
    and "exposed (\<lambda>m. wbu_avail (s_uart m)) (upload_start l ls) = length l"
    and "s_ram (dev (upload_start l ls)) = (\<lambda>_. 0)"
  using assms
  by (simp_all add: fw_ok_def pending_def exposed_def upload_soc_def wbu_reset_def wbu_defs)

lemma demo_good: "good_line demo_line1" "good_line demo_eof"
  by (simp_all add: good_line_def host_line_def demo_line1_def demo_eof_def)

lemma demo_feed:
  "feed (line_lib 0x40000) i [demo_line1, demo_eof] = ([[(demo_record, 0, False)], [(eof_record, 1, False)]], ())"
  "feed (line_lib 0x40000) i [demo_line1] = ([[(demo_record, 0, False)]], ())"
  "lib_calls (ihex_end_read (line_lib 0x40000) i) = ([], i)"
  by (simp_all add: line_lib_calls) (simp add: line_lib_def)

lemma demo_calls:
  "calls_ok (line_lib 0x40000) {a. is_ram a} [(demo_record, 0, False), (eof_record, 1, False)]"
  "calls_ok (line_lib 0x40000) {a. is_ram a} [(demo_record, 0, False)]"
  "\<not> has_eof (line_lib 0x40000) [(demo_record, 0, False)]" "has_eof (line_lib 0x40000) [(eof_record, 1, False)]"
  using demo_area by (simp_all add: calls_ok_def record_area_def has_eof_def)

lemma demo_ram:
  "calls_ram (line_lib 0x40000) [(demo_record, 0, False), (eof_record, 1, False)] f = f(0x40010 := 7, 0x40011 := 8)"
  "calls_ram (line_lib 0x40000) [(demo_record, 0, False)] f = f(0x40010 := 7, 0x40011 := 8)"
  by (simp_all add: apply_record_def demo_payload)

text \<open>The hypotheses of the two upload theorems, for the upload of these two lines.\<close>

lemma demo_start:
  "fw_ok (\<lambda>m. wbu_inv (s_uart m)) (upload_start demo_line1 [demo_eof])"
  "length (fmtbuf (upload_start demo_line1 [demo_eof])) = 256" "length (linebuf (upload_start demo_line1 [demo_eof])) = 256"
  "[demo_line1, demo_eof] \<noteq> []"
  "pending (\<lambda>m. wbu_inp (s_uart m)) (upload_start demo_line1 [demo_eof]) = concat [demo_line1, demo_eof] @ []"
  "exposed (\<lambda>m. wbu_avail (s_uart m)) (upload_start demo_line1 [demo_eof]) = length (hd [demo_line1, demo_eof])"
  "\<forall>l \<in> set [demo_line1, demo_eof]. good_line l" "length (first_line []) < 256"
  using upload_start_facts [of "[demo_eof]" demo_line1] demo_good by (simp_all add: good_line_def)

lemma demo_end:
  "calls_ok (line_lib 0x40000) {a. is_ram a} (concat [[(demo_record, 0, False)], [(eof_record, 1, False)]] @ [])"
  "\<forall>cs \<in> set (butlast [[(demo_record, 0, False)], [(eof_record, 1, False)]]). \<not> has_eof (line_lib 0x40000) cs"
  "has_eof (line_lib 0x40000) (last [[(demo_record, 0, False)], [(eof_record, 1, False)]])"
  using demo_calls by simp_all

end
