(* ===== verification/NoelvUpload.thy ===== *)
theory NoelvUpload
  imports Upload
begin

text \<open>
  The program \<open>bin/noelv_serv_upload\<close>: it receives the program of the NOEL-V core, waits until its last
  message is on the wire and hands the UART and the machine over. The theorems follow an upload of
  any size from the first prompt to the handoff, or to the error that prevents it.
\<close>

definition kPerctl :: u32 where
  "kPerctl = 0x40000040"

definition kMuxToNoelv :: u32 where
  "kMuxToNoelv = 0x1"

definition kNoelvRun :: u32 where
  "kNoelvRun = 0x2"

definition kRecDump :: u32 where
  "kRecDump = 0x4"

definition kServUart :: u32 where
  "kServUart = 0x40000010"

definition kTxFifoEmpty :: u32 where
  "kTxFifoEmpty = 0x400"

text \<open>Waiting until the transmit FIFO is empty: each turn is a raw read of the UART register.\<close>

partial_function (option) tx_drain ::
    "('d, 'b) bus_scheme \<Rightarrow> ('d, 'z) fw_scheme \<Rightarrow> ('d, 'z) fw_scheme option" where
  "tx_drain B s =
     (case on_dev (rd32 B kServUart) s of
        (v, s1) \<Rightarrow> if v AND kTxFifoEmpty = 0 then tx_drain B s1 else Some s1)"

declare tx_drain.simps [code]

text \<open>
  The end of \<open>main\<close>. The two counting loops in it only count a local variable and touch no device, so
  they do not appear.
\<close>

definition noelv_handoff :: "('d, 'b) bus_scheme \<Rightarrow> ('d, 'z) fw_scheme \<Rightarrow> ('d, 'z) fw_scheme" where
  "noelv_handoff B s =
     (let d1 = wr32 B kPerctl (kMuxToNoelv OR kNoelvRun) (dev s);
          d2 = wr32 B kPerctl (kMuxToNoelv OR kNoelvRun OR kRecDump) d1
      in s\<lparr>dev := d2\<rparr>)"

definition noelv_main ::
    "('d, 'b) mem_bus_scheme \<Rightarrow> 'i ihex_lib \<Rightarrow> ('d, 'z) loader_scheme \<Rightarrow>
     (unit, ('d, 'z) loader_scheme) outcome option" where
  "noelv_main B L s =
     do { s1 \<leftarrow> printme B (cstr ''32-bit boot'' @ CRLF) (s\<lparr>ih := (ih s)\<lparr>ihex_line := 1\<rparr>\<rparr>);
          s2 \<leftarrow> printme B (cstr ''ihex:'') s1;
          let s3 = s2\<lparr>ih := (ih s2)\<lparr>gEof := False\<rparr>\<rparr>;
          obind (upload_loop B L True (ihex_begin_read L) s3) (\<lambda>i s4.
            obind (run_ihex (ihex_data_read B L) (ihex_end_read L i) s4) (\<lambda>_ s5.
              do { s6 \<leftarrow> uart_putchar B XON s5;
                   s7 \<leftarrow> printme B (cstr ''noelv'') s6;
                   s8 \<leftarrow> tx_drain B s7;
                   Some (Hung (noelv_handoff B s8)) })) }"

text \<open>What the program prints first.\<close>

definition boot_text :: "u8 list" where
  "boot_text = cstr ''32-bit boot'' @ CRLF @ CRLF @ cstr ''ihex:'' @ CRLF"

context soc_host
begin

text \<open>
  Waiting for the transmit FIFO: every turn is a read of the UART, which may throw away an input byte
  but lets the transmitter proceed.
\<close>

lemma tx_drain_returns:
  assumes "fw_ok dinv s"
  shows "\<exists>s'. tx_drain B s = Some s' \<and> fw_ok dinv s' \<and> same_rest s s' \<and> tx_left (dev s') = 0 \<and>
              tx (dev s') = tx (dev s) \<and> val (dev s') = val (dev s) \<and> ram (dev s') = ram (dev s)"
  using assms
proof (induction "tx_left (dev s)" arbitrary: s rule: less_induct)
  case less
  obtain v d where r: "rd32 B UART_ADDRESS (dev s) = (v, d)" by fastforce
  have d: "dinv (dev s)" using less.prems by (simp add: fw_ok_def)
  have "kServUart = UART_ADDRESS" by (simp add: kServUart_def UART_ADDRESS_def)
  with r have od: "on_dev (rd32 B kServUart) s = (v, s\<lparr>dev := d\<rparr>)" by (simp add: on_dev_def)
  have bit: "v AND kTxFifoEmpty = 0 \<longleftrightarrow> \<not> bit v 10"
    using word_and_bit_eq_0_iff [of 10 v] by (simp add: kTxFifoEmpty_def push_bit_eq_mult)
  note laws = read_inv [OF d r] read_tx [OF d r] read_oth [OF d r] read_tx_left [OF d r]
  have ok: "fw_ok dinv (s\<lparr>dev := d\<rparr>)" using less.prems laws(1) by (simp add: fw_ok_def)
  show ?case
  proof (cases "tx_left (dev s) = 0")
    case True
    with laws have "tx_drain B s = Some (s\<lparr>dev := d\<rparr>)"
      by (subst tx_drain.simps) (simp add: od bit)
    with laws ok True show ?thesis by (intro exI [of _ "s\<lparr>dev := d\<rparr>"]) simp
  next
    case False
    with laws have "tx_left (dev (s\<lparr>dev := d\<rparr>)) < tx_left (dev s)" by simp
    from less.hyps [OF this ok] obtain s' where s': "tx_drain B (s\<lparr>dev := d\<rparr>) = Some s'" "fw_ok dinv s'"
      "same_rest (s\<lparr>dev := d\<rparr>) s'" "tx_left (dev s') = 0" "tx (dev s') = tx d" "val (dev s') = val d"
      "ram (dev s') = ram d" by auto
    moreover have "tx_drain B s = Some s'"
      using False laws s'(1) by (subst tx_drain.simps) (simp add: od bit)
    ultimately show ?thesis using laws by (auto simp: same_rest_def)
  qed
qed

lemma noelv_prologue:
  assumes "at_line s p k"
  shows "\<exists>s1 s2. printme B (cstr ''32-bit boot'' @ CRLF) (s\<lparr>ih := (ih s)\<lparr>ihex_line := 1\<rparr>\<rparr>) = Some s1 \<and>
           printme B (cstr ''ihex:'') s1 = Some s2 \<and> at_line s2 p k \<and> ih s2 = (ih s)\<lparr>ihex_line := 1\<rparr> \<and>
           tx (dev s2) = tx (dev s) @ boot_text \<and> val (dev s2) = val (dev s) \<and> ram (dev s2) = ram (dev s)"
proof -
  let ?f = "''32-bit boot'' @ [CHR 0x0D, CHR 0x0A]"
  have f: "cstr ?f = cstr ''32-bit boot'' @ CRLF" "plain ?f" "plain ''ihex:''" by (simp_all add: CRLF_def plain_def)
  have "at_line (s\<lparr>ih := (ih s)\<lparr>ihex_line := 1\<rparr>\<rparr>) p k" using assms by simp
  from prompt [OF this f(2)] obtain s1 where s1:
    "printme B (cstr ''32-bit boot'' @ CRLF) (s\<lparr>ih := (ih s)\<lparr>ihex_line := 1\<rparr>\<rparr>) = Some s1" "at_line s1 p k"
    "sent_only (s\<lparr>ih := (ih s)\<lparr>ihex_line := 1\<rparr>\<rparr>) ((cstr ''32-bit boot'' @ CRLF) @ CRLF) s1"
    unfolding f(1) by blast
  from prompt [OF s1(2) f(3)] obtain s2 where s2: "printme B (cstr ''ihex:'') s1 = Some s2" "at_line s2 p k"
    "sent_only s1 (cstr ''ihex:'' @ CRLF) s2" by blast
  from sent_only_trans [OF s1(3) s2(3)] s1(1) s2 show ?thesis
    by (intro exI [of _ s1] exI [of _ s2]) (simp add: sent_only_def boot_text_def)
qed

lemma noelv_main_good:
  assumes "ls \<noteq> []" and "at_line s (concat ls @ rest) (length (hd ls))"
    and "\<forall>l \<in> set ls. good_line l" and "length (first_line rest) < 256"
    and "feed L (ihex_begin_read L) ls = (css, i)" and "lib_calls (ihex_end_read L i) = (ce, i')"
    and "calls_ok L ram_area (concat css @ ce)"
    and "\<forall>cs \<in> set (butlast css). \<not> has_eof L cs" and "has_eof L (last css)"
  shows "\<exists>s'. noelv_main B L s = Some (Hung (noelv_handoff B s')) \<and> fw_ok dinv s' \<and> tx_left (dev s') = 0 \<and>
           tx (dev s') = tx (dev s) @ boot_text @ upload_text L True (boot_vars (ih s)) css @
              calls_text L ce (calls_vars L (concat css) (boot_vars (ih s))) @ [XON] @ cstr ''noelv'' @ CRLF \<and>
           ram (dev s') = calls_ram L (concat css @ ce) (ram (dev s)) \<and> val (dev s') = val (dev s)"
proof -
  obtain s1 s2 where s2: "printme B (cstr ''32-bit boot'' @ CRLF) (s\<lparr>ih := (ih s)\<lparr>ihex_line := 1\<rparr>\<rparr>) = Some s1"
    "printme B (cstr ''ihex:'') s1 = Some s2" "at_line s2 (concat ls @ rest) (length (hd ls))"
    "ih s2 = (ih s)\<lparr>ihex_line := 1\<rparr>" "tx (dev s2) = tx (dev s) @ boot_text" "val (dev s2) = val (dev s)"
    "ram (dev s2) = ram (dev s)" using noelv_prologue [OF assms(2)] by blast
  let ?s3 = "s2\<lparr>ih := (ih s2)\<lparr>gEof := False\<rparr>\<rparr>"
  have v: "ih ?s3 = boot_vars (ih s)" by (cases "ih s") (simp add: s2(4))
  have "\<not> gEof (ih ?s3)" and "at_line ?s3 (concat ls @ rest) (length (hd ls))" using s2(3) by simp_all
  from upload_complete [OF assms(1) this assms(3-9)] obtain s4 s5 s6 where s6:
    "upload_loop B L True (ihex_begin_read L) ?s3 = Some (Returned i s4)"
    "run_ihex (ihex_data_read B L) (ihex_end_read L i) s4 = Some (Returned i' s5)"
    "uart_putchar B XON s5 = Some s6" "at_line s6 rest (length (first_line rest))"
    "tx (dev s6) = tx (dev ?s3) @ upload_text L True (ih ?s3) css @
                         calls_text L ce (calls_vars L (concat css) (ih ?s3)) @ [XON]"
    "val (dev s6) = val (dev ?s3)" "ram (dev s6) = calls_ram L (concat css @ ce) (ram (dev ?s3))" by (elim exE conjE) (rule that)
  have "plain ''noelv''" by (simp add: plain_def)
  from prompt [OF s6(4) this] obtain s7 where s7: "printme B (cstr ''noelv'') s6 = Some s7"
    "at_line s7 rest (length (first_line rest))" "sent_only s6 (cstr ''noelv'' @ CRLF) s7" by blast
  have "fw_ok dinv s7" using s7(2) by (simp add: at_line_def ready_def io_ok_def)
  from tx_drain_returns [OF this] obtain s8 where s8: "tx_drain B s7 = Some s8" "fw_ok dinv s8" "tx_left (dev s8) = 0"
    "tx (dev s8) = tx (dev s7)" "val (dev s8) = val (dev s7)" "ram (dev s8) = ram (dev s7)" by blast
  have "noelv_main B L s = Some (Hung (noelv_handoff B s8))"
    unfolding noelv_main_def s2(1,2) bind.bind_lunit Let_def s6(1,2,3) obind_simps s7(1) s8(1) ..
  moreover have "tx (dev s8) = tx (dev s) @ boot_text @ upload_text L True (boot_vars (ih s)) css @
              calls_text L ce (calls_vars L (concat css) (boot_vars (ih s))) @ [XON] @ cstr ''noelv'' @ CRLF"
    using s7(3) s8(4) s6(5) s2(5) unfolding v sent_only_def by simp
  moreover have "ram (dev s8) = calls_ram L (concat css @ ce) (ram (dev s))" "val (dev s8) = val (dev s)"
    using s7(3) s8(5,6) s6(6,7) s2(6,7) by (simp_all add: sent_only_def)
  ultimately show ?thesis using s8(2,3) by blast
qed

text \<open>The program is its prompts and then the upload loop; when that stops, the program has stopped.\<close>

lemma noelv_main_uploads:
  assumes "at_line s p k"
  shows "\<exists>s2 f. at_line s2 p k \<and> \<not> gEof (ih s2) \<and> val (dev s2) = val (dev s) \<and> ram (dev s2) = ram (dev s) \<and>
           noelv_main B L s = obind (upload_loop B L True (ihex_begin_read L) s2) f"
proof -
  obtain s1 s2 where s2: "printme B (cstr ''32-bit boot'' @ CRLF) (s\<lparr>ih := (ih s)\<lparr>ihex_line := 1\<rparr>\<rparr>) = Some s1"
    "printme B (cstr ''ihex:'') s1 = Some s2" "at_line s2 p k" "ih s2 = (ih s)\<lparr>ihex_line := 1\<rparr>"
    "tx (dev s2) = tx (dev s) @ boot_text" "val (dev s2) = val (dev s)"
    "ram (dev s2) = ram (dev s)" using noelv_prologue [OF assms(1)] by blast
  let ?s3 = "s2\<lparr>ih := (ih s2)\<lparr>gEof := False\<rparr>\<rparr>"
  have "\<exists>f. noelv_main B L s = obind (upload_loop B L True (ihex_begin_read L) ?s3) f"
    unfolding noelv_main_def s2(1,2) bind.bind_lunit Let_def by blast
  with s2 show ?thesis by (elim exE) (intro exI conjI, simp_all)
qed

lemma noelv_main_stops:
  assumes "at_line s p k"
    and "\<And>s2. at_line s2 p k \<Longrightarrow> \<not> gEof (ih s2) \<Longrightarrow> val (dev s2) = val (dev s) \<Longrightarrow> ram (dev s2) = ram (dev s) \<Longrightarrow>
           \<exists>s'. upload_loop B L True (ihex_begin_read L) s2 = Some (Hung s') \<and> P s'"
  shows "\<exists>s'. noelv_main B L s = Some (Hung s') \<and> P s'"
proof -
  obtain s2 f where s2: "at_line s2 p k" "\<not> gEof (ih s2)" "val (dev s2) = val (dev s)" "ram (dev s2) = ram (dev s)"
    "noelv_main B L s = obind (upload_loop B L True (ihex_begin_read L) s2) f" using noelv_main_uploads [OF assms(1)] by blast
  from assms(2) [OF s2(1-4)] s2(5) show ?thesis by auto
qed

end

subsection \<open>Properties\<close>

text \<open>
  C1: The whole upload, of any number of lines, over any machine with RAM, any parser library and a
  host that sends one line per XON. If every line fits the line buffer, all checksums are good, all
  data lies in the RAM and the last line of \<open>ls\<close> is the first to deliver an end-of-file record, then
  the program reaches its handoff; no byte of the upload is lost: the RAM holds exactly the data
  records stored in order. It has sent its prompts, one XOFF per line and one XON before each line
  but the first, and the progress output. The percontrol register is first written after the transmit
  FIFO has drained with everything sent, with 3 (UART and run) and then 7 (dump).
\<close>

theorem noelv_upload_complete:
  assumes "soc_host B dinv inp avail tx room tx_wait rx_wait val ram regs ram_area tx_left"
    and "fw_ok dinv s" and "length (fmtbuf s) = 256" and "length (linebuf s) = 256"
    and "ls \<noteq> []" and "pending inp s = concat ls @ rest" and "exposed avail s = length (hd ls)"
    and "\<forall>l \<in> set ls. good_line l" and "length (first_line rest) < 256"
    and "feed L (ihex_begin_read L) ls = (css, i)" and "lib_calls (ihex_end_read L i) = (ce, i')"
    and "calls_ok L ram_area (concat css @ ce)"
    and "\<forall>cs \<in> set (butlast css). \<not> has_eof L cs" and "has_eof L (last css)"
  shows "\<exists>s' d. noelv_main B L s = Some (Hung s') \<and> dev s' = wr32 B 0x40000040 7 (wr32 B 0x40000040 3 d) \<and>
           dinv d \<and> tx_left d = 0 \<and> val d = val (dev s) \<and>
           ram d = calls_ram L (concat css @ ce) (ram (dev s)) \<and>
           tx d = tx (dev s) @ boot_text @ upload_text L True (boot_vars (ih s)) css @
              calls_text L ce (calls_vars L (concat css) (boot_vars (ih s))) @ [XON] @ cstr ''noelv'' @ CRLF"
proof -
  have "good_line (hd ls)" using assms(5,8) by (cases ls) auto
  then have "exposed avail s \<le> 255" using assms(7) by (simp add: good_line_def)
  from at_line_start [OF assms(1-4) this] assms(6,7)
  have "soc_host.at_line dinv inp avail s (concat ls @ rest) (length (hd ls))" by simp
  from soc_host.noelv_main_good [OF assms(1,5) this assms(8-14)] obtain s' where s':
    "noelv_main B L s = Some (Hung (noelv_handoff B s'))" "fw_ok dinv s'" "tx_left (dev s') = 0"
    "tx (dev s') = tx (dev s) @ boot_text @ upload_text L True (boot_vars (ih s)) css @
              calls_text L ce (calls_vars L (concat css) (boot_vars (ih s))) @ [XON] @ cstr ''noelv'' @ CRLF"
    "ram (dev s') = calls_ram L (concat css @ ce) (ram (dev s))" "val (dev s') = val (dev s)" by (elim exE conjE) (rule that)
  have "dev (noelv_handoff B s') = wr32 B 0x40000040 7 (wr32 B 0x40000040 3 (dev s'))"
    by (simp add: noelv_handoff_def kPerctl_def kMuxToNoelv_def kNoelvRun_def kRecDump_def Let_def)
  with s' show ?thesis
    by (intro exI [of _ "noelv_handoff B s'"] exI [of _ "dev s'"]) (simp add: fw_ok_def)
qed


text \<open>
  A line without room for its newline and a NUL stops the program: after any number of good lines,
  256 bytes with no newline before the last are refused. The program asks for more with XON, prints
  \<open>1 err\<close> and stops for ever; no register is written and the RAM holds the good records only.
\<close>

lemma noelv_long_line_stops:
  assumes "soc_host B dinv inp avail tx room tx_wait rx_wait val ram regs ram_area tx_left"
    and "fw_ok dinv s" and "length (fmtbuf s) = 256" and "length (linebuf s) = 256"
    and "ls \<noteq> []" and "pending inp s = concat ls @ l @ rest" and "exposed avail s = length (hd ls)"
    and "\<forall>l \<in> set ls. good_line l"
    and "feed L (ihex_begin_read L) ls = (css, i)" and "\<forall>cs \<in> set css. \<not> has_eof L cs"
    and "calls_ok L ram_area (concat css)"
    and "length l = 256" and "0x0A \<notin> set (butlast l)" and "256 \<le> length (first_line (l @ rest))"
  shows "\<exists>s'. noelv_main B L s = Some (Hung s') \<and> val (dev s') = val (dev s) \<and>
           ram (dev s') = calls_ram L (concat css) (ram (dev s)) \<and>
           (\<exists>out. tx (dev s') = out @ [XON, XOFF, XON] @ cstr ''1 err'' @ CRLF)"
proof -
  note soc = assms(1)
  have hd: "hd ls = first_line (concat ls @ l @ rest)" "length (hd ls) \<le> 255"
    using assms(5,8) by (cases ls; simp add: good_line_def first_line_host)+
  then have e: "exposed avail s \<le> 255" using assms(7) by simp
  note start = at_line_start [OF assms(1-4) e, unfolded assms(7), unfolded assms(6)]
  show ?thesis
  proof (rule soc_host.noelv_main_stops [OF soc start])
    fix s2 assume s2: "soc_host.at_line dinv inp avail s2 (concat ls @ l @ rest) (length (hd ls))" "\<not> gEof (ih s2)"
      "val (dev s2) = val (dev s)" "ram (dev s2) = ram (dev s)"
    have h: "soc_host.at_line dinv inp avail s2 (concat ls @ l @ rest)
        (if True then length (first_line (concat ls @ l @ rest)) else 0)" using s2(1) hd(1) by simp
    from soc_host.upload_prefix [OF soc s2(2) h assms(8,9,11,10)] assms(5) obtain s3 where s3:
      "upload_loop B L True (ihex_begin_read L) s2 = upload_loop B L False i s3" "\<not> gEof (ih s3)"
      "soc_host.at_line dinv inp avail s3 (l @ rest) 0" "val (dev s3) = val (dev s2)"
      "ram (dev s3) = calls_ram L (concat css) (ram (dev s2))" by auto
    from soc_host.long_line [OF soc s3(2,3) assms(12-14), of L i] s3(1,4,5) s2(3,4)
    show "\<exists>s'. upload_loop B L True (ihex_begin_read L) s2 = Some (Hung s') \<and>
      (val (dev s') = val (dev s) \<and> ram (dev s') = calls_ram L (concat css) (ram (dev s)) \<and>
       (\<exists>out. tx (dev s') = out @ [XON, XOFF, XON] @ cstr ''1 err'' @ CRLF))" by auto
  qed
qed

subsection \<open>Witnesses\<close>

theorem noelv_upload_complete_witness:
  "\<exists>s'. noelv_main soc_mem_bus (line_lib 0x40000) (upload_start demo_line1 [demo_eof]) = Some (Hung s') \<and>
        mock_val (s_regs (dev s')) 0x40000040 = 7 \<and> s_ram (dev s') 0x40010 = 7 \<and> s_ram (dev s') 0x40011 = 8"
proof -
  from noelv_upload_complete [OF soc_machine demo_start demo_feed(1,3) demo_end] obtain s' d where
    "noelv_main soc_mem_bus (line_lib 0x40000) (upload_start demo_line1 [demo_eof]) = Some (Hung s')"
    "dev s' = wr32 soc_mem_bus 0x40000040 7 (wr32 soc_mem_bus 0x40000040 3 d)"
    "s_ram d = (\<lambda>_. 0)(0x40010 := 7, 0x40011 := 8)" using demo_ram by (auto simp: upload_soc_def)
  then show ?thesis
    by (auto simp: soc_bus_on_def soc_write_def is_ram_def UART_ADDRESS_def mock_defs)
qed

definition bad_line :: "u8 list" where
  "bad_line = cstr '':020010000708de'' @ [0x0A]"


lemma host_line_replicate: "x \<noteq> 0x0A \<Longrightarrow> host_line (replicate n x @ [0x0A])"
  by (simp add: host_line_def)

lemma noelv_long_line_stops_witness:
  "\<exists>s'. noelv_main soc_mem_bus (line_lib 0x40000) (upload_start demo_line1 [replicate 300 65 @ [0x0A]]) = Some (Hung s') \<and>
        mock_val (s_regs (dev s')) 0x40000040 = 0 \<and> s_ram (dev s') 0x40011 = 8"
proof -
  let ?l = "replicate 256 (65 :: u8)" and ?rest = "replicate 44 65 @ [0x0A :: u8]"
  have split: "replicate 300 65 @ [0x0A] = ?l @ ?rest"
    using replicate_add [of 256 44 "65 :: u8"] by simp
  have hl: "host_line (?l @ ?rest)" unfolding split [symmetric] by (rule host_line_replicate) simp
  then have h: "\<forall>l \<in> set [?l @ ?rest]. host_line l" by simp
  note f = upload_start_facts [OF h, of demo_line1]
  have p: "pending (\<lambda>m. wbu_inp (s_uart m)) (upload_start demo_line1 [?l @ ?rest]) = concat [demo_line1] @ ?l @ ?rest"
    and e: "exposed (\<lambda>m. wbu_avail (s_uart m)) (upload_start demo_line1 [?l @ ?rest]) = length (hd [demo_line1])"
    using f(4,5) by (simp_all only: concat.simps append_Nil2 list.sel)
  have g: "\<forall>l \<in> set [demo_line1]. good_line l" using demo_good by simp
  have fd: "feed (line_lib 0x40000) (ihex_begin_read (line_lib 0x40000)) [demo_line1] = ([[(demo_record, 0, False)]], ())"
    by (rule demo_feed)
  have n: "\<forall>cs \<in> set [[(demo_record, 0, False)]]. \<not> has_eof (line_lib 0x40000) cs" using demo_calls(3) by simp
  have o: "calls_ok (line_lib 0x40000) {a. is_ram a} (concat [[(demo_record, 0, False)]])"
    using demo_calls(2) by simp
  have len: "length ?l = 256" by (rule length_replicate)
  have b: "0x0A \<notin> set (butlast ?l)" by (auto dest!: in_set_butlastD)
  have "first_line (?l @ ?rest) = ?l @ ?rest" using first_line_host [OF hl, of "[]"] by (simp only: append_Nil2)
  then have "256 \<le> length (first_line (?l @ ?rest))" by (simp only: length_append length_replicate)
  from noelv_long_line_stops [OF soc_machine f(1,2,3) _ p e g fd n o len b this]
  show ?thesis unfolding split by (auto simp: upload_soc_fields apply_record_def demo_payload)
qed

end
