(* ===== verification/Percontrol.thy ===== *)
theory Percontrol
  imports NoelvUpload IrqHw
begin

text \<open>
  The control register \<open>ip/wb/percontrol.vhdl\<close> and what hangs on it on the NOEL-V board
  (\<open>boards/noelv/board.arch_rtl.vhdl\<close>): the owner of the UART, the reset of the second core with its
  synchronizer into the other clock domain, and the trigger of the bus recorder. A run of the board is a
  list of events, the clock edges of the two domains and the changes of the two reset inputs, in any
  interleaving. The theorems: when exactly the second core is out of reset, and what the two register
  writes at the end of \<open>noelv_serv_upload\<close> do on the board.
\<close>

subsection \<open>The register\<close>

definition percontrol_cycle :: "u32 \<Rightarrow> u32 \<Rightarrow> bool \<Rightarrow> wb_host \<Rightarrow> mmreg \<times> u32 \<Rightarrow> mmreg \<times> u32" where
  "percontrol_cycle base_address initial_value reset wbi s =
     (case s of (m, perctl) \<Rightarrow>
        (mmreg_next 1 base_address reset wbi m,
         if reset then initial_value else if mm_write m \<and> mm_index m = 0 then mm_data m else perctl))"

text \<open>An access from the idle decoder: the host holds it for two cycles, the second is acknowledged.\<close>

definition percontrol_bus :: "u32 \<Rightarrow> u32 bus" where
  "percontrol_bus base =
     \<lparr>rd32 = (\<lambda>a p. let s1 = percontrol_cycle base 0 False (wb_read a) (mmreg_zero, p)
                   in (if mm_ack (fst s1) then snd s1 else 0, snd (percontrol_cycle base 0 False (wb_read a) s1))),
      wr32 = (\<lambda>a v p. snd (percontrol_cycle base 0 False (wb_write a v)
                            (percontrol_cycle base 0 False (wb_write a v) (mmreg_zero, p))))\<rparr>"

subsection \<open>The board\<close>

definition perctl0_en :: "wb_host \<Rightarrow> bool" where
  "perctl0_en h \<longleftrightarrow> wb_cyc h \<and> drop_bit 30 (wb_adr h) = 1 \<and> take_bit 8 (wb_adr h) = 0x40"

definition perctl0_wb_host :: "wb_host \<Rightarrow> wb_host" where
  "perctl0_wb_host h = h\<lparr>wb_cyc := perctl0_en h\<rparr>"

record noelv_ctl =
  nc_mm :: mmreg
  nc_perctl :: u32
  nc_reset :: bool
  nc_key2 :: bool
  nc_sync0 :: bool
  nc_sync1 :: bool

definition noelv_reset_n_async :: "noelv_ctl \<Rightarrow> bool" where
  "noelv_reset_n_async s \<longleftrightarrow> \<not> nc_reset s \<and> bit (nc_perctl s) 1 \<and> \<not> nc_key2 s"

definition noelv_reset_n :: "noelv_ctl \<Rightarrow> bool" where
  "noelv_reset_n s \<longleftrightarrow> nc_sync1 s"

definition uart1_txd :: "bool \<Rightarrow> bool \<Rightarrow> noelv_ctl \<Rightarrow> bool" where
  "uart1_txd txd_serv txd_noelv s = (if \<not> bit (nc_perctl s) 0 then txd_serv else txd_noelv)"

text \<open>
  The events: an edge of \<open>clk100\<close> with what the host has on the bus, an edge of \<open>clk50\<close>, and a new level of
  the global reset or of the debounced key. The flip-flops of the synchronizer are cleared whenever the
  condition does not hold.
\<close>

datatype noelv_event = Clk100 wb_host | Clk50 | Set_reset bool | Set_key2 bool

definition clear_sync :: "noelv_ctl \<Rightarrow> noelv_ctl" where
  "clear_sync s = (if noelv_reset_n_async s then s else s\<lparr>nc_sync0 := False, nc_sync1 := False\<rparr>)"

fun noelv_step :: "noelv_event \<Rightarrow> noelv_ctl \<Rightarrow> noelv_ctl" where
  "noelv_step (Clk100 h) s =
     (case percontrol_cycle 0x40000040 0 (nc_reset s) (perctl0_wb_host h) (nc_mm s, nc_perctl s) of (m, p) \<Rightarrow>
        clear_sync (s\<lparr>nc_mm := m, nc_perctl := p\<rparr>))"
| "noelv_step Clk50 s = clear_sync (s\<lparr>nc_sync0 := True, nc_sync1 := nc_sync0 s\<rparr>)"
| "noelv_step (Set_reset b) s = clear_sync (s\<lparr>nc_reset := b\<rparr>)"
| "noelv_step (Set_key2 b) s = clear_sync (s\<lparr>nc_key2 := b\<rparr>)"

definition noelv_run :: "noelv_event list \<Rightarrow> noelv_ctl \<Rightarrow> noelv_ctl" where
  "noelv_run es s = fold noelv_step es s"

definition edges50 :: "noelv_event list \<Rightarrow> nat" where
  "edges50 es = length (filter (\<lambda>e. e = Clk50) es)"

lemma noelv_run_simps [simp]:
  "noelv_run [] s = s" "noelv_run (e # es) s = noelv_run es (noelv_step e s)"
  "noelv_run (es @ es') s = noelv_run es' (noelv_run es s)"
  by (simp_all add: noelv_run_def)

lemma edges50_simps [simp]:
  "edges50 [] = 0" "edges50 (e # es) = (if e = Clk50 then Suc (edges50 es) else edges50 es)"
  "edges50 (es @ es') = edges50 es + edges50 es'"
  by (simp_all add: edges50_def)

lemma clear_sync_fields [simp]:
  "nc_mm (clear_sync s) = nc_mm s" "nc_perctl (clear_sync s) = nc_perctl s" "nc_reset (clear_sync s) = nc_reset s"
  "nc_key2 (clear_sync s) = nc_key2 s" "noelv_reset_n_async (clear_sync s) = noelv_reset_n_async s"
  "nc_sync0 (clear_sync s) \<longleftrightarrow> nc_sync0 s \<and> noelv_reset_n_async s"
  "nc_sync1 (clear_sync s) \<longleftrightarrow> nc_sync1 s \<and> noelv_reset_n_async s"
  by (simp_all add: clear_sync_def noelv_reset_n_async_def)

text \<open>How the synchronizer moves.\<close>

lemma noelv_step_sync:
  "nc_sync0 (noelv_step e s) \<longleftrightarrow> noelv_reset_n_async (noelv_step e s) \<and> (e = Clk50 \<or> nc_sync0 s)"
  "nc_sync1 (noelv_step e s) \<longleftrightarrow> noelv_reset_n_async (noelv_step e s) \<and> (if e = Clk50 then nc_sync0 s else nc_sync1 s)"
  by (cases e; auto simp: noelv_reset_n_async_def split: prod.splits)+

text \<open>
  The release condition has held without a break for the events after the first \<open>k\<close>, among them \<open>n\<close> edges of
  \<open>clk50\<close>.
\<close>

definition released_for :: "nat \<Rightarrow> noelv_event list \<Rightarrow> noelv_ctl \<Rightarrow> bool" where
  "released_for n es s \<longleftrightarrow>
     (\<exists>k \<le> length es. (\<forall>j. k < j \<and> j \<le> length es \<longrightarrow> noelv_reset_n_async (noelv_run (take j es) s)) \<and> n \<le> edges50 (drop k es))"

lemma released_for_0: "released_for 0 es s"
  by (auto simp: released_for_def)

lemma released_for_snoc:
  "released_for (Suc n) (es @ [e]) s \<longleftrightarrow>
     noelv_reset_n_async (noelv_run (es @ [e]) s) \<and> released_for (if e = Clk50 then n else Suc n) es s"
proof
  assume "released_for (Suc n) (es @ [e]) s"
  then obtain k where k: "k \<le> Suc (length es)" "Suc n \<le> edges50 (drop k (es @ [e]))"
    "\<forall>j. k < j \<and> j \<le> Suc (length es) \<longrightarrow> noelv_reset_n_async (noelv_run (take j (es @ [e])) s)"
    by (auto simp: released_for_def)
  have le: "k \<le> length es" using k(1,2) by (cases "k = Suc (length es)") simp_all
  then have "noelv_reset_n_async (noelv_run (es @ [e]) s)" using k(3) [rule_format, of "Suc (length es)"] by simp
  moreover have "noelv_reset_n_async (noelv_run (take j es) s)" if "k < j" "j \<le> length es" for j
    using k(3) [rule_format, of j] that by simp
  ultimately show "noelv_reset_n_async (noelv_run (es @ [e]) s) \<and> released_for (if e = Clk50 then n else Suc n) es s"
    using k(2) le by (auto simp: released_for_def intro!: exI [of _ k])
next
  assume r: "noelv_reset_n_async (noelv_run (es @ [e]) s) \<and> released_for (if e = Clk50 then n else Suc n) es s"
  then obtain k where k: "k \<le> length es" "(if e = Clk50 then n else Suc n) \<le> edges50 (drop k es)"
    "\<forall>j. k < j \<and> j \<le> length es \<longrightarrow> noelv_reset_n_async (noelv_run (take j es) s)"
    by (auto simp: released_for_def)
  have "noelv_reset_n_async (noelv_run (take j (es @ [e])) s)" if "k < j" "j \<le> Suc (length es)" for j
    using that r k(3) by (cases "j = Suc (length es)") auto
  then show "released_for (Suc n) (es @ [e]) s"
    unfolding released_for_def using k(1,2) by (intro exI [of _ k]) (auto split: if_splits)
qed

lemma noelv_sync_exact:
  assumes "\<not> nc_sync0 s" and "\<not> nc_sync1 s"
  shows "(nc_sync0 (noelv_run es s) \<longleftrightarrow> released_for 1 es s) \<and> (nc_sync1 (noelv_run es s) \<longleftrightarrow> released_for 2 es s)"
proof (induction es rule: rev_induct)
  case Nil
  then show ?case using assms by (simp add: released_for_def)
next
  case (snoc e es)
  then show ?case
    using released_for_snoc [of 0 es e s] released_for_snoc [of 1 es e s]
    by (auto simp: noelv_step_sync released_for_0 numeral_2_eq_2)
qed

subsection \<open>Accesses of the register\<close>

lemma percontrol_access:
  assumes "mmreg_decode 1 base (wb_adr h) = Some 0" and "wb_cyc h"
  shows "percontrol_cycle base i False h (mmreg_zero, p) =
           (\<lparr>mm_wait = True, mm_data = wb_dat h, mm_index = 0, mm_write = wb_we h, mm_ack = True\<rparr>, p)"
    and "percontrol_cycle base i False h' (percontrol_cycle base i False h (mmreg_zero, p)) =
           (mmreg_zero, if wb_we h then wb_dat h else p)"
  using mmreg_access [OF assms] by (simp_all add: percontrol_cycle_def)

lemma percontrol_decode: "mmreg_decode 1 0x40000040 0x40000040 = Some 0"
  by (rule mmreg_decode_regs) (simp add: mask_eq_exp_minus_1)

lemma percontrol_bus_accesses:
  "rd32 (percontrol_bus 0x40000040) 0x40000040 p = (p, p)"
  "wr32 (percontrol_bus 0x40000040) 0x40000040 v p = v"
proof -
  have r: "mmreg_decode 1 0x40000040 (wb_adr (wb_read 0x40000040)) = Some 0" "wb_cyc (wb_read 0x40000040)" "\<not> wb_we (wb_read 0x40000040)"
    and w: "mmreg_decode 1 0x40000040 (wb_adr (wb_write 0x40000040 v)) = Some 0" "wb_cyc (wb_write 0x40000040 v)"
      "wb_we (wb_write 0x40000040 v)" "wb_dat (wb_write 0x40000040 v) = v"
    unfolding wb_read_def wb_write_def using percontrol_decode by simp_all
  show "rd32 (percontrol_bus 0x40000040) 0x40000040 p = (p, p)"
    by (simp add: percontrol_bus_def Let_def percontrol_access(2) [OF r(1,2)] r(3)) (simp add: percontrol_access(1) [OF r(1,2)])
  show "wr32 (percontrol_bus 0x40000040) 0x40000040 v p = v"
    by (simp add: percontrol_bus_def percontrol_access(2) [OF w(1,2)] w(3,4))
qed

text \<open>Seen through its accesses the register holds what was written.\<close>

interpretation percontrol: reg_file "percontrol_bus 0x40000040" "\<lambda>p _. p" "{0x40000040}"
  by unfold_locales (auto simp: percontrol_bus_accesses)

lemma noelv_handoff_percontrol: "noelv_handoff (percontrol_bus 0x40000040) s = s\<lparr>dev := 7\<rparr>"
  by (simp add: noelv_handoff_def kPerctl_def kMuxToNoelv_def kNoelvRun_def kRecDump_def percontrol_bus_accesses)

lemma perctl0_wb_host_write: "perctl0_wb_host (wb_write 0x40000040 v) = wb_write 0x40000040 v"
proof -
  have "drop_bit 30 (0x40000040 :: u32) = 1" "take_bit 8 (0x40000040 :: u32) = 0x40"
    by (simp_all add: drop_bit_eq_div take_bit_eq_mod)
  then show ?thesis by (simp add: perctl0_wb_host_def perctl0_en_def wb_write_def)
qed

text \<open>Edges of \<open>clk50\<close> alone move nothing but the synchronizer.\<close>

lemma edges_keep:
  assumes "\<forall>e \<in> set es. e = Clk50"
  shows "nc_mm (noelv_run es s) = nc_mm s \<and> nc_perctl (noelv_run es s) = nc_perctl s \<and>
         nc_reset (noelv_run es s) = nc_reset s \<and> nc_key2 (noelv_run es s) = nc_key2 s"
  using assms by (induction es arbitrary: s) simp_all

lemma edges_held:
  assumes "\<not> nc_sync0 s \<and> \<not> nc_sync1 s" and "\<not> bit (nc_perctl s) 1" and "\<forall>e \<in> set es. e = Clk50"
  shows "\<not> nc_sync0 (noelv_run es s) \<and> \<not> nc_sync1 (noelv_run es s)"
proof (cases es rule: rev_cases)
  case (snoc es' e)
  have "\<not> bit (nc_perctl (noelv_run es s)) 1" using edges_keep [OF assms(3)] assms(2) by simp
  then show ?thesis unfolding snoc by (simp add: noelv_step_sync noelv_reset_n_async_def del: noelv_step.simps)
qed (simp add: assms(1))

lemma noelv_step_Clk100_fields:
  "nc_reset (noelv_step (Clk100 h) s) = nc_reset s" "nc_key2 (noelv_step (Clk100 h) s) = nc_key2 s"
  "(nc_mm (noelv_step (Clk100 h) s), nc_perctl (noelv_step (Clk100 h) s)) =
     percontrol_cycle 0x40000040 0 (nc_reset s) (perctl0_wb_host h) (nc_mm s, nc_perctl s)"
  by (simp_all split: prod.split)

text \<open>After the handoff: the low bits stay set as long as every write sets them.\<close>

definition handed_over :: "noelv_ctl \<Rightarrow> bool" where
  "handed_over s \<longleftrightarrow> \<not> nc_reset s \<and> \<not> nc_key2 s \<and> bit (nc_perctl s) 0 \<and> bit (nc_perctl s) 1 \<and>
     (mm_write (nc_mm s) \<longrightarrow> mm_wait (nc_mm s) \<and> bit (mm_data (nc_mm s)) 0 \<and> bit (mm_data (nc_mm s)) 1)"

lemma handed_over_step:
  assumes "handed_over s" and "e = Clk50 \<or> (\<exists>h. e = Clk100 h \<and> (perctl0_en h \<and> wb_we h \<longrightarrow> bit (wb_dat h) 0 \<and> bit (wb_dat h) 1))"
  shows "handed_over (noelv_step e s)"
proof (cases "e = Clk50")
  case True
  with assms(1) show ?thesis by (simp add: handed_over_def)
next
  case False
  then obtain h where h: "e = Clk100 h" "perctl0_en h \<and> wb_we h \<longrightarrow> bit (wb_dat h) 0 \<and> bit (wb_dat h) 1"
    using assms(2) by blast
  have "mm_write (nc_mm (noelv_step e s)) \<longrightarrow> mm_wait (nc_mm (noelv_step e s)) \<and>
      bit (mm_data (nc_mm (noelv_step e s))) 0 \<and> bit (mm_data (nc_mm (noelv_step e s))) 1"
    using assms(1) h noelv_step_Clk100_fields(3) [of h s]
    by (auto simp: handed_over_def percontrol_cycle_def mmreg_next_def perctl0_wb_host_def split: if_splits option.splits)
  moreover have "bit (nc_perctl (noelv_step e s)) 0 \<and> bit (nc_perctl (noelv_step e s)) 1"
    using assms(1) h(1) noelv_step_Clk100_fields(3) [of h s] by (auto simp: handed_over_def percontrol_cycle_def split: if_splits)
  ultimately show ?thesis
    using assms(1) unfolding handed_over_def h(1) noelv_step_Clk100_fields(1,2) by blast
qed

lemma handed_over_run:
  assumes "handed_over s" and "\<not> nc_sync0 s" and "\<not> nc_sync1 s"
    and "\<forall>e \<in> set es. e = Clk50 \<or> (\<exists>h. e = Clk100 h \<and> (perctl0_en h \<and> wb_we h \<longrightarrow> bit (wb_dat h) 0 \<and> bit (wb_dat h) 1))"
  shows "handed_over (noelv_run es s) \<and> (nc_sync0 (noelv_run es s) \<longleftrightarrow> 1 \<le> edges50 es) \<and>
         (nc_sync1 (noelv_run es s) \<longleftrightarrow> 2 \<le> edges50 es)"
  using assms(4)
proof (induction es rule: rev_induct)
  case Nil
  then show ?case using assms(1-3) by simp
next
  case (snoc e es)
  then have IH: "handed_over (noelv_run es s)" "nc_sync0 (noelv_run es s) \<longleftrightarrow> 1 \<le> edges50 es"
    "nc_sync1 (noelv_run es s) \<longleftrightarrow> 2 \<le> edges50 es" by auto
  have h: "handed_over (noelv_step e (noelv_run es s))" by (rule handed_over_step [OF IH(1)]) (use snoc.prems in auto)
  then have "noelv_reset_n_async (noelv_step e (noelv_run es s))" by (simp add: handed_over_def noelv_reset_n_async_def)
  with h IH(2,3) show ?case by (auto simp: noelv_step_sync)
qed

text \<open>Before it: as long as nobody writes the run bit it stays clear.\<close>

definition run_bit_clear :: "noelv_ctl \<Rightarrow> bool" where
  "run_bit_clear s \<longleftrightarrow> \<not> bit (nc_perctl s) 1 \<and> (mm_write (nc_mm s) \<longrightarrow> mm_wait (nc_mm s) \<and> \<not> bit (mm_data (nc_mm s)) 1)"

lemma run_bit_clear_step:
  assumes "run_bit_clear s" and "\<forall>h. e = Clk100 h \<and> perctl0_en h \<and> wb_we h \<longrightarrow> \<not> bit (wb_dat h) 1"
  shows "run_bit_clear (noelv_step e s)"
proof (cases e)
  case (Clk100 h)
  then have h: "perctl0_en h \<and> wb_we h \<longrightarrow> \<not> bit (wb_dat h) 1" using assms(2) by blast
  have "mm_write (nc_mm (noelv_step e s)) \<longrightarrow> mm_wait (nc_mm (noelv_step e s)) \<and> \<not> bit (mm_data (nc_mm (noelv_step e s))) 1"
    using assms(1) h noelv_step_Clk100_fields(3) [of h s] unfolding Clk100
    by (auto simp: run_bit_clear_def percontrol_cycle_def mmreg_next_def perctl0_wb_host_def split: if_splits option.splits)
  moreover have "\<not> bit (nc_perctl (noelv_step e s)) 1"
    using assms(1) noelv_step_Clk100_fields(3) [of h s] unfolding Clk100
    by (auto simp: run_bit_clear_def percontrol_cycle_def split: if_splits)
  ultimately show ?thesis unfolding run_bit_clear_def by blast
qed (use assms(1) in \<open>simp_all add: run_bit_clear_def\<close>)

lemma run_bit_clear_run:
  assumes "run_bit_clear s" and "\<forall>h. Clk100 h \<in> set es \<and> perctl0_en h \<and> wb_we h \<longrightarrow> \<not> bit (wb_dat h) 1"
  shows "run_bit_clear (noelv_run es s)"
  using assms by (induction es arbitrary: s) (simp_all add: run_bit_clear_step)

subsection \<open>Properties\<close>

text \<open>
  C23: The second core is out of reset exactly when the release condition, no global reset, run bit set and key
  not pressed, has held without a break for two edges of its clock: it enters reset at once and leaves
  it on an edge of its own clock. So it never runs before the boot core has written the run bit, in any
  interleaving of the two clocks.
\<close>

theorem noelv_reset_exact:
  assumes "\<not> nc_sync0 s" and "\<not> nc_sync1 s"
  shows "(noelv_reset_n (noelv_run es s) \<longleftrightarrow> released_for 2 es s) \<and>
         (noelv_reset_n (noelv_run es s) \<and> nc_mm s = mmreg_zero \<and> \<not> bit (nc_perctl s) 1 \<longrightarrow>
            (\<exists>h. Clk100 h \<in> set es \<and> perctl0_en h \<and> wb_we h \<and> bit (wb_dat h) 1))"
proof (intro conjI impI)
  show r: "noelv_reset_n (noelv_run es s) \<longleftrightarrow> released_for 2 es s"
    using noelv_sync_exact [OF assms, of es] by (simp add: noelv_reset_n_def)
  assume a: "noelv_reset_n (noelv_run es s) \<and> nc_mm s = mmreg_zero \<and> \<not> bit (nc_perctl s) 1"
  show "\<exists>h. Clk100 h \<in> set es \<and> perctl0_en h \<and> wb_we h \<and> bit (wb_dat h) 1"
  proof (rule ccontr)
    assume n: "\<nexists>h. Clk100 h \<in> set es \<and> perctl0_en h \<and> wb_we h \<and> bit (wb_dat h) 1"
    have "run_bit_clear (noelv_run es s)"
      by (rule run_bit_clear_run) (use a n in \<open>auto simp: run_bit_clear_def\<close>)
    then have "\<not> noelv_reset_n_async (noelv_run es s)" by (simp add: run_bit_clear_def noelv_reset_n_async_def)
    moreover have "es \<noteq> []" using a assms by (auto simp: noelv_reset_n_def)
    ultimately show False
      using a noelv_step_sync(2) [of "last es" "noelv_run (butlast es) s"] append_butlast_last_id [of es]
      by (metis noelv_reset_n_def noelv_run_simps(1,2,3))
  qed
qed

text \<open>
  C24: What the end of \<open>noelv_serv_upload\<close> does on the board, from a held second core. Up to the second cycle
  of its first register write the UART is the boot core's; from then on it is the second core's, the
  second core is in reset until the second edge of its own clock and runs from that edge on, and nothing
  the boot core does later changes that, in particular the second register write with the recorder's
  bit, as long as it writes the register with both bits set.
\<close>

theorem noelv_handoff_on_board:
  assumes "nc_mm s = mmreg_zero" and "nc_perctl s = 0" and "\<not> nc_reset s" and "\<not> nc_key2 s"
    and "\<not> nc_sync0 s" and "\<not> nc_sync1 s" and "\<forall>e \<in> set (xs @ ys). e = Clk50"
    and "\<forall>e \<in> set es. e = Clk50 \<or> (\<exists>h. e = Clk100 h \<and> (perctl0_en h \<and> wb_we h \<longrightarrow> bit (wb_dat h) 0 \<and> bit (wb_dat h) 1))"
    and "w = Clk100 (wb_write kPerctl (kMuxToNoelv OR kNoelvRun))"
  shows "uart1_txd txd_serv txd_noelv (noelv_run (xs @ w # ys) s) = txd_serv \<and>
         \<not> noelv_reset_n (noelv_run (xs @ w # ys) s) \<and>
         nc_perctl (noelv_run (xs @ w # ys @ [w]) s) = kMuxToNoelv OR kNoelvRun \<and>
         uart1_txd txd_serv txd_noelv (noelv_run (xs @ w # ys @ w # es) s) = txd_noelv \<and>
         (noelv_reset_n (noelv_run (xs @ w # ys @ w # es) s) \<longleftrightarrow> 2 \<le> edges50 es)"
proof -
  let ?h = "wb_write 0x40000040 3"
  have w: "w = Clk100 ?h" by (simp add: assms(9) kPerctl_def kMuxToNoelv_def kNoelvRun_def)
  have h: "mmreg_decode 1 0x40000040 (wb_adr ?h) = Some 0" "wb_cyc ?h" "wb_we ?h" "wb_dat ?h = 3" "perctl0_wb_host ?h = ?h"
    using percontrol_decode perctl0_wb_host_write [of 3] by (simp_all add: wb_write_def)
  define s1 s2 s3 where "s1 = noelv_run xs s" and "s2 = noelv_step w s1" and "s3 = noelv_run ys s2"
  have s1: "nc_mm s1 = mmreg_zero" "nc_perctl s1 = 0" "\<not> nc_reset s1" "\<not> nc_key2 s1"
    using edges_keep [of xs s] assms(1-4,7) by (simp_all add: s1_def)
  have c2: "percontrol_cycle 0x40000040 0 False ?h (mmreg_zero, 0) = (nc_mm s2, nc_perctl s2)"
    using noelv_step_Clk100_fields(3) [of ?h s1] s1 h(5) by (simp add: s2_def w del: noelv_step.simps)
  then have s2: "nc_perctl s2 = 0" "\<not> nc_reset s2" "\<not> nc_key2 s2"
    using percontrol_access(1) [OF h(1,2), of 0 0] s1 noelv_step_Clk100_fields(1,2) [of ?h s1]
    by (simp_all add: s2_def w del: noelv_step.simps)
  have s3: "nc_mm s3 = nc_mm s2" "nc_perctl s3 = 0" "\<not> nc_reset s3" "\<not> nc_key2 s3"
    using edges_keep [of ys s2] assms(7) s2 by (simp_all add: s3_def)
  have c4: "(nc_mm (noelv_step w s3), nc_perctl (noelv_step w s3)) = (mmreg_zero, 3)"
    using noelv_step_Clk100_fields(3) [of ?h s3] s3 h(3-5) percontrol_access(2) [OF h(1,2), of 0 ?h 0] s2(1)
    by (simp add: c2 w del: noelv_step.simps)
  have b3: "bit (3 :: u32) 0" "bit (3 :: u32) 1" by (simp_all add: bit_iff_odd)
  have "\<not> nc_sync0 s2 \<and> \<not> nc_sync1 s2" using s2(1) by (simp add: s2_def noelv_step_sync noelv_reset_n_async_def del: noelv_step.simps)
  then have ss: "\<not> nc_sync0 s3" "\<not> nc_sync1 s3" using edges_held [of s2 ys] s2(1) assms(7) by (simp_all add: s3_def)
  define s4 where "s4 = noelv_step w s3"
  have s4: "handed_over s4" "\<not> nc_sync0 s4" "\<not> nc_sync1 s4"
    using c4 s3(3,4) ss b3 noelv_step_Clk100_fields(1,2) [of ?h s3]
    by (simp_all add: s4_def w handed_over_def noelv_step_sync del: noelv_step.simps)
  have r: "noelv_run (xs @ w # ys) s = s3" "noelv_run (xs @ w # ys @ [w]) s = s4" "noelv_run (xs @ w # ys @ w # es) s = noelv_run es s4"
    by (simp_all add: s1_def s2_def s3_def s4_def del: noelv_step.simps)
  show ?thesis unfolding r
    using handed_over_run [OF s4 assms(8)] s3(2) ss(2) c4
    by (simp add: s4_def uart1_txd_def noelv_reset_n_def handed_over_def kMuxToNoelv_def kNoelvRun_def)
qed

subsection \<open>Witnesses\<close>

text \<open>The board after power-up, and the events of a handoff with edges of \<open>clk50\<close> in between.\<close>

definition demo_noelv :: noelv_ctl where
  "demo_noelv = \<lparr>nc_mm = mmreg_zero, nc_perctl = 0, nc_reset = False, nc_key2 = False, nc_sync0 = False, nc_sync1 = False\<rparr>"

definition demo_handoff :: "noelv_event list" where
  "demo_handoff = [Clk50, Clk100 (wb_write kPerctl 7), Clk50, Clk100 (wb_write kPerctl 7), Clk50]"

theorem noelv_handoff_on_board_witness:
  "noelv_reset_n (noelv_run (([Clk50] @ Clk100 (wb_write kPerctl 3) # [Clk50] @ Clk100 (wb_write kPerctl 3) # demo_handoff)) demo_noelv) \<and>
   uart1_txd True False (noelv_run ([Clk50] @ Clk100 (wb_write kPerctl 3) # [Clk50] @ Clk100 (wb_write kPerctl 3) # demo_handoff) demo_noelv) = False"
proof -
  have b: "bit (7 :: u32) 0" "bit (7 :: u32) 1" by (simp_all add: bit_iff_odd)
  have es: "\<forall>e \<in> set demo_handoff. e = Clk50 \<or> (\<exists>h. e = Clk100 h \<and> (perctl0_en h \<and> wb_we h \<longrightarrow> bit (wb_dat h) 0 \<and> bit (wb_dat h) 1))"
    using b by (simp add: demo_handoff_def wb_write_def)
  have "(3 :: u32) = kMuxToNoelv OR kNoelvRun" by (simp add: kMuxToNoelv_def kNoelvRun_def)
  then have w: "Clk100 (wb_write kPerctl 3) = Clk100 (wb_write kPerctl (kMuxToNoelv OR kNoelvRun))" by simp
  have n: "edges50 demo_handoff = 3" by (simp add: demo_handoff_def)
  have e: "\<forall>e \<in> set ([Clk50] @ [Clk50]). e = Clk50" by simp
  from noelv_handoff_on_board [OF _ _ _ _ _ _ e es w, of demo_noelv True False]
  show ?thesis unfolding n by (simp add: demo_noelv_def del: noelv_step.simps)
qed

theorem noelv_reset_exact_witness:
  "\<not> noelv_reset_n (noelv_run [Clk100 (wb_write kPerctl 1), Clk50, Clk100 (wb_write kPerctl 1), Clk50, Clk50, Clk50] demo_noelv)"
proof -
  let ?es = "[Clk100 (wb_write kPerctl 1), Clk50, Clk100 (wb_write kPerctl 1), Clk50, Clk50, Clk50]"
  have d: "\<not> nc_sync0 demo_noelv" "\<not> nc_sync1 demo_noelv" "nc_mm demo_noelv = mmreg_zero" "\<not> bit (nc_perctl demo_noelv) 1"
    by (simp_all add: demo_noelv_def)
  have "\<not> bit (1 :: u32) 1" by (simp add: bit_iff_odd)
  then have "\<not> (\<exists>h. Clk100 h \<in> set ?es \<and> perctl0_en h \<and> wb_we h \<and> bit (wb_dat h) 1)" by (auto simp: wb_write_def)
  with noelv_reset_exact [OF d(1,2), of ?es] d(3,4) show ?thesis by blast
qed

end
