(* ===== verification/Fabric.thy ===== *)
theory Fabric
  imports IrqHw
begin

text \<open>
  The bus fabric between the processors and the peripherals: the arbiter \<open>ip/wb/wb_mux.vhdl\<close>, through
  which the hosts of a bus share it (the instruction and the data port of SERV, or SERV and the second
  core on the port of the RAM), and the return path \<open>ip/wb/rdt_mux.vhdl\<close>. The arbiter is a machine of two
  states whose run over the signals of all cycles is \<open>mux_run\<close>. The theorems: an access is never mixed up
  with another host's; every host is served in bounded time if the others pause after each access; and
  a host that does not pause keeps the bus for ever.
\<close>

subsection \<open>The signals\<close>

record wb_per =
  per_rdt :: u32
  per_ack :: bool

definition host_new_bus_type :: wb_host where
  "host_new_bus_type = \<lparr>wb_adr = 0, wb_dat = 0, wb_sel = 0, wb_we = False, wb_cyc = False\<rparr>"

definition per_new_bus_type :: wb_per where
  "per_new_bus_type = \<lparr>per_rdt = 0, per_ack = False\<rparr>"

lemma new_bus_type_simps [simp]:
  "\<not> wb_cyc host_new_bus_type" "\<not> per_ack per_new_bus_type" "per_rdt per_new_bus_type = 0"
  by (simp_all add: host_new_bus_type_def per_new_bus_type_def)

subsection \<open>The arbiter\<close>

datatype mux_state = Mux_IDLE | Mux_TX

record mux_reg =
  mx_state :: mux_state
  mx_sampled :: nat
  mx_active :: nat

definition mux_zero :: mux_reg where
  "mux_zero = \<lparr>mx_state = Mux_IDLE, mx_sampled = 0, mx_active = 0\<rparr>"

definition assign_host_port :: "(nat \<Rightarrow> wb_host) \<Rightarrow> mux_reg \<Rightarrow> wb_host" where
  "assign_host_port host_ports r =
     (if mx_state r = Mux_TX then host_ports (mx_active r) else host_new_bus_type)"

definition assign_per_ports :: "wb_per \<Rightarrow> mux_reg \<Rightarrow> nat \<Rightarrow> wb_per" where
  "assign_per_ports per_port r =
     (if mx_state r = Mux_TX then (\<lambda>_. per_new_bus_type)(mx_active r := per_port) else (\<lambda>_. per_new_bus_type))"

definition mux_next :: "nat \<Rightarrow> bool \<Rightarrow> (nat \<Rightarrow> wb_host) \<Rightarrow> wb_per \<Rightarrow> mux_reg \<Rightarrow> mux_reg" where
  "mux_next ports_count rst host_ports per_port q =
     (let v = (case mx_state q of
                 Mux_IDLE \<Rightarrow>
                   if wb_cyc (host_ports (mx_sampled q))
                   then q\<lparr>mx_active := mx_sampled q, mx_state := Mux_TX\<rparr>
                   else if mx_sampled q = ports_count - 1 then q\<lparr>mx_sampled := 0\<rparr>
                        else q\<lparr>mx_sampled := mx_sampled q + 1\<rparr>
               | Mux_TX \<Rightarrow> if per_ack per_port then q\<lparr>mx_state := Mux_IDLE\<rparr> else q)
      in if rst then mux_zero else v)"

text \<open>
  The return path: the loop runs from the highest to the lowest input and the last one that
  acknowledges wins.
\<close>

definition rdt_mux :: "bool \<Rightarrow> wb_per list \<Rightarrow> wb_per" where
  "rdt_mux rst input =
     (if rst then per_new_bus_type
      else foldr (\<lambda>p output_v. if per_ack p then p else output_v) input per_new_bus_type)"

subsection \<open>Runs\<close>

text \<open>\<open>hs t i\<close> is the request of host \<open>i\<close> in cycle \<open>t\<close>, \<open>ps t\<close> what the peripherals answer in that cycle.\<close>

fun mux_run :: "nat \<Rightarrow> (nat \<Rightarrow> nat \<Rightarrow> wb_host) \<Rightarrow> (nat \<Rightarrow> wb_per) \<Rightarrow> mux_reg \<Rightarrow> nat \<Rightarrow> mux_reg" where
  "mux_run n hs ps q 0 = q"
| "mux_run n hs ps q (Suc t) = mux_next n False (hs t) (ps t) (mux_run n hs ps q t)"

definition granted :: "nat \<Rightarrow> mux_reg \<Rightarrow> bool" where
  "granted i q \<longleftrightarrow> mx_state q = Mux_TX \<and> mx_active q = i"

definition mux_ok :: "nat \<Rightarrow> mux_reg \<Rightarrow> bool" where
  "mux_ok n q \<longleftrightarrow> mx_sampled q < n \<and> mx_active q < n \<and> (mx_state q = Mux_TX \<longrightarrow> mx_active q = mx_sampled q)"

lemma mux_zero_ok: "0 < n \<Longrightarrow> mux_ok n mux_zero"
  by (simp add: mux_ok_def mux_zero_def)

lemma mux_next_ok: "mux_ok n q \<Longrightarrow> mux_ok n (mux_next n rst h p q)"
  by (cases "mx_state q") (auto simp: mux_ok_def mux_next_def mux_zero_def Let_def)

lemma mux_run_ok: "mux_ok n q \<Longrightarrow> mux_ok n (mux_run n hs ps q t)"
  by (induction t) (auto intro: mux_next_ok)

lemma granted_stays:
  "granted i q \<Longrightarrow> \<not> per_ack p \<Longrightarrow> mux_next n False h p q = q"
  by (simp add: granted_def mux_next_def)

lemma granted_released:
  "granted i q \<Longrightarrow> per_ack p \<Longrightarrow> mux_next n False h p q = q\<lparr>mx_state := Mux_IDLE\<rparr>"
  by (simp add: granted_def mux_next_def)

lemma idle_grants:
  "mx_state q = Mux_IDLE \<Longrightarrow> wb_cyc (h (mx_sampled q)) \<Longrightarrow>
   mux_next n False h p q = q\<lparr>mx_active := mx_sampled q, mx_state := Mux_TX\<rparr>"
  by (simp add: mux_next_def)

text \<open>The port looked at after port \<open>j\<close>, and how many ports are looked at before port \<open>i\<close>.\<close>

definition next_port :: "nat \<Rightarrow> nat \<Rightarrow> nat" where
  "next_port n j = (if j = n - 1 then 0 else j + 1)"

definition port_dist :: "nat \<Rightarrow> nat \<Rightarrow> nat \<Rightarrow> nat" where
  "port_dist n i j = (if j \<le> i then i - j else i + n - j)"

lemma idle_moves:
  "mx_state q = Mux_IDLE \<Longrightarrow> \<not> wb_cyc (h (mx_sampled q)) \<Longrightarrow>
   mux_next n False h p q = q\<lparr>mx_sampled := next_port n (mx_sampled q)\<rparr>"
  by (simp add: mux_next_def next_port_def)

lemma port_dist_next: "i < n \<Longrightarrow> j < n \<Longrightarrow> j \<noteq> i \<Longrightarrow> port_dist n i j = Suc (port_dist n i (next_port n j))"
  by (auto simp: port_dist_def next_port_def)

lemma port_dist_zero: "i < n \<Longrightarrow> j < n \<Longrightarrow> port_dist n i j = 0 \<longleftrightarrow> j = i"
  by (auto simp: port_dist_def)

lemma port_dist_less: "i < n \<Longrightarrow> j < n \<Longrightarrow> port_dist n i j \<le> n - 1"
  by (auto simp: port_dist_def)

lemma next_port_less: "j < n \<Longrightarrow> next_port n j < n"
  by (auto simp: next_port_def)

subsection \<open>One access\<close>

text \<open>
  From the grant to the acknowledgement the request of the granted host, and no other, is on the common
  port, its answers go to that host alone, and the cycle after the acknowledgement is free.
\<close>

lemma tx_run:
  assumes "granted i (mux_run n hs ps q t)" and "\<forall>v < u. \<not> per_ack (ps (t + v))"
  shows "mux_run n hs ps q (t + u) = mux_run n hs ps q t"
  using assms(2)
proof (induction u)
  case (Suc u)
  then have "mux_run n hs ps q (t + u) = mux_run n hs ps q t" and "\<not> per_ack (ps (t + u))" by simp_all
  with granted_stays [OF assms(1), of "ps (t + u)" n "hs (t + u)"] show ?case by simp
qed simp

lemma tx_run_ack:
  assumes "granted i (mux_run n hs ps q t)" and "\<forall>v < u. \<not> per_ack (ps (t + v))" and "per_ack (ps (t + u))"
  shows "mux_run n hs ps q (Suc (t + u)) = (mux_run n hs ps q t)\<lparr>mx_state := Mux_IDLE\<rparr>"
  using granted_released [OF assms(1,3), of n "hs (t + u)"] tx_run [OF assms(1,2)] by simp

lemma wb_mux_atomic:
  assumes "granted i (mux_run n hs ps q t)" and "\<forall>v < u. \<not> per_ack (ps (t + v))" and "per_ack (ps (t + u))"
  shows "\<forall>v \<le> u. assign_host_port (hs (t + v)) (mux_run n hs ps q (t + v)) = hs (t + v) i \<and>
                assign_per_ports (ps (t + v)) (mux_run n hs ps q (t + v)) =
                  (\<lambda>_. per_new_bus_type)(i := ps (t + v))"
    and "assign_host_port h (mux_run n hs ps q (Suc (t + u))) = host_new_bus_type"
    and "assign_per_ports p (mux_run n hs ps q (Suc (t + u))) = (\<lambda>_. per_new_bus_type)"
proof -
  have "mux_run n hs ps q (t + v) = mux_run n hs ps q t" if "v \<le> u" for v
    using tx_run [OF assms(1), of v] assms(2) that by simp
  with assms(1) show "\<forall>v \<le> u. assign_host_port (hs (t + v)) (mux_run n hs ps q (t + v)) = hs (t + v) i \<and>
                assign_per_ports (ps (t + v)) (mux_run n hs ps q (t + v)) =
                  (\<lambda>_. per_new_bus_type)(i := ps (t + v))"
    by (simp add: assign_host_port_def assign_per_ports_def granted_def)
  show "assign_host_port h (mux_run n hs ps q (Suc (t + u))) = host_new_bus_type"
    and "assign_per_ports p (mux_run n hs ps q (Suc (t + u))) = (\<lambda>_. per_new_bus_type)"
    by (simp_all add: tx_run_ack [OF assms] assign_host_port_def assign_per_ports_def del: mux_run.simps)
qed

subsection \<open>Waiting for the bus\<close>

text \<open>Another host's access of at most \<open>d\<close> cycles, and the cycle in which the arbiter moves on.\<close>

lemma tx_passes:
  assumes "granted j (mux_run n hs ps q t)" and "\<exists>u < d. per_ack (ps (t + u))"
    and "\<And>u. granted j (mux_run n hs ps q u) \<Longrightarrow> per_ack (ps u) \<Longrightarrow> \<not> wb_cyc (hs (Suc u) j)"
    and "mux_ok n (mux_run n hs ps q t)"
  shows "\<exists>t'. t < t' \<and> t' \<le> t + d + 1 \<and>
              mux_run n hs ps q t' = (mux_run n hs ps q t)\<lparr>mx_state := Mux_IDLE, mx_sampled := next_port n j\<rparr>"
proof -
  define u where "u = (LEAST u. per_ack (ps (t + u)))"
  obtain w where w: "w < d" "per_ack (ps (t + w))" using assms(2) by blast
  have u: "per_ack (ps (t + u))" "u \<le> w" "\<forall>v < u. \<not> per_ack (ps (t + v))"
    using LeastI [of "\<lambda>u. per_ack (ps (t + u))" w] Least_le [of "\<lambda>u. per_ack (ps (t + u))" w] w(2)
      not_less_Least [of _ "\<lambda>u. per_ack (ps (t + u))"] by (auto simp: u_def)
  let ?q = "(mux_run n hs ps q t)\<lparr>mx_state := Mux_IDLE\<rparr>"
  have r: "mux_run n hs ps q (Suc (t + u)) = ?q" by (rule tx_run_ack [OF assms(1) u(3,1)])
  have "granted j (mux_run n hs ps q (t + u))" using tx_run [OF assms(1) u(3)] assms(1) by simp
  from assms(3) [OF this u(1)] have "\<not> wb_cyc (hs (Suc (t + u)) j)" .
  moreover have "mx_sampled ?q = j" using assms(1,4) by (simp add: granted_def mux_ok_def)
  ultimately have "mux_run n hs ps q (Suc (Suc (t + u))) = ?q\<lparr>mx_sampled := next_port n j\<rparr>"
    using idle_moves [of ?q "hs (Suc (t + u))" n "ps (Suc (t + u))"] r by simp
  with u(2) w(1) show ?thesis by (intro exI [of _ "Suc (Suc (t + u))"]) simp
qed

lemma idle_waits:
  assumes ok: "mux_ok n q" and "i < n" and req: "\<And>t. wb_cyc (hs t i)"
    and polite: "\<And>t j. j \<noteq> i \<Longrightarrow> granted j (mux_run n hs ps q t) \<Longrightarrow> per_ack (ps t) \<Longrightarrow> \<not> wb_cyc (hs (Suc t) j)"
    and quick: "\<And>t. mx_state (mux_run n hs ps q t) = Mux_TX \<Longrightarrow> \<exists>u < d. per_ack (ps (t + u))"
    and "mx_state (mux_run n hs ps q t) = Mux_IDLE"
  shows "\<exists>t'. t \<le> t' \<and> t' \<le> t + port_dist n i (mx_sampled (mux_run n hs ps q t)) * (d + 2) + 1 \<and>
              granted i (mux_run n hs ps q t')"
  using assms(6)
proof (induction "port_dist n i (mx_sampled (mux_run n hs ps q t))" arbitrary: t)
  case 0
  let ?r = "mux_run n hs ps q t"
  have "mx_sampled ?r = i"
    using 0 port_dist_zero [OF \<open>i < n\<close>] mux_run_ok [OF ok, of hs ps t] by (simp add: mux_ok_def)
  with req [of t] idle_grants [OF 0(2), of "hs t" n "ps t"] have "granted i (mux_run n hs ps q (Suc t))"
    by (simp add: granted_def)
  then show ?case by (intro exI [of _ "Suc t"]) simp
next
  case (Suc k)
  let ?r = "mux_run n hs ps q t" and ?D = "d + 2"
  let ?j = "mx_sampled ?r"
  have okr: "mux_ok n ?r" by (rule mux_run_ok [OF ok])
  then have j: "?j < n" by (simp add: mux_ok_def)
  with Suc(2) have ji: "?j \<noteq> i" using port_dist_zero [OF \<open>i < n\<close> j] by auto
  have k: "port_dist n i (next_port n ?j) = k" using port_dist_next [OF \<open>i < n\<close> j ji] Suc(2) by simp
  obtain t' where t': "t < t'" "t' \<le> t + ?D" "mx_state (mux_run n hs ps q t') = Mux_IDLE"
    "mx_sampled (mux_run n hs ps q t') = next_port n ?j"
  proof (cases "wb_cyc (hs t ?j)")
    case False
    from idle_moves [where h = "hs t" and p = "ps t" and n = n, OF Suc(3) this]
    have "mux_run n hs ps q (Suc t) = ?r\<lparr>mx_sampled := next_port n ?j\<rparr>" by simp
    with Suc(3) show thesis by (intro that [of "Suc t"]) simp_all
  next
    case True
    from idle_grants [where h = "hs t" and p = "ps t" and n = n, OF Suc(3) this]
    have g: "mux_run n hs ps q (Suc t) = ?r\<lparr>mx_active := ?j, mx_state := Mux_TX\<rparr>" by simp
    then have gr: "granted ?j (mux_run n hs ps q (Suc t))" by (simp add: granted_def del: mux_run.simps)
    then have "mx_state (mux_run n hs ps q (Suc t)) = Mux_TX" by (simp add: granted_def)
    from tx_passes [OF gr quick [OF this] polite [OF ji] mux_run_ok [OF ok]] obtain t' where
      "Suc t < t'" "t' \<le> Suc t + d + 1"
      "mux_run n hs ps q t' = (mux_run n hs ps q (Suc t))\<lparr>mx_state := Mux_IDLE, mx_sampled := next_port n ?j\<rparr>" by blast
    then show thesis by (intro that [of t']) simp_all
  qed
  from Suc(1) [of t'] t'(3,4) k obtain t'' where "t' \<le> t''" "t'' \<le> t' + k * ?D + 1" "granted i (mux_run n hs ps q t'')"
    by auto
  moreover have "k * ?D + ?D = port_dist n i ?j * ?D" using Suc(2) by (metis add.commute mult_Suc)
  ultimately show ?case using t'(1,2) by (intro exI [of _ t'']) linarith
qed

subsection \<open>Properties\<close>

text \<open>
  C26: With \<open>n\<close> hosts on the bus, peripherals that acknowledge within \<open>d\<close> cycles and other hosts that drop
  their request for at least one cycle after each acknowledgement, a host that holds its request is
  granted the bus within \<open>(n - 1) * (d + 2) + 1\<close> cycles, whatever state the arbiter is in.
\<close>

theorem wb_mux_bounded_wait:
  assumes "mux_ok n q" and "i < n" and "\<forall>t. wb_cyc (hs t i)"
    and "\<forall>t j. j \<noteq> i \<and> granted j (mux_run n hs ps q t) \<and> per_ack (ps t) \<longrightarrow> \<not> wb_cyc (hs (Suc t) j)"
    and "\<forall>t. mx_state (mux_run n hs ps q t) = Mux_TX \<longrightarrow> (\<exists>u < d. per_ack (ps (t + u)))"
  shows "\<exists>t \<le> (n - 1) * (d + 2) + 1. granted i (mux_run n hs ps q t) \<and>
           assign_host_port (hs t) (mux_run n hs ps q t) = hs t i"
proof -
  let ?D = "d + 2"
  have ok: "mux_ok n (mux_run n hs ps q t)" for t by (rule mux_run_ok [OF assms(1)])
  have idle: "\<exists>t' \<le> t + port_dist n i (mx_sampled (mux_run n hs ps q t)) * ?D + 1. granted i (mux_run n hs ps q t')"
    if "mx_state (mux_run n hs ps q t) = Mux_IDLE" for t
    using idle_waits [OF assms(1,2) _ _ _ that, of d] assms(3-5) by blast
  let ?j = "mx_active q"
  have j: "?j < n" using assms(1) by (simp add: mux_ok_def)
  have "\<exists>t \<le> (n - 1) * ?D + 1. granted i (mux_run n hs ps q t)"
  proof (cases "mx_state q")
    case Mux_IDLE
    have "port_dist n i (mx_sampled q) \<le> n - 1"
      using port_dist_less [OF assms(2)] assms(1) by (simp add: mux_ok_def)
    then have "port_dist n i (mx_sampled q) * ?D \<le> (n - 1) * ?D" by (rule mult_le_mono1)
    moreover obtain t where "t \<le> port_dist n i (mx_sampled q) * ?D + 1" "granted i (mux_run n hs ps q t)"
      using idle [of 0] Mux_IDLE by auto
    ultimately show ?thesis by (intro exI [of _ t]) auto
  next
    case Mux_TX
    show ?thesis
    proof (cases "?j = i")
      case True
      with Mux_TX have "granted i (mux_run n hs ps q 0)" by (simp add: granted_def)
      then show ?thesis by (intro exI [of _ 0]) simp
    next
      case False
      have gr: "granted ?j (mux_run n hs ps q 0)" using Mux_TX by (simp add: granted_def)
      have pol: "granted ?j (mux_run n hs ps q u) \<Longrightarrow> per_ack (ps u) \<Longrightarrow> \<not> wb_cyc (hs (Suc u) ?j)" for u
        using assms(4) False by blast
      have "\<exists>u < d. per_ack (ps (0 + u))" using assms(5) Mux_TX by (metis mux_run.simps(1))
      from tx_passes [OF gr this pol ok] obtain t where t: "t \<le> d + 1"
        "mux_run n hs ps q t = q\<lparr>mx_state := Mux_IDLE, mx_sampled := next_port n ?j\<rparr>" by auto
      have s: "mx_sampled (mux_run n hs ps q t) = next_port n ?j" "mx_state (mux_run n hs ps q t) = Mux_IDLE"
        by (simp_all add: t(2))
      from idle [OF s(2)] obtain t' where
        t': "t' \<le> t + port_dist n i (next_port n ?j) * ?D + 1" "granted i (mux_run n hs ps q t')"
        unfolding s(1) by blast
      have "Suc (port_dist n i (next_port n ?j)) \<le> n - 1"
        using port_dist_less [OF assms(2) j] port_dist_next [OF assms(2) j False] by simp
      then have "Suc (port_dist n i (next_port n ?j)) * ?D \<le> (n - 1) * ?D" by (rule mult_le_mono1)
      with t(1) t' show ?thesis by (intro exI [of _ t']) simp
    qed
  qed
  then show ?thesis by (auto simp: granted_def assign_host_port_def)
qed

text \<open>
  The arbiter does not take turns: after an access it looks at the same port first. A host that has the
  bus and holds its request through the cycle after each acknowledgement keeps the bus for ever,
  whatever the other hosts request and the peripherals answer: no other request ever reaches the common
  port and no other host ever sees an acknowledgement.
\<close>

lemma wb_mux_monopoly:
  assumes "mux_ok n q" and "mx_sampled q = j" and "\<forall>t. wb_cyc (hs t j)" and "i \<noteq> j"
  shows "\<not> granted i (mux_run n hs ps q t) \<and>
         assign_host_port (hs t) (mux_run n hs ps q t) \<in> {hs t j, host_new_bus_type} \<and>
         \<not> per_ack (assign_per_ports (ps t) (mux_run n hs ps q t) i)"
proof -
  have "mx_sampled (mux_run n hs ps q t) = j" for t
  proof (induction t)
    case (Suc t)
    then show ?case using assms(3)
      by (cases "mx_state (mux_run n hs ps q t)") (simp_all add: mux_next_def)
  qed (simp add: assms(2))
  moreover have "mux_ok n (mux_run n hs ps q t)" by (rule mux_run_ok [OF assms(1)])
  ultimately show ?thesis
    using assms(4) by (auto simp: mux_ok_def granted_def assign_host_port_def assign_per_ports_def)
qed

subsection \<open>Witnesses\<close>

text \<open>Two hosts: host 0 makes one access, host 1 requests all the time; every access is answered in its first cycle.\<close>

definition polite_hosts :: "nat \<Rightarrow> nat \<Rightarrow> wb_host" where
  "polite_hosts t i = (if i = 1 \<or> t = 0 \<or> t = 1 then wb_read 0x40000010 else wb_quiet)"

theorem wb_mux_bounded_wait_witness:
  "\<exists>t \<le> 4. granted 1 (mux_run 2 polite_hosts (\<lambda>t. \<lparr>per_rdt = 7, per_ack = True\<rparr>) mux_zero t)"
proof -
  let ?ps = "\<lambda>t. \<lparr>per_rdt = 7, per_ack = True\<rparr>"
  let ?run = "mux_run 2 polite_hosts ?ps mux_zero"
  have one: "\<forall>t. wb_cyc (polite_hosts t 1)" by (simp add: polite_hosts_def wb_read_def)
  have zero: "wb_cyc (polite_hosts t 0) \<longleftrightarrow> t \<le> 1" for t
    by (auto simp: polite_hosts_def wb_read_def wb_quiet_def)
  have "?run 1 = \<lparr>mx_state = Mux_TX, mx_sampled = 0, mx_active = 0\<rparr>"
    by (simp add: mux_next_def mux_zero_def zero)
  then have "?run (Suc 1) = \<lparr>mx_state = Mux_IDLE, mx_sampled = 0, mx_active = 0\<rparr>"
    by (simp add: mux_next_def)
  then have polite: "\<forall>t j. j \<noteq> 1 \<and> granted j (?run t) \<and> per_ack (?ps t) \<longrightarrow> \<not> wb_cyc (polite_hosts (Suc t) j)"
  proof (intro allI impI)
    fix t j :: nat
    assume a: "j \<noteq> 1 \<and> granted j (?run t) \<and> per_ack (?ps t)"
    have "t \<noteq> 0" using a by (cases t) (auto simp: granted_def mux_zero_def)
    then show "\<not> wb_cyc (polite_hosts (Suc t) j)"
      using a by (auto simp: polite_hosts_def wb_quiet_def)
  qed
  have "\<forall>t. mx_state (?run t) = Mux_TX \<longrightarrow> (\<exists>u < 1. per_ack (?ps (t + u)))" by auto
  from wb_mux_bounded_wait [OF mux_zero_ok _ one polite this]
  have "\<exists>t \<le> (2 - 1) * (1 + 2) + (1 :: nat). granted 1 (?run t)" by auto
  moreover have "(2 - 1) * (1 + 2) + 1 = (4 :: nat)" by simp
  ultimately show ?thesis by metis
qed

lemma wb_mux_monopoly_witness:
  "\<not> granted 1 (mux_run 2 (\<lambda>t i. wb_read 0x40000010) (\<lambda>t. \<lparr>per_rdt = 7, per_ack = True\<rparr>) mux_zero 1000)"
  using wb_mux_monopoly [OF mux_zero_ok [of 2], of 0 "\<lambda>t i. wb_read 0x40000010" 1 "\<lambda>t. \<lparr>per_rdt = 7, per_ack = True\<rparr>" 1000]
  by (simp add: mux_zero_def wb_read_def del: mux_run.simps)

end
