(* ===== verification/MuntjacBus.thy ===== *)
theory MuntjacBus
  imports Fabric Percontrol UartHw
begin

text \<open>
  The peripheral bus of the boot core on the muntjac board (\<open>boards/muntjac/board.arch_rtl.vhdl\<close>), clock cycle
  by clock cycle: the UART, timer, interrupt controller, control register, the debug bits and the port of
  the RAM behind its arbiter, with the decoding and the return path between them and the boot core. The RAM
  controller and the second core are inputs. The theorems: an access is answered by the peripheral
  its address names and by no other; and an access to the debug bits is never answered.
\<close>

subsection \<open>The bus\<close>

record 'f muntjac =
  mj_uart :: "'f uart_hw"
  mj_timer :: "mmreg \<times> timer_reg"
  mj_pic :: "mmreg \<times> pic_reg"
  mj_perctl :: "mmreg \<times> u32"
  mj_perin :: mmreg
  mj_mux :: mux_reg

text \<open>The inputs of one cycle: serial core, the second core's port of the RAM, the RAM, the debug bits.\<close>

record muntjac_in =
  mi_uart :: uart_core_out
  mi_ram_host :: wb_host
  mi_ram_per :: wb_per
  mi_perin :: "nat \<Rightarrow> bool"

definition cpu0_host_out :: "bool \<Rightarrow> wb_host \<Rightarrow> wb_host" where
  "cpu0_host_out reset cpu0_host_out_raw = (if reset then host_new_bus_type else cpu0_host_out_raw)"

definition update_uart1_en :: "bool \<Rightarrow> u32 \<Rightarrow> bool" where
  "update_uart1_en cyc adr \<longleftrightarrow> cyc \<and> drop_bit 30 adr = 1"

definition route_wb_host :: "bool \<Rightarrow> wb_host \<Rightarrow> wb_host" where
  "route_wb_host cyc host_in = host_in\<lparr>wb_cyc := cyc\<rparr>"

definition uart1_host :: "wb_host \<Rightarrow> wb_host" where
  "uart1_host h = route_wb_host (update_uart1_en (wb_cyc h) (wb_adr h)) h"

definition cpu0_host_out_ram :: "wb_host \<Rightarrow> wb_host" where
  "cpu0_host_out_ram h = (if drop_bit 30 (wb_adr h) = 2 then h else host_new_bus_type)"

definition ddr3_mux_hosts :: "wb_host \<Rightarrow> wb_host \<Rightarrow> nat \<Rightarrow> wb_host" where
  "ddr3_mux_hosts h muntjac_ram_host i = (if i = 0 then cpu0_host_out_ram h else muntjac_ram_host)"

definition MUNTJAC_OUT_BITS :: nat where
  "MUNTJAC_OUT_BITS = 143 + 1 + 135 + 1 + 1"

definition perinput_cycle :: "nat \<Rightarrow> u32 \<Rightarrow> bool \<Rightarrow> wb_host \<Rightarrow> mmreg \<Rightarrow> mmreg" where
  "perinput_cycle num_bits base_address reset wbi m =
     mmreg_next (calc_reg_bit_count (perinput_num_regs num_bits)) base_address reset wbi m"

text \<open>What the six peripherals drive, in the order of the multiplexer's inputs, and what the boot core sees.\<close>

definition assemble_wb_mux :: "'f fifo \<Rightarrow> wb_host \<Rightarrow> muntjac_in \<Rightarrow> 'f muntjac \<Rightarrow> wb_per list" where
  "assemble_wb_mux F h e s =
     [assign_per_ports (mi_ram_per e) (mj_mux s) 0,
      \<lparr>per_rdt = uart_hw_rdt F (mj_uart s), per_ack = uart_hw_ack 0x40000010 (uart1_host h)\<rparr>,
      \<lparr>per_rdt = timer_rdt (mm_index (fst (mj_timer s))) (snd (mj_timer s)), per_ack = mm_ack (fst (mj_timer s))\<rparr>,
      \<lparr>per_rdt = pic_rdt (mm_index (fst (mj_pic s))) (snd (mj_pic s)), per_ack = mm_ack (fst (mj_pic s))\<rparr>,
      \<lparr>per_rdt = snd (mj_perctl s), per_ack = mm_ack (fst (mj_perctl s))\<rparr>,
      \<lparr>per_rdt = perinput_mux MUNTJAC_OUT_BITS (mi_perin e) (mm_index (mj_perin s)), per_ack = mm_ack (mj_perin s)\<rparr>]"

definition cpu0_per_in :: "'f fifo \<Rightarrow> bool \<Rightarrow> wb_host \<Rightarrow> muntjac_in \<Rightarrow> 'f muntjac \<Rightarrow> wb_per" where
  "cpu0_per_in F reset h e s = rdt_mux reset (assemble_wb_mux F (cpu0_host_out reset h) e s)"

definition muntjac_cycle :: "'f fifo \<Rightarrow> nat \<Rightarrow> bool \<Rightarrow> wb_host \<Rightarrow> muntjac_in \<Rightarrow> 'f muntjac \<Rightarrow> 'f muntjac" where
  "muntjac_cycle F max_count reset cpu0_host_out_raw e s =
     (let h = cpu0_host_out reset cpu0_host_out_raw in
      \<lparr>mj_uart = uart_hw_next F 0x40000010 reset (uart1_host h) (mi_uart e) (mj_uart s),
       mj_timer = timer_cycle 0x40000020 max_count reset h (mj_timer s),
       mj_pic = pic_cycle 2 0x40000030 reset h
                  (of_bool (tr_irq (snd (mj_timer s))) OR push_bit 1 (of_bool (uart_hw_irq F (mj_uart s)))) (mj_pic s),
       mj_perctl = percontrol_cycle 0x40000040 1 reset h (mj_perctl s),
       mj_perin = perinput_cycle MUNTJAC_OUT_BITS 0x40000050 reset h (mj_perin s),
       mj_mux = mux_next 2 reset (ddr3_mux_hosts h (mi_ram_host e)) (mi_ram_per e) (mj_mux s)\<rparr>)"

text \<open>A run without reset.\<close>

primrec muntjac_run :: "'f fifo \<Rightarrow> nat \<Rightarrow> (nat \<Rightarrow> wb_host) \<Rightarrow> (nat \<Rightarrow> muntjac_in) \<Rightarrow> 'f muntjac \<Rightarrow> nat \<Rightarrow> 'f muntjac" where
  "muntjac_run F mx hs es s 0 = s"
| "muntjac_run F mx hs es s (Suc t) = muntjac_cycle F mx False (hs t) (es t) (muntjac_run F mx hs es s t)"

subsection \<open>The map of the addresses\<close>

text \<open>Which input of the multiplexer an access belongs to.\<close>

definition muntjac_target :: "wb_host \<Rightarrow> nat option" where
  "muntjac_target h =
     (if \<not> wb_cyc h then None
      else if drop_bit 30 (wb_adr h) = 2 then Some 0
      else if wb_adr h = 0x40000010 \<and> bit (wb_sel h) 0 then Some 1
      else if wb_adr h AND NOT (mask 3) = 0x40000020 then Some 2
      else if wb_adr h AND NOT (mask 3) = 0x40000030 then Some 3
      else if wb_adr h AND NOT (mask 3) = 0x40000040 then Some 4
      else None)"

lemma decode_1: "mmreg_decode 1 base adr \<noteq> None \<longleftrightarrow> adr AND NOT (mask 3) = base"
  by (simp add: mmreg_decode_def numeral_3_eq_3)

lemma drop_30_masked: "drop_bit 30 (adr AND NOT (mask 3)) = drop_bit 30 (adr :: u32)"
  by (rule bit_word_eqI) (auto simp: bit_simps dest: bit_imp_le_length)

lemma perin_decode: "mmreg_decode (calc_reg_bit_count (perinput_num_regs MUNTJAC_OUT_BITS)) 0x40000050 adr = None"
proof -
  have n: "calc_reg_bit_count (perinput_num_regs MUNTJAC_OUT_BITS) = 4"
    by (simp add: calc_reg_bit_count_def perinput_num_regs_def MUNTJAC_OUT_BITS_def)
  have "bit (0x40000050 :: u32) 4" by simp
  moreover have "\<not> bit (adr AND NOT (mask 6)) 4" by (simp add: bit_simps)
  ultimately have "adr AND NOT (mask 6) \<noteq> 0x40000050" by metis
  then show ?thesis by (simp add: mmreg_decode_def n)
qed

lemma target_uart: "uart_hw_ack 0x40000010 (uart1_host h) \<longleftrightarrow> muntjac_target h = Some 1"
proof -
  have "drop_bit 30 (0x40000010 :: u32) = 1" by (simp add: drop_bit_eq_div)
  then show ?thesis
    by (auto simp: uart_hw_ack_def uart_bus_is_write_def uart_bus_is_read_def uart1_host_def route_wb_host_def
        update_uart1_en_def muntjac_target_def)
qed

lemma target_regs:
  assumes "wb_cyc h"
  shows "wb_adr h AND NOT (mask 3) = 0x40000020 \<longleftrightarrow> muntjac_target h = Some 2"
    and "wb_adr h AND NOT (mask 3) = 0x40000030 \<longleftrightarrow> muntjac_target h = Some 3"
    and "wb_adr h AND NOT (mask 3) = 0x40000040 \<longleftrightarrow> muntjac_target h = Some 4"
    and "drop_bit 30 (wb_adr h) = 2 \<longleftrightarrow> muntjac_target h = Some 0"
proof -
  have d: "drop_bit 30 (0x40000020 :: u32) = 1" "drop_bit 30 (0x40000030 :: u32) = 1" "drop_bit 30 (0x40000040 :: u32) = 1"
    by (simp_all add: drop_bit_eq_div)
  have u: "(0x40000010 :: u32) AND NOT (mask 3) = 0x40000010" by (simp add: mask_eq_exp_minus_1)
  have m: "drop_bit 30 (wb_adr h) = drop_bit 30 b" if "wb_adr h AND NOT (mask 3) = b" for b
    using that drop_30_masked [of "wb_adr h"] by simp
  show "wb_adr h AND NOT (mask 3) = 0x40000020 \<longleftrightarrow> muntjac_target h = Some 2"
    and "wb_adr h AND NOT (mask 3) = 0x40000030 \<longleftrightarrow> muntjac_target h = Some 3"
    and "wb_adr h AND NOT (mask 3) = 0x40000040 \<longleftrightarrow> muntjac_target h = Some 4"
    and "drop_bit 30 (wb_adr h) = 2 \<longleftrightarrow> muntjac_target h = Some 0"
    using assms u d m [of "0x40000020"] m [of "0x40000030"] m [of "0x40000040"] by (auto simp: muntjac_target_def)
qed

subsection \<open>The return path\<close>

lemma rdt_mux_ack: "per_ack (rdt_mux False ps) \<longleftrightarrow> (\<exists>p \<in> set ps. per_ack p)"
  by (induction ps) (auto simp: rdt_mux_def)

lemma rdt_mux_only:
  assumes "i < length ps" and "per_ack (ps ! i)" and "\<forall>j < length ps. per_ack (ps ! j) \<longrightarrow> j = i"
  shows "rdt_mux False ps = ps ! i"
  using assms
proof (induction ps arbitrary: i)
  case (Cons p ps)
  show ?case
  proof (cases i)
    case 0
    then show ?thesis using Cons.prems by (simp add: rdt_mux_def)
  next
    case (Suc k)
    have "\<not> per_ack p" using Cons.prems(3) Suc by auto
    moreover have "rdt_mux False ps = ps ! k" by (rule Cons.IH) (use Cons.prems Suc in \<open>auto dest: spec [of _ "Suc _"]\<close>)
    ultimately show ?thesis using Suc by (simp add: rdt_mux_def)
  qed
qed simp

lemma port_0_ack: "per_ack (assign_per_ports p q 0) \<longleftrightarrow> granted 0 q \<and> per_ack p"
  by (auto simp: assign_per_ports_def granted_def)

subsection \<open>The invariant\<close>

text \<open>A decoder is idle or in the second cycle of the present access, with the right register selected.\<close>

definition dec_ok :: "u32 \<Rightarrow> mmreg \<Rightarrow> wb_host \<Rightarrow> bool" where
  "dec_ok base m h \<longleftrightarrow> m = mmreg_zero \<or>
     (\<exists>i. wb_cyc h \<and> mmreg_decode 1 base (wb_adr h) = Some i \<and>
          m = \<lparr>mm_wait = True, mm_data = wb_dat h, mm_index = i, mm_write = wb_we h, mm_ack = True\<rparr>)"

lemma dec_ok_next:
  assumes "dec_ok base m h" and "m = mmreg_zero \<Longrightarrow> wb_cyc h \<Longrightarrow> wb_adr h AND NOT (mask 3) = base \<Longrightarrow> h' = h"
  shows "dec_ok base (mmreg_next 1 base False h m) h'"
proof (cases "m = mmreg_zero")
  case True
  show ?thesis
  proof (cases "mmreg_decode 1 base (wb_adr h)")
    case None
    then show ?thesis using True by (simp add: dec_ok_def mmreg_next_def)
  next
    case (Some i)
    then have "wb_cyc h \<Longrightarrow> h' = h" using assms(2) True decode_1 [of base "wb_adr h"] by simp
    with Some True show ?thesis by (cases "wb_cyc h") (simp_all add: dec_ok_def mmreg_access, simp add: mmreg_next_def)
  qed
next
  case False
  then show ?thesis using assms(1) by (auto simp: dec_ok_def)
qed

lemma dec_ok_ack:
  assumes "dec_ok base m h" and "mm_ack m"
  shows "wb_cyc h \<and> wb_adr h AND NOT (mask 3) = base \<and> mmreg_decode 1 base (wb_adr h) = Some (mm_index m)"
  using assms decode_1 [of base "wb_adr h"] by (auto simp: dec_ok_def)

definition bus_ok :: "wb_host \<Rightarrow> 'f muntjac \<Rightarrow> bool" where
  "bus_ok h s \<longleftrightarrow> dec_ok 0x40000020 (fst (mj_timer s)) h \<and> dec_ok 0x40000030 (fst (mj_pic s)) h \<and>
     dec_ok 0x40000040 (fst (mj_perctl s)) h \<and> mj_perin s = mmreg_zero \<and>
     (granted 0 (mj_mux s) \<longrightarrow> wb_cyc h \<and> drop_bit 30 (wb_adr h) = 2)"

lemma bus_ok_ack:
  assumes "bus_ok h s" and "i < 6" and "per_ack (assemble_wb_mux F h e s ! i)"
  shows "muntjac_target h = Some i"
proof -
  note b = assms(1) [unfolded bus_ok_def]
  have "i \<in> {0, 1, 2, 3, 4, 5}" using assms(2) by auto
  then show ?thesis
    using assms(3) b dec_ok_ack [of _ _ h] target_uart [of h] target_regs [of h]
    by (elim insertE emptyE) (auto simp: assemble_wb_mux_def port_0_ack)
qed

lemma length_assemble [simp]: "length (assemble_wb_mux F h e s) = 6"
  by (simp add: assemble_wb_mux_def)

lemma cpu_ack_target:
  assumes "bus_ok h s" and "per_ack (cpu0_per_in F False h e s)"
  shows "\<exists>i < 6. muntjac_target h = Some i \<and> per_ack (assemble_wb_mux F h e s ! i) \<and>
           cpu0_per_in F False h e s = assemble_wb_mux F h e s ! i"
proof -
  let ?ps = "assemble_wb_mux F h e s"
  from assms(2) obtain i where i: "i < 6" "per_ack (?ps ! i)"
    by (auto simp: cpu0_per_in_def cpu0_host_out_def rdt_mux_ack in_set_conv_nth)
  then have t: "muntjac_target h = Some i" using bus_ok_ack [OF assms(1)] by blast
  have only: "j = i" if "j < 6" "per_ack (?ps ! j)" for j using bus_ok_ack [OF assms(1) that] t by simp
  have "rdt_mux False ?ps = ?ps ! i"
    by (rule rdt_mux_only) (unfold length_assemble, rule i(1), rule i(2), use only in blast)
  with i t show ?thesis by (intro exI [of _ i]) (simp add: cpu0_per_in_def cpu0_host_out_def)
qed

lemma cpu_ackI: "i < 6 \<Longrightarrow> per_ack (assemble_wb_mux F h e s ! i) \<Longrightarrow> per_ack (cpu0_per_in F False h e s)"
  using nth_mem [of i "assemble_wb_mux F h e s"] by (auto simp: cpu0_per_in_def cpu0_host_out_def rdt_mux_ack)

text \<open>A host that holds its access until it is acknowledged keeps the invariant.\<close>

lemma bus_ok_next:
  assumes "bus_ok h s" and "wb_cyc h \<and> \<not> per_ack (cpu0_per_in F False h e s) \<longrightarrow> h' = h"
  shows "bus_ok h' (muntjac_cycle F mx False h e s)"
proof -
  note b = assms(1) [unfolded bus_ok_def]
  let ?s' = "muntjac_cycle F mx False h e s"
  have quiet: "h' = h" if "wb_cyc h" "muntjac_target h = Some i" "\<not> per_ack (assemble_wb_mux F h e s ! i)" for i
    using that cpu_ack_target [OF assms(1), of F e] assms(2) by auto
  have h: "cpu0_host_out False h = h" by (simp add: cpu0_host_out_def)
  have "dec_ok 0x40000020 (fst (mj_timer ?s')) h'"
    unfolding muntjac_cycle_def Let_def h muntjac.simps timer_cycle_def case_prod_beta fst_conv
    by (rule dec_ok_next) (use b quiet [of 2] target_regs(1) [of h] in \<open>auto simp: assemble_wb_mux_def\<close>)
  moreover have "dec_ok 0x40000030 (fst (mj_pic ?s')) h'"
    unfolding muntjac_cycle_def Let_def h muntjac.simps pic_cycle_def case_prod_beta fst_conv
    by (rule dec_ok_next) (use b quiet [of 3] target_regs(2) [of h] in \<open>auto simp: assemble_wb_mux_def\<close>)
  moreover have "dec_ok 0x40000040 (fst (mj_perctl ?s')) h'"
    unfolding muntjac_cycle_def Let_def h muntjac.simps percontrol_cycle_def case_prod_beta fst_conv
    by (rule dec_ok_next) (use b quiet [of 4] target_regs(3) [of h] in \<open>auto simp: assemble_wb_mux_def\<close>)
  moreover have "mj_perin ?s' = mmreg_zero"
    using b by (simp add: muntjac_cycle_def Let_def perinput_cycle_def mmreg_next_def perin_decode)
  moreover have "wb_cyc h' \<and> drop_bit 30 (wb_adr h') = 2" if g: "granted 0 (mj_mux ?s')"
  proof -
    have m: "mj_mux ?s' = mux_next 2 False (ddr3_mux_hosts h (mi_ram_host e)) (mi_ram_per e) (mj_mux s)"
      by (simp add: muntjac_cycle_def Let_def h)
    have "wb_cyc h \<and> drop_bit 30 (wb_adr h) = 2 \<and> \<not> (granted 0 (mj_mux s) \<and> per_ack (mi_ram_per e))"
      using g b unfolding m
      by (auto simp: granted_def mux_next_def ddr3_mux_hosts_def cpu0_host_out_ram_def host_new_bus_type_def
          split: mux_state.splits if_splits)
    then have "h' = h" using quiet [of 0] target_regs(4) [of h] by (auto simp: assemble_wb_mux_def port_0_ack)
    with \<open>wb_cyc h \<and> _\<close> show ?thesis by simp
  qed
  ultimately show ?thesis unfolding bus_ok_def by blast
qed

lemma bus_ok_reset: "bus_ok h (muntjac_cycle F mx True hr er sr)"
proof -
  have "mmreg_next k b True x m = mmreg_zero" for k b x m by (simp add: mmreg_next_def)
  moreover have "mux_next n True x p q = mux_zero" for n x p q by (simp add: mux_next_def)
  ultimately show ?thesis
    by (simp add: bus_ok_def muntjac_cycle_def Let_def timer_cycle_def pic_cycle_def percontrol_cycle_def perinput_cycle_def
        dec_ok_def granted_def mux_zero_def split: prod.split)
qed

lemma bus_ok_run:
  assumes "s = muntjac_cycle F mx True hr er sr"
    and "\<forall>t. wb_cyc (hs t) \<and> \<not> per_ack (cpu0_per_in F False (hs t) (es t) (muntjac_run F mx hs es s t)) \<longrightarrow> hs (Suc t) = hs t"
  shows "bus_ok (hs t) (muntjac_run F mx hs es s t)"
proof (induction t)
  case 0
  show ?case by (simp add: assms(1) bus_ok_reset)
next
  case (Suc t)
  show ?case unfolding muntjac_run.simps by (rule bus_ok_next [OF Suc]) (use assms(2) in blast)
qed

text \<open>The registers answer in the cycle after the request, the UART in the same.\<close>

lemma decoder_answers:
  "mmreg_decode 1 base (wb_adr h) \<noteq> None \<Longrightarrow> wb_cyc h \<Longrightarrow> m = mmreg_zero \<Longrightarrow> mm_ack (mmreg_next 1 base False h m)"
  using mmreg_access [of 1 base h] by auto

lemma registers_answer:
  assumes "bus_ok h s" and "muntjac_target h = Some i" and "i \<in> {1, 2, 3, 4}"
    and "\<not> per_ack (cpu0_per_in F False h e s)"
  shows "per_ack (cpu0_per_in F False h e' (muntjac_cycle F mx False h e s))"
proof -
  let ?s' = "muntjac_cycle F mx False h e s"
  note b = assms(1) [unfolded bus_ok_def]
  have c: "wb_cyc h" using assms(2) by (auto simp: muntjac_target_def split: if_splits)
  have n: "\<not> per_ack (assemble_wb_mux F h e s ! i)" using assms(3,4) cpu_ackI [of i F h e s] by auto
  have z: "m = mmreg_zero" if "dec_ok base m h" "\<not> mm_ack m" for base m using that by (auto simp: dec_ok_def)
  have h: "cpu0_host_out False h = h" by (simp add: cpu0_host_out_def)
  from assms(3) consider "i = 1" | "i = 2" | "i = 3" | "i = 4" by auto
  then have "per_ack (assemble_wb_mux F h e' ?s' ! i)"
  proof cases
    case 1
    then show ?thesis using n assms(2) target_uart [of h] by (simp add: assemble_wb_mux_def)
  next
    case 2
    have "fst (mj_timer s) = mmreg_zero" using b n 2 by (intro z) (auto simp: assemble_wb_mux_def)
    then have "mm_ack (mmreg_next 1 0x40000020 False h (fst (mj_timer s)))"
      using c target_regs(1) [OF c] assms(2) 2 decode_1 [of "0x40000020" "wb_adr h"] by (intro decoder_answers) simp_all
    then show ?thesis by (simp add: 2 assemble_wb_mux_def muntjac_cycle_def Let_def h timer_cycle_def case_prod_beta)
  next
    case 3
    have "fst (mj_pic s) = mmreg_zero" using b n 3 by (intro z) (auto simp: assemble_wb_mux_def)
    then have "mm_ack (mmreg_next 1 0x40000030 False h (fst (mj_pic s)))"
      using c target_regs(2) [OF c] assms(2) 3 decode_1 [of "0x40000030" "wb_adr h"] by (intro decoder_answers) simp_all
    then show ?thesis by (simp add: 3 assemble_wb_mux_def muntjac_cycle_def Let_def h pic_cycle_def case_prod_beta)
  next
    case 4
    have "fst (mj_perctl s) = mmreg_zero" using b n 4 by (intro z) (auto simp: assemble_wb_mux_def)
    then have "mm_ack (mmreg_next 1 0x40000040 False h (fst (mj_perctl s)))"
      using c target_regs(3) [OF c] assms(2) 4 decode_1 [of "0x40000040" "wb_adr h"] by (intro decoder_answers) simp_all
    then show ?thesis by (simp add: 4 assemble_wb_mux_def muntjac_cycle_def Let_def h percontrol_cycle_def case_prod_beta)
  qed
  then show ?thesis using assms(3) by (intro cpu_ackI [of i]) auto
qed

subsection \<open>Properties\<close>

text \<open>
  C21: The bus has no crosstalk. From a reset on, with a boot core that holds its access until it is acknowledged
  and whatever the second core, the RAM and the serial line do: what the boot core sees acknowledged is
  exactly what the peripheral its address belongs to answers, no other peripheral answers in that cycle,
  and of timer and interrupt controller it is the register that the address names. An access to the UART or a register is
  acknowledged in its first or second cycle.
\<close>

theorem muntjac_bus_exact:
  assumes "s = muntjac_cycle F mx True hr er sr"
    and "\<forall>t. wb_cyc (hs t) \<and> \<not> per_ack (cpu0_per_in F False (hs t) (es t) (muntjac_run F mx hs es s t)) \<longrightarrow> hs (Suc t) = hs t"
    and "r = muntjac_run F mx hs es s t" and "answer = cpu0_per_in F False (hs t) (es t) r"
  shows "(per_ack answer \<longrightarrow> (\<exists>i < 6. muntjac_target (hs t) = Some i \<and> answer = assemble_wb_mux F (hs t) (es t) r ! i \<and>
            (\<forall>j < 6. per_ack (assemble_wb_mux F (hs t) (es t) r ! j) \<longrightarrow> j = i))) \<and>
         (per_ack answer \<and> muntjac_target (hs t) = Some 2 \<longrightarrow>
            map_option (\<lambda>i. timer_rdt i (snd (mj_timer r))) (mmreg_decode 1 0x40000020 (wb_adr (hs t))) = Some (per_rdt answer)) \<and>
         (per_ack answer \<and> muntjac_target (hs t) = Some 3 \<longrightarrow>
            map_option (\<lambda>i. pic_rdt i (snd (mj_pic r))) (mmreg_decode 1 0x40000030 (wb_adr (hs t))) = Some (per_rdt answer)) \<and>
         (muntjac_target (hs t) \<in> {Some 1, Some 2, Some 3, Some 4} \<longrightarrow>
            per_ack answer \<or> per_ack (cpu0_per_in F False (hs (Suc t)) (es (Suc t)) (muntjac_run F mx hs es s (Suc t))))"
proof -
  have ok: "bus_ok (hs t) r" unfolding assms(3) by (rule bus_ok_run [OF assms(1,2)])
  note b = ok [unfolded bus_ok_def]
  have a: "\<exists>i < 6. muntjac_target (hs t) = Some i \<and> per_ack (assemble_wb_mux F (hs t) (es t) r ! i) \<and>
      answer = assemble_wb_mux F (hs t) (es t) r ! i" if "per_ack answer"
    using cpu_ack_target [OF ok] that unfolding assms(4) by blast
  have only: "\<forall>j < 6. per_ack (assemble_wb_mux F (hs t) (es t) r ! j) \<longrightarrow> j = i" if "muntjac_target (hs t) = Some i" for i
    using bus_ok_ack [OF ok, of _ F "es t"] that by auto
  have late: "per_ack (cpu0_per_in F False (hs (Suc t)) (es (Suc t)) (muntjac_run F mx hs es s (Suc t)))"
    if i: "muntjac_target (hs t) = Some i" "i \<in> {1, 2, 3, 4}" and n: "\<not> per_ack answer" for i
  proof -
    have "wb_cyc (hs t)" using i(1) by (auto simp: muntjac_target_def split: if_splits)
    then have "hs (Suc t) = hs t" using assms(2-4) n by blast
    then show ?thesis using registers_answer [OF ok i] n unfolding assms(4) by (simp add: assms(3))
  qed
  have reg: "mmreg_decode 1 0x40000020 (wb_adr (hs t)) = Some (mm_index (fst (mj_timer r))) \<and>
      per_rdt answer = timer_rdt (mm_index (fst (mj_timer r))) (snd (mj_timer r))"
    if "per_ack answer" "muntjac_target (hs t) = Some 2"
    using a [OF that(1)] that(2) dec_ok_ack [of "0x40000020" _ "hs t"] b by (auto simp: assemble_wb_mux_def)
  have reg': "mmreg_decode 1 0x40000030 (wb_adr (hs t)) = Some (mm_index (fst (mj_pic r))) \<and>
      per_rdt answer = pic_rdt (mm_index (fst (mj_pic r))) (snd (mj_pic r))"
    if "per_ack answer" "muntjac_target (hs t) = Some 3"
    using a [OF that(1)] that(2) dec_ok_ack [of "0x40000030" _ "hs t"] b by (auto simp: assemble_wb_mux_def)
  show ?thesis
  proof (intro conjI impI)
    show "\<exists>i < 6. muntjac_target (hs t) = Some i \<and> answer = assemble_wb_mux F (hs t) (es t) r ! i \<and>
        (\<forall>j < 6. per_ack (assemble_wb_mux F (hs t) (es t) r ! j) \<longrightarrow> j = i)" if "per_ack answer"
      using a [OF that] only by blast
  qed (use reg reg' late in auto)
qed

text \<open>
  C22: The debug bits hang the boot core. At the addresses that \<open>perinput_bits.h\<close> reads, no peripheral of the
  board answers, whatever else happens: once the boot core has begun to read one, it waits for ever. This is
  what \<open>read_mem_a_valid\<close> does in the muntjac loader before it asks for the image.
\<close>

theorem muntjac_probe_hangs:
  assumes "s = muntjac_cycle F mx True hr er sr"
    and "\<forall>t. wb_cyc (hs t) \<and> \<not> per_ack (cpu0_per_in F False (hs t) (es t) (muntjac_run F mx hs es s t)) \<longrightarrow> hs (Suc t) = hs t"
    and "k \<le> 8" and "hs t = wb_read (perinput_BASE_ADDRESS + REG_OFFSET k)" and "t \<le> u"
  shows "hs u = hs t \<and> \<not> per_ack (cpu0_per_in F False (hs u) (es u) (muntjac_run F mx hs es s u))"
proof -
  have "k \<in> {0, 1, 2, 3, 4, 5, 6, 7, 8}" using assms(3) by auto
  then have n: "muntjac_target (hs t) = None"
    unfolding assms(4)
    by (elim insertE emptyE) (simp_all add: muntjac_target_def wb_read_def perinput_BASE_ADDRESS_def REG_OFFSET_def
        mask_eq_exp_minus_1 drop_bit_eq_div)
  have na: "\<not> per_ack (cpu0_per_in F False (hs v) (es v) (muntjac_run F mx hs es s v))" if "hs v = hs t" for v
  proof -
    have "bus_ok (hs v) (muntjac_run F mx hs es s v)" by (rule bus_ok_run [OF assms(1,2)])
    from cpu_ack_target [OF this] n that show ?thesis by auto
  qed
  have "hs u = hs t" using assms(5)
  proof (induction u rule: dec_induct)
    case (step v)
    then have "wb_cyc (hs v)" by (simp add: assms(4) wb_read_def)
    with step na [of v] assms(2) show ?case by metis
  qed simp
  with na show ?thesis by simp
qed

subsection \<open>Witnesses\<close>

definition demo_muntjac :: "u8 list muntjac" where
  "demo_muntjac =
     \<lparr>mj_uart = \<lparr>uh_reg = reg_t_new, uh_rd = [], uh_wr = []\<rparr>, mj_timer = (mmreg_zero, timer_reset 5), mj_pic = (mmreg_zero, pic_reset),
      mj_perctl = (mmreg_zero, 1), mj_perin = mmreg_zero, mj_mux = mux_zero\<rparr>"

definition demo_muntjac_in :: muntjac_in where
  "demo_muntjac_in =
     \<lparr>mi_uart = \<lparr>data_stream_in_ack = False, data_stream_out = 0, data_stream_out_stb = False\<rparr>, mi_ram_host = wb_quiet,
      mi_ram_per = per_new_bus_type, mi_perin = (\<lambda>n. n = 143)\<rparr>"

theorem muntjac_bus_exact_witness:
  "\<exists>t \<le> 1. per_ack (cpu0_per_in list_fifo False (wb_read 0x40000020) demo_muntjac_in
     (muntjac_run list_fifo 5 (\<lambda>_. wb_read 0x40000020) (\<lambda>_. demo_muntjac_in)
        (muntjac_cycle list_fifo 5 True wb_quiet demo_muntjac_in demo_muntjac) t))"
proof -
  have "muntjac_target (wb_read 0x40000020) = Some 2"
    by (simp add: muntjac_target_def wb_read_def mask_eq_exp_minus_1 drop_bit_eq_div)
  with muntjac_bus_exact [OF refl _ refl refl, of "\<lambda>_. wb_read 0x40000020" list_fifo "\<lambda>_. demo_muntjac_in" 5 wb_quiet demo_muntjac_in
      demo_muntjac 0]
  show ?thesis unfolding One_nat_def by blast
qed

theorem muntjac_probe_hangs_witness:
  "\<not> per_ack (cpu0_per_in list_fifo False (wb_read 0x40000060) demo_muntjac_in
     (muntjac_run list_fifo 5 (\<lambda>_. wb_read 0x40000060) (\<lambda>_. demo_muntjac_in)
        (muntjac_cycle list_fifo 5 True wb_quiet demo_muntjac_in demo_muntjac) 1000))"
proof -
  have a: "wb_read 0x40000060 = wb_read (perinput_BASE_ADDRESS + REG_OFFSET 4)"
    by (simp add: perinput_BASE_ADDRESS_def REG_OFFSET_def)
  show ?thesis
    by (rule muntjac_probe_hangs [OF refl, where hs = "\<lambda>_. wb_read 0x40000060" and es = "\<lambda>_. demo_muntjac_in" and k = 4 and t = 0
          and u = 1000 and F = list_fifo and mx = 5 and hr = wb_quiet and er = demo_muntjac_in and sr = demo_muntjac, THEN conjunct2])
      (intro allI impI refl, simp, rule a, simp)
qed

end
