(* ===== verification/UartTx.thy ===== *)
theory UartTx
  imports Prelude
begin

text \<open>
  The transmitter \<open>ip/debug/uart_tx.vhdl\<close>, clock cycle by clock cycle: it takes a byte through a
  valid/ready handshake and shifts it out as a start bit, eight data bits and a stop bit of \<open>div\<close> cycles
  each. The theorems give the line for every cycle of a frame and show that a receiver that samples it
  anywhere inside the bits reads the byte back. \<open>byte_sink\<close> is the contract of the handshake, for its
  clients; the transmitter provides it.
\<close>

subsection \<open>The handshake\<close>

text \<open>
  A device that takes bytes: \<open>sink_step valid data\<close> is one clock cycle, \<open>sink_ready\<close> says whether a byte
  offered in this cycle is taken. After a byte it may be busy, for at most \<open>W\<close> cycles.
\<close>

locale byte_sink =
  fixes sink_step :: "bool \<Rightarrow> u8 \<Rightarrow> 's \<Rightarrow> 's"
    and sink_ready :: "'s \<Rightarrow> bool"
    and sink_ok :: "'s \<Rightarrow> bool"
    and sink_wait :: "'s \<Rightarrow> nat"
    and W :: nat
  assumes step_ok: "sink_ok s \<Longrightarrow> sink_ok (sink_step v d s)"
    and ready_wait: "sink_ok s \<Longrightarrow> sink_ready s \<longleftrightarrow> sink_wait s = 0"
    and wait_bound: "sink_ok s \<Longrightarrow> sink_wait s \<le> W"
    and busy_step: "sink_ok s \<Longrightarrow> \<not> sink_ready s \<Longrightarrow> sink_wait (sink_step v d s) < sink_wait s"
    and idle_step: "sink_ok s \<Longrightarrow> sink_ready s \<Longrightarrow> sink_ready (sink_step False d s)"
begin

text \<open>A run with the offers \<open>vs t\<close> and \<open>ds t\<close> of each cycle.\<close>

primrec sink_run :: "(nat \<Rightarrow> bool) \<Rightarrow> (nat \<Rightarrow> u8) \<Rightarrow> 's \<Rightarrow> nat \<Rightarrow> 's" where
  "sink_run vs ds s 0 = s"
| "sink_run vs ds s (Suc t) = sink_step (vs t) (ds t) (sink_run vs ds s t)"

lemma sink_run_ok: "sink_ok s \<Longrightarrow> sink_ok (sink_run vs ds s t)"
  by (induction t) (simp_all add: step_ok)

lemma ready_again:
  assumes "sink_ok s"
  shows "\<exists>u \<le> W. sink_ready (sink_run vs ds s (t + u))"
proof -
  have "\<exists>u \<le> sink_wait (sink_run vs ds s t). sink_ready (sink_run vs ds s (t + u))" for t
  proof (induction "sink_wait (sink_run vs ds s t)" arbitrary: t rule: less_induct)
    case less
    show ?case
    proof (cases "sink_ready (sink_run vs ds s t)")
      case True
      then show ?thesis by (intro exI [of _ 0]) simp
    next
      case False
      then have "sink_wait (sink_run vs ds s (Suc t)) < sink_wait (sink_run vs ds s t)"
        using busy_step [OF sink_run_ok [OF assms]] by simp
      moreover from less [OF this] obtain u where "u \<le> sink_wait (sink_run vs ds s (Suc t))"
        "sink_ready (sink_run vs ds s (Suc t + u))" by blast
      ultimately show ?thesis by (intro exI [of _ "Suc u"]) simp
    qed
  qed
  with wait_bound [OF sink_run_ok [OF assms]] show ?thesis by (meson le_trans)
qed

end

subsection \<open>The transmitter\<close>

record uart_tx =
  tx_cnt :: nat
  tx_bits_left :: nat
  tx_shifter :: "10 word"
  tx_busy :: bool

definition uart_tx_reset :: uart_tx where
  "uart_tx_reset = \<lparr>tx_cnt = 0, tx_bits_left = 0, tx_shifter = -1, tx_busy = False\<rparr>"

text \<open>The generic \<open>div\<close>: clock cycles per bit.\<close>

definition uart_tx_div :: "nat \<Rightarrow> nat \<Rightarrow> nat" where
  "uart_tx_div clk_freq_hz baud_rate = clk_freq_hz div baud_rate"

definition uart_tx_line :: "uart_tx \<Rightarrow> bool" where
  "uart_tx_line s = bit (tx_shifter s) 0"

definition uart_tx_ready :: "uart_tx \<Rightarrow> bool" where
  "uart_tx_ready s \<longleftrightarrow> \<not> tx_busy s"

definition uart_tx_load :: "u8 \<Rightarrow> 10 word" where
  "uart_tx_load b = push_bit 9 1 OR push_bit 1 (ucast b)"

definition uart_tx_next :: "nat \<Rightarrow> bool \<Rightarrow> bool \<Rightarrow> u8 \<Rightarrow> uart_tx \<Rightarrow> uart_tx" where
  "uart_tx_next dv rstn valid b s =
     (if \<not> rstn then uart_tx_reset
      else if \<not> tx_busy s then
        (if valid then s\<lparr>tx_shifter := uart_tx_load b, tx_busy := True, tx_cnt := 0, tx_bits_left := 10\<rparr>
         else s\<lparr>tx_shifter := -1\<rparr>)
      else if tx_cnt s = dv - 1 then
        (let s1 = s\<lparr>tx_cnt := 0, tx_shifter := push_bit 9 1 OR drop_bit 1 (tx_shifter s)\<rparr>
         in if tx_bits_left s = 1 then s1\<lparr>tx_busy := False\<rparr> else s1\<lparr>tx_bits_left := tx_bits_left s - 1\<rparr>)
      else s\<lparr>tx_cnt := tx_cnt s + 1\<rparr>)"

text \<open>A run without reset.\<close>

primrec uart_tx_run :: "nat \<Rightarrow> (nat \<Rightarrow> bool) \<Rightarrow> (nat \<Rightarrow> u8) \<Rightarrow> uart_tx \<Rightarrow> nat \<Rightarrow> uart_tx" where
  "uart_tx_run dv vs ds s 0 = s"
| "uart_tx_run dv vs ds s (Suc t) = uart_tx_next dv True (vs t) (ds t) (uart_tx_run dv vs ds s t)"

subsection \<open>A frame\<close>

definition frame_bit :: "u8 \<Rightarrow> nat \<Rightarrow> bool" where
  "frame_bit b i \<longleftrightarrow> (if i = 0 then False else if i \<le> 8 then bit b (i - 1) else True)"

lemma bit_stop: "bit (push_bit 9 1 OR w) j \<longleftrightarrow> j = 9 \<or> bit w j" for w :: "10 word"
  unfolding bit_or_iff bit_push_bit_iff bit_1_iff by auto

lemma bit_uart_tx_load: "j < 10 \<Longrightarrow> bit (uart_tx_load b) j = frame_bit b j"
  unfolding uart_tx_load_def bit_stop bit_push_bit_iff frame_bit_def by (cases "j = 9") (auto simp: bit_simps)

text \<open>The transmitter \<open>k\<close> cycles after it took \<open>b\<close>: \<open>i = k div dv\<close> bits have left the shifter.\<close>

definition sending :: "nat \<Rightarrow> u8 \<Rightarrow> nat \<Rightarrow> uart_tx \<Rightarrow> bool" where
  "sending dv b k s \<longleftrightarrow> tx_busy s \<and> tx_cnt s = k mod dv \<and> tx_bits_left s = 10 - k div dv \<and>
     (\<forall>j < 10. bit (tx_shifter s) j = frame_bit b (k div dv + j))"

lemma uart_tx_takes:
  assumes "\<not> tx_busy s" and "0 < dv"
  shows "sending dv b 0 (uart_tx_next dv True True b s)"
  using assms by (simp add: sending_def uart_tx_next_def bit_uart_tx_load)

lemma uart_tx_sends:
  assumes "sending dv b k s" and "Suc k < 10 * dv"
  shows "sending dv b (Suc k) (uart_tx_next dv True v d s)"
proof (cases "Suc (k mod dv) = dv")
  case False
  have m: "Suc k mod dv = Suc (k mod dv)" "Suc k div dv = k div dv"
    using False by (simp_all add: mod_Suc div_Suc)
  have "k mod dv \<noteq> dv - 1" using False assms(2) by (cases dv) simp_all
  with assms(1) have "uart_tx_next dv True v d s = s\<lparr>tx_cnt := tx_cnt s + 1\<rparr>"
    by (simp add: sending_def uart_tx_next_def)
  with assms(1) show ?thesis unfolding sending_def m by simp
next
  case True
  have m: "Suc k mod dv = 0" "Suc k div dv = Suc (k div dv)"
    using True by (simp_all add: mod_Suc div_Suc)
  have l: "Suc (k div dv) < 10" using assms(2) m(2) by (metis less_mult_imp_div_less)
  have c: "tx_cnt s = dv - 1" "tx_bits_left s \<noteq> 1" using assms(1) True l by (auto simp: sending_def)
  let ?sh = "push_bit 9 1 OR drop_bit 1 (tx_shifter s)"
  have sh: "bit ?sh j = frame_bit b (Suc (k div dv) + j)" if "j < 10" for j
    unfolding bit_stop bit_drop_bit_eq
    using assms(1) that by (cases "j = 9") (auto simp: sending_def frame_bit_def)
  have "uart_tx_next dv True v d s = s\<lparr>tx_cnt := 0, tx_shifter := ?sh, tx_bits_left := tx_bits_left s - 1\<rparr>"
    using assms(1) c by (simp only: sending_def uart_tx_next_def Let_def if_True if_False simp_thms)
  with assms(1) l show ?thesis unfolding sending_def m by (simp add: sh [simplified])
qed

lemma uart_tx_ends:
  assumes "sending dv b k s" and "Suc k = 10 * dv"
  shows "\<not> tx_busy (uart_tx_next dv True v d s)" and "uart_tx_line (uart_tx_next dv True v d s)"
proof -
  have d: "0 < dv" using assms(2) by (cases dv) simp_all
  have "k div dv = 9" by (rule div_nat_eqI) (use assms(2) d in simp_all)
  moreover from this have "k mod dv = dv - 1"
    using mult_div_mod_eq [of dv k] assms(2) d by simp
  ultimately have kd: "k div dv = 9" "k mod dv = dv - 1" by simp_all
  let ?sh = "push_bit 9 1 OR drop_bit 1 (tx_shifter s)"
  have "bit ?sh 0" unfolding bit_stop bit_drop_bit_eq using assms(1) kd by (simp add: sending_def frame_bit_def)
  moreover have "uart_tx_next dv True v d s = s\<lparr>tx_cnt := 0, tx_shifter := ?sh, tx_busy := False\<rparr>"
    using assms(1) kd by (simp add: sending_def uart_tx_next_def Let_def)
  ultimately show "\<not> tx_busy (uart_tx_next dv True v d s)" and "uart_tx_line (uart_tx_next dv True v d s)"
    by (simp_all add: uart_tx_line_def)
qed

lemma uart_tx_frame:
  assumes "uart_tx_ready (uart_tx_run dv vs ds s t)" and "vs t" and "0 < dv"
  shows "k < 10 * dv \<Longrightarrow> sending dv (ds t) k (uart_tx_run dv vs ds s (Suc t + k))"
    and "uart_tx_ready (uart_tx_run dv vs ds s (Suc t + 10 * dv))"
    and "uart_tx_line (uart_tx_run dv vs ds s (Suc t + 10 * dv))"
proof -
  show k: "sending dv (ds t) k (uart_tx_run dv vs ds s (Suc t + k))" if "k < 10 * dv" for k
    using that
  proof (induction k)
    case 0
    with uart_tx_takes [of "uart_tx_run dv vs ds s t" dv "ds t"] assms show ?case by (simp add: uart_tx_ready_def)
  next
    case (Suc k)
    then show ?case using uart_tx_sends [of dv "ds t" k "uart_tx_run dv vs ds s (Suc t + k)"] by simp
  qed
  obtain m where m: "10 * dv = Suc m" using assms(3) by (cases "10 * dv") simp_all
  then have "sending dv (ds t) m (uart_tx_run dv vs ds s (Suc t + m))" by (intro k) simp
  from uart_tx_ends [OF this m [symmetric]]
  show "uart_tx_ready (uart_tx_run dv vs ds s (Suc t + 10 * dv))"
    and "uart_tx_line (uart_tx_run dv vs ds s (Suc t + 10 * dv))"
    by (simp_all add: m uart_tx_ready_def)
qed

text \<open>The transmitter is a byte sink: at most ten bit times after a byte it takes the next.\<close>

definition uart_tx_ok :: "nat \<Rightarrow> uart_tx \<Rightarrow> bool" where
  "uart_tx_ok dv s \<longleftrightarrow> (tx_busy s \<longrightarrow> tx_cnt s < dv \<and> 1 \<le> tx_bits_left s \<and> tx_bits_left s \<le> 10)"

definition uart_tx_wait :: "nat \<Rightarrow> uart_tx \<Rightarrow> nat" where
  "uart_tx_wait dv s = (if tx_busy s then tx_bits_left s * dv - tx_cnt s else 0)"

lemma uart_tx_wait_busy:
  assumes "uart_tx_ok dv s" and "tx_busy s"
  shows "0 < uart_tx_wait dv s" and "uart_tx_wait dv s \<le> 10 * dv"
    and "uart_tx_wait dv (uart_tx_next dv True v d s) < uart_tx_wait dv s"
proof -
  obtain n where n: "tx_bits_left s = Suc n" using assms by (cases "tx_bits_left s") (auto simp: uart_tx_ok_def)
  with assms have c: "tx_cnt s < dv" "n \<le> 9" by (simp_all add: uart_tx_ok_def)
  have w: "uart_tx_wait dv s = n * dv + (dv - tx_cnt s)" using assms(2) n c by (simp add: uart_tx_wait_def)
  then show "0 < uart_tx_wait dv s" using c by simp
  have "n * dv \<le> 9 * dv" using c(2) by simp
  then show "uart_tx_wait dv s \<le> 10 * dv" unfolding w by linarith
  show "uart_tx_wait dv (uart_tx_next dv True v d s) < uart_tx_wait dv s"
    unfolding w using assms(2) n c by (auto simp: uart_tx_next_def uart_tx_wait_def Let_def)
qed

interpretation tx_sink: byte_sink "uart_tx_next (Suc d) True" uart_tx_ready "uart_tx_ok (Suc d)" "uart_tx_wait (Suc d)"
  "10 * Suc d"
proof (unfold_locales, goal_cases)
  case (1 s v b)
  then show ?case by (auto simp: uart_tx_ok_def uart_tx_next_def uart_tx_reset_def Let_def)
next
  case (2 s)
  then show ?case using uart_tx_wait_busy(1) [OF 2]
    by (cases "tx_busy s") (simp_all add: uart_tx_ready_def uart_tx_wait_def)
next
  case (3 s)
  then show ?case using uart_tx_wait_busy(2) [OF 3] by (cases "tx_busy s") (simp_all add: uart_tx_wait_def)
next
  case (4 s v b)
  then show ?case using uart_tx_wait_busy(3) [OF 4(1)] by (simp add: uart_tx_ready_def)
next
  case (5 s b)
  then show ?case by (simp add: uart_tx_ready_def uart_tx_next_def)
qed

lemma tx_sink_run: "tx_sink.sink_run d vs ds s t = uart_tx_run (Suc d) vs ds s t"
  by (induction t) simp_all

subsection \<open>Properties\<close>

text \<open>
  C27: A byte that is offered while the transmitter is ready is on the line from the next cycle on: a start
  bit, the eight bits from the lowest to the highest and a stop bit, each for exactly \<open>div\<close> cycles,
  whatever is offered in the meantime; then the transmitter is ready again with the line high. So a
  receiver that samples each data bit anywhere within its \<open>div\<close> cycles reads the byte back.
\<close>

theorem uart_tx_roundtrip:
  assumes "uart_tx_ready (uart_tx_run dv vs ds s t)" and "vs t" and "0 < dv" and "\<forall>i. off i < dv"
  shows "(\<forall>k < 10 * dv. uart_tx_line (uart_tx_run dv vs ds s (Suc t + k)) = frame_bit (ds t) (k div dv) \<and>
            \<not> uart_tx_ready (uart_tx_run dv vs ds s (Suc t + k))) \<and>
         uart_tx_ready (uart_tx_run dv vs ds s (Suc t + 10 * dv)) \<and>
         uart_tx_line (uart_tx_run dv vs ds s (Suc t + 10 * dv)) \<and>
         horner_sum of_bool 2
           (map (\<lambda>i. uart_tx_line (uart_tx_run dv vs ds s (Suc t + (Suc i * dv + off i)))) [0..<8]) = ds t"
proof -
  note f = uart_tx_frame [where dv = dv and vs = vs and ds = ds and s = s and t = t, OF assms(1-3)]
  have l: "uart_tx_line (uart_tx_run dv vs ds s (Suc t + k)) = frame_bit (ds t) (k div dv)"
    "\<not> uart_tx_ready (uart_tx_run dv vs ds s (Suc t + k))" if "k < 10 * dv" for k
    using f(1) [OF that] by (auto simp: sending_def uart_tx_line_def uart_tx_ready_def)
  have b: "uart_tx_line (uart_tx_run dv vs ds s (Suc t + (Suc i * dv + off i))) = bit (ds t) i" if "i < 8" for i
  proof -
    have o: "off i < dv" using assms(4) by simp
    have "Suc i * dv \<le> 8 * dv" using that by (intro mult_le_mono1) simp
    with o have "Suc i * dv + off i < 10 * dv" by linarith
    moreover have "(Suc i * dv + off i) div dv = Suc i" using o by (intro div_nat_eqI) simp_all
    ultimately show ?thesis using l(1) that by (simp add: frame_bit_def)
  qed
  have "horner_sum of_bool 2 (map (\<lambda>i. uart_tx_line (uart_tx_run dv vs ds s (Suc t + (Suc i * dv + off i)))) [0..<8]) = ds t"
    by (rule bit_word_eqI) (simp add: bit_horner_sum_bit_word_iff b del: uart_tx_run.simps mult_Suc add_Suc)
  with l f(2,3) show ?thesis by blast
qed

theorem uart_tx_roundtrip_witness:
  "horner_sum of_bool 2
     (map (\<lambda>i. uart_tx_line (uart_tx_run (uart_tx_div 40000000 115200) (\<lambda>t. t = 0) (\<lambda>t. 0x5A) uart_tx_reset
                 (Suc 0 + (Suc i * uart_tx_div 40000000 115200 + 173)))) [0..<8]) = (0x5A :: u8)"
proof -
  have d: "uart_tx_div 40000000 115200 = 347" by (simp add: uart_tx_div_def)
  have "uart_tx_ready (uart_tx_run 347 (\<lambda>t. t = 0) (\<lambda>t. 0x5A) uart_tx_reset 0)"
    by (simp add: uart_tx_ready_def uart_tx_reset_def)
  from uart_tx_roundtrip [OF this, of "\<lambda>_. 173"] show ?thesis unfolding d by simp
qed

end
