(* ===== verification/Recorder.thy ===== *)
theory Recorder
  imports UartTx Format
begin

text \<open>
  The bus recorder \<open>ip/debug/ahb_recorder.vhdl\<close>, clock cycle by clock cycle: it keeps the latest
  \<open>2 ^ addr_bits\<close> transfers of a bus in a circular memory and, on a rising edge of \<open>dump\<close>, streams them
  out as lines of text. On the NOEL-V board the stream goes into the transmitter of \<open>UartTx\<close>.
  The theorems: the memory always holds exactly the latest transfers; a dump is these transfers,
  oldest first, as the text the firmware's printf would write; and a transfer in the very cycle of the
  request spoils the dump.
\<close>

subsection \<open>Records and their text\<close>

type_synonym rec_word = "97 word"

text \<open>The concatenation \<open>hwrite & cycle & haddr & hwdata\<close>.\<close>

definition rec_pack :: "bool \<Rightarrow> u32 \<Rightarrow> u32 \<Rightarrow> u32 \<Rightarrow> rec_word" where
  "rec_pack hwrite cycle haddr hwdata =
     push_bit 96 (of_bool hwrite) OR push_bit 64 (ucast cycle) OR push_bit 32 (ucast haddr) OR ucast hwdata"

definition hexchar :: "nat \<Rightarrow> u8" where
  "hexchar v = (if v < 10 then of_nat (0x30 + v) else of_nat (0x61 + v - 10))"

text \<open>The slice \<open>r(lo + 3 downto lo)\<close> as a number.\<close>

definition nibble :: "nat \<Rightarrow> rec_word \<Rightarrow> nat" where
  "nibble lo r = unat (take_bit 4 (drop_bit lo r))"

definition byte_at :: "nat \<Rightarrow> rec_word \<Rightarrow> u8" where
  "byte_at idx r =
     (if idx \<le> 7 then hexchar (nibble (92 - idx * 4) r)
      else if idx = 8 then 0x20
      else if idx = 9 then (if bit r 96 then 0x57 else 0x52)
      else if idx = 10 then 0x20
      else if idx \<le> 18 then hexchar (nibble (60 - (idx - 11) * 4) r)
      else if idx = 19 then 0x20
      else if idx \<le> 27 then hexchar (nibble (28 - (idx - 20) * 4) r)
      else if idx = 28 then 0x0D
      else 0x0A)"

definition last_char :: nat where
  "last_char = 29"

text \<open>
  The specification of a line: the fields of the word, written as the printf of the firmware's C library writes
  them. That the characters of \<open>byte_at\<close> are this text is proved below.
\<close>

definition rec_fields :: "rec_word \<Rightarrow> bool \<times> u32 \<times> u32 \<times> u32" where
  "rec_fields r = (bit r 96, ucast (drop_bit 64 r), ucast (drop_bit 32 r), ucast r)"

definition rec_line :: "rec_word \<Rightarrow> u8 list" where
  "rec_line r =
     (case rec_fields r of (hwrite, cycle, haddr, hwdata) \<Rightarrow>
        vformat (''%08x '' @ (if hwrite then ''W'' else ''R'') @ '' %08x %08x'' @ [CHR 0x0D, CHR 0x0A]) [cycle, haddr, hwdata])"

subsection \<open>The text of a record\<close>

lemma digits_padded:
  assumes "1 < b" and "n < b ^ Suc m"
  shows "replicate (Suc m - length (nat_digits b n)) 0 @ nat_digits b n = map (\<lambda>k. n div b ^ (m - k) mod b) [0..<Suc m]"
  using assms(2)
proof (induction m arbitrary: n)
  case 0
  then show ?case by (subst (1 2) nat_digits.simps) (use assms(1) in simp)
next
  case (Suc m)
  have q: "n div b < b ^ Suc m" using Suc.prems by (simp add: less_mult_imp_div_less mult.commute)
  have r: "map (\<lambda>k. n div b ^ (Suc m - k) mod b) [0..<Suc (Suc m)] =
      map (\<lambda>k. (n div b) div b ^ (m - k) mod b) [0..<Suc m] @ [n mod b]"
    by (auto simp: Suc_diff_le div_mult2_eq)
  show ?case
  proof (cases "n < b")
    case True
    then have "nat_digits b n = [n]" "nat_digits b (n div b) = [0]"
      using assms(1) by (subst nat_digits.simps, simp)+
    with Suc.IH [OF q] True assms(1) show ?thesis
      unfolding r by (simp add: replicate_append_same flip: replicate_Suc)
  next
    case False
    then have "nat_digits b n = nat_digits b (n div b) @ [n mod b]"
      using assms(1) by (subst nat_digits.simps) simp
    with Suc.IH [OF q] show ?thesis unfolding r by simp
  qed
qed

lemma hexchar_digit: "hexchar d = digit_char d"
  by (simp add: hexchar_def digit_char_def)

lemma vformat_hex08: "vformat ''%08x'' [a] = map (\<lambda>k. digit_char (unat a div 16 ^ (7 - k) mod 16)) [0..<8]"
proof -
  let ?ds = "nat_digits 16 (unat a)"
  have "unat a < 16 ^ Suc 7" using unsigned_less [of a] by simp
  from digits_padded [OF _ this] have
    "replicate (8 - length ?ds) 0 @ ?ds = map (\<lambda>k. unat a div 16 ^ (7 - k) mod 16) [0..<8]" by simp
  then have "map digit_char (replicate (8 - length ?ds) 0 @ ?ds) =
      map digit_char (map (\<lambda>k. unat a div 16 ^ (7 - k) mod 16) [0..<8])" by (rule arg_cong)
  moreover have "vformat ''%08x'' [a] = replicate (8 - length ?ds) 48 @ map digit_char ?ds"
    by (simp add: skip_zero_flag_def is_digit_def width_value_def conv_text_def pad_field_def Let_def)
  moreover have "digit_char 0 = 48" by (simp add: digit_char_def)
  ultimately show ?thesis by (simp add: comp_def)
qed

lemma nibble_part:
  fixes a :: u32
  assumes "\<And>j. j < 32 \<Longrightarrow> bit r (lo + j) = bit a j" and "k \<le> 7"
  shows "nibble (lo + 28 - 4 * k) r = unat a div 16 ^ (7 - k) mod 16"
proof -
  let ?j = "28 - 4 * k"
  have "unat x < 2 ^ LENGTH(97)" for x :: u32
    by (rule order.strict_trans2 [OF unsigned_less]) simp
  then have len97: "take_bit LENGTH(97) (unat x) = unat x" for x :: u32 by (rule take_bit_nat_eq_self)
  have l: "lo + 28 - 4 * k = lo + ?j" using assms(2) by simp
  have "(take_bit 4 (drop_bit (lo + ?j) r) :: rec_word) = ucast (take_bit 4 (drop_bit ?j a))"
  proof (rule bit_word_eqI)
    fix n assume "n < LENGTH(97)"
    show "bit (take_bit 4 (drop_bit (lo + ?j) r)) n = bit (ucast (take_bit 4 (drop_bit ?j a)) :: rec_word) n"
      using assms(1) [of "?j + n"] assms(2) \<open>n < LENGTH(97)\<close>
      by (cases "n < 4") (auto simp: bit_simps add.assoc)
  qed
  then have "nibble (lo + 28 - 4 * k) r = unat (take_bit 4 (drop_bit ?j a))"
    unfolding nibble_def l by (simp only: unsigned_ucast_eq len97)
  moreover have "(2 :: nat) ^ ?j = 16 ^ (7 - k)"
  proof -
    have "?j = 4 * (7 - k)" using assms(2) by simp
    then show ?thesis by (simp only: power_mult) simp
  qed
  moreover have "unat (take_bit 4 (drop_bit ?j a)) = take_bit 4 (drop_bit ?j (unat a))"
    by (simp only: unsigned_take_bit_eq unat_drop_bit_eq)
  ultimately show ?thesis by (simp only: take_bit_eq_mod drop_bit_eq_div) simp
qed

lemma vformat_hex08_append: "vformat (''%08x'' @ f) (a # args) = vformat ''%08x'' [a] @ vformat f args"
  by (simp add: skip_zero_flag_def is_digit_def width_value_def Let_def)

lemma hex_field:
  assumes "\<And>j. j < 32 \<Longrightarrow> bit r (lo + j) = bit a j" and "\<And>k. k \<le> 7 \<Longrightarrow> f k = hexchar (nibble (lo + 28 - 4 * k) r)"
  shows "map f [0..<8] = vformat ''%08x'' [a]"
proof -
  have "f k = digit_char (unat a div 16 ^ (7 - k) mod 16)" if "k < 8" for k
    using assms(2) [of k] nibble_part [of r lo a k] assms(1) that by (simp add: hexchar_digit)
  then show ?thesis unfolding vformat_hex08 by simp
qed

lemma rec_line_bytes: "rec_line r = map (\<lambda>i. byte_at i r) [0..<Suc last_char]"
proof -
  obtain w c a d where f: "rec_fields r = (w, c, a, d)" by (metis prod.collapse)
  have b: "bit r (64 + j) = bit c j" "bit r (32 + j) = bit a j" "bit r (0 + j) = bit d j" if "j < 32" for j
    using f that by (auto simp: rec_fields_def bit_simps)
  have w: "bit r 96 = w" using f by (simp add: rec_fields_def)
  have up: "[0..<Suc last_char] = [0..<8] @ [8, 9, 10] @ map (\<lambda>k. k + 11) [0..<8] @ [19] @ map (\<lambda>k. k + 20) [0..<8] @ [28, 29]"
    by (simp add: last_char_def upt_rec)
  have "map (\<lambda>i. byte_at i r) [0..<8] = vformat ''%08x'' [c]"
    by (rule hex_field [of r 64]) (simp_all add: b byte_at_def mult.commute)
  moreover have "map (\<lambda>k. byte_at (k + 11) r) [0..<8] = vformat ''%08x'' [a]"
    by (rule hex_field [of r 32]) (simp_all add: b byte_at_def mult.commute)
  moreover have "map (\<lambda>k. byte_at (k + 20) r) [0..<8] = vformat ''%08x'' [d]"
    by (rule hex_field [of r 0]) (use b(3) in \<open>simp_all add: byte_at_def mult.commute\<close>)
  moreover have "map (\<lambda>i. byte_at i r) [8, 9, 10] = [0x20, if w then 0x57 else 0x52, 0x20]"
    by (simp add: byte_at_def w)
  moreover have "byte_at 19 r = 0x20" "map (\<lambda>i. byte_at i r) [28, 29] = [0x0D, 0x0A]"
    by (simp_all add: byte_at_def)
  ultimately have "map (\<lambda>i. byte_at i r) [0..<Suc last_char] =
      vformat ''%08x'' [c] @ [0x20, if w then 0x57 else 0x52, 0x20] @ vformat ''%08x'' [a] @ [0x20] @
      vformat ''%08x'' [d] @ [0x0D, 0x0A]" unfolding up by (simp add: comp_def)
  also have "\<dots> = rec_line r"
  proof -
    let ?x = "if w then CHR ''W'' else CHR ''R''"
    have g: "''%08x '' @ (if w then ''W'' else ''R'') @ '' %08x %08x'' @ [CHR 0x0D, CHR 0x0A] =
        ''%08x'' @ CHR '' '' # ?x # CHR '' '' # ''%08x'' @ CHR '' '' # ''%08x'' @ [CHR 0x0D, CHR 0x0A]" by simp
    have v: "vformat (CHR '' '' # f) args = 0x20 # vformat f args"
      "vformat (?x # f) args = (if w then 0x57 else 0x52) # vformat f args"
      "vformat [CHR 0x0D, CHR 0x0A] args = [0x0D, 0x0A]" for f args
      by simp_all
    show ?thesis unfolding rec_line_def f prod.case g vformat_hex08_append v by (simp only: append_Cons append_Nil append.assoc)
  qed
  finally show ?thesis by simp
qed

text \<open>The fields of a packed record, and the packed word as a number.\<close>

lemma bit_rec_pack:
  assumes "j < 32"
  shows "bit (rec_pack w c a d) (64 + j) = bit c j" and "bit (rec_pack w c a d) (32 + j) = bit a j"
    and "bit (rec_pack w c a d) (0 + j) = bit d j" and "bit (rec_pack w c a d) 96 = w"
  using assms by (auto simp: rec_pack_def bit_simps dest: bit_imp_le_length)

lemma rec_pack_fields: "rec_fields (rec_pack w c a d) = (w, c, a, d)"
proof -
  let ?r = "rec_pack w c a d"
  have "ucast (drop_bit 64 ?r) = c" by (rule bit_word_eqI) (simp add: bit_unsigned_iff bit_drop_bit_eq bit_rec_pack(1))
  moreover have "ucast (drop_bit 32 ?r) = a" by (rule bit_word_eqI) (simp add: bit_unsigned_iff bit_drop_bit_eq bit_rec_pack(2))
  moreover have "ucast ?r = d" by (rule bit_word_eqI) (simp add: bit_unsigned_iff bit_rec_pack(3) [simplified])
  ultimately show ?thesis using bit_rec_pack(4) [of 0 w c a d] by (simp add: rec_fields_def)
qed

lemma rec_pack_sum:
  "rec_pack w c a d = of_bool w * 2 ^ 96 + ucast c * 2 ^ 64 + ucast a * 2 ^ 32 + ucast d"
proof -
  let ?w = "push_bit 96 (of_bool w) :: rec_word" and ?c = "push_bit 64 (ucast c) :: rec_word"
    and ?a = "push_bit 32 (ucast a) :: rec_word" and ?d = "ucast d :: rec_word"
  have "?w + ?c = ?w OR ?c" by (rule disjunctive_add) (auto simp: bit_simps dest: bit_imp_le_length)
  moreover have "(?w OR ?c) + ?a = (?w OR ?c) OR ?a" by (rule disjunctive_add) (auto simp: bit_simps dest: bit_imp_le_length)
  moreover have "((?w OR ?c) OR ?a) + ?d = ((?w OR ?c) OR ?a) OR ?d" by (rule disjunctive_add) (auto simp: bit_simps dest: bit_imp_le_length)
  ultimately show ?thesis by (simp add: rec_pack_def push_bit_eq_mult or.assoc)
qed

subsection \<open>The recorder\<close>

datatype rec_state = S_REC | S_FETCH | S_EMIT

record recorder =
  rc_mem :: "nat \<Rightarrow> rec_word"
  rc_wr_ptr :: nat
  rc_rd_ptr :: nat
  rc_dump_rem :: nat
  rc_cycle :: u32
  rc_dump_prev :: bool
  rc_wrapped :: bool
  rc_state :: rec_state
  rc_reg :: rec_word
  rc_char_idx :: nat

text \<open>The inputs of one cycle.\<close>

record rec_in =
  ri_haddr :: u32
  ri_htrans :: "2 word"
  ri_hwrite :: bool
  ri_hready :: bool
  ri_hwdata :: u32
  ri_dump :: bool
  ri_tx_ready :: bool

definition rec_capture :: "nat \<Rightarrow> rec_in \<Rightarrow> recorder \<Rightarrow> recorder" where
  "rec_capture addr_bits i s =
     (if bit (ri_htrans i) 1 \<and> ri_hready i
      then let s1 = s\<lparr>rc_mem := (rc_mem s)(rc_wr_ptr s := rec_pack (ri_hwrite i) (rc_cycle s) (ri_haddr i) (ri_hwdata i))\<rparr>
           in if rc_wr_ptr s = 2 ^ addr_bits - 1 then s1\<lparr>rc_wr_ptr := 0, rc_wrapped := True\<rparr>
              else s1\<lparr>rc_wr_ptr := rc_wr_ptr s + 1\<rparr>
      else s)"

text \<open>
  One cycle without reset. As in the process, every right-hand side reads the registers of before the
  clock edge.
\<close>

definition rec_next :: "nat \<Rightarrow> bool \<Rightarrow> rec_in \<Rightarrow> recorder \<Rightarrow> recorder" where
  "rec_next addr_bits rstn i s =
     (if \<not> rstn
      then s\<lparr>rc_wr_ptr := 0, rc_rd_ptr := 0, rc_dump_rem := 0, rc_cycle := 0, rc_dump_prev := False,
             rc_wrapped := False, rc_char_idx := 0, rc_state := S_REC\<rparr>
      else
        (case rc_state s of
           S_REC \<Rightarrow>
             let s1 = rec_capture addr_bits i s
             in if ri_dump i \<and> \<not> rc_dump_prev s
                then if rc_wrapped s
                     then s1\<lparr>rc_rd_ptr := rc_wr_ptr s, rc_dump_rem := 2 ^ addr_bits, rc_state := S_FETCH\<rparr>
                     else s1\<lparr>rc_rd_ptr := 0, rc_dump_rem := rc_wr_ptr s, rc_state := S_FETCH\<rparr>
                else s1
         | S_FETCH \<Rightarrow>
             if rc_dump_rem s = 0 then s\<lparr>rc_state := S_REC\<rparr>
             else s\<lparr>rc_reg := rc_mem s (rc_rd_ptr s), rc_char_idx := 0, rc_state := S_EMIT\<rparr>
         | S_EMIT \<Rightarrow>
             if ri_tx_ready i
             then if rc_char_idx s = last_char
                  then s\<lparr>rc_rd_ptr := (rc_rd_ptr s + 1) mod 2 ^ addr_bits, rc_dump_rem := rc_dump_rem s - 1,
                         rc_state := S_FETCH\<rparr>
                  else s\<lparr>rc_char_idx := rc_char_idx s + 1\<rparr>
             else s)\<lparr>rc_cycle := rc_cycle s + 1, rc_dump_prev := ri_dump i\<rparr>)"

definition rec_tx_valid :: "recorder \<Rightarrow> bool" where
  "rec_tx_valid s \<longleftrightarrow> rc_state s = S_EMIT"

definition rec_tx_data :: "recorder \<Rightarrow> u8" where
  "rec_tx_data s = byte_at (rc_char_idx s) (rc_reg s)"

text \<open>A run without reset, and the bytes taken from it: those of the cycles in which both sides are ready.\<close>

primrec rec_run :: "nat \<Rightarrow> (nat \<Rightarrow> rec_in) \<Rightarrow> recorder \<Rightarrow> nat \<Rightarrow> recorder" where
  "rec_run A ins s 0 = s"
| "rec_run A ins s (Suc t) = rec_next A True (ins t) (rec_run A ins s t)"

primrec rec_out :: "nat \<Rightarrow> (nat \<Rightarrow> rec_in) \<Rightarrow> recorder \<Rightarrow> nat \<Rightarrow> u8 list" where
  "rec_out A ins s 0 = []"
| "rec_out A ins s (Suc t) =
     rec_out A ins s t @
       (if rec_tx_valid (rec_run A ins s t) \<and> ri_tx_ready (ins t) then [rec_tx_data (rec_run A ins s t)] else [])"

subsection \<open>The window\<close>

text \<open>The records in the memory, oldest first.\<close>

definition rec_window :: "nat \<Rightarrow> recorder \<Rightarrow> rec_word list" where
  "rec_window A s = map (rc_mem s) (if rc_wrapped s then [rc_wr_ptr s..<2 ^ A] @ [0..<rc_wr_ptr s] else [0..<rc_wr_ptr s])"

definition keep_last :: "nat \<Rightarrow> 'a list \<Rightarrow> 'a list" where
  "keep_last n xs = drop (length xs - n) xs"

lemma keep_last_append: "keep_last n (keep_last n xs @ ys) = keep_last n (xs @ ys)"
proof (cases "length xs \<le> n")
  case False
  then have "length xs - (length xs - n) = n" by simp
  with False show ?thesis by (simp add: keep_last_def) (simp add: add.commute)
qed (simp add: keep_last_def)

text \<open>The record of an accepted transfer, in the state in which it is captured.\<close>

definition rec_accepts :: "rec_in \<Rightarrow> recorder \<Rightarrow> bool" where
  "rec_accepts i s \<longleftrightarrow> rc_state s = S_REC \<and> bit (ri_htrans i) 1 \<and> ri_hready i"

definition rec_new :: "rec_in \<Rightarrow> recorder \<Rightarrow> rec_word" where
  "rec_new i s =
     of_bool (ri_hwrite i) * 2 ^ 96 + ucast (rc_cycle s) * 2 ^ 64 + ucast (ri_haddr i) * 2 ^ 32 + ucast (ri_hwdata i)"

lemmas rec_new_pack = rec_new_def [folded rec_pack_sum]

primrec rec_hist :: "nat \<Rightarrow> (nat \<Rightarrow> rec_in) \<Rightarrow> recorder \<Rightarrow> nat \<Rightarrow> rec_word list" where
  "rec_hist A ins s 0 = []"
| "rec_hist A ins s (Suc t) =
     rec_hist A ins s t @ (if rec_accepts (ins t) (rec_run A ins s t) then [rec_new (ins t) (rec_run A ins s t)] else [])"

lemma rec_capture_frame [simp]:
  "rc_state (rec_capture A i s) = rc_state s" "rc_rd_ptr (rec_capture A i s) = rc_rd_ptr s"
  "rc_dump_rem (rec_capture A i s) = rc_dump_rem s" "rc_reg (rec_capture A i s) = rc_reg s"
  "rc_char_idx (rec_capture A i s) = rc_char_idx s" "rc_cycle (rec_capture A i s) = rc_cycle s"
  by (simp_all add: rec_capture_def Let_def)

lemma rec_capture_window:
  assumes "rc_wr_ptr s < 2 ^ A" and "rc_state s = S_REC"
  shows "rec_window A (rec_capture A i s) =
           keep_last (2 ^ A) (rec_window A s @ (if rec_accepts i s then [rec_new i s] else []))"
    and "rc_wr_ptr (rec_capture A i s) < 2 ^ A"
proof -
  let ?w = "rc_wr_ptr s" and ?n = "2 ^ A :: nat"
  show "rc_wr_ptr (rec_capture A i s) < 2 ^ A" using assms(1) by (auto simp: rec_capture_def Let_def)
  have len: "length (rec_window A s) = (if rc_wrapped s then ?n else ?w)" using assms(1) by (simp add: rec_window_def)
  show "rec_window A (rec_capture A i s) =
          keep_last ?n (rec_window A s @ (if rec_accepts i s then [rec_new i s] else []))"
  proof (cases "rec_accepts i s")
    case False
    then have "rec_capture A i s = s" using assms(2) by (auto simp: rec_accepts_def rec_capture_def)
    with False assms(1) len show ?thesis by (simp add: keep_last_def)
  next
    case True
    let ?m = "(rc_mem s)(?w := rec_new i s)"
    have c: "rec_capture A i s = (if ?w = ?n - 1 then s\<lparr>rc_mem := ?m, rc_wr_ptr := 0, rc_wrapped := True\<rparr>
        else s\<lparr>rc_mem := ?m, rc_wr_ptr := ?w + 1\<rparr>)"
      using True by (simp add: rec_accepts_def rec_capture_def rec_new_pack Let_def)
    have lo: "map ?m [0..<?w] = map (rc_mem s) [0..<?w]" by simp
    have hi: "map ?m [Suc ?w..<?n] = map (rc_mem s) [Suc ?w..<?n]" by simp
    have up: "[?w..<?n] = ?w # [Suc ?w..<?n]" using assms(1) by (rule upt_conv_Cons)
    have end_: "?w = ?n - 1 \<Longrightarrow> [Suc ?w..<?n] = [] \<and> [0..<?n] = [0..<?w] @ [?w]"
      using assms(1) by (metis Suc_pred' less_nat_zero_code not_gr_zero upt_Suc_append upt_conv_Nil zero_le order_refl)
    show ?thesis
      using True assms(1) lo hi end_ len up
      by (auto simp: c rec_window_def keep_last_def)
  qed
qed

lemma rec_window_frame [simp]:
  "rec_window A (s\<lparr>rc_cycle := c\<rparr>) = rec_window A s" "rec_window A (s\<lparr>rc_dump_prev := d\<rparr>) = rec_window A s"
  "rec_window A (s\<lparr>rc_rd_ptr := p\<rparr>) = rec_window A s" "rec_window A (s\<lparr>rc_dump_rem := m\<rparr>) = rec_window A s"
  "rec_window A (s\<lparr>rc_state := st\<rparr>) = rec_window A s" "rec_window A (s\<lparr>rc_reg := r\<rparr>) = rec_window A s"
  "rec_window A (s\<lparr>rc_char_idx := k\<rparr>) = rec_window A s"
  by (simp_all add: rec_window_def)

lemma rec_next_window:
  assumes "rc_wr_ptr s < 2 ^ A"
  shows "rec_window A (rec_next A True i s) =
           keep_last (2 ^ A) (rec_window A s @ (if rec_accepts i s then [rec_new i s] else []))"
    and "rc_wr_ptr (rec_next A True i s) < 2 ^ A"
proof -
  have "length (rec_window A s) \<le> 2 ^ A" using assms by (simp add: rec_window_def)
  then have k: "keep_last (2 ^ A) (rec_window A s) = rec_window A s" by (simp add: keep_last_def)
  show "rec_window A (rec_next A True i s) =
          keep_last (2 ^ A) (rec_window A s @ (if rec_accepts i s then [rec_new i s] else []))"
    using rec_capture_window(1) [OF assms, of i] k
    by (cases "rc_state s") (simp_all add: rec_next_def rec_accepts_def Let_def)
  show "rc_wr_ptr (rec_next A True i s) < 2 ^ A"
    using rec_capture_window(2) [OF assms, of i] assms
    by (cases "rc_state s") (simp_all add: rec_next_def Let_def)
qed

lemma rec_run_wr: "rc_wr_ptr s < 2 ^ A \<Longrightarrow> rc_wr_ptr (rec_run A ins s t) < 2 ^ A"
  by (induction t) (simp_all add: rec_next_window(2))

lemma rec_run_window:
  assumes "rc_wr_ptr s < 2 ^ A"
  shows "rec_window A (rec_run A ins s t) = keep_last (2 ^ A) (rec_window A s @ rec_hist A ins s t)"
proof (induction t)
  case 0
  have "length (rec_window A s) \<le> 2 ^ A" using assms by (simp add: rec_window_def)
  then show ?case by (simp add: keep_last_def)
next
  case (Suc t)
  then show ?case
    using rec_next_window(1) [OF rec_run_wr [OF assms], of "ins t" ins t]
    by (simp add: keep_last_append)
qed

subsection \<open>Streaming the window out\<close>

text \<open>What a dump does not touch.\<close>

definition same_buf :: "recorder \<Rightarrow> recorder \<Rightarrow> bool" where
  "same_buf s s' \<longleftrightarrow> rc_mem s' = rc_mem s \<and> rc_wr_ptr s' = rc_wr_ptr s \<and> rc_wrapped s' = rc_wrapped s"

lemma same_buf_refl [simp]: "same_buf s s"
  by (simp add: same_buf_def)

lemma same_buf_trans: "same_buf s s' \<Longrightarrow> same_buf s' s'' \<Longrightarrow> same_buf s s''"
  by (simp add: same_buf_def)

lemma same_buf_window: "same_buf s s' \<Longrightarrow> rec_window A s' = rec_window A s"
  by (simp add: same_buf_def rec_window_def)

lemma emit_stalls:
  assumes "rc_state s = S_EMIT" and "\<not> ri_tx_ready i"
  shows "same_buf s (rec_next A True i s)" and "rc_state (rec_next A True i s) = S_EMIT"
    and "rc_rd_ptr (rec_next A True i s) = rc_rd_ptr s" and "rc_dump_rem (rec_next A True i s) = rc_dump_rem s"
    and "rc_reg (rec_next A True i s) = rc_reg s" and "rc_char_idx (rec_next A True i s) = rc_char_idx s"
  using assms by (simp_all add: rec_next_def same_buf_def)

lemma emit_next:
  assumes "rc_state s = S_EMIT" and "ri_tx_ready i" and "rc_char_idx s < last_char"
  shows "same_buf s (rec_next A True i s)" and "rc_state (rec_next A True i s) = S_EMIT"
    and "rc_rd_ptr (rec_next A True i s) = rc_rd_ptr s" and "rc_dump_rem (rec_next A True i s) = rc_dump_rem s"
    and "rc_reg (rec_next A True i s) = rc_reg s" and "rc_char_idx (rec_next A True i s) = Suc (rc_char_idx s)"
  using assms by (simp_all add: rec_next_def same_buf_def)

lemma emit_last:
  assumes "rc_state s = S_EMIT" and "ri_tx_ready i" and "rc_char_idx s = last_char"
  shows "same_buf s (rec_next A True i s)" and "rc_state (rec_next A True i s) = S_FETCH"
    and "rc_rd_ptr (rec_next A True i s) = (rc_rd_ptr s + 1) mod 2 ^ A"
    and "rc_dump_rem (rec_next A True i s) = rc_dump_rem s - 1"
  using assms by (simp_all add: rec_next_def same_buf_def)

lemma fetch_next:
  assumes "rc_state s = S_FETCH" and "rc_dump_rem s = Suc m"
  shows "same_buf s (rec_next A True i s)" and "rc_state (rec_next A True i s) = S_EMIT"
    and "rc_rd_ptr (rec_next A True i s) = rc_rd_ptr s" and "rc_dump_rem (rec_next A True i s) = rc_dump_rem s"
    and "rc_reg (rec_next A True i s) = rc_mem s (rc_rd_ptr s)" and "rc_char_idx (rec_next A True i s) = 0"
  using assms by (simp_all add: rec_next_def same_buf_def)

lemma fetch_done:
  assumes "rc_state s = S_FETCH" and "rc_dump_rem s = 0"
  shows "same_buf s (rec_next A True i s)" and "rc_state (rec_next A True i s) = S_REC"
  using assms by (simp_all add: rec_next_def same_buf_def)

text \<open>Until the consumer is ready nothing moves.\<close>

lemma emit_waits:
  assumes "rc_state (rec_run A ins s t) = S_EMIT" and "\<forall>v < u. \<not> ri_tx_ready (ins (t + v))"
  shows "same_buf (rec_run A ins s t) (rec_run A ins s (t + u)) \<and> rc_state (rec_run A ins s (t + u)) = S_EMIT \<and>
         rc_rd_ptr (rec_run A ins s (t + u)) = rc_rd_ptr (rec_run A ins s t) \<and>
         rc_dump_rem (rec_run A ins s (t + u)) = rc_dump_rem (rec_run A ins s t) \<and>
         rc_reg (rec_run A ins s (t + u)) = rc_reg (rec_run A ins s t) \<and>
         rc_char_idx (rec_run A ins s (t + u)) = rc_char_idx (rec_run A ins s t) \<and>
         rec_out A ins s (t + u) = rec_out A ins s t"
  using assms(2)
proof (induction u)
  case (Suc u)
  then have IH: "same_buf (rec_run A ins s t) (rec_run A ins s (t + u))" "rc_state (rec_run A ins s (t + u)) = S_EMIT"
    "rc_rd_ptr (rec_run A ins s (t + u)) = rc_rd_ptr (rec_run A ins s t)"
    "rc_dump_rem (rec_run A ins s (t + u)) = rc_dump_rem (rec_run A ins s t)"
    "rc_reg (rec_run A ins s (t + u)) = rc_reg (rec_run A ins s t)"
    "rc_char_idx (rec_run A ins s (t + u)) = rc_char_idx (rec_run A ins s t)"
    "rec_out A ins s (t + u) = rec_out A ins s t" and n: "\<not> ri_tx_ready (ins (t + u))" by simp_all
  note e = emit_stalls [OF IH(2) n, of A]
  show ?case using same_buf_trans [OF IH(1) e(1)] e(2-6) IH n by simp
qed (use assms(1) in simp)

lemma first_ready:
  fixes ins :: "nat \<Rightarrow> rec_in" and t W :: nat
  assumes "\<exists>u \<le> W. ri_tx_ready (ins (t + u))"
  obtains u where "u \<le> W" and "ri_tx_ready (ins (t + u))" and "\<forall>v < u. \<not> ri_tx_ready (ins (t + v))"
proof -
  let ?P = "\<lambda>u. ri_tx_ready (ins (t + u))"
  obtain w where w: "w \<le> W" "?P w" using assms by blast
  have "?P (LEAST u. ?P u)" by (rule LeastI) (rule w(2))
  moreover have "(LEAST u. ?P u) \<le> W" using Least_le [of ?P w] w by simp
  moreover have "\<forall>v < (LEAST u. ?P u). \<not> ?P v" by (blast dest: not_less_Least)
  ultimately show thesis by (intro that)
qed

lemma emit_one:
  assumes "\<exists>u \<le> W. ri_tx_ready (ins (t + u))" and "rc_state (rec_run A ins s t) = S_EMIT"
  obtains u r where "u \<le> W" and "r = rec_run A ins s (t + u)" and "ri_tx_ready (ins (t + u))"
    and "same_buf (rec_run A ins s t) r" and "rc_state r = S_EMIT" and "rc_rd_ptr r = rc_rd_ptr (rec_run A ins s t)"
    and "rc_dump_rem r = rc_dump_rem (rec_run A ins s t)" and "rc_reg r = rc_reg (rec_run A ins s t)"
    and "rc_char_idx r = rc_char_idx (rec_run A ins s t)"
    and "rec_out A ins s (Suc (t + u)) = rec_out A ins s t @ [byte_at (rc_char_idx r) (rc_reg r)]"
proof -
  obtain u where u: "u \<le> W" "ri_tx_ready (ins (t + u))" "\<forall>v < u. \<not> ri_tx_ready (ins (t + v))"
    using first_ready [OF assms(1)] by blast
  from emit_waits [OF assms(2) u(3)] u show thesis
    by (intro that [of u "rec_run A ins s (t + u)"]) (simp_all add: rec_tx_valid_def rec_tx_data_def)
qed

lemma emit_line:
  assumes ready: "\<And>t. \<exists>u \<le> W. ri_tx_ready (ins (t + u))"
    and "rc_state (rec_run A ins s t) = S_EMIT" and "rc_char_idx (rec_run A ins s t) + k = last_char"
  shows "\<exists>T. t < T \<and> T \<le> t + Suc k * Suc W \<and> same_buf (rec_run A ins s t) (rec_run A ins s T) \<and>
           rc_state (rec_run A ins s T) = S_FETCH \<and>
           rc_rd_ptr (rec_run A ins s T) = (rc_rd_ptr (rec_run A ins s t) + 1) mod 2 ^ A \<and>
           rc_dump_rem (rec_run A ins s T) = rc_dump_rem (rec_run A ins s t) - 1 \<and>
           rec_out A ins s T = rec_out A ins s t @
             map (\<lambda>i. byte_at i (rc_reg (rec_run A ins s t))) [rc_char_idx (rec_run A ins s t)..<Suc last_char]"
  using assms(2,3)
proof (induction k arbitrary: t)
  case 0
  obtain u r where u: "u \<le> W" "r = rec_run A ins s (t + u)" "ri_tx_ready (ins (t + u))"
    "same_buf (rec_run A ins s t) r" "rc_state r = S_EMIT" "rc_rd_ptr r = rc_rd_ptr (rec_run A ins s t)"
    "rc_dump_rem r = rc_dump_rem (rec_run A ins s t)" "rc_reg r = rc_reg (rec_run A ins s t)"
    "rc_char_idx r = rc_char_idx (rec_run A ins s t)"
    "rec_out A ins s (Suc (t + u)) = rec_out A ins s t @ [byte_at (rc_char_idx r) (rc_reg r)]"
    using emit_one [OF ready 0(1)] by metis
  from u(9) 0(2) have l: "rc_char_idx r = last_char" by simp
  note e = emit_last [OF u(5,3) l, of A]
  have n: "rec_run A ins s (Suc (t + u)) = rec_next A True (ins (t + u)) r" by (simp add: u(2))
  show ?case
    using same_buf_trans [OF u(4) e(1)] e(2-4) u l
    by (intro exI [of _ "Suc (t + u)"]) (simp add: n last_char_def del: rec_run.simps rec_out.simps)
next
  case (Suc k)
  obtain u r where u: "u \<le> W" "r = rec_run A ins s (t + u)" "ri_tx_ready (ins (t + u))"
    "same_buf (rec_run A ins s t) r" "rc_state r = S_EMIT" "rc_rd_ptr r = rc_rd_ptr (rec_run A ins s t)"
    "rc_dump_rem r = rc_dump_rem (rec_run A ins s t)" "rc_reg r = rc_reg (rec_run A ins s t)"
    "rc_char_idx r = rc_char_idx (rec_run A ins s t)"
    "rec_out A ins s (Suc (t + u)) = rec_out A ins s t @ [byte_at (rc_char_idx r) (rc_reg r)]"
    using emit_one [OF ready Suc(2)] by metis
  from u(9) Suc(3) have l: "rc_char_idx r < last_char" by simp
  note e = emit_next [OF u(5,3) l, of A]
  let ?t = "Suc (t + u)" and ?i = "rc_char_idx (rec_run A ins s t)"
  have n: "rec_run A ins s ?t = rec_next A True (ins (t + u)) r" by (simp add: u(2))
  have "rc_state (rec_run A ins s ?t) = S_EMIT" and "rc_char_idx (rec_run A ins s ?t) + k = last_char"
    unfolding n e(2,6) u(9) using Suc(3) by simp_all
  from Suc.IH [OF this] obtain T where T: "?t < T" "T \<le> ?t + Suc k * Suc W"
    "same_buf (rec_run A ins s ?t) (rec_run A ins s T)" "rc_state (rec_run A ins s T) = S_FETCH"
    "rc_rd_ptr (rec_run A ins s T) = (rc_rd_ptr (rec_run A ins s ?t) + 1) mod 2 ^ A"
    "rc_dump_rem (rec_run A ins s T) = rc_dump_rem (rec_run A ins s ?t) - 1"
    "rec_out A ins s T = rec_out A ins s ?t @
      map (\<lambda>i. byte_at i (rc_reg (rec_run A ins s ?t))) [rc_char_idx (rec_run A ins s ?t)..<Suc last_char]" by blast
  have "[?i..<Suc last_char] = ?i # [Suc ?i..<Suc last_char]" by (rule upt_conv_Cons) (use l u(9) in simp)
  then have "rec_out A ins s T = rec_out A ins s t @ map (\<lambda>i. byte_at i (rc_reg (rec_run A ins s t))) [?i..<Suc last_char]"
    unfolding T(7) u(10) n e(5,6) u(8,9) by simp
  moreover have "same_buf (rec_run A ins s t) (rec_run A ins s T)"
    using same_buf_trans [OF same_buf_trans [OF u(4) e(1)]] T(3) unfolding n by blast
  moreover have "T \<le> t + Suc (Suc k) * Suc W" using T(2) u(1) by simp
  ultimately show ?case
    using T(1,4-6) unfolding n e(3,4) u(6,7) by (intro exI [of _ T]) simp
qed

lemma dump_loop:
  assumes ready: "\<And>t. \<exists>u \<le> W. ri_tx_ready (ins (t + u))"
    and "rc_state (rec_run A ins s t) = S_FETCH" and "rc_dump_rem (rec_run A ins s t) = m"
    and "rc_rd_ptr (rec_run A ins s t) < 2 ^ A"
  shows "\<exists>T. t < T \<and> T \<le> t + m * (30 * Suc W + 1) + 1 \<and> same_buf (rec_run A ins s t) (rec_run A ins s T) \<and>
           rc_state (rec_run A ins s T) = S_REC \<and>
           rec_out A ins s T = rec_out A ins s t @
             concat (map (\<lambda>i. rec_line (rc_mem (rec_run A ins s t) ((rc_rd_ptr (rec_run A ins s t) + i) mod 2 ^ A))) [0..<m])"
  using assms(2-4)
proof (induction m arbitrary: t)
  case 0
  note e = fetch_done [OF 0(1,2), of A "ins t"]
  show ?case using e 0 by (intro exI [of _ "Suc t"]) (simp add: rec_tx_valid_def)
next
  case (Suc m)
  let ?r = "rec_run A ins s t"
  note e = fetch_next [OF Suc(2,3), of A "ins t"]
  have n: "rec_run A ins s (Suc t) = rec_next A True (ins t) ?r" by simp
  have out: "rec_out A ins s (Suc t) = rec_out A ins s t" using Suc(2) by (simp add: rec_tx_valid_def)
  have "rc_state (rec_run A ins s (Suc t)) = S_EMIT" "rc_char_idx (rec_run A ins s (Suc t)) + 29 = last_char"
    unfolding n e(2,6) by (simp_all add: last_char_def)
  from emit_line [OF ready this] obtain T where T: "Suc t < T" "T \<le> Suc t + 30 * Suc W"
    "same_buf (rec_run A ins s (Suc t)) (rec_run A ins s T)" "rc_state (rec_run A ins s T) = S_FETCH"
    "rc_rd_ptr (rec_run A ins s T) = (rc_rd_ptr ?r + 1) mod 2 ^ A" "rc_dump_rem (rec_run A ins s T) = m"
    "rec_out A ins s T = rec_out A ins s t @ rec_line (rc_mem ?r (rc_rd_ptr ?r))"
    unfolding n e(3-6) out Suc(3) rec_line_bytes by auto
  have p: "rc_rd_ptr (rec_run A ins s T) < 2 ^ A" by (simp add: T(5))
  from Suc.IH [OF T(4,6) p] obtain T' where T': "T < T'" "T' \<le> T + m * (30 * Suc W + 1) + 1"
    "same_buf (rec_run A ins s T) (rec_run A ins s T')" "rc_state (rec_run A ins s T') = S_REC"
    "rec_out A ins s T' = rec_out A ins s T @
      concat (map (\<lambda>i. rec_line (rc_mem (rec_run A ins s T) ((rc_rd_ptr (rec_run A ins s T) + i) mod 2 ^ A))) [0..<m])"
    by blast
  have sb: "same_buf ?r (rec_run A ins s T)" using same_buf_trans [OF e(1)] T(3) unfolding n by blast
  then have mem: "rc_mem (rec_run A ins s T) = rc_mem ?r" by (simp add: same_buf_def)
  have idx: "((rc_rd_ptr ?r + 1) mod 2 ^ A + i) mod 2 ^ A = (rc_rd_ptr ?r + Suc i) mod 2 ^ A" for i
    by (simp add: mod_add_left_eq)
  have "[0..<Suc m] = 0 # map Suc [0..<m]" by (simp only: map_Suc_upt upt_conv_Cons)
  then have "rec_out A ins s T' = rec_out A ins s t @
      concat (map (\<lambda>i. rec_line (rc_mem ?r ((rc_rd_ptr ?r + i) mod 2 ^ A))) [0..<Suc m])"
    unfolding T'(5) T(7) mem T(5) idx using Suc(4) by (simp add: comp_def del: upt_Suc)
  moreover have "same_buf ?r (rec_run A ins s T')" by (rule same_buf_trans [OF sb T'(3)])
  moreover have "T' \<le> t + Suc m * (30 * Suc W + 1) + 1" using T'(2) T(2) by simp
  ultimately show ?case using T'(1,4) T(1) by (intro exI [of _ T']) simp
qed

subsection \<open>A dump\<close>

lemma window_mod:
  assumes "rc_wr_ptr s < 2 ^ A" and "rc_wrapped s"
  shows "rec_window A s = map (\<lambda>i. rc_mem s ((rc_wr_ptr s + i) mod 2 ^ A)) [0..<2 ^ A]"
proof -
  let ?n = "2 ^ A :: nat" and ?w = "rc_wr_ptr s"
  have "map (\<lambda>i. (?w + i) mod ?n) [0..<?n] = [?w..<?n] @ [0..<?w]"
  proof (rule nth_equalityI)
    show "length (map (\<lambda>i. (?w + i) mod ?n) [0..<?n]) = length ([?w..<?n] @ [0..<?w])" using assms(1) by simp
  next
    fix i assume "i < length (map (\<lambda>i. (?w + i) mod ?n) [0..<?n])"
    then have i: "i < ?n" by simp
    show "map (\<lambda>i. (?w + i) mod ?n) [0..<?n] ! i = ([?w..<?n] @ [0..<?w]) ! i"
    proof (cases "?w + i < ?n")
      case True
      then have "i < ?n - ?w" by simp
      with True i show ?thesis by (simp add: nth_append)
    next
      case False
      then have "(?w + i) mod ?n = ?w + i - ?n" using i assms(1) by (simp add: mod_if)
      moreover have "\<not> i < ?n - ?w" using False by simp
      ultimately show ?thesis using False i assms(1) by (simp add: nth_append add.commute)
    qed
  qed
  then have "map (rc_mem s) (map (\<lambda>i. (?w + i) mod ?n) [0..<?n]) = map (rc_mem s) ([?w..<?n] @ [0..<?w])" by simp
  then show ?thesis using assms(2) by (simp add: rec_window_def comp_def)
qed

text \<open>The records that a dump requested in state \<open>s\<close> with the inputs \<open>i\<close> prints.\<close>

definition dump_records :: "nat \<Rightarrow> rec_in \<Rightarrow> recorder \<Rightarrow> rec_word list" where
  "dump_records A i s =
     (if rec_accepts i s \<and> rc_wrapped s then rec_new i s # tl (rec_window A s) else rec_window A s)"

lemma dump_text:
  assumes ready: "\<And>t. \<exists>u \<le> W. ri_tx_ready (ins (t + u))"
    and s: "rc_state s = S_REC" "rc_wr_ptr s < 2 ^ A" "\<not> rc_dump_prev s" and d: "ri_dump (ins 0)"
  shows "\<exists>T. T \<le> length (rec_window A s) * (30 * Suc W + 1) + 2 \<and> rc_state (rec_run A ins s T) = S_REC \<and>
           rec_window A (rec_run A ins s T) =
             keep_last (2 ^ A) (rec_window A s @ (if rec_accepts (ins 0) s then [rec_new (ins 0) s] else [])) \<and>
           rec_out A ins s T = concat (map rec_line (dump_records A (ins 0) s))"
proof -
  let ?r = "rec_run A ins s 1" and ?c = "rec_capture A (ins 0) s" and ?n = "2 ^ A :: nat"
  let ?p = "if rc_wrapped s then rc_wr_ptr s else 0" and ?m = "if rc_wrapped s then ?n else rc_wr_ptr s"
  have r: "?r = ?c\<lparr>rc_rd_ptr := ?p, rc_dump_rem := ?m, rc_state := S_FETCH, rc_cycle := rc_cycle ?c + 1,
                   rc_dump_prev := True\<rparr>"
    using s d by (simp add: rec_next_def Let_def)
  have f: "rc_state ?r = S_FETCH" "rc_dump_rem ?r = ?m" "rc_rd_ptr ?r = ?p" "rc_mem ?r = rc_mem ?c"
    unfolding r by simp_all
  have p: "rc_rd_ptr ?r < ?n" unfolding f(3) using s(2) by simp
  from dump_loop [OF ready f(1,2) p] obtain T where T: "1 < T" "T \<le> 1 + ?m * (30 * Suc W + 1) + 1"
    "same_buf ?r (rec_run A ins s T)" "rc_state (rec_run A ins s T) = S_REC"
    "rec_out A ins s T = rec_out A ins s 1 @ concat (map (\<lambda>i. rec_line (rc_mem ?c ((?p + i) mod ?n))) [0..<?m])"
    unfolding f(3,4) by blast
  have o: "rec_out A ins s 1 = []" using s(1) by (simp add: rec_tx_valid_def)
  have mem: "rc_mem ?c = (if rec_accepts (ins 0) s then (rc_mem s)(rc_wr_ptr s := rec_new (ins 0) s) else rc_mem s)"
    using s(1) by (simp add: rec_capture_def rec_accepts_def rec_new_pack Let_def)
  have "map (\<lambda>i. rc_mem ?c ((?p + i) mod ?n)) [0..<?m] = dump_records A (ins 0) s"
  proof (cases "rc_wrapped s")
    case False
    have "rc_mem ?c i = rc_mem s i" if "i < rc_wr_ptr s" for i using that by (simp add: mem)
    with False s(2) show ?thesis by (simp add: dump_records_def rec_window_def)
  next
    case True
    obtain k where k: "?n = Suc k" by (cases ?n) simp_all
    have up: "[0..<?n] = 0 # map Suc [0..<k]" unfolding k by (simp only: map_Suc_upt upt_conv_Cons)
    have ne: "(rc_wr_ptr s + Suc i) mod ?n \<noteq> rc_wr_ptr s" if "i < k" for i
    proof (cases "rc_wr_ptr s + Suc i < ?n")
      case False
      then have "(rc_wr_ptr s + Suc i) mod ?n = rc_wr_ptr s + Suc i - ?n" using that k s(2) by (simp add: mod_if)
      with False that k show ?thesis by linarith
    qed simp
    let ?tl = "map (\<lambda>i. rc_mem s ((rc_wr_ptr s + Suc i) mod ?n)) [0..<k]"
    have z: "(rc_wr_ptr s + 0) mod ?n = rc_wr_ptr s" using s(2) by simp
    have "map (\<lambda>i. rc_mem ?c ((rc_wr_ptr s + Suc i) mod ?n)) [0..<k] = ?tl"
      by (rule map_cong) (auto simp: mem dest: ne)
    then have "map (\<lambda>i. rc_mem ?c ((rc_wr_ptr s + i) mod ?n)) [0..<?n] = rc_mem ?c (rc_wr_ptr s) # ?tl"
      unfolding up list.map z map_map comp_def by simp
    moreover have "rec_window A s = rc_mem s (rc_wr_ptr s) # ?tl"
      unfolding window_mod [OF s(2) True] up list.map z map_map comp_def by simp
    ultimately show ?thesis using True by (simp add: dump_records_def mem del: upt_Suc)
  qed
  then have "map rec_line (map (\<lambda>i. rc_mem ?c ((?p + i) mod ?n)) [0..<?m]) = map rec_line (dump_records A (ins 0) s)"
    by (rule arg_cong)
  then have "map (\<lambda>i. rec_line (rc_mem ?c ((?p + i) mod ?n))) [0..<?m] = map rec_line (dump_records A (ins 0) s)"
    by (simp only: map_map comp_def)
  moreover have "rec_window A (rec_run A ins s T) =
      keep_last ?n (rec_window A s @ (if rec_accepts (ins 0) s then [rec_new (ins 0) s] else []))"
    using same_buf_window [OF T(3), of A] rec_next_window(1) [OF s(2), of "ins 0"] by simp
  moreover have "?m = length (rec_window A s)" using s(2) by (simp add: rec_window_def)
  ultimately show ?thesis using T(2,4,5) o by (intro exI [of _ T]) simp
qed

subsection \<open>Recorder and transmitter on the board\<close>

text \<open>
  The connection \<open>rec_recorder\<close>, \<open>rec_serializer\<close>: what the recorder offers goes to the transmitter, whose
  \<open>ready\<close> goes back.
\<close>

definition dump_port_step :: "nat \<Rightarrow> nat \<Rightarrow> rec_in \<Rightarrow> recorder \<times> uart_tx \<Rightarrow> recorder \<times> uart_tx" where
  "dump_port_step A dv i p =
     (case p of (s, u) \<Rightarrow>
        (rec_next A True (i\<lparr>ri_tx_ready := uart_tx_ready u\<rparr>) s,
         uart_tx_next dv True (rec_tx_valid s) (rec_tx_data s) u))"

primrec dump_port_run :: "nat \<Rightarrow> nat \<Rightarrow> (nat \<Rightarrow> rec_in) \<Rightarrow> recorder \<times> uart_tx \<Rightarrow> nat \<Rightarrow> recorder \<times> uart_tx" where
  "dump_port_run A dv ins p 0 = p"
| "dump_port_run A dv ins p (Suc t) = dump_port_step A dv (ins t) (dump_port_run A dv ins p t)"

text \<open>Seen from one side, the other one is just its inputs.\<close>

lemma dump_port_split:
  fixes A dv ins s u
  defines "run \<equiv> dump_port_run A dv ins (s, u)"
  shows "fst (run t) = rec_run A (\<lambda>t. (ins t)\<lparr>ri_tx_ready := uart_tx_ready (snd (run t))\<rparr>) s t"
    and "snd (run t) = uart_tx_run dv (\<lambda>t. rec_tx_valid (fst (run t))) (\<lambda>t. rec_tx_data (fst (run t))) u t"
  by (induction t) (simp_all add: run_def dump_port_step_def split_beta)

text \<open>The cycles in which a byte is handed over.\<close>

definition handed :: "nat \<Rightarrow> (nat \<Rightarrow> rec_in) \<Rightarrow> recorder \<Rightarrow> nat \<Rightarrow> nat list" where
  "handed A ins s T = filter (\<lambda>t. rec_tx_valid (rec_run A ins s t) \<and> ri_tx_ready (ins t)) [0..<T]"

lemma rec_out_handed: "rec_out A ins s T = map (\<lambda>t. rec_tx_data (rec_run A ins s t)) (handed A ins s T)"
  by (induction T) (simp_all add: handed_def)

lemma dump_port_on_wire:
  fixes A d ins s u
  defines "run \<equiv> dump_port_run A (Suc d) ins (s, u)"
  assumes u: "uart_tx_ok (Suc d) u" and s: "rc_state s = S_REC" "rc_wr_ptr s < 2 ^ A" "\<not> rc_dump_prev s"
    and req: "ri_dump (ins 0)"
  shows "\<exists>T ts. T \<le> length (rec_window A s) * (30 * (10 * Suc d + 1) + 1) + 2 \<and>
           rc_state (fst (run T)) = S_REC \<and>
           rec_window A (fst (run T)) =
             keep_last (2 ^ A) (rec_window A s @ (if rec_accepts (ins 0) s then [rec_new (ins 0) s] else [])) \<and>
           length ts = length (concat (map rec_line (dump_records A (ins 0) s))) \<and>
           sorted_wrt (\<lambda>a b. a + 10 * Suc d < b) ts \<and>
           (\<forall>i < length ts. ts ! i < T \<and> (\<forall>k < 10 * Suc d.
              uart_tx_line (snd (run (Suc (ts ! i) + k))) =
              frame_bit (concat (map rec_line (dump_records A (ins 0) s)) ! i) (k div Suc d)))"
proof -
  define ins' where "ins' = (\<lambda>t. (ins t)\<lparr>ri_tx_ready := uart_tx_ready (snd (run t))\<rparr>)"
  define vs where "vs = (\<lambda>t. rec_tx_valid (fst (run t)))"
  define ds where "ds = (\<lambda>t. rec_tx_data (fst (run t)))"
  have fst: "fst (run t) = rec_run A ins' s t" and snd: "snd (run t) = uart_tx_run (Suc d) vs ds u t" for t
    unfolding run_def ins'_def vs_def ds_def by (rule dump_port_split)+
  have v: "vs t = rec_tx_valid (rec_run A ins' s t)" for t by (simp add: vs_def fst)
  have i: "ri_tx_ready (ins' t) = uart_tx_ready (snd (run t))" "ri_dump (ins' t) = ri_dump (ins t)" for t
    by (simp_all add: ins'_def)
  have ready: "\<exists>v \<le> 10 * Suc d. ri_tx_ready (ins' (t + v))" for t
    using tx_sink.ready_again [OF u, of vs ds t] unfolding i snd tx_sink_run .
  have acc: "rec_accepts (ins' 0) s = rec_accepts (ins 0) s" "rec_new (ins' 0) s = rec_new (ins 0) s"
    by (simp_all add: rec_accepts_def rec_new_def ins'_def)
  then have rec: "dump_records A (ins' 0) s = dump_records A (ins 0) s" by (simp add: dump_records_def)
  let ?text = "concat (map rec_line (dump_records A (ins 0) s))"
  have "ri_dump (ins' 0)" using req by (simp add: i)
  from dump_text [OF ready s this] obtain T where T: "T \<le> length (rec_window A s) * (30 * Suc (10 * Suc d) + 1) + 2"
    "rc_state (rec_run A ins' s T) = S_REC"
    "rec_window A (rec_run A ins' s T) =
       keep_last (2 ^ A) (rec_window A s @ (if rec_accepts (ins 0) s then [rec_new (ins 0) s] else []))"
    "rec_out A ins' s T = ?text" unfolding acc rec by blast
  define ts where "ts = handed A ins' s T"
  have bytes: "?text = map ds ts" using T(4) by (simp add: rec_out_handed ts_def fst ds_def)
  have t: "t < T" "vs t" "uart_tx_ready (uart_tx_run (Suc d) vs ds u t)" if "t \<in> set ts" for t
    using that by (simp_all add: ts_def handed_def i v snd [symmetric])
  have frame: "sending (Suc d) (ds t) k (snd (run (Suc t + k)))" if "t \<in> set ts" "k < 10 * Suc d" for t k
    unfolding snd by (rule uart_tx_frame(1)) (use t [OF that(1)] that(2) in simp_all)
  have "sorted_wrt (<) ts" by (simp add: ts_def handed_def sorted_wrt_filter)
  then have sorted: "sorted_wrt (\<lambda>a b. a + 10 * Suc d < b) ts"
  proof (rule sorted_wrt_mono_rel [rotated])
    fix a b assume ab: "a \<in> set ts" "b \<in> set ts" "a < b"
    show "a + 10 * Suc d < b"
    proof (rule ccontr)
      assume "\<not> a + 10 * Suc d < b"
      with ab(3) have k: "b - Suc a < 10 * Suc d" "Suc a + (b - Suc a) = b" by simp_all
      from frame [OF ab(1) k(1)] k(2) have "\<not> uart_tx_ready (snd (run b))" by (simp add: sending_def uart_tx_ready_def)
      with t(3) [OF ab(2)] snd show False by simp
    qed
  qed
  have step: "ts ! i < T \<and> (\<forall>k < 10 * Suc d. uart_tx_line (snd (run (Suc (ts ! i) + k))) = frame_bit (?text ! i) (k div Suc d))"
    if "i < length ts" for i
  proof -
    have i: "ts ! i \<in> set ts" using that by simp
    have "uart_tx_line (snd (run (Suc (ts ! i) + k))) = frame_bit (ds (ts ! i)) (k div Suc d)" if "k < 10 * Suc d" for k
      using frame [OF i that] by (simp add: sending_def uart_tx_line_def)
    moreover have "?text ! i = ds (ts ! i)" unfolding bytes by (rule nth_map) (rule that)
    ultimately show ?thesis using t(1) [OF i] by simp
  qed
  have "length ts = length ?text" unfolding bytes by simp
  then show ?thesis
    using T(1-3) sorted fst [of T] step by (intro exI [of _ T] exI [of _ ts]) simp
qed

subsection \<open>Properties\<close>

text \<open>
  C28: From a reset on, in every cycle and whatever happens on the bus, the dump input and the transmitter,
  the memory holds exactly the latest \<open>2 ^ addr_bits\<close> of the transfers that were accepted while the
  recorder was recording, or all of them as long as there are fewer; the number in a record counts the cycles since the
  reset.
\<close>

theorem recorder_keeps_latest:
  assumes "s = rec_next A False i s0"
  shows "rec_window A (rec_run A ins s t) = keep_last (2 ^ A) (rec_hist A ins s t) \<and>
         length (rec_window A (rec_run A ins s t)) = min (2 ^ A) (length (rec_hist A ins s t)) \<and>
         rc_cycle (rec_run A ins s t) = of_nat t"
proof -
  have s: "rc_wr_ptr s < 2 ^ A" "rec_window A s = []" by (simp_all add: assms rec_next_def rec_window_def)
  have "rc_cycle s = 0" by (simp add: assms rec_next_def)
  then have c: "rc_cycle (rec_run A ins s t) = of_nat t" by (induction t) (simp_all add: rec_next_def)
  have "rec_window A (rec_run A ins s t) = keep_last (2 ^ A) (rec_hist A ins s t)"
    using rec_run_window [OF s(1), of ins t] s(2) by simp
  with c show ?thesis by (simp add: keep_last_def)
qed

text \<open>
  C29: A dump, on the wire. With recorder and transmitter connected as on the board, a rising edge of \<open>dump\<close>
  while no transfer is accepted ends in a bounded number of cycles with the recorder recording again and
  the window unchanged, and in between the line has carried frames that do not overlap, one for each
  character of the window's records, oldest first.
\<close>

theorem recorder_dump_on_wire:
  assumes "uart_tx_ok (Suc d) u" and "rc_state s = S_REC" and "rc_wr_ptr s < 2 ^ A" and "\<not> rc_dump_prev s"
    and "ri_dump (ins 0)" and "\<not> rec_accepts (ins 0) s"
  shows "\<exists>T ts. T \<le> length (rec_window A s) * (30 * (10 * Suc d + 1) + 1) + 2 \<and>
           rc_state (fst (dump_port_run A (Suc d) ins (s, u) T)) = S_REC \<and>
           rec_window A (fst (dump_port_run A (Suc d) ins (s, u) T)) = rec_window A s \<and>
           length ts = length (concat (map rec_line (rec_window A s))) \<and>
           sorted_wrt (\<lambda>a b. a + 10 * Suc d < b) ts \<and>
           (\<forall>i < length ts. ts ! i < T \<and> (\<forall>k < 10 * Suc d.
              uart_tx_line (snd (dump_port_run A (Suc d) ins (s, u) (Suc (ts ! i) + k))) =
              frame_bit (concat (map rec_line (rec_window A s)) ! i) (k div Suc d)))"
proof -
  have "length (rec_window A s) \<le> 2 ^ A" using assms(3) by (simp add: rec_window_def)
  then have "keep_last (2 ^ A) (rec_window A s) = rec_window A s" by (simp add: keep_last_def)
  moreover have "dump_records A (ins 0) s = rec_window A s" using assms(6) by (simp add: dump_records_def)
  ultimately show ?thesis using dump_port_on_wire [where ins = ins, OF assms(1-5)] assms(6) by simp
qed

text \<open>
  The line of a record is the text that the printf of the firmware's C library makes of it with
  \<open>%08x W %08x %08x\<close> (or \<open>R\<close>), the cycle, the address and the data: one format for both cores' output.
\<close>

lemma recorder_line_is_printf:
  "map (\<lambda>i. byte_at i (rec_pack hwrite cycle haddr hwdata)) [0..<Suc last_char] =
     vformat (''%08x '' @ (if hwrite then ''W'' else ''R'') @ '' %08x %08x'' @ [CHR 0x0D, CHR 0x0A]) [cycle, haddr, hwdata]"
  unfolding rec_line_bytes [symmetric] rec_line_def rec_pack_fields prod.case ..

text \<open>
  A transfer accepted in the very cycle of the request spoils the dump: the request looks at the write
  pointer of before the transfer. With a full window the newest record is printed first, in place of
  the oldest, which is lost; before that the newest record is not printed at all.
\<close>

lemma recorder_dump_race:
  assumes "\<forall>t. \<exists>u \<le> W. ri_tx_ready (ins (t + u))" and "rc_state s = S_REC" and "rc_wr_ptr s < 2 ^ A"
    and "\<not> rc_dump_prev s" and "ri_dump (ins 0)" and "rec_accepts (ins 0) s"
  shows "\<exists>T. rc_state (rec_run A ins s T) = S_REC \<and>
           rec_window A (rec_run A ins s T) = keep_last (2 ^ A) (rec_window A s @ [rec_new (ins 0) s]) \<and>
           rec_out A ins s T = concat (map rec_line
             (if rc_wrapped s then rec_new (ins 0) s # tl (rec_window A s) else rec_window A s))"
proof -
  have "dump_records A (ins 0) s = (if rc_wrapped s then rec_new (ins 0) s # tl (rec_window A s) else rec_window A s)"
    using assms(6) by (simp add: dump_records_def)
  with dump_text [where ins = ins and W = W, OF _ assms(2-5)] assms(1,6) show ?thesis by auto
qed

subsection \<open>Witnesses\<close>

text \<open>A recorder with two records and a full one of two slots; a bus that is quiet or writes.\<close>

definition demo_recorder :: "bool \<Rightarrow> recorder" where
  "demo_recorder full =
     \<lparr>rc_mem = (\<lambda>i. rec_pack True (of_nat i) 0xFF900000 0x48), rc_wr_ptr = (if full then 0 else 2), rc_rd_ptr = 0,
      rc_dump_rem = 0, rc_cycle = 9, rc_dump_prev = False, rc_wrapped = full, rc_state = S_REC, rc_reg = 0, rc_char_idx = 0\<rparr>"

definition demo_rec_in :: "bool \<Rightarrow> nat \<Rightarrow> rec_in" where
  "demo_rec_in busy t =
     \<lparr>ri_haddr = 0x40000, ri_htrans = (if busy then 2 else 0), ri_hwrite = False, ri_hready = True, ri_hwdata = 0,
      ri_dump = (t = 0), ri_tx_ready = True\<rparr>"

theorem recorder_keeps_latest_witness:
  "rec_window 1 (rec_run 1 (\<lambda>_. demo_rec_in True 1) (rec_next 1 False (demo_rec_in True 1) (demo_recorder True)) 3) =
     [rec_pack False 1 0x40000 0, rec_pack False 2 0x40000 0]"
  using recorder_keeps_latest [OF refl, of 1 "\<lambda>_. demo_rec_in True 1" "demo_rec_in True 1" "demo_recorder True" 3]
  by (simp add: numeral_3_eq_3 keep_last_def rec_next_def rec_capture_def rec_accepts_def rec_new_pack demo_rec_in_def demo_recorder_def Let_def)

theorem recorder_dump_on_wire_witness:
  "\<exists>T ts. length ts = 60 \<and> rc_state (fst (dump_port_run 13 347 (demo_rec_in False) (demo_recorder False, uart_tx_reset) T)) = S_REC \<and>
     (\<forall>k < 3470. uart_tx_line (snd (dump_port_run 13 347 (demo_rec_in False) (demo_recorder False, uart_tx_reset) (Suc (ts ! 0) + k))) =
        frame_bit 48 (k div 347))"
proof -
  have w: "rec_window 13 (demo_recorder False) = [rec_pack True 0 0xFF900000 0x48, rec_pack True 1 0xFF900000 0x48]"
    by (simp add: rec_window_def demo_recorder_def upt_rec)
  have l: "length (rec_line r) = 30" for r by (simp add: rec_line_bytes last_char_def)
  have z: "nibble 92 (rec_pack True 0 0xFF900000 0x48) = 0"
    using nibble_part [of "rec_pack True 0 0xFF900000 0x48" 64 0 0] bit_rec_pack(1) [of _ True 0 "0xFF900000" "0x48"] by simp
  have h: "rec_line (rec_pack True 0 0xFF900000 0x48) ! 0 = 48"
    unfolding rec_line_bytes last_char_def by (simp add: byte_at_def z hexchar_def del: upt_Suc)
  have c: "uart_tx_ok (Suc 346) uart_tx_reset" "rc_state (demo_recorder False) = S_REC" "rc_wr_ptr (demo_recorder False) < 2 ^ 13"
    "\<not> rc_dump_prev (demo_recorder False)" "ri_dump (demo_rec_in False 0)" "\<not> rec_accepts (demo_rec_in False 0) (demo_recorder False)"
    by (simp_all add: uart_tx_ok_def uart_tx_reset_def demo_recorder_def demo_rec_in_def rec_accepts_def)
  have e: "Suc 346 = 347" "10 * 347 = (3470 :: nat)" by simp_all
  let ?r0 = "rec_pack True 0 0xFF900000 0x48" and ?r1 = "rec_pack True 1 0xFF900000 0x48"
  have t: "length (concat (map rec_line [?r0, ?r1])) = 60" "concat (map rec_line [?r0, ?r1]) ! 0 = 48"
    using h l by (simp_all add: nth_append)
  have n: "0 < (60 :: nat)" by simp
  from recorder_dump_on_wire [where ins = "demo_rec_in False" and A = 13 and d = 346, OF c]
  obtain T ts where T: "rc_state (fst (dump_port_run 13 347 (demo_rec_in False) (demo_recorder False, uart_tx_reset) T)) = S_REC"
    "length ts = 60" "\<forall>i < length ts. ts ! i < T \<and> (\<forall>k < 3470.
       uart_tx_line (snd (dump_port_run 13 347 (demo_rec_in False) (demo_recorder False, uart_tx_reset) (Suc (ts ! i) + k))) =
       frame_bit (concat (map rec_line [?r0, ?r1]) ! i) (k div 347))"
    unfolding w t(1) e by blast
  from T(3) [rule_format, of 0] n T(2) t(2) have
    "\<forall>k < 3470. uart_tx_line (snd (dump_port_run 13 347 (demo_rec_in False) (demo_recorder False, uart_tx_reset) (Suc (ts ! 0) + k))) =
        frame_bit 48 (k div 347)" by metis
  with T(1,2) show ?thesis by blast
qed

lemma recorder_dump_race_witness:
  "\<exists>T. rec_out 1 (demo_rec_in True) (demo_recorder True) T =
       rec_line (rec_pack False 9 0x40000 0) @ rec_line (rec_pack True 1 0xFF900000 0x48)"
proof -
  have w: "rec_window 1 (demo_recorder True) = [rec_pack True 0 0xFF900000 0x48, rec_pack True 1 0xFF900000 0x48]"
    by (simp add: rec_window_def demo_recorder_def upt_rec)
  have n: "rec_new (demo_rec_in True 0) (demo_recorder True) = rec_pack False 9 0x40000 0"
    by (simp add: rec_new_pack demo_recorder_def demo_rec_in_def)
  have r: "\<forall>t. \<exists>u \<le> 0. ri_tx_ready (demo_rec_in True (t + u))" by (simp add: demo_rec_in_def)
  have "bit (2 :: 2 word) 1" by simp
  then have "rc_state (demo_recorder True) = S_REC" "rc_wr_ptr (demo_recorder True) < 2 ^ 1" "rc_wrapped (demo_recorder True)"
    "\<not> rc_dump_prev (demo_recorder True)" "ri_dump (demo_rec_in True 0)" "rec_accepts (demo_rec_in True 0) (demo_recorder True)"
    by (simp_all add: demo_recorder_def demo_rec_in_def rec_accepts_def del: One_nat_def)
  note s = this
  from recorder_dump_race [where ins = "demo_rec_in True" and A = 1 and W = 0, OF r s(1,2,4-6)] obtain T where
    "rec_out 1 (demo_rec_in True) (demo_recorder True) T =
       concat (map rec_line (rec_pack False 9 0x40000 0 # tl [rec_pack True 0 0xFF900000 0x48, rec_pack True 1 0xFF900000 0x48]))"
    unfolding n w using s(3) by (auto simp only: if_True)
  then show ?thesis by (intro exI [of _ T]) simp
qed

end
