(* ===== verification/Debouncer.thy ===== *)
theory Debouncer
  imports Prelude
begin

text \<open>
  The input filter \<open>ip/debug/debouncer.vhdl\<close> behind the push-buttons that request a dump of the recorder
  and reset the second core, clock cycle by clock cycle: two flip-flops that synchronize the raw input
  and a counter that lets a new level through once it has been there for \<open>2 ^ count_bits\<close> cycles. The
  theorem says when exactly: a new level on the output needs that long an input, and that long an input
  is enough.
\<close>

record debouncer =
  db_sync0 :: bool
  db_sync1 :: bool
  db_cnt :: nat
  db_clean :: bool

definition debouncer_reset :: debouncer where
  "debouncer_reset = \<lparr>db_sync0 = False, db_sync1 = False, db_cnt = 0, db_clean = False\<rparr>"

definition debouncer_next :: "nat \<Rightarrow> bool \<Rightarrow> bool \<Rightarrow> debouncer \<Rightarrow> debouncer" where
  "debouncer_next count_bits rstn raw s =
     (if \<not> rstn then debouncer_reset
      else let s1 = s\<lparr>db_sync0 := raw, db_sync1 := db_sync0 s\<rparr>
           in if db_sync1 s = db_clean s then s1\<lparr>db_cnt := 0\<rparr>
              else if db_cnt s = 2 ^ count_bits - 1 then s1\<lparr>db_clean := db_sync1 s, db_cnt := 0\<rparr>
              else s1\<lparr>db_cnt := db_cnt s + 1\<rparr>)"

primrec debouncer_run :: "nat \<Rightarrow> (nat \<Rightarrow> bool) \<Rightarrow> debouncer \<Rightarrow> nat \<Rightarrow> debouncer" where
  "debouncer_run n raw s 0 = s"
| "debouncer_run n raw s (Suc t) = debouncer_next n True (raw t) (debouncer_run n raw s t)"

text \<open>
  The counter counts the cycles for which the synchronized input, that is the raw input of two cycles ago,
  has differed from the output without a break.
\<close>

definition delayed :: "(nat \<Rightarrow> bool) \<Rightarrow> nat \<Rightarrow> bool" where
  "delayed raw t \<longleftrightarrow> 2 \<le> t \<and> raw (t - 2)"

lemma debouncer_invariant:
  fixes raw n t
  defines "s \<equiv> debouncer_run n raw debouncer_reset t"
  shows "db_sync1 s = delayed raw t \<and> db_sync0 s = (1 \<le> t \<and> raw (t - 1)) \<and> db_cnt s \<le> t \<and> db_cnt s < 2 ^ n \<and>
         (\<forall>j. 1 \<le> j \<and> j \<le> db_cnt s \<longrightarrow> delayed raw (t - j) \<noteq> db_clean s)"
  unfolding s_def
proof (induction t)
  case 0
  then show ?case by (simp add: debouncer_reset_def delayed_def)
next
  case (Suc t)
  let ?s = "debouncer_run n raw debouncer_reset t"
  let ?s' = "debouncer_next n True (raw t) ?s"
  have IH: "db_sync1 ?s = delayed raw t" "db_sync0 ?s = (1 \<le> t \<and> raw (t - 1))" "db_cnt ?s \<le> t" "db_cnt ?s < 2 ^ n"
    "\<And>j. 1 \<le> j \<Longrightarrow> j \<le> db_cnt ?s \<Longrightarrow> delayed raw (t - j) \<noteq> db_clean ?s" using Suc by auto
  have sy: "db_sync1 ?s' = delayed raw (Suc t)" "db_sync0 ?s' = (1 \<le> Suc t \<and> raw (Suc t - 1))"
    by (auto simp: debouncer_next_def Let_def IH(2) delayed_def numeral_2_eq_2)
  show ?case
  proof (cases "delayed raw t \<noteq> db_clean ?s \<and> db_cnt ?s \<noteq> 2 ^ n - 1")
    case True
    then have c: "db_cnt ?s' = Suc (db_cnt ?s)" "db_clean ?s' = db_clean ?s"
      by (simp_all add: debouncer_next_def Let_def IH(1))
    have "delayed raw (Suc t - j) \<noteq> db_clean ?s" if "1 \<le> j" "j \<le> Suc (db_cnt ?s)" for j
      using that True IH(5) [of "j - 1"] by (cases "j = 1") auto
    with True sy c IH(3,4) show ?thesis by auto
  next
    case False
    then have "db_cnt ?s' = 0" by (auto simp: debouncer_next_def Let_def IH(1))
    with sy show ?thesis by simp
  qed
qed

lemmas debouncer_facts = debouncer_invariant [THEN conjunct1] debouncer_invariant [THEN conjunct2, THEN conjunct2]

text \<open>How the output moves in one cycle.\<close>

lemma debouncer_clean_next:
  "db_clean (debouncer_next n True r s) = (if db_cnt s = 2 ^ n - 1 then db_sync1 s else db_clean s)" if "db_cnt s \<le> 2 ^ n - 1"
  using that by (auto simp: debouncer_next_def Let_def)

text \<open>While the synchronized input keeps the new level, the counter runs up to the end of the window.\<close>

lemma debouncer_counts:
  fixes raw n
  defines "run \<equiv> debouncer_run n raw debouncer_reset"
  assumes "\<forall>j < 2 ^ n. delayed raw (t + j) = v"
  shows "db_clean (run (t + 2 ^ n)) = v"
proof (cases "\<exists>k < 2 ^ n. db_clean (run (t + k)) = v")
  case True
  then obtain k where k: "k < 2 ^ n" "db_clean (run (t + k)) = v" by blast
  have "db_clean (run (t + k + d)) = v" if "k + d \<le> 2 ^ n" for d
    using that
  proof (induction d)
    case (Suc d)
    then have IH: "db_clean (run (t + k + d)) = v" by simp
    have "db_sync1 (run (t + k + d)) = v"
      using debouncer_facts(1) [of n raw "t + k + d"] assms(2) Suc.prems by (simp add: run_def add.assoc)
    with IH show ?case by (simp add: run_def debouncer_next_def Let_def)
  qed (simp add: k(2))
  from this [of "2 ^ n - k"] k(1) show ?thesis by simp
next
  case False
  have up: "k \<le> db_cnt (run (t + k))" if "k < 2 ^ n" for k
    using that
  proof (induction k)
    case (Suc k)
    have "db_sync1 (run (t + k)) = v"
      using debouncer_facts(1) [of n raw "t + k"] assms(2) Suc.prems by (simp add: run_def)
    moreover have "db_clean (run (t + k)) \<noteq> v" "db_clean (run (t + Suc k)) \<noteq> v" using False Suc.prems by auto
    ultimately have "db_cnt (run (t + Suc k)) = Suc (db_cnt (run (t + k)))"
      by (auto simp: run_def debouncer_next_def Let_def split: if_splits)
    with Suc show ?case by simp
  qed simp
  obtain m where m: "(2 :: nat) ^ n = Suc m" by (cases "(2 :: nat) ^ n") simp_all
  have "db_cnt (run (t + m)) < 2 ^ n" using debouncer_facts(2) [of n raw "t + m"] by (simp add: run_def)
  with up [of m] m have cnt: "db_cnt (run (t + m)) = 2 ^ n - 1" by simp
  have "db_sync1 (run (t + m)) = v"
    using debouncer_facts(1) [of n raw "t + m"] assms(2) m by (simp add: run_def)
  then have "db_clean (run (Suc (t + m))) = v"
    using debouncer_clean_next [of "run (t + m)" n "raw (t + m)"] cnt by (simp add: run_def)
  then show ?thesis unfolding m by simp
qed

subsection \<open>Properties\<close>

text \<open>
  After a reset, a change of the output from cycle \<open>t\<close> to the next means that the raw input had the new
  level in each of the \<open>2 ^ count_bits\<close> cycles up to \<open>t - 2\<close>, so no shorter bounce gets through; and an
  input that has a level for that long from cycle \<open>u\<close> on is on the output in cycle \<open>u + 2 ^ count_bits + 2\<close>.
\<close>

lemma debouncer_exact:
  "(db_clean (debouncer_run n raw debouncer_reset (Suc t)) \<noteq> db_clean (debouncer_run n raw debouncer_reset t) \<longrightarrow>
      (\<forall>j < 2 ^ n. delayed raw (t - j) = db_clean (debouncer_run n raw debouncer_reset (Suc t)))) \<and>
   ((\<forall>j < 2 ^ n. raw (u + j) = v) \<longrightarrow> db_clean (debouncer_run n raw debouncer_reset (u + 2 ^ n + 2)) = v)"
proof (intro conjI impI)
  let ?s = "debouncer_run n raw debouncer_reset t"
  assume ch: "db_clean (debouncer_run n raw debouncer_reset (Suc t)) \<noteq> db_clean ?s"
  note inv = debouncer_facts [of n raw t]
  have cnt: "db_cnt ?s = 2 ^ n - 1" and new: "db_clean (debouncer_run n raw debouncer_reset (Suc t)) = delayed raw t"
    and old: "delayed raw t \<noteq> db_clean ?s"
    using ch inv by (auto simp: debouncer_next_def Let_def split: if_splits)
  have "delayed raw (t - j) \<noteq> db_clean ?s" if "j < 2 ^ n" for j
    using inv(2) old that cnt by (cases "j = 0") auto
  with new old show "\<forall>j < 2 ^ n. delayed raw (t - j) = db_clean (debouncer_run n raw debouncer_reset (Suc t))" by auto
next
  assume "\<forall>j < 2 ^ n. raw (u + j) = v"
  then have "\<forall>j < 2 ^ n. delayed raw (u + 2 + j) = v" by (simp add: delayed_def)
  from debouncer_counts [OF this] show "db_clean (debouncer_run n raw debouncer_reset (u + 2 ^ n + 2)) = v"
    by (simp add: ac_simps)
qed

lemma debouncer_exact_witness:
  "db_clean (debouncer_run 1 (\<lambda>t. 3 \<le> t \<and> t < 5) debouncer_reset 7)"
proof -
  have "\<forall>j < 2 ^ 1. (3 \<le> 3 + j \<and> 3 + j < (5 :: nat)) = True" by auto
  with debouncer_exact [where n = 1 and raw = "\<lambda>t. 3 \<le> t \<and> t < 5" and u = 3 and v = True and t = 0]
  have "db_clean (debouncer_run 1 (\<lambda>t. 3 \<le> t \<and> t < 5) debouncer_reset (3 + 2 ^ 1 + 2))" by blast
  moreover have "3 + 2 ^ 1 + 2 = (7 :: nat)" by simp
  ultimately show ?thesis by metis
qed

end
