(* ===== verification/Memtest.thy ===== *)
theory Memtest
  imports Soc
begin

text \<open>
  The memory tests of \<open>lib/memtest\<close> and the program \<open>bin/memerr\<close>. \<open>Memtest::Test\<close> fills a block
  with one pattern and reads it back; \<open>TestOneCell\<close> and \<open>TestWithC\<close> test the external RAM word by
  word and print what fails. Pointers are 32-bit addresses, as on the target, so \<open>base + i\<close> is
  \<open>base + 4 * i\<close> modulo \<open>2 ^ 32\<close>.
\<close>

record result =
  ok :: bool
  addr :: u32
  expected :: u32
  actual :: u32

definition Result_new :: result where
  "Result_new = \<lparr>ok = False, addr = 0, expected = 0, actual = 0\<rparr>"

record memtest =
  base_address :: u32
  base_pattern :: u32
  cell_count :: u32

definition Memtest_ctor :: "u32 \<Rightarrow> u32 \<Rightarrow> u32 \<Rightarrow> memtest" where
  "Memtest_ctor base pattern cells =
     \<lparr>base_address = base, base_pattern = pattern, cell_count = cells\<rparr>"

definition cell_addr :: "u32 \<Rightarrow> u32 \<Rightarrow> u32" where
  "cell_addr base i = base + 4 * i"

text \<open>The two loops of \<open>Test\<close>, from index \<open>i\<close> with \<open>k\<close> turns to go.\<close>

primrec memtest_fill :: "('d, 'b) bus_scheme \<Rightarrow> memtest \<Rightarrow> nat \<Rightarrow> u32 \<Rightarrow> 'd \<Rightarrow> 'd" where
  "memtest_fill B m 0 i d = d"
| "memtest_fill B m (Suc k) i d =
     memtest_fill B m k (i + 1) (wr32 B (cell_addr (base_address m) i) (base_pattern m) d)"

primrec memtest_check ::
    "('d, 'b) bus_scheme \<Rightarrow> memtest \<Rightarrow> nat \<Rightarrow> u32 \<Rightarrow> result \<Rightarrow> 'd \<Rightarrow> result \<times> 'd" where
  "memtest_check B m 0 i ret d = (ret\<lparr>ok := True\<rparr>, d)"
| "memtest_check B m (Suc k) i ret d =
     (let (v, d1) = rd32 B (cell_addr (base_address m) i) d;
          e = base_pattern m
      in if v \<noteq> e
         then (ret\<lparr>ok := False, expected := e, actual := v,
                   addr := cell_addr (base_address m) i\<rparr>, d1)
         else memtest_check B m k (i + 1) ret d1)"

definition Memtest_Test :: "('d, 'b) bus_scheme \<Rightarrow> memtest \<Rightarrow> 'd \<Rightarrow> result \<times> 'd" where
  "Memtest_Test B m d =
     (if cell_count m = 0 then (Result_new\<lparr>ok := True\<rparr>, d)
      else let d1 = wr32 B (base_address m) (base_pattern m) d;
               d2 = memtest_fill B m (unat (cell_count m)) 0 d1
           in memtest_check B m (unat (cell_count m)) 0 Result_new d2)"

subsection \<open>Testing the external RAM\<close>

definition kRamStart :: u32 where
  "kRamStart = 0x80000000"

definition cell_format :: string where
  "cell_format = ''mem: 0x08%x: expect: 0x%08x, actual: 0x%08x''"

definition TestOneCell ::
    "('d, 'b) bus_scheme \<Rightarrow> u32 \<Rightarrow> u32 \<Rightarrow> ('d, 'z) fw_scheme \<Rightarrow> (bool \<times> ('d, 'z) fw_scheme) option"
  where
  "TestOneCell B expct cell s =
     (let a = cell_addr kRamStart cell;
          (act, s1) = on_dev (rd32 B a) (s\<lparr>dev := wr32 B a expct (dev s)\<rparr>)
      in if act \<noteq> expct
         then do { (_, s2) \<leftarrow> printmef B cell_format [kRamStart + 4 * cell, expct, act] s1;
                   Some (False, s2) }
         else Some (True, s1))"

primrec test_with_c_loop ::
    "('d, 'b) bus_scheme \<Rightarrow> u32 \<Rightarrow> nat \<Rightarrow> u32 \<Rightarrow> bool \<Rightarrow> ('d, 'z) fw_scheme \<Rightarrow>
     (bool \<times> ('d, 'z) fw_scheme) option" where
  "test_with_c_loop B v 0 i ret s = Some (ret, s)"
| "test_with_c_loop B v (Suc k) i ret s =
     do { (b, s1) \<leftarrow> TestOneCell B v i s;
          test_with_c_loop B v k (i + 1) (if b then False else ret) s1 }"

definition TestWithC ::
    "('d, 'b) bus_scheme \<Rightarrow> u32 \<Rightarrow> u32 \<Rightarrow> ('d, 'z) fw_scheme \<Rightarrow> (bool \<times> ('d, 'z) fw_scheme) option"
  where
  "TestWithC B v limit s = test_with_c_loop B v (unat limit) 0 True s"

subsection \<open>The program memerr\<close>

text \<open>A list of calls of \<open>TestOneCell\<close> whose results are ignored.\<close>

primrec test_cells ::
    "('d, 'b) bus_scheme \<Rightarrow> u32 \<Rightarrow> u32 list \<Rightarrow> ('d, 'z) fw_scheme \<Rightarrow> ('d, 'z) fw_scheme option" where
  "test_cells B v [] s = Some s"
| "test_cells B v (c # cs) s = do { (_, s1) \<leftarrow> TestOneCell B v c s; test_cells B v cs s1 }"

text \<open>\<open>main\<close> up to its final \<open>for(;;)\<close>: the result is the state in which it stays for ever.\<close>

definition memerr_main :: "('d, 'b) bus_scheme \<Rightarrow> ('d, 'z) fw_scheme \<Rightarrow> ('d, 'z) fw_scheme option" where
  "memerr_main B s0 =
     do { s1 \<leftarrow> printme B (concat (replicate 6 CRLF) @ cstr ''<->'') s0;
          (_, s2) \<leftarrow> TestWithC B 0xaaaaaaaa 6000 s1;
          s3 \<leftarrow> test_cells B 0x11111111 [0, 1, 2, 3, 4, 5, 6, 7, 8, 48, 49, 50] s2;
          (_, s4) \<leftarrow> TestWithC B 0xbbbbbbbb 6000 s3;
          s5 \<leftarrow> test_cells B 0x22222222 [50] s4;
          s6 \<leftarrow> test_cells B 0x11111111 [48, 49, 50, 51, 52, 53] s5;
          s7 \<leftarrow> printme B (cstr ''>-<'') s6;
          printme B (cstr ''ihex:'') s7 }"

subsection \<open>What the loops of Test do\<close>

text \<open>The values a complete read-back of the block would return.\<close>

primrec cell_reads :: "('d, 'b) bus_scheme \<Rightarrow> memtest \<Rightarrow> nat \<Rightarrow> u32 \<Rightarrow> 'd \<Rightarrow> u32 list" where
  "cell_reads B m 0 i d = []"
| "cell_reads B m (Suc k) i d =
     (case rd32 B (cell_addr (base_address m) i) d of (v, d1) \<Rightarrow> v # cell_reads B m k (i + 1) d1)"

lemma length_cell_reads [simp]: "length (cell_reads B m k i d) = k"
  by (induction k arbitrary: i d) (auto split: prod.split)

text \<open>The verdict on a list of values read from index \<open>i\<close> on: the first that differs, if any.\<close>

primrec verdict :: "memtest \<Rightarrow> u32 list \<Rightarrow> u32 \<Rightarrow> result \<Rightarrow> result" where
  "verdict m [] i ret = ret\<lparr>ok := True\<rparr>"
| "verdict m (v # vs) i ret =
     (if v \<noteq> base_pattern m
      then ret\<lparr>ok := False, expected := base_pattern m, actual := v, addr := cell_addr (base_address m) i\<rparr>
      else verdict m vs (i + 1) ret)"

lemma check_verdict: "fst (memtest_check B m k i ret d) = verdict m (cell_reads B m k i d) i ret"
  by (induction k arbitrary: i d) (auto simp: Let_def split: prod.split)

lemma verdict_ok: "ok (verdict m vs i ret) \<longleftrightarrow> (\<forall>v \<in> set vs. v = base_pattern m)"
  by (induction vs arbitrary: i) auto

lemma verdict_fault:
  "\<not> ok (verdict m vs i ret) \<Longrightarrow>
   \<exists>j < length vs. (\<forall>l < j. vs ! l = base_pattern m) \<and> vs ! j \<noteq> base_pattern m \<and>
     verdict m vs i ret = ret\<lparr>ok := False, addr := cell_addr (base_address m) (i + of_nat j),
                              expected := base_pattern m, actual := vs ! j\<rparr>"
proof (induction vs arbitrary: i)
  case Nil
  then show ?case by simp
next
  case (Cons v vs)
  show ?case
  proof (cases "v = base_pattern m")
    case False
    then show ?thesis by (intro exI [of _ 0]) simp
  next
    case True
    with Cons.prems have "\<not> ok (verdict m vs (i + 1) ret)" by simp
    from Cons.IH [OF this] obtain j where j: "j < length vs" "\<forall>l < j. vs ! l = base_pattern m"
      "vs ! j \<noteq> base_pattern m"
      "verdict m vs (i + 1) ret = ret\<lparr>ok := False, addr := cell_addr (base_address m) (i + 1 + of_nat j),
                              expected := base_pattern m, actual := vs ! j\<rparr>" by blast
    then show ?thesis using True
      by (intro exI [of _ "Suc j"]) (auto simp: nth_Cons add.assoc split: nat.split)
  qed
qed

lemma verdict_pass: "verdict m (replicate k (base_pattern m)) i ret = ret\<lparr>ok := True\<rparr>"
  by (induction k arbitrary: i) auto

lemma Test_verdict:
  assumes "cell_count m \<noteq> 0"
  shows "fst (Memtest_Test B m d) =
    verdict m (cell_reads B m (unat (cell_count m)) 0
      (memtest_fill B m (unat (cell_count m)) 0 (wr32 B (base_address m) (base_pattern m) d))) 0 Result_new"
  using assms by (simp add: Memtest_Test_def check_verdict)

text \<open>Over registers that hold what was written: everything written is the pattern.\<close>

context reg_file
begin

abbreviation block :: "memtest \<Rightarrow> nat \<Rightarrow> u32 \<Rightarrow> u32 set" where
  "block m k i \<equiv> (\<lambda>j. cell_addr (base_address m) (i + of_nat j)) ` {..<k}"

lemma block_Suc: "block m (Suc k) i = insert (cell_addr (base_address m) i) (block m k (i + 1))"
  by (simp add: lessThan_Suc_eq_insert_0 image_image add.assoc)

lemma fill_val:
  "block m k i \<subseteq> regs \<Longrightarrow> a \<in> regs \<Longrightarrow>
   val (memtest_fill B m k i d) a = (if a \<in> block m k i then base_pattern m else val d a)"
proof (induction k arbitrary: i d)
  case 0
  then show ?case by simp
next
  case (Suc k)
  then have "block m k (i + 1) \<subseteq> regs" and "cell_addr (base_address m) i \<in> regs"
    by (simp_all only: block_Suc insert_subset)
  with Suc.IH [of "i + 1"] Suc.prems(2) show ?case
    by (simp only: memtest_fill.simps block_Suc write_val) auto
qed

lemma reads_val:
  "block m k i \<subseteq> regs \<Longrightarrow> \<forall>a \<in> block m k i. val d a = x \<Longrightarrow> cell_reads B m k i d = replicate k x"
proof (induction k arbitrary: i d)
  case 0
  then show ?case by simp
next
  case (Suc k)
  let ?a = "cell_addr (base_address m) i"
  obtain v d1 where r: "rd32 B ?a d = (v, d1)" by fastforce
  have s: "block m k (i + 1) \<subseteq> regs" "?a \<in> regs" "val d ?a = x" "\<forall>a \<in> block m k (i + 1). val d a = x"
    using Suc.prems unfolding block_Suc by auto
  then have "\<forall>a \<in> block m k (i + 1). val d1 a = x"
    using read_frame [OF s(2), of _ d] by (auto simp: r)
  with Suc.IH [OF s(1) this] read_val [OF s(2), of d] s(3) show ?case by (simp add: r)
qed

lemma check_frame:
  "block m k i \<subseteq> regs \<Longrightarrow> a \<in> regs \<Longrightarrow> val (snd (memtest_check B m k i ret d)) a = val d a"
proof (induction k arbitrary: i d)
  case 0
  then show ?case by simp
next
  case (Suc k)
  obtain v d1 where r: "rd32 B (cell_addr (base_address m) i) d = (v, d1)" by fastforce
  have s: "block m k (i + 1) \<subseteq> regs" "cell_addr (base_address m) i \<in> regs"
    using Suc.prems by (simp_all only: block_Suc insert_subset)
  have "val d1 a = val d a" using read_frame [OF s(2) Suc.prems(2), of d] by (simp add: r)
  with Suc.IH [OF s(1) Suc.prems(2)] show ?case by (simp add: r Let_def)
qed

end


subsection \<open>Properties of Test\<close>

text \<open>
  C34: On any hardware \<open>Test\<close> passes exactly when every cell read back the pattern, and otherwise its
  result names the first cell that did not: its address, the pattern and what was read. The values
  are those of a complete read-back after the writes.
\<close>

theorem memtest_reports_first_fault:
  assumes "cell_count m \<noteq> 0" and "n = unat (cell_count m)"
    and "vs = cell_reads B m n 0 (memtest_fill B m n 0 (wr32 B (base_address m) (base_pattern m) d))"
    and "r = fst (Memtest_Test B m d)"
  shows "length vs = n \<and> (ok r \<longleftrightarrow> (\<forall>v \<in> set vs. v = base_pattern m)) \<and>
         (\<not> ok r \<longrightarrow>
           (\<exists>j < n. (\<forall>l < j. vs ! l = base_pattern m) \<and> vs ! j \<noteq> base_pattern m \<and>
              r = \<lparr>ok = False, addr = base_address m + 4 * of_nat j, expected = base_pattern m,
                   actual = vs ! j\<rparr>))"
proof -
  have r: "r = verdict m vs 0 Result_new"
    using Test_verdict [OF assms(1)] assms(2-4) by simp
  have l: "length vs = n" by (simp add: assms(3))
  have "Result_new\<lparr>ok := False, addr := a, expected := e, actual := v\<rparr> =
      \<lparr>ok = False, addr = a, expected = e, actual = v\<rparr>" for a e v
    by (simp add: Result_new_def)
  with verdict_fault [of m vs 0 Result_new] show ?thesis
    unfolding r verdict_ok l by (auto simp: cell_addr_def)
qed

text \<open>
  On memory that holds what is written, \<open>Test\<close> passes, leaves the pattern in every cell of its
  block and changes no other cell.
\<close>

theorem memtest_passes_good_memory:
  assumes "reg_file B val regs" and "cell_count m \<noteq> 0"
    and "block = (\<lambda>j. base_address m + 4 * of_nat j) ` {..<unat (cell_count m)}" and "block \<subseteq> regs"
    and "Memtest_Test B m d = (r, d')" and "a \<in> regs"
  shows "r = Result_new\<lparr>ok := True\<rparr> \<and> val d' a = (if a \<in> block then base_pattern m else val d a)"
proof -
  let ?n = "unat (cell_count m)"
  define d1 where "d1 = wr32 B (base_address m) (base_pattern m) d"
  define d2 where "d2 = memtest_fill B m ?n 0 d1"
  have b: "block = (\<lambda>j. cell_addr (base_address m) (0 + of_nat j)) ` {..<?n}"
    by (simp add: assms(3) cell_addr_def)
  have "0 < ?n" using assms(2) by (simp add: unat_gt_0)
  then have base: "base_address m \<in> block" unfolding assms(3) by (intro image_eqI [of _ _ 0]) auto
  note F = reg_file.fill_val [OF assms(1), of m 0 ?n, folded b, OF assms(4)]
  have d2: "val d2 x = (if x \<in> block then base_pattern m else val d x)" if "x \<in> regs" for x
    using F [OF that, of d1] base assms(4) that
    by (auto simp: d2_def d1_def reg_file.write_val [OF assms(1)])
  have "\<forall>x \<in> block. val d2 x = base_pattern m" using d2 assms(4) by auto
  then have "cell_reads B m ?n 0 d2 = replicate ?n (base_pattern m)"
    by (rule reg_file.reads_val [OF assms(1), of m 0 ?n, folded b, OF assms(4)])
  then have "r = verdict m (replicate ?n (base_pattern m)) 0 Result_new"
    using Test_verdict [OF assms(2), of B d] assms(5) by (simp add: d1_def d2_def)
  moreover have "d' = snd (memtest_check B m ?n 0 Result_new d2)"
    using assms(2,5) by (simp add: Memtest_Test_def d1_def d2_def)
  ultimately show ?thesis
    using reg_file.check_frame [OF assms(1), of m 0 ?n, folded b, OF assms(4,6)] d2 [OF assms(6)] by (simp add: verdict_pass)
qed

text \<open>
  A memory whose address lines are broken: the cell that answers at \<open>a\<close> is \<open>dec a\<close>.
\<close>

definition alias_bus :: "(u32 \<Rightarrow> u32) \<Rightarrow> (u32 \<Rightarrow> u32) bus" where
  "alias_bus dec = \<lparr>rd32 = (\<lambda>a f. (f (dec a), f)), wr32 = (\<lambda>a v f. f(dec a := v))\<rparr>"

lemma alias_fill:
  "memtest_fill (alias_bus dec) m k i f x =
     (if \<exists>j < k. x = dec (cell_addr (base_address m) (i + of_nat j)) then base_pattern m else f x)"
proof (induction k arbitrary: i f)
  case 0
  then show ?case by simp
next
  case (Suc k)
  show ?case
    by (simp only: memtest_fill.simps Suc.IH) (auto simp: alias_bus_def Ex_less_Suc2 add.assoc)
qed

lemma alias_reads:
  "\<forall>j < k. f (dec (cell_addr (base_address m) (i + of_nat j))) = x \<Longrightarrow>
   cell_reads (alias_bus dec) m k i f = replicate k x"
proof (induction k arbitrary: i)
  case 0
  then show ?case by simp
next
  case (Suc k)
  from Suc.prems have "\<forall>j < k. f (dec (cell_addr (base_address m) (i + 1 + of_nat j))) = x"
    and "f (dec (cell_addr (base_address m) i)) = x"
    by (auto simp: All_less_Suc2 add.assoc)
  with Suc.IH [of "i + 1"] show ?case by (simp add: alias_bus_def)
qed

text \<open>
  \<open>Test\<close> cannot see a broken address decoder: with one pattern for all cells it passes on every
  memory in which some cell answers at each address, even if the same single cell answers at all.
\<close>

lemma memtest_blind_to_aliasing:
  "fst (Memtest_Test (alias_bus dec) m f) = Result_new\<lparr>ok := True\<rparr>"
proof (cases "cell_count m = 0")
  case True
  then show ?thesis by (simp add: Memtest_Test_def)
next
  case False
  let ?n = "unat (cell_count m)"
  have "cell_reads (alias_bus dec) m ?n 0 (memtest_fill (alias_bus dec) m ?n 0 g) =
      replicate ?n (base_pattern m)" for g
    by (rule alias_reads) (auto simp: alias_fill)
  then show ?thesis by (simp add: Test_verdict [OF False] verdict_pass)
qed

subsection \<open>Testing cells\<close>

text \<open>
  The message about a failing cell. The format says \<open>0x08%x\<close> where \<open>0x%08x\<close> was meant, so the digits
  \<open>08\<close> are printed in front of the address.
\<close>

definition hex_digits :: "u32 \<Rightarrow> u8 list" where
  "hex_digits a = map digit_char (nat_digits 16 (unat a))"

definition cell_text :: "u32 \<Rightarrow> u32 \<Rightarrow> u32 \<Rightarrow> u8 list" where
  "cell_text a e v =
     cstr ''mem: 0x08'' @ hex_digits a @ cstr '': expect: 0x'' @ vformat ''%08x'' [e] @
     cstr '', actual: 0x'' @ vformat ''%08x'' [v]"

lemma cell_format_text: "vformat cell_format [a, e, v] = cell_text a e v"
  by (simp add: cell_format_def cell_text_def hex_digits_def skip_zero_flag_def is_digit_def
      width_value_def conv_text_def pad_field_def Let_def)

lemma length_hex_digits: "length (hex_digits a) \<le> 8"
proof -
  have "unat a < 16 ^ Suc 7" using unsigned_less [of a] by simp
  from length_nat_digits [OF _ this] show ?thesis by (simp add: hex_digits_def)
qed

lemma take_cell_text: "take 255 (cell_text a e v) = cell_text a e v"
  using length_hex_digits [of a] hex08 by (simp add: cell_text_def)

lemma XON_cell_text [simp]: "XON \<notin> set (cell_text a e v)"
proof -
  have "XON \<notin> of_char ` set cell_format" by (simp add: XON_def cell_format_def)
  then show ?thesis using vformat_ctl [OF XON_text(1)] by (simp flip: cell_format_text)
qed

context soc_bus
begin

text \<open>\<open>stores s f s'\<close>: memory words change by \<open>f\<close> and nothing else does.\<close>

definition stores :: "('d, 'z) fw_scheme \<Rightarrow> ((u32 \<Rightarrow> u32) \<Rightarrow> u32 \<Rightarrow> u32) \<Rightarrow> ('d, 'z) fw_scheme \<Rightarrow> bool" where
  "stores s f s' \<longleftrightarrow>
     s' = s\<lparr>dev := dev s'\<rparr> \<and> dinv (dev s') \<and> val (dev s') = f (val (dev s)) \<and> ram (dev s') = ram (dev s) \<and>
     tx (dev s') = tx (dev s) \<and> inp (dev s') = inp (dev s) \<and> avail (dev s') = avail (dev s)"

lemma stores_trans: "stores s f s1 \<Longrightarrow> stores s1 g s2 \<Longrightarrow> stores s (g \<circ> f) s2"
  by (auto simp: stores_def) (metis fw.update_convs(1) fw.surjective)

lemma stores_inv: "stores s f s' \<Longrightarrow> dinv (dev s')"
  by (simp add: stores_def)

lemma stores_io: "io_ok s \<Longrightarrow> stores s f s' \<Longrightarrow> io_ok s'"
  unfolding stores_def io_ok_def fw_ok_def by (metis fw.select_convs(2,3) fw.surjective fw.update_convs(1))

lemma TestOneCell_good:
  assumes "dinv (dev s)" and "cell_addr kRamStart c \<in> regs"
  shows "\<exists>s'. TestOneCell B e c s = Some (True, s') \<and>
              stores s (\<lambda>f. f(cell_addr kRamStart c := e)) s'"
proof -
  let ?a = "cell_addr kRamStart c"
  note w = reg_write_simps [OF assms(2,1), of e]
  obtain v d' where r: "rd32 B ?a (wr32 B ?a e (dev s)) = (v, d')" by fastforce
  from reg_read [OF assms(2) w(1) r] w show ?thesis
    by (simp add: TestOneCell_def on_dev_def r stores_def)
qed

lemma test_cells_good:
  assumes "dinv (dev s)" and "\<forall>c \<in> set cs. cell_addr kRamStart c \<in> regs"
  shows "\<exists>s'. test_cells B e cs s = Some s' \<and>
              stores s (\<lambda>f a. if a \<in> cell_addr kRamStart ` set cs then e else f a) s'"
  using assms
proof (induction cs arbitrary: s)
  case Nil
  then show ?case by (simp add: stores_def)
next
  case (Cons c cs)
  obtain s1 where s1: "TestOneCell B e c s = Some (True, s1)"
    "stores s (\<lambda>f. f(cell_addr kRamStart c := e)) s1"
    using TestOneCell_good [of s c e] Cons.prems by auto
  from Cons.IH [OF stores_inv [OF s1(2)]] Cons.prems(2) obtain s2 where
    s2: "test_cells B e cs s1 = Some s2"
    "stores s1 (\<lambda>f a. if a \<in> cell_addr kRamStart ` set cs then e else f a) s2" by auto
  have "(\<lambda>f a. if a \<in> cell_addr kRamStart ` set cs then e else f a) \<circ> (\<lambda>f. f(cell_addr kRamStart c := e)) =
    (\<lambda>f a. if a \<in> cell_addr kRamStart ` set (c # cs) then e else f a)"
    by (auto simp: fun_eq_iff)
  with stores_trans [OF s1(2) s2(2)] s1(1) s2(1) show ?case by simp
qed

text \<open>\<open>TestWithC\<close> tests the cells \<open>i, i + 1, ...\<close> one by one.\<close>

lemma test_with_c_loop_good:
  assumes "dinv (dev s)" and "\<forall>j < k. cell_addr kRamStart (i + of_nat j) \<in> regs"
  shows "\<exists>s'. test_with_c_loop B e k i ret s = Some (ret \<and> k = 0, s') \<and>
              stores s (\<lambda>f a. if \<exists>j < k. a = cell_addr kRamStart (i + of_nat j) then e else f a) s'"
  using assms
proof (induction k arbitrary: i ret s)
  case 0
  then show ?case by (simp add: stores_def)
next
  case (Suc k)
  have r: "cell_addr kRamStart i \<in> regs" "\<forall>j < k. cell_addr kRamStart (i + 1 + of_nat j) \<in> regs"
    using Suc.prems(2) by (auto simp: All_less_Suc2 add.assoc)
  obtain s1 where s1: "TestOneCell B e i s = Some (True, s1)"
    "stores s (\<lambda>f. f(cell_addr kRamStart i := e)) s1"
    using TestOneCell_good [OF Suc.prems(1) r(1)] by blast
  from Suc.IH [OF stores_inv [OF s1(2)] r(2), of False] obtain s2 where
    s2: "test_with_c_loop B e k (i + 1) False s1 = Some (False, s2)"
    "stores s1 (\<lambda>f a. if \<exists>j < k. a = cell_addr kRamStart (i + 1 + of_nat j) then e else f a) s2" by auto
  have "(\<lambda>f a. if \<exists>j < k. a = cell_addr kRamStart (i + 1 + of_nat j) then e else f a) \<circ>
      (\<lambda>f. f(cell_addr kRamStart i := e)) =
    (\<lambda>f a. if \<exists>j < Suc k. a = cell_addr kRamStart (i + of_nat j) then e else f a)"
    by (auto simp: fun_eq_iff Ex_less_Suc2 add.assoc)
  with stores_trans [OF s1(2) s2(2)] s1(1) s2(1) show ?case by simp
qed

end

text \<open>
  \<open>TestOneCell\<close> on any memory, faulty or not: it returns, its result says whether the cell read
  back the value, and it prints nothing for a good cell and one line for a bad one. That line shows
  \<open>08\<close> and then the address, not the address in eight digits.
\<close>

theorem test_one_cell:
  assumes "uart_dev B dinv inp avail tx room tx_wait rx_wait oth" and "fw_ok dinv s"
    and "length (fmtbuf s) = 256" and "a = kRamStart + 4 * cell"
    and "rd32 B a (wr32 B a e (dev s)) = (v, d)" and "dinv d"
  shows "\<exists>s'. TestOneCell B e cell s = Some (v = e, s') \<and>
           tx (dev s') = tx d @ (if v = e then [] else cell_text a e v @ CRLF) \<and>
           oth (dev s') = oth d \<and> fw_ok dinv s' \<and>
           (exposed avail (s\<lparr>dev := d\<rparr>) \<le> 255 \<longrightarrow> pending inp s' = pending inp (s\<lparr>dev := d\<rparr>))"
proof -
  let ?s = "s\<lparr>dev := d\<rparr>"
  note io = uart_dev.io_ok_def [OF assms(1)] uart_dev.io_keeps_def [OF assms(1)]
  have "uart_dev.io_ok dinv ?s" using assms(2,3,6) by (simp add: io fw_ok_def)
  moreover have "CHR 0x00 \<notin> set cell_format" by (simp add: cell_format_def)
  ultimately obtain n s' where "printmef B cell_format [a, e, v] ?s = Some (n, s')"
    "uart_dev.io_keeps dinv inp avail tx oth ?s [] (cell_text a e v @ CRLF) s'"
    using uart_dev.printmef_io [OF assms(1), of ?s cell_format "[a, e, v]"]
    by (auto simp: cell_format_text take_cell_text)
  moreover have "fw_ok dinv ?s" using assms(2,6) by (simp add: fw_ok_def)
  ultimately show ?thesis
    using assms(5) by (auto simp: TestOneCell_def cell_addr_def assms(4) on_dev_def io)
qed

text \<open>
  \<open>TestWithC\<close> has its result inverted: on RAM in which every cell works it tests and fills all
  cells, prints nothing, and then returns false (true only when there was nothing to test).
\<close>

lemma test_with_c_inverted:
  assumes "soc_bus B dinv inp avail tx room tx_wait rx_wait val ram regs" and "dinv (dev s)"
    and "\<forall>j < unat limit. kRamStart + 4 * of_nat j \<in> regs"
  shows "\<exists>s'. TestWithC B e limit s = Some (limit = 0, s') \<and>
              (\<forall>j < unat limit. val (dev s') (kRamStart + 4 * of_nat j) = e) \<and>
              tx (dev s') = tx (dev s) \<and> ram (dev s') = ram (dev s) \<and> inp (dev s') = inp (dev s)"
  using soc_bus.test_with_c_loop_good [OF assms(1,2), of "unat limit" 0 e True] assms(3)
  by (auto simp: TestWithC_def cell_addr_def soc_bus.stores_def [OF assms(1)] unat_eq_0)

text \<open>The addresses of distinct cells of the RAM are distinct.\<close>

lemma cell_addr_inj:
  "i < 2 ^ 30 \<Longrightarrow> j < 2 ^ 30 \<Longrightarrow>
   cell_addr b (of_nat i) = cell_addr b (of_nat j) \<longleftrightarrow> i = j"
proof
  assume b: "i < 2 ^ 30" "j < 2 ^ 30" and e: "cell_addr b (of_nat i) = cell_addr b (of_nat j)"
  from e have "(of_nat (4 * i) :: u32) = of_nat (4 * j)" by (simp add: cell_addr_def)
  then have "4 * i mod 2 ^ 32 = 4 * j mod 2 ^ 32" by (simp only: word_of_nat_eq_iff take_bit_eq_mod) simp
  with b show "i = j" by simp
qed simp

text \<open>Setting every cell of a set.\<close>

definition fill_cells :: "u32 set \<Rightarrow> u32 \<Rightarrow> (u32 \<Rightarrow> u32) \<Rightarrow> u32 \<Rightarrow> u32" where
  "fill_cells A e f = (\<lambda>a. if a \<in> A then e else f a)"

context soc_bus
begin

text \<open>
  \<open>did s sent f s'\<close>: a program ran from \<open>s\<close> to \<open>s'\<close>, sent \<open>sent\<close> and changed the memory words by
  \<open>f\<close>. \<open>calm\<close> says that the polled ring cannot overrun.
\<close>

definition calm :: "('d, 'z) fw_scheme \<Rightarrow> bool" where
  "calm s \<longleftrightarrow> fw_ok dinv s \<and> exposed avail s \<le> 255"

definition did :: "('d, 'z) fw_scheme \<Rightarrow> u8 list \<Rightarrow> ((u32 \<Rightarrow> u32) \<Rightarrow> u32 \<Rightarrow> u32) \<Rightarrow> ('d, 'z) fw_scheme \<Rightarrow> bool" where
  "did s sent f s' \<longleftrightarrow> calm s' \<and> pending inp s' = pending inp s \<and> tx (dev s') = tx (dev s) @ sent \<and>
     val (dev s') = f (val (dev s))"

lemma did_trans: "did s a f s1 \<Longrightarrow> did s1 b g s2 \<Longrightarrow> did s (a @ b) (g \<circ> f) s2"
  by (simp add: did_def)

lemma did_calm: "did s a f s' \<Longrightarrow> calm s'"
  by (simp add: did_def)

lemma printme_did:
  "calm s \<Longrightarrow> XON \<notin> set (c_string p) \<Longrightarrow>
   \<exists>s'. printme B p s = Some s' \<and> did s (c_string p @ CRLF) id s'"
  using printme_keeps [of s p] by (auto simp: calm_def did_def keeps_def)

lemma stores_did:
  assumes "calm s" and "stores s f s'"
  shows "did s [] f s'"
proof -
  have "ubuf s' = ubuf s"
    using assms(2) unfolding stores_def by (metis fw.select_convs(2) fw.surjective fw.update_convs(1))
  with assms show ?thesis by (simp add: stores_def did_def calm_def fw_ok_def pending_def exposed_def)
qed

lemma test_cells_did:
  assumes "calm s" and "cell_addr kRamStart ` set cs \<subseteq> regs"
  shows "\<exists>s'. test_cells B e cs s = Some s' \<and> did s [] (fill_cells (cell_addr kRamStart ` set cs) e) s'"
proof -
  have "dinv (dev s)" using assms(1) by (simp add: calm_def fw_ok_def)
  moreover have "\<forall>c \<in> set cs. cell_addr kRamStart c \<in> regs" using assms(2) by blast
  ultimately obtain s' where "test_cells B e cs s = Some s'"
    and "stores s (\<lambda>f a. if a \<in> cell_addr kRamStart ` set cs then e else f a) s'"
    using test_cells_good by blast
  then show ?thesis
    using stores_did [OF assms(1)] by (simp only: fill_cells_def [abs_def]) blast
qed

lemma test_with_c_did:
  assumes "calm s" and "(\<lambda>j. cell_addr kRamStart (of_nat j)) ` {..<unat n} \<subseteq> regs"
  shows "\<exists>r s'. TestWithC B e n s = Some (r, s') \<and>
                did s [] (fill_cells ((\<lambda>j. cell_addr kRamStart (of_nat j)) ` {..<unat n}) e) s'"
proof -
  have "fill_cells ((\<lambda>j. cell_addr kRamStart (of_nat j)) ` {..<unat n}) e =
      (\<lambda>f a. if \<exists>j < unat n. a = cell_addr kRamStart (0 + of_nat j) then e else f a)"
    by (auto simp: fill_cells_def fun_eq_iff)
  moreover have "dinv (dev s)" using assms(1) by (simp add: calm_def fw_ok_def)
  ultimately show ?thesis
    using test_with_c_loop_good [of s "unat n" 0 e True] stores_did [OF assms(1)] assms(2)
    by (fastforce simp: TestWithC_def)
qed

lemma memerr_main_did:
  assumes calm: "calm s0"
    and cells: "(\<lambda>j. cell_addr kRamStart (of_nat j)) ` {..<6000} \<subseteq> regs"
  shows "\<exists>s'. memerr_main B s0 = Some s' \<and>
     did s0 (concat (replicate 6 CRLF) @ cstr ''<->'' @ CRLF @ cstr ''>-<'' @ CRLF @ cstr ''ihex:'' @ CRLF)
       (\<lambda>f. fill_cells (cell_addr kRamStart ` {48, 49, 50, 51, 52, 53}) 0x11111111
              (fill_cells (cell_addr kRamStart ` {50}) 0x22222222
                (fill_cells ((\<lambda>j. cell_addr kRamStart (of_nat j)) ` {..<6000}) 0xbbbbbbbb
                  (fill_cells (cell_addr kRamStart ` {0, 1, 2, 3, 4, 5, 6, 7, 8, 48, 49, 50}) 0x11111111
                    (fill_cells ((\<lambda>j. cell_addr kRamStart (of_nat j)) ` {..<6000}) 0xaaaaaaaa f))))) s'"
proof -
  have inr: "cell_addr kRamStart ` set cs \<subseteq> regs" if "\<forall>c \<in> set cs. unat c < 6000" for cs
  proof
    fix a assume "a \<in> cell_addr kRamStart ` set cs"
    then obtain c where c: "c \<in> set cs" "a = cell_addr kRamStart c" by blast
    have "(\<lambda>j. cell_addr kRamStart (of_nat j)) (unat c) \<in> regs" using cells that c(1) by blast
    then show "a \<in> regs" by (simp add: c(2))
  qed
  have u: "unat (6000 :: u32) = 6000" by simp
  have t: "c_string (concat (replicate 6 CRLF) @ cstr ''<->'') = concat (replicate 6 CRLF) @ cstr ''<->''"
    by (rule c_string_id) (simp add: CRLF_def)
  have x: "XON \<notin> set (concat (replicate 6 CRLF) @ cstr ''<->'')" "XON \<notin> set (cstr ''>-<'')"
    "XON \<notin> set (cstr ''ihex:'')" by (simp_all add: XON_def CRLF_def)
  obtain s1 where s1: "printme B (concat (replicate 6 CRLF) @ cstr ''<->'') s0 = Some s1"
      "did s0 ((concat (replicate 6 CRLF) @ cstr ''<->'') @ CRLF) id s1"
    using printme_did [OF calm, of "concat (replicate 6 CRLF) @ cstr ''<->''"] x unfolding t by blast
  obtain r2 s2 where s2: "TestWithC B 0xaaaaaaaa 6000 s1 = Some (r2, s2)"
      "did s1 [] (fill_cells ((\<lambda>j. cell_addr kRamStart (of_nat j)) ` {..<6000}) 0xaaaaaaaa) s2"
    using test_with_c_did [OF did_calm [OF s1(2)], of 6000 "0xaaaaaaaa"] cells unfolding u by blast
  obtain s3 where s3: "test_cells B 0x11111111 [0, 1, 2, 3, 4, 5, 6, 7, 8, 48, 49, 50] s2 = Some s3"
      "did s2 [] (fill_cells (cell_addr kRamStart ` {0, 1, 2, 3, 4, 5, 6, 7, 8, 48, 49, 50}) 0x11111111) s3"
    using test_cells_did [OF did_calm [OF s2(2)] inr, of "[0, 1, 2, 3, 4, 5, 6, 7, 8, 48, 49, 50]"] by auto
  obtain r4 s4 where s4: "TestWithC B 0xbbbbbbbb 6000 s3 = Some (r4, s4)"
      "did s3 [] (fill_cells ((\<lambda>j. cell_addr kRamStart (of_nat j)) ` {..<6000}) 0xbbbbbbbb) s4"
    using test_with_c_did [OF did_calm [OF s3(2)], of 6000 "0xbbbbbbbb"] cells unfolding u by blast
  obtain s5 where s5: "test_cells B 0x22222222 [50] s4 = Some s5"
      "did s4 [] (fill_cells (cell_addr kRamStart ` {50}) 0x22222222) s5"
    using test_cells_did [OF did_calm [OF s4(2)] inr, of "[50]"] by auto
  obtain s6 where s6: "test_cells B 0x11111111 [48, 49, 50, 51, 52, 53] s5 = Some s6"
      "did s5 [] (fill_cells (cell_addr kRamStart ` {48, 49, 50, 51, 52, 53}) 0x11111111) s6"
    using test_cells_did [OF did_calm [OF s5(2)] inr, of "[48, 49, 50, 51, 52, 53]"] by auto
  have t2: "c_string (cstr ''>-<'') = cstr ''>-<''" "c_string (cstr ''ihex:'') = cstr ''ihex:''"
    by (simp_all add: c_string_Cons)
  obtain s7 where s7: "printme B (cstr ''>-<'') s6 = Some s7" "did s6 (cstr ''>-<'' @ CRLF) id s7"
    using printme_did [OF did_calm [OF s6(2)], of "cstr ''>-<''"] x unfolding t2 by blast
  obtain s8 where s8: "printme B (cstr ''ihex:'') s7 = Some s8" "did s7 (cstr ''ihex:'' @ CRLF) id s8"
    using printme_did [OF did_calm [OF s7(2)], of "cstr ''ihex:''"] x unfolding t2 by blast
  have run: "memerr_main B s0 = Some s8"
    unfolding memerr_main_def s1(1) s2(1) s3(1) s4(1) s5(1) s6(1) s7(1) s8(1)
      bind.bind_lunit prod.case ..
  note all = did_trans [OF did_trans [OF did_trans [OF did_trans [OF did_trans [OF did_trans [OF
    did_trans [OF s1(2) s2(2)] s3(2)] s4(2)] s5(2)] s6(2)] s7(2)] s8(2)]
  with run show ?thesis by (intro exI [of _ s8]) (simp add: comp_def)
qed

end

text \<open>
  The whole program \<open>memerr\<close> on working RAM: it reaches its final loop, having printed its two
  markers and the prompt and nothing between them, with no input lost; every one of the 6000 cells
  ends with the last value the program gave it.
\<close>

lemma memerr_runs_clean:
  assumes "soc_bus B dinv inp avail tx room tx_wait rx_wait val ram regs" and "fw_ok dinv s"
    and "exposed avail s \<le> 255" and "(\<lambda>j. kRamStart + 4 * of_nat j) ` {..<6000} \<subseteq> regs"
  shows "\<exists>s'. memerr_main B s = Some s' \<and> pending inp s' = pending inp s \<and>
     tx (dev s') = tx (dev s) @ concat (replicate 6 CRLF) @ cstr ''<->'' @ CRLF @
                   cstr ''>-<'' @ CRLF @ cstr ''ihex:'' @ CRLF \<and>
     (\<forall>j < 6000. val (dev s') (kRamStart + 4 * of_nat j) =
        (if 48 \<le> j \<and> j \<le> 53 then 0x11111111 else 0xbbbbbbbb))"
proof -
  let ?c = "\<lambda>j. cell_addr kRamStart (of_nat j)"
  have "soc_bus.calm dinv avail s"
    using assms(2,3) by (simp add: soc_bus.calm_def [OF assms(1)])
  from soc_bus.memerr_main_did [OF assms(1) this] assms(4) obtain s' where
    r: "memerr_main B s = Some s'" and d: "soc_bus.did dinv inp avail tx val s
      (concat (replicate 6 CRLF) @ cstr ''<->'' @ CRLF @ cstr ''>-<'' @ CRLF @ cstr ''ihex:'' @ CRLF)
      (\<lambda>f. fill_cells (cell_addr kRamStart ` {48, 49, 50, 51, 52, 53}) 0x11111111
              (fill_cells (cell_addr kRamStart ` {50}) 0x22222222
                (fill_cells (?c ` {..<6000}) 0xbbbbbbbb
                  (fill_cells (cell_addr kRamStart ` {0, 1, 2, 3, 4, 5, 6, 7, 8, 48, 49, 50}) 0x11111111
                    (fill_cells (?c ` {..<6000}) 0xaaaaaaaa f))))) s'"
    by (auto simp: cell_addr_def)
  have "(48 :: u32) = of_nat 48" "(49 :: u32) = of_nat 49" "(50 :: u32) = of_nat 50"
    "(51 :: u32) = of_nat 51" "(52 :: u32) = of_nat 52" "(53 :: u32) = of_nat 53" by simp_all
  then have im: "cell_addr kRamStart ` {48, 49, 50, 51, 52, 53} = ?c ` {48, 49, 50, 51, 52, 53}"
    "cell_addr kRamStart ` {50} = ?c ` {50}" by (simp_all only: image_insert image_empty)
  have mem: "?c j \<in> ?c ` A \<longleftrightarrow> j \<in> A" if "j < 6000" "A \<subseteq> {..<6000}" for j A
  proof
    assume "?c j \<in> ?c ` A"
    then obtain i where i: "i \<in> A" "?c j = ?c i" by blast
    with that have "i < 2 ^ 30" "j < 2 ^ 30" by auto
    with i cell_addr_inj [of j i kRamStart] show "j \<in> A" by simp
  qed blast
  have "val (dev s') (?c j) = (if 48 \<le> j \<and> j \<le> 53 then 0x11111111 else 0xbbbbbbbb)" if j: "j < 6000" for j
  proof -
    have m: "?c j \<in> ?c ` {48, 49, 50, 51, 52, 53} \<longleftrightarrow> j \<in> {48, 49, 50, 51, 52, 53}"
      "?c j \<in> ?c ` {50} \<longleftrightarrow> j \<in> {50}" "?c j \<in> ?c ` {..<6000} \<longleftrightarrow> j \<in> {..<6000}"
      by (rule mem [OF j]; auto)+
    from d have "val (dev s') (?c j) =
        (if j \<in> {48, 49, 50, 51, 52, 53} then 0x11111111
         else if j \<in> {50} then 0x22222222 else if j \<in> {..<6000} then 0xbbbbbbbb else val (dev s') (?c j))"
      unfolding im soc_bus.did_def [OF assms(1)] by (simp only: fill_cells_def m) simp
    with j show ?thesis by (auto split: if_splits)
  qed
  with r d show ?thesis by (auto simp: soc_bus.did_def [OF assms(1)] cell_addr_def)
qed

subsection \<open>Witnesses\<close>

text \<open>A memory stuck at 0.\<close>

definition stuck_bus :: "unit bus" where
  "stuck_bus = \<lparr>rd32 = (\<lambda>a d. (0, d)), wr32 = (\<lambda>a v d. d)\<rparr>"

lemma memtest_reports_first_fault_witness:
  "fst (Memtest_Test stuck_bus (Memtest_ctor 0x40000 5 2) ()) =
     \<lparr>ok = False, addr = 0x40000, expected = 5, actual = 0\<rparr>"
proof -
  let ?m = "Memtest_ctor 0x40000 5 2"
  have m: "cell_count ?m \<noteq> 0" "base_address ?m = 0x40000" "base_pattern ?m = 5" "unat (cell_count ?m) = 2"
    by (simp_all add: Memtest_ctor_def)
  have c: "cell_reads stuck_bus ?m k i () = replicate k 0" for k i
    by (induction k arbitrary: i) (simp_all add: stuck_bus_def)
  let ?r = "fst (Memtest_Test stuck_bus ?m ())"
  have f: "\<not> ok ?r \<longrightarrow> (\<exists>j < 2. (\<forall>l < j. replicate 2 0 ! l = (5 :: u32)) \<and> replicate 2 0 ! j \<noteq> (5 :: u32) \<and>
      ?r = \<lparr>ok = False, addr = 0x40000 + 4 * of_nat j, expected = 5, actual = replicate 2 0 ! j\<rparr>)"
    and n: "\<not> ok ?r"
    using memtest_reports_first_fault [OF m(1) refl refl refl, of stuck_bus "()"] by (simp_all add: m c)
  then obtain j where j: "j < 2" "\<forall>l < j. replicate 2 0 ! l = (5 :: u32)"
    "?r = \<lparr>ok = False, addr = 0x40000 + 4 * of_nat j, expected = 5, actual = replicate 2 0 ! j\<rparr>" by blast
  then have "j = 0" by (cases j) auto
  with j(3) show ?thesis by simp
qed

lemma memtest_passes_good_memory_witness:
  "\<exists>d. Memtest_Test mock_bus (Memtest_ctor 0x40000 5 2) Map.empty = (Result_new\<lparr>ok := True\<rparr>, d) \<and>
       mock_val d 0x40004 = 5"
proof -
  let ?m = "Memtest_ctor 0x40000 5 2"
  obtain r d where t: "Memtest_Test mock_bus ?m Map.empty = (r, d)" by fastforce
  let ?b = "(\<lambda>j. base_address ?m + 4 * of_nat j) ` {..<unat (cell_count ?m)}"
  have m: "cell_count ?m \<noteq> 0" "base_pattern ?m = 5" by (simp_all add: Memtest_ctor_def)
  have "0x40004 \<in> ?b" by (intro image_eqI [of _ _ 1]) (simp_all add: Memtest_ctor_def)
  with memtest_passes_good_memory [where a = "0x40004", OF mock.reg_file_axioms m(1) refl _ t] t m(2)
  show ?thesis by auto
qed

lemma test_one_cell_witness:
  "\<exists>s'. TestOneCell (wb_uart_bus 0) 5 0 (fw_reset (wbu_reset [])) = Some (False, s') \<and>
        wbu_tx (dev s') = cell_text 0x80000000 5 0 @ CRLF"
proof -
  let ?s = "fw_reset (wbu_reset [])"
  have r: "rd32 (wb_uart_bus 0) 0x80000000 (wr32 (wb_uart_bus 0) 0x80000000 5 (dev ?s)) = (0, dev ?s)"
    by (simp add: wb_uart_bus_def UART_ADDRESS_def)
  have a: "0x80000000 = kRamStart + 4 * 0" by (simp add: kRamStart_def)
  have i: "wbu_inv (dev ?s)" using fw_reset_ok(1) [of "[]"] by (simp add: fw_ok_def)
  from test_one_cell [OF wbu.uart_dev_axioms fw_reset_ok(1) _ a r i] show ?thesis
    by (auto simp: fw_reset_ok)
qed

lemma ram_cells:
  assumes j: "j < 6000"
  shows "kRamStart + 4 * of_nat j \<in> soc_regs"
proof -
  have "kRamStart + 4 * of_nat j = (of_nat (0x80000000 + 4 * j) :: u32)"
    by (simp add: kRamStart_def)
  moreover have "unat (of_nat (0x80000000 + 4 * j) :: u32) = 0x80000000 + 4 * j"
    using j by (simp only: unat_of_nat) simp
  ultimately have "unat (kRamStart + 4 * of_nat j) = 0x80000000 + 4 * j" by simp
  then show ?thesis by (auto simp: is_ram_def UART_ADDRESS_def word_less_nat_alt)
qed

lemma test_with_c_inverted_witness:
  "\<exists>s'. TestWithC soc_mem_bus 7 2 (fw_reset (soc_reset [])) = Some (False, s') \<and>
        mock_val (s_regs (dev s')) 0x80000004 = 7"
proof -
  let ?s = "fw_reset (soc_reset [])"
  have i: "wbu_inv (s_uart (dev ?s))" by (simp add: fw_reset_def soc_reset_ok)
  have c: "\<forall>j < unat 2. kRamStart + 4 * of_nat j \<in> soc_regs"
    using ram_cells by auto
  from test_with_c_inverted [OF soc_machine_bus i c, of 7] obtain s' where
    "TestWithC soc_mem_bus 7 2 ?s = Some (False, s')"
    "\<forall>j < 2. mock_val (s_regs (dev s')) (kRamStart + 4 * of_nat j) = 7" by auto
  then show ?thesis by (auto simp: kRamStart_def dest!: spec [of _ 1])
qed

lemma memerr_runs_clean_witness:
  "\<exists>s'. memerr_main soc_mem_bus (fw_reset (soc_reset [])) = Some s' \<and>
        mock_val (s_regs (dev s')) (kRamStart + 4 * of_nat 50) = 0x11111111"
proof -
  let ?s = "fw_reset (soc_reset [])"
  have ok: "fw_ok (\<lambda>m. wbu_inv (s_uart m)) ?s" "exposed (\<lambda>m. wbu_avail (s_uart m)) ?s \<le> 255"
    by (simp_all add: fw_reset_def fw_ok_def exposed_def soc_reset_ok UartBuf_ctor_def ub_ok_def saved_def)
  have "(\<lambda>j. kRamStart + 4 * of_nat j) ` {..<6000} \<subseteq> soc_regs"
    using ram_cells by auto
  from memerr_runs_clean [OF soc_machine_bus ok this] show ?thesis by (auto dest!: spec [of _ 50])
qed

end
