(* ===== verification/SdCard.thy ===== *)
theory SdCard
  imports Reg
begin

text \<open>
  The SD crd driver of \<open>lib/sdcard.h\<close>, over the SPI controller of \<open>ip/wb/sdcard_wblite.vhdl\<close>. The
  template parameter is the argument \<open>base\<close> of the constructor. What the driver relies on is the
  locale \<open>sd_host\<close>: the controller exchanges one byte with the card per write of its data register,
  and its busy bit clears eventually. The card itself is not in the repository, so it is a parameter:
  a state and a function \<open>xchg\<close> that says what it answers to each byte. The theorems hold for every
  card, including one that never answers.
\<close>

record sdcard =
  data_reg :: reg
  ctrl_reg :: reg

definition SDCard_ctor :: "u32 \<Rightarrow> sdcard" where
  "SDCard_ctor base = \<lparr>data_reg = Reg_ctor base, ctrl_reg = Reg_ctor (base + 4)\<rparr>"

definition CMD0 :: u8 where "CMD0 = 0x40"
definition CMD8 :: u8 where "CMD8 = 0x48"
definition CMD17 :: u8 where "CMD17 = 0x51"
definition CMD55 :: u8 where "CMD55 = 0x77"
definition ACMD41 :: u8 where "ACMD41 = 0x69"

text \<open>The wait for the busy bit; it may run for ever.\<close>

partial_function (option) sd_wait :: "('d, 'b) bus_scheme \<Rightarrow> sdcard \<Rightarrow> 'd \<Rightarrow> 'd option" where
  "sd_wait B c d =
     (case Reg_Read B (ctrl_reg c) d of ((_, ctrl), d1) \<Rightarrow>
        if ctrl AND 2 \<noteq> 0 then sd_wait B c d1 else Some d1)"

declare sd_wait.simps [code]

definition Transfer :: "('d, 'b) bus_scheme \<Rightarrow> sdcard \<Rightarrow> u8 \<Rightarrow> 'd \<Rightarrow> (u8 \<times> 'd) option" where
  "Transfer B c x d =
     do { let (_, d1) = Reg_Write B (data_reg c) (ucast x) d;
          d2 \<leftarrow> sd_wait B c d1;
          let ((_, rx), d3) = Reg_Read B (data_reg c) d2;
          Some (ucast (rx AND 0xFF), d3) }"

definition Select :: "('d, 'b) bus_scheme \<Rightarrow> sdcard \<Rightarrow> 'd \<Rightarrow> 'd" where
  "Select B c d =
     (let ((_, ctrl), d1) = Reg_Read B (ctrl_reg c) d
      in snd (Reg_Write B (ctrl_reg c) (ctrl AND NOT 1) d1))"

definition Deselect :: "('d, 'b) bus_scheme \<Rightarrow> sdcard \<Rightarrow> 'd \<Rightarrow> 'd option" where
  "Deselect B c d =
     (let ((_, ctrl), d1) = Reg_Read B (ctrl_reg c) d;
          d2 = snd (Reg_Write B (ctrl_reg c) (ctrl OR 1) d1)
      in map_option snd (Transfer B c 0xFF d2))"

text \<open>A sequence of transfers whose results are dropped.\<close>

primrec transfer_all :: "('d, 'b) bus_scheme \<Rightarrow> sdcard \<Rightarrow> u8 list \<Rightarrow> 'd \<Rightarrow> 'd option" where
  "transfer_all B c [] d = Some d"
| "transfer_all B c (x # xs) d = do { (_, d1) \<leftarrow> Transfer B c x d; transfer_all B c xs d1 }"

text \<open>The polls for a response, with \<open>n\<close> of them left.\<close>

primrec response_loop :: "('d, 'b) bus_scheme \<Rightarrow> sdcard \<Rightarrow> nat \<Rightarrow> 'd \<Rightarrow> (int \<times> 'd) option" where
  "response_loop B c 0 d = Some (-1, d)"
| "response_loop B c (Suc n) d =
     do { (res, d1) \<leftarrow> Transfer B c 0xFF d;
          if res AND 0x80 = 0 then Some (uint res, d1) else response_loop B c n d1 }"

definition SendCommand ::
    "('d, 'b) bus_scheme \<Rightarrow> sdcard \<Rightarrow> u8 \<Rightarrow> u32 \<Rightarrow> u8 \<Rightarrow> 'd \<Rightarrow> (int \<times> 'd) option" where
  "SendCommand B c cmd arg crc d =
     do { d1 \<leftarrow> transfer_all B c
            [0xFF, cmd, ucast (drop_bit 24 arg AND 0xFF), ucast (drop_bit 16 arg AND 0xFF),
             ucast (drop_bit 8 arg AND 0xFF), ucast (arg AND 0xFF), crc] d;
          response_loop B c 10 d1 }"

text \<open>The loop around ACMD41: the retries left when it ends.\<close>

primrec op_cond_loop :: "('d, 'b) bus_scheme \<Rightarrow> sdcard \<Rightarrow> nat \<Rightarrow> 'd \<Rightarrow> (nat \<times> 'd) option" where
  "op_cond_loop B c 0 d = Some (0, d)"
| "op_cond_loop B c (Suc retries) d =
     do { (_, d1) \<leftarrow> SendCommand B c CMD55 0 0xFF d;
          (r, d2) \<leftarrow> SendCommand B c ACMD41 0x40000000 0xFF d1;
          if r = 0 then Some (Suc retries, d2) else op_cond_loop B c retries d2 }"

definition Init :: "('d, 'b) bus_scheme \<Rightarrow> sdcard \<Rightarrow> 'd \<Rightarrow> (int \<times> 'd) option" where
  "Init B c d =
     do { let d0 = snd (Reg_Write B (ctrl_reg c) (push_bit 16 100 OR 1) d);
          d1 \<leftarrow> transfer_all B c (replicate 10 0xFF) d0;
          let d2 = Select B c d1;
          (r, d3) \<leftarrow> SendCommand B c CMD0 0 0x95 d2;
          if r \<noteq> 1 then do { d4 \<leftarrow> Deselect B c d3; Some (-1, d4) }
          else do {
            (r8, d4) \<leftarrow> SendCommand B c CMD8 0x000001AA 0x87 d3;
            d5 \<leftarrow> (if r8 = 1 then transfer_all B c (replicate 4 0xFF) d4 else Some d4);
            (retries, d6) \<leftarrow> op_cond_loop B c 10000 d5;
            if retries = 0 then do { d7 \<leftarrow> Deselect B c d6; Some (-2, d7) }
            else do {
              d7 \<leftarrow> Deselect B c d6;
              Some (0, snd (Reg_Write B (ctrl_reg c) (push_bit 16 2 OR 1) d7)) } } }"

text \<open>The wait for the data token: the retries left.\<close>

primrec token_loop :: "('d, 'b) bus_scheme \<Rightarrow> sdcard \<Rightarrow> nat \<Rightarrow> 'd \<Rightarrow> (nat \<times> 'd) option" where
  "token_loop B c 0 d = Some (0, d)"
| "token_loop B c (Suc retries) d =
     do { (token, d1) \<leftarrow> Transfer B c 0xFF d;
          if token = 0xFE then Some (Suc retries, d1) else token_loop B c retries d1 }"

primrec read_bytes_loop ::
    "('d, 'b) bus_scheme \<Rightarrow> sdcard \<Rightarrow> nat \<Rightarrow> nat \<Rightarrow> u8 list \<Rightarrow> 'd \<Rightarrow> (u8 list \<times> 'd) option" where
  "read_bytes_loop B c 0 i buf d = Some (buf, d)"
| "read_bytes_loop B c (Suc n) i buf d =
     do { (x, d1) \<leftarrow> Transfer B c 0xFF d; read_bytes_loop B c n (i + 1) (buf[i := x]) d1 }"

text \<open>\<open>ReadBlock\<close> with the caller's buffer, \<open>None\<close> for a null pointer.\<close>

definition ReadBlock ::
    "('d, 'b) bus_scheme \<Rightarrow> sdcard \<Rightarrow> u32 \<Rightarrow> u8 list option \<Rightarrow> 'd \<Rightarrow>
     ((int \<times> u8 list option) \<times> 'd) option" where
  "ReadBlock B c block_addr buffer d =
     (case buffer of None \<Rightarrow> Some ((-1, None), d)
      | Some buf \<Rightarrow>
          do { let d1 = Select B c d;
               (r, d2) \<leftarrow> SendCommand B c CMD17 block_addr 0xFF d1;
               if r \<noteq> 0 then do { d3 \<leftarrow> Deselect B c d2; Some ((-1, Some buf), d3) }
               else do {
                 (retries, d3) \<leftarrow> token_loop B c 10000 d2;
                 if retries = 0 then do { d4 \<leftarrow> Deselect B c d3; Some ((-2, Some buf), d4) }
                 else do {
                   (buf', d4) \<leftarrow> read_bytes_loop B c 512 0 buf d3;
                   d5 \<leftarrow> transfer_all B c [0xFF, 0xFF] d4;
                   d6 \<leftarrow> Deselect B c d5;
                   Some ((0, Some buf'), d6) } } })"

subsection \<open>What the driver relies on\<close>

text \<open>
  A dialogue with the card while the chip select stays as it is: the bytes sent, the bytes received,
  and the card afterwards.
\<close>

primrec exchange ::
    "(bool \<Rightarrow> 'c \<Rightarrow> u8 \<Rightarrow> u8 \<times> 'c) \<Rightarrow> bool \<Rightarrow> 'c \<Rightarrow> u8 list \<Rightarrow> u8 list \<times> 'c" where
  "exchange xchg cs k [] = ([], k)"
| "exchange xchg cs k (x # xs) =
     (case xchg cs k x of (r, k1) \<Rightarrow> case exchange xchg cs k1 xs of (rs, k2) \<Rightarrow> (r # rs, k2))"

lemma exchange_append:
  "exchange xchg cs k (xs @ ys) =
     (case exchange xchg cs k xs of (rs, k1) \<Rightarrow>
        case exchange xchg cs k1 ys of (ts, k2) \<Rightarrow> (rs @ ts, k2))"
  by (induction xs arbitrary: k) (auto split: prod.splits)

lemma length_exchange [simp]: "length (fst (exchange xchg cs k xs)) = length xs"
  by (induction xs arbitrary: k) (simp_all add: split_beta)

text \<open>The control register: chip select in bit 0, busy in bit 1, the divider in the upper half.\<close>

definition sd_ctrl :: "bool \<Rightarrow> bool \<Rightarrow> u16 \<Rightarrow> u32" where
  "sd_ctrl cs busy dv = (if cs then 1 else 0) OR (if busy then 2 else 0) OR push_bit 16 (ucast dv)"

definition divider :: "u32 \<Rightarrow> u16" where
  "divider v = (if ucast (drop_bit 16 v) = (0 :: u16) then 1 else ucast (drop_bit 16 v))"

locale sd_host =
  fixes B :: "('d, 'b) bus_scheme"
    and base :: u32
    and sinv :: "'d \<Rightarrow> bool"
    and cs_n :: "'d \<Rightarrow> bool"
    and clk_div :: "'d \<Rightarrow> u16"
    and busy :: "'d \<Rightarrow> nat"
    and rx :: "'d \<Rightarrow> u8"
    and crd :: "'d \<Rightarrow> 'c"
    and xchg :: "bool \<Rightarrow> 'c \<Rightarrow> u8 \<Rightarrow> u8 \<times> 'c"
  assumes div_pos: "sinv d \<Longrightarrow> clk_div d \<noteq> 0"
    and write_data: "sinv d \<Longrightarrow> busy d = 0 \<Longrightarrow> d' = wr32 B base v d \<Longrightarrow>
           sinv d' \<and> cs_n d' = cs_n d \<and> clk_div d' = clk_div d \<and>
           (rx d', crd d') = xchg (cs_n d) (crd d) (ucast v)"
    and read_ctrl: "sinv d \<Longrightarrow> rd32 B (base + 4) d = (v, d') \<Longrightarrow>
           v = sd_ctrl (cs_n d) (0 < busy d) (clk_div d) \<and> sinv d' \<and> busy d' = busy d - 1 \<and>
           cs_n d' = cs_n d \<and> clk_div d' = clk_div d \<and> rx d' = rx d \<and> crd d' = crd d"
    and write_ctrl: "sinv d \<Longrightarrow> busy d = 0 \<Longrightarrow> d' = wr32 B (base + 4) v d \<Longrightarrow>
           sinv d' \<and> busy d' = 0 \<and> cs_n d' = bit v 0 \<and> clk_div d' = divider v \<and> crd d' = crd d"
    and read_data: "sinv d \<Longrightarrow> busy d = 0 \<Longrightarrow> rd32 B base d = (v, d') \<Longrightarrow>
           v = ucast (rx d) \<and> sinv d' \<and> busy d' = 0 \<and>
           cs_n d' = cs_n d \<and> clk_div d' = clk_div d \<and> crd d' = crd d"

subsection \<open>The protocol, seen from the card\<close>

text \<open>
  The specification of the driver: what a card experiences, as a pure function of the card. There are
  no registers, no busy bit and no chip select bookkeeping here, only bytes sent with the card
  selected (\<open>False\<close>, the line is active low) or deselected (\<open>True\<close>).
\<close>

definition frame :: "u8 \<Rightarrow> u32 \<Rightarrow> u8 \<Rightarrow> u8 list" where
  "frame cmd arg crc =
     [0xFF, cmd, ucast (drop_bit 24 arg), ucast (drop_bit 16 arg), ucast (drop_bit 8 arg), ucast arg, crc]"

primrec card_response :: "(bool \<Rightarrow> 'c \<Rightarrow> u8 \<Rightarrow> u8 \<times> 'c) \<Rightarrow> nat \<Rightarrow> 'c \<Rightarrow> int \<times> 'c" where
  "card_response xchg 0 k = (-1, k)"
| "card_response xchg (Suc n) k =
     (case xchg False k 0xFF of (r, k1) \<Rightarrow>
        if bit r 7 then card_response xchg n k1 else (uint r, k1))"

definition card_command ::
    "(bool \<Rightarrow> 'c \<Rightarrow> u8 \<Rightarrow> u8 \<times> 'c) \<Rightarrow> u8 \<Rightarrow> u32 \<Rightarrow> u8 \<Rightarrow> 'c \<Rightarrow> int \<times> 'c" where
  "card_command xchg cmd arg crc k =
     card_response xchg 10 (snd (exchange xchg False k (frame cmd arg crc)))"

primrec card_op_cond :: "(bool \<Rightarrow> 'c \<Rightarrow> u8 \<Rightarrow> u8 \<times> 'c) \<Rightarrow> nat \<Rightarrow> 'c \<Rightarrow> nat \<times> 'c" where
  "card_op_cond xchg 0 k = (0, k)"
| "card_op_cond xchg (Suc n) k =
     (case card_command xchg ACMD41 0x40000000 0xFF (snd (card_command xchg CMD55 0 0xFF k)) of
        (r, k1) \<Rightarrow> if r = 0 then (Suc n, k1) else card_op_cond xchg n k1)"

definition card_deselect :: "(bool \<Rightarrow> 'c \<Rightarrow> u8 \<Rightarrow> u8 \<times> 'c) \<Rightarrow> 'c \<Rightarrow> 'c" where
  "card_deselect xchg k = snd (xchg True k 0xFF)"

definition card_init :: "(bool \<Rightarrow> 'c \<Rightarrow> u8 \<Rightarrow> u8 \<times> 'c) \<Rightarrow> 'c \<Rightarrow> int \<times> 'c" where
  "card_init xchg k =
     (case card_command xchg CMD0 0 0x95 (snd (exchange xchg True k (replicate 10 0xFF))) of (r, k1) \<Rightarrow>
        if r \<noteq> 1 then (-1, card_deselect xchg k1)
        else case card_command xchg CMD8 0x1AA 0x87 k1 of (r8, k2) \<Rightarrow>
          case card_op_cond xchg 10000
                 (if r8 = 1 then snd (exchange xchg False k2 (replicate 4 0xFF)) else k2) of (n, k3) \<Rightarrow>
            (if n = 0 then -2 else 0, card_deselect xchg k3))"

primrec card_token :: "(bool \<Rightarrow> 'c \<Rightarrow> u8 \<Rightarrow> u8 \<times> 'c) \<Rightarrow> nat \<Rightarrow> 'c \<Rightarrow> nat \<times> 'c" where
  "card_token xchg 0 k = (0, k)"
| "card_token xchg (Suc n) k =
     (case xchg False k 0xFF of (r, k1) \<Rightarrow> if r = 0xFE then (Suc n, k1) else card_token xchg n k1)"

definition card_read ::
    "(bool \<Rightarrow> 'c \<Rightarrow> u8 \<Rightarrow> u8 \<times> 'c) \<Rightarrow> u32 \<Rightarrow> 'c \<Rightarrow> (int \<times> u8 list) \<times> 'c" where
  "card_read xchg block_addr k =
     (case card_command xchg CMD17 block_addr 0xFF k of (r, k1) \<Rightarrow>
        if r \<noteq> 0 then ((-1, []), card_deselect xchg k1)
        else case card_token xchg 10000 k1 of (n, k2) \<Rightarrow>
          if n = 0 then ((-2, []), card_deselect xchg k2)
          else case exchange xchg False k2 (replicate 512 0xFF) of (bs, k3) \<Rightarrow>
            ((0, bs), card_deselect xchg (snd (exchange xchg False k3 [0xFF, 0xFF]))))"

subsection \<open>The controller\<close>

lemma sd_ctrl_busy: "sd_ctrl cs b dv AND 2 \<noteq> 0 \<longleftrightarrow> b"
proof -
  have "sd_ctrl cs b dv AND 2 = 0 \<longleftrightarrow> \<not> bit (sd_ctrl cs b dv) 1"
    using word_and_bit_eq_0_iff [of 1 "sd_ctrl cs b dv"] by simp
  also have "bit (sd_ctrl cs b dv) 1 \<longleftrightarrow> b"
    by (simp add: sd_ctrl_def bit_or_iff bit_push_bit_iff bit_1_iff bit_2_iff)
  finally show ?thesis by simp
qed

lemma sd_ctrl_upper: "ucast (drop_bit 16 (sd_ctrl cs b dv)) = dv"
  by (rule bit_word_eqI) (auto simp: sd_ctrl_def bit_simps bit_2_iff bit_1_iff)

text \<open>What \<open>Select\<close> and \<open>Deselect\<close> do to a control word: bit 0 and nothing of the divider.\<close>

lemma cs_bits: "\<not> bit ((v :: u32) AND NOT 1) 0" "bit ((v :: u32) OR 1) 0"
  by (simp_all only: bit_and_iff bit_or_iff bit_not_iff bit_1_iff) simp_all

lemma drop_bit_cs: "drop_bit 16 ((v :: u32) AND NOT 1) = drop_bit 16 v" "drop_bit 16 ((v :: u32) OR 1) = drop_bit 16 v"
  by (rule bit_word_eqI; simp only: bit_drop_bit_eq o_apply bit_and_iff bit_or_iff bit_not_iff bit_1_iff;
      auto dest: bit_imp_le_length)+

lemma divider_sd_ctrl:
  assumes "dv \<noteq> 0"
  shows "divider (sd_ctrl cs b dv AND NOT 1) = dv" "divider (sd_ctrl cs b dv OR 1) = dv"
  unfolding divider_def drop_bit_cs sd_ctrl_upper using assms by simp_all

context sd_host
begin

abbreviation sd :: sdcard where
  "sd \<equiv> SDCard_ctor base"

definition idle :: "'d \<Rightarrow> bool" where
  "idle d \<longleftrightarrow> sinv d \<and> busy d = 0"

text \<open>\<open>talk d xs rs d'\<close>: the driver exchanged \<open>xs\<close> for \<open>rs\<close> and is idle again.\<close>

definition talk :: "'d \<Rightarrow> u8 list \<Rightarrow> u8 list \<Rightarrow> 'd \<Rightarrow> bool" where
  "talk d xs rs d' \<longleftrightarrow> idle d' \<and> cs_n d' = cs_n d \<and> clk_div d' = clk_div d \<and>
     exchange xchg (cs_n d) (crd d) xs = (rs, crd d')"

lemma talk_refl: "idle d \<Longrightarrow> talk d [] [] d"
  by (simp add: talk_def)

lemma talk_trans: "talk d xs rs d1 \<Longrightarrow> talk d1 ys ts d2 \<Longrightarrow> talk d (xs @ ys) (rs @ ts) d2"
  by (simp add: talk_def exchange_append)

lemma talk_idle: "talk d xs rs d' \<Longrightarrow> idle d'"
  by (simp add: talk_def)

lemma talk_length: "talk d xs rs d' \<Longrightarrow> length rs = length xs"
  unfolding talk_def by (metis fst_conv length_exchange)

lemma sd_wait_returns:
  assumes "sinv d"
  shows "\<exists>d'. sd_wait B sd d = Some d' \<and> idle d' \<and> cs_n d' = cs_n d \<and> clk_div d' = clk_div d \<and>
              rx d' = rx d \<and> crd d' = crd d"
  using assms
proof (induction "busy d" arbitrary: d rule: less_induct)
  case less
  obtain v d1 where r: "rd32 B (base + 4) d = (v, d1)" by fastforce
  note l = read_ctrl [OF less.prems r]
  show ?case
  proof (cases "0 < busy d")
    case True
    then have "busy d1 < busy d" using l by simp
    from less.hyps [OF this] l True show ?thesis
      by (subst sd_wait.simps) (auto simp: SDCard_ctor_def reg_simps r sd_ctrl_busy)
  next
    case False
    with l show ?thesis
      by (subst sd_wait.simps) (auto simp: SDCard_ctor_def reg_simps r sd_ctrl_busy idle_def)
  qed
qed

lemma Transfer_talks:
  assumes "idle d"
  shows "\<exists>r d'. Transfer B sd x d = Some (r, d') \<and> talk d [x] [r] d'"
proof -
  let ?d1 = "wr32 B base (ucast x) d"
  have w: "sinv ?d1" "cs_n ?d1 = cs_n d" "clk_div ?d1 = clk_div d" "(rx ?d1, crd ?d1) = xchg (cs_n d) (crd d) x"
    using write_data [OF _ _ refl, of d "ucast x"] assms by (simp_all add: idle_def)
  obtain d2 where d2: "sd_wait B sd ?d1 = Some d2" "idle d2" "cs_n d2 = cs_n d" "clk_div d2 = clk_div d"
    "rx d2 = rx ?d1" "crd d2 = crd ?d1"
    using sd_wait_returns [OF w(1)] w by auto
  obtain v d3 where r: "rd32 B base d2 = (v, d3)" by fastforce
  from read_data [OF _ _ r] d2 have
    d3: "v = ucast (rx d2)" "idle d3" "cs_n d3 = cs_n d" "clk_div d3 = clk_div d" "crd d3 = crd d2"
    by (auto simp: idle_def)
  have "Transfer B sd x d = Some (rx d2, d3)"
    using d2(1) d3(1) by (simp add: Transfer_def reg_simps r SDCard_ctor_def)
  with d3 d2 w show ?thesis
    by (intro exI [of _ "rx d2"] exI [of _ d3]) (simp add: talk_def flip: w(4))
qed

lemma transfer_all_talks:
  "idle d \<Longrightarrow> \<exists>rs d'. transfer_all B sd xs d = Some d' \<and> talk d xs rs d'"
proof (induction xs arbitrary: d)
  case Nil
  then show ?case using talk_refl by auto
next
  case (Cons x xs)
  obtain r d1 where d1: "Transfer B sd x d = Some (r, d1)" "talk d [x] [r] d1"
    using Transfer_talks [OF Cons.prems] by blast
  with Cons.IH [OF talk_idle [OF d1(2)]] talk_trans [OF d1(2)] show ?case by fastforce
qed

text \<open>Changing the chip select is not a byte to the card.\<close>

lemma Select_selects:
  assumes "idle d" and "d' = Select B sd d"
  shows "idle d' \<and> \<not> cs_n d' \<and> clk_div d' = clk_div d \<and> crd d' = crd d"
proof -
  obtain v d1 where r: "rd32 B (base + 4) d = (v, d1)" by fastforce
  from read_ctrl [OF _ r] assms(1) have
    l: "v = sd_ctrl (cs_n d) False (clk_div d)" "sinv d1" "busy d1 = 0" "clk_div d1 = clk_div d" "crd d1 = crd d"
    by (auto simp: idle_def)
  have "d' = wr32 B (base + 4) (v AND NOT 1) d1"
    by (simp add: assms(2) Select_def SDCard_ctor_def reg_simps r)
  from write_ctrl [OF l(2,3) this] l(5) assms(1) show ?thesis
    unfolding l(1) divider_sd_ctrl(1) [OF div_pos [of d]] idle_def
    using cs_bits(1) divider_sd_ctrl(1) [OF div_pos [of d]] by (simp only: simp_thms)
qed

lemma Deselect_deselects:
  assumes "idle d"
  shows "\<exists>d'. Deselect B sd d = Some d' \<and> idle d' \<and> cs_n d' \<and> clk_div d' = clk_div d \<and>
              crd d' = snd (xchg True (crd d) 0xFF)"
proof -
  obtain v d1 where r: "rd32 B (base + 4) d = (v, d1)" by fastforce
  from read_ctrl [OF _ r] assms(1) have
    l: "v = sd_ctrl (cs_n d) False (clk_div d)" "sinv d1" "busy d1 = 0" "clk_div d1 = clk_div d" "crd d1 = crd d"
    by (auto simp: idle_def)
  let ?d2 = "wr32 B (base + 4) (v OR 1) d1"
  have d2: "idle ?d2 \<and> cs_n ?d2 \<and> clk_div ?d2 = clk_div d \<and> crd ?d2 = crd d"
    using write_ctrl [OF l(2,3) refl, of "v OR 1"] l(5) assms(1)
      cs_bits(2) divider_sd_ctrl(2) [OF div_pos [of d]]
    by (simp only: idle_def l(1) simp_thms)
  then obtain x d' where "Transfer B sd 0xFF ?d2 = Some (x, d')" "talk ?d2 [0xFF] [x] d'"
    using Transfer_talks by blast
  with d2 show ?thesis
    by (auto simp: Deselect_def SDCard_ctor_def reg_simps r talk_def split: prod.splits)
qed

text \<open>\<open>situ d cs dv k\<close>: the controller is idle with this chip select, divider and card.\<close>

definition situ :: "'d \<Rightarrow> bool \<Rightarrow> u16 \<Rightarrow> 'c \<Rightarrow> bool" where
  "situ d cs dv k \<longleftrightarrow> idle d \<and> cs_n d = cs \<and> clk_div d = dv \<and> crd d = k"

lemma Transfer_situ:
  assumes "situ d cs dv k"
  obtains d' where "Transfer B sd x d = Some (fst (xchg cs k x), d')" and "situ d' cs dv (snd (xchg cs k x))"
proof -
  obtain r d' where d': "Transfer B sd x d = Some (r, d')" "talk d [x] [r] d'"
    using Transfer_talks assms unfolding situ_def by blast
  with assms have "xchg cs k x = (r, crd d')" "situ d' cs dv (crd d')"
    by (auto simp: situ_def talk_def split: prod.splits)
  with d'(1) that show thesis by simp
qed

lemma transfer_all_situ:
  assumes "situ d cs dv k"
  obtains d' where "transfer_all B sd xs d = Some d'" and "situ d' cs dv (snd (exchange xchg cs k xs))"
proof -
  obtain rs d' where d': "transfer_all B sd xs d = Some d'" "talk d xs rs d'"
    using transfer_all_talks assms unfolding situ_def by blast
  with assms that show thesis by (auto simp: situ_def talk_def)
qed

lemma response_situ:
  assumes "situ d False dv k"
  shows "\<exists>d'. response_loop B sd n d = Some (fst (card_response xchg n k), d') \<and>
              situ d' False dv (snd (card_response xchg n k))"
  using assms
proof (induction n arbitrary: d k)
  case 0
  then show ?case by simp
next
  case (Suc n)
  obtain r k1 where x: "xchg False k 0xFF = (r, k1)" by fastforce
  obtain d1 where d1: "Transfer B sd 0xFF d = Some (r, d1)" "situ d1 False dv k1"
    using Transfer_situ [OF Suc.prems, of "0xFF"] by (auto simp: x)
  have "r AND 0x80 = 0 \<longleftrightarrow> \<not> bit r 7"
    using word_and_bit_eq_0_iff [of 7 r] by (simp add: push_bit_eq_mult)
  with Suc.IH [OF d1(2)] d1 show ?case by (auto simp: x)
qed

lemma SendCommand_situ:
  assumes "situ d False dv k"
  obtains d' where "SendCommand B sd cmd arg crc d = Some (fst (card_command xchg cmd arg crc k), d')"
    and "situ d' False dv (snd (card_command xchg cmd arg crc k))"
proof -
  have f: "[0xFF, cmd, ucast (drop_bit 24 arg AND 0xFF), ucast (drop_bit 16 arg AND 0xFF),
      ucast (drop_bit 8 arg AND 0xFF), ucast (arg AND 0xFF), crc] = frame cmd arg crc"
    by (simp add: frame_def)
  obtain d1 where d1: "transfer_all B sd (frame cmd arg crc) d = Some d1"
    "situ d1 False dv (snd (exchange xchg False k (frame cmd arg crc)))"
    by (rule transfer_all_situ [OF assms])
  with response_situ [OF d1(2), of 10] that show thesis
    unfolding SendCommand_def f card_command_def by auto
qed

lemma op_cond_situ:
  assumes "situ d False dv k"
  shows "\<exists>d'. op_cond_loop B sd n d = Some (fst (card_op_cond xchg n k), d') \<and>
              situ d' False dv (snd (card_op_cond xchg n k))"
  using assms
proof (induction n arbitrary: d k)
  case 0
  then show ?case by simp
next
  case (Suc n)
  obtain r1 k1 where x1: "card_command xchg CMD55 0 0xFF k = (r1, k1)" by fastforce
  obtain r2 k2 where x2: "card_command xchg ACMD41 0x40000000 0xFF k1 = (r2, k2)" by fastforce
  obtain d1 where d1: "SendCommand B sd CMD55 0 0xFF d = Some (r1, d1)" "situ d1 False dv k1"
    using SendCommand_situ [OF Suc.prems, of CMD55 0 "0xFF"] unfolding x1 by auto
  obtain d2 where d2: "SendCommand B sd ACMD41 0x40000000 0xFF d1 = Some (r2, d2)" "situ d2 False dv k2"
    using SendCommand_situ [OF d1(2), of ACMD41 "0x40000000" "0xFF"] unfolding x2 by auto
  from Suc.IH [OF d2(2)] d1 d2 show ?case by (auto simp: x1 x2)
qed

lemma token_situ:
  assumes "situ d False dv k"
  shows "\<exists>d'. token_loop B sd n d = Some (fst (card_token xchg n k), d') \<and>
              situ d' False dv (snd (card_token xchg n k))"
  using assms
proof (induction n arbitrary: d k)
  case 0
  then show ?case by simp
next
  case (Suc n)
  obtain r k1 where x: "xchg False k 0xFF = (r, k1)" by fastforce
  obtain d1 where "Transfer B sd 0xFF d = Some (r, d1)" "situ d1 False dv k1"
    using Transfer_situ [OF Suc.prems, of "0xFF"] by (auto simp: x)
  with Suc.IH [of d1] show ?case by (auto simp: x)
qed

lemma read_bytes_situ:
  assumes "situ d False dv k" and "i + n \<le> length buf"
    and "exchange xchg False k (replicate n 0xFF) = (bs, k')"
  shows "\<exists>d'. read_bytes_loop B sd n i buf d = Some (take i buf @ bs @ drop (i + n) buf, d') \<and>
              situ d' False dv k'"
  using assms
proof (induction n arbitrary: d k i buf bs)
  case 0
  then show ?case by simp
next
  case (Suc n)
  obtain r k1 where x: "xchg False k 0xFF = (r, k1)" by fastforce
  obtain bs1 where bs1: "exchange xchg False k1 (replicate n 0xFF) = (bs1, k')" "bs = r # bs1"
    using Suc.prems(3) by (auto simp: x split: prod.splits)
  obtain d1 where d1: "Transfer B sd 0xFF d = Some (r, d1)" "situ d1 False dv k1"
    using Transfer_situ [OF Suc.prems(1), of "0xFF"] by (auto simp: x)
  have "take (Suc i) (buf[i := r]) = take i buf @ [r]"
    using Suc.prems(2) by (simp add: take_Suc_conv_app_nth)
  with Suc.IH [OF d1(2) _ bs1(1), of "Suc i" "buf[i := r]"] Suc.prems(2) d1(1) bs1(2)
  show ?case by simp
qed

lemma Select_situ: "situ d cs dv k \<Longrightarrow> situ (Select B sd d) False dv k"
  using Select_selects [OF _ refl] by (simp add: situ_def)

lemma Deselect_situ:
  assumes "situ d cs dv k"
  obtains d' where "Deselect B sd d = Some d'" and "situ d' True dv (card_deselect xchg k)"
  using Deselect_deselects [of d] assms by (auto simp: situ_def card_deselect_def)

lemma write_ctrl_situ:
  assumes "situ d cs dv k"
  shows "situ (snd (Reg_Write B (ctrl_reg sd) v d)) (bit v 0) (divider v) k"
  using write_ctrl [OF _ _ refl, of d v] assms
  by (simp add: situ_def idle_def SDCard_ctor_def reg_simps)

lemma Init_situ:
  assumes "situ d cs dv k"
  shows "\<exists>d'. Init B sd d = Some (fst (card_init xchg k), d') \<and>
              situ d' True (if fst (card_init xchg k) = 0 then 2 else 100) (snd (card_init xchg k))"
proof -
  have v: "divider (push_bit 16 100 OR 1) = 100" "divider (push_bit 16 2 OR 1) = 2"
    "bit (push_bit 16 100 OR 1 :: u32) 0" "bit (push_bit 16 2 OR 1 :: u32) 0"
    by (simp_all add: divider_def)
  let ?d0 = "snd (Reg_Write B (ctrl_reg sd) (push_bit 16 100 OR 1) d)"
  have d0: "situ ?d0 True 100 k"
    using write_ctrl_situ [OF assms, of "push_bit 16 100 OR 1"] unfolding v using v by simp
  let ?k0 = "snd (exchange xchg True k (replicate 10 0xFF))"
  obtain d1 where d1: "transfer_all B sd (replicate 10 0xFF) ?d0 = Some d1" "situ d1 True 100 ?k0"
    by (rule transfer_all_situ [OF d0])
  obtain r k1 where x1: "card_command xchg CMD0 0 0x95 ?k0 = (r, k1)" by fastforce
  obtain d3 where d3: "SendCommand B sd CMD0 0 0x95 (Select B sd d1) = Some (r, d3)" "situ d3 False 100 k1"
    using SendCommand_situ [OF Select_situ [OF d1(2)], of CMD0 0 "0x95"] unfolding x1 by auto
  show ?thesis
  proof (cases "r = 1")
    case False
    obtain d4 where "Deselect B sd d3 = Some d4" "situ d4 True 100 (card_deselect xchg k1)"
      by (rule Deselect_situ [OF d3(2)])
    with False d1 d3 show ?thesis by (simp add: Init_def card_init_def x1 Let_def)
  next
    case True
    obtain r8 k2 where x2: "card_command xchg CMD8 0x1AA 0x87 k1 = (r8, k2)" by fastforce
    obtain d4 where d4: "SendCommand B sd CMD8 0x1AA 0x87 d3 = Some (r8, d4)" "situ d4 False 100 k2"
      using SendCommand_situ [OF d3(2), of CMD8 "0x1AA" "0x87"] unfolding x2 by auto
    let ?k3 = "if r8 = 1 then snd (exchange xchg False k2 (replicate 4 0xFF)) else k2"
    obtain d5 where d5: "(if r8 = 1 then transfer_all B sd (replicate 4 0xFF) d4 else Some d4) = Some d5"
      "situ d5 False 100 ?k3"
    proof (cases "r8 = 1")
      case True
      obtain d' where "transfer_all B sd (replicate 4 0xFF) d4 = Some d'"
        "situ d' False 100 (snd (exchange xchg False k2 (replicate 4 0xFF)))"
        by (rule transfer_all_situ [OF d4(2)])
      with True that [of d'] show thesis by simp
    next
      case False
      with d4(2) that show thesis by simp
    qed
    obtain n k4 where x3: "card_op_cond xchg 10000 ?k3 = (n, k4)" by fastforce
    obtain d6 where d6: "op_cond_loop B sd 10000 d5 = Some (n, d6)" "situ d6 False 100 k4"
      using op_cond_situ [OF d5(2), of 10000] unfolding x3 by auto
    obtain d7 where d7: "Deselect B sd d6 = Some d7" "situ d7 True 100 (card_deselect xchg k4)"
      by (rule Deselect_situ [OF d6(2)])
    have e: "Init B sd d = (if n = 0 then Some (-2, d7)
        else Some (0, snd (Reg_Write B (ctrl_reg sd) (push_bit 16 2 OR 1) d7)))"
      using d1(1) d3(1) d4(1) d5(1) d6(1) d7(1) True by (simp add: Init_def Let_def del: transfer_all.simps)
    have c: "card_init xchg k = (if n = 0 then -2 else 0, card_deselect xchg k4)"
      unfolding card_init_def x1 prod.case x2 x3 using True by simp
    show ?thesis
      using write_ctrl_situ [OF d7(2), of "push_bit 16 2 OR 1"] d7(2) v by (simp add: e c)
  qed
qed

lemma ReadBlock_situ:
  assumes "situ d cs dv k" and "512 \<le> length buf"
  shows "\<exists>d'. ReadBlock B sd block_addr (Some buf) d =
            Some ((fst (fst (card_read xchg block_addr k)),
                   Some (snd (fst (card_read xchg block_addr k)) @
                         drop (length (snd (fst (card_read xchg block_addr k)))) buf)), d') \<and>
          situ d' True dv (snd (card_read xchg block_addr k))"
proof -
  obtain r k1 where x1: "card_command xchg CMD17 block_addr 0xFF k = (r, k1)" by fastforce
  obtain d2 where d2: "SendCommand B sd CMD17 block_addr 0xFF (Select B sd d) = Some (r, d2)"
    "situ d2 False dv k1"
    using SendCommand_situ [OF Select_situ [OF assms(1)], of CMD17 block_addr "0xFF"] unfolding x1 by auto
  obtain n k2 where x2: "card_token xchg 10000 k1 = (n, k2)" by fastforce
  obtain d3 where d3: "token_loop B sd 10000 d2 = Some (n, d3)" "situ d3 False dv k2"
    using token_situ [OF d2(2), of 10000] unfolding x2 by auto
  obtain bs k3 where x3: "exchange xchg False k2 (replicate 512 0xFF) = (bs, k3)" by fastforce
  have bs: "length bs = 512" using length_exchange [of xchg False k2 "replicate 512 0xFF"] unfolding x3 by simp
  obtain d4 where d4: "read_bytes_loop B sd 512 0 buf d3 = Some (bs @ drop 512 buf, d4)" "situ d4 False dv k3"
    using read_bytes_situ [OF d3(2), of 0 512 buf bs k3] assms(2) x3 by auto
  obtain d5 where d5: "transfer_all B sd [0xFF, 0xFF] d4 = Some d5"
    "situ d5 False dv (snd (exchange xchg False k3 [0xFF, 0xFF]))"
    by (rule transfer_all_situ [OF d4(2)])
  consider "r \<noteq> 0" | "r = 0" "n = 0" | "r = 0" "n \<noteq> 0" by blast
  then show ?thesis
  proof cases
    case 1
    obtain d' where "Deselect B sd d2 = Some d'" "situ d' True dv (card_deselect xchg k1)"
      by (rule Deselect_situ [OF d2(2)])
    with 1 d2 show ?thesis by (simp add: ReadBlock_def card_read_def x1 Let_def)
  next
    case 2
    obtain d' where "Deselect B sd d3 = Some d'" "situ d' True dv (card_deselect xchg k2)"
      by (rule Deselect_situ [OF d3(2)])
    with 2 d2 d3 show ?thesis by (simp add: ReadBlock_def card_read_def x1 x2 Let_def)
  next
    case 3
    obtain d' where d': "Deselect B sd d5 = Some d'"
      "situ d' True dv (card_deselect xchg (snd (exchange xchg False k3 [0xFF, 0xFF])))"
      by (rule Deselect_situ [OF d5(2)])
    have "card_read xchg block_addr k =
        ((0, bs), card_deselect xchg (snd (exchange xchg False k3 [0xFF, 0xFF])))"
      unfolding card_read_def x1 prod.case x2 x3 using 3 by simp
    moreover have "ReadBlock B sd block_addr (Some buf) d = Some ((0, Some (bs @ drop 512 buf)), d')"
      using 3 d2(1) d3(1) d4(1) d5(1) d'(1)
      by (simp add: ReadBlock_def Let_def del: transfer_all.simps)
    ultimately show ?thesis using d'(2) bs by simp
  qed
qed

end

subsection \<open>The controller provides the contract\<close>

text \<open>
  The controller of \<open>ip/wb/sdcard_wblite.vhdl\<close>, one bus access at a time, with a card \<open>xchg\<close> on the
  other side. A write of the data register starts a transfer whose eight bits are exchanged as one
  step; \<open>polls dv\<close> is for how many reads of the control register a transfer at divider \<open>dv\<close> stays
  busy. A write of the data register during a transfer starts none, and the driver makes none.
\<close>

record 'c sdcard_wblite =
  cs_n_reg :: bool
  clk_div_reg :: u16
  rx_data :: u8
  busy_left :: nat
  the_card :: 'c

definition sdw_write_data ::
    "(u16 \<Rightarrow> nat) \<Rightarrow> (bool \<Rightarrow> 'c \<Rightarrow> u8 \<Rightarrow> u8 \<times> 'c) \<Rightarrow> u32 \<Rightarrow> 'c sdcard_wblite \<Rightarrow> 'c sdcard_wblite" where
  "sdw_write_data polls xchg v p =
     (if busy_left p = 0
      then (case xchg (cs_n_reg p) (the_card p) (ucast v) of (r, k) \<Rightarrow>
              p\<lparr>rx_data := r, the_card := k, busy_left := polls (clk_div_reg p)\<rparr>)
      else p)"

definition sdw_write_ctrl :: "u32 \<Rightarrow> 'c sdcard_wblite \<Rightarrow> 'c sdcard_wblite" where
  "sdw_write_ctrl v p =
     p\<lparr>cs_n_reg := bit v 0,
       clk_div_reg := (if ucast (drop_bit 16 v) = (0 :: u16) then 1 else ucast (drop_bit 16 v))\<rparr>"

definition sdw_read_ctrl :: "'c sdcard_wblite \<Rightarrow> u32" where
  "sdw_read_ctrl p =
     (if cs_n_reg p then 1 else 0) OR (if 0 < busy_left p then 2 else 0) OR
     push_bit 16 (ucast (clk_div_reg p))"

definition sdw_bus ::
    "(u16 \<Rightarrow> nat) \<Rightarrow> (bool \<Rightarrow> 'c \<Rightarrow> u8 \<Rightarrow> u8 \<times> 'c) \<Rightarrow> u32 \<Rightarrow> 'c sdcard_wblite bus" where
  "sdw_bus polls xchg base =
     \<lparr>rd32 = (\<lambda>a p. (if a = base then ucast (rx_data p) else if a = base + 4 then sdw_read_ctrl p else 0,
                     p\<lparr>busy_left := busy_left p - 1\<rparr>)),
      wr32 = (\<lambda>a v p. if a = base then sdw_write_data polls xchg v p
                      else if a = base + 4 then sdw_write_ctrl v p else p)\<rparr>"

interpretation sdw: sd_host "sdw_bus polls xchg base" base "\<lambda>p. clk_div_reg p \<noteq> 0" cs_n_reg clk_div_reg
  busy_left rx_data the_card xchg
  by unfold_locales
    (auto simp: sdw_bus_def sdw_write_data_def sdw_write_ctrl_def sdw_read_ctrl_def sd_ctrl_def divider_def
      split: prod.splits)

definition sdw_reset :: "'c \<Rightarrow> 'c sdcard_wblite" where
  "sdw_reset k = \<lparr>cs_n_reg = True, clk_div_reg = 1, rx_data = 0, busy_left = 0, the_card = k\<rparr>"

subsection \<open>Properties\<close>

lemma card_read_result:
  assumes "card_read xchg block_addr k0 = ((r, bs), k)"
  shows "length bs = (if r = 0 then 512 else 0) \<and> r \<in> {0, -1, -2}"
proof -
  obtain r1 k1 where x1: "card_command xchg CMD17 block_addr 0xFF k0 = (r1, k1)" by fastforce
  obtain n k2 where x2: "card_token xchg 10000 k1 = (n, k2)" by fastforce
  obtain cs k3 where x3: "exchange xchg False k2 (replicate 512 0xFF) = (cs, k3)" by fastforce
  have "length cs = 512" using length_exchange [of xchg False k2 "replicate 512 0xFF"] unfolding x3 by simp
  with assms show ?thesis unfolding card_read_def x1 prod.case x2 x3 by (auto split: if_splits)
qed

text \<open>
  C35: \<open>Init\<close> refines the protocol: over every controller that meets the contract and every card,
  answering or not, it returns, with the result and the effect on the card of \<open>card_init\<close>: ten dummy
  bytes with the card deselected (80 clocks, at least the 74 required), CMD0, CMD8 with its four
  extra bytes only when it was accepted, CMD55 and ACMD41 until the card is ready or 10000 attempts
  failed. It ends with the card deselected and the controller idle, and raises the clock only when it
  succeeded.
\<close>

theorem sd_init_refines:
  assumes "sd_host B base sinv cs_n clk_div busy rx crd xchg"
    and "sinv d" and "busy d = 0" and "card_init xchg (crd d) = (r, k)"
  shows "\<exists>d'. Init B (SDCard_ctor base) d = Some (r, d') \<and> crd d' = k \<and> cs_n d' \<and> sinv d' \<and> busy d' = 0 \<and>
              clk_div d' = (if r = 0 then 2 else 100) \<and> r \<in> {0, -1, -2}"
proof -
  note d = sd_host.situ_def [OF assms(1)] sd_host.idle_def [OF assms(1)]
  have "sd_host.situ sinv cs_n clk_div busy crd d (cs_n d) (clk_div d) (crd d)"
    using assms(2,3) by (simp add: d)
  from sd_host.Init_situ [OF assms(1) this] assms(4) have
    "\<exists>d'. Init B (SDCard_ctor base) d = Some (r, d') \<and> crd d' = k \<and> cs_n d' \<and> sinv d' \<and> busy d' = 0 \<and>
              clk_div d' = (if r = 0 then 2 else 100)"
    by (auto simp: d)
  moreover have "r \<in> {0, -1, -2}"
    using assms(4) by (auto simp: card_init_def split: prod.splits if_splits)
  ultimately show ?thesis by blast
qed

lemma response_range:
  assumes "card_response xchg n k = (r, k')"
  shows "r = -1 \<or> 0 \<le> r \<and> r < 128"
  using assms
proof (induction n arbitrary: k)
  case 0
  then show ?case by simp
next
  case (Suc n)
  obtain x k1 where x: "xchg False k 0xFF = (x, k1)" by fastforce
  have "uint x < 128" if "\<not> bit x 7"
  proof -
    have "bit (uint x) 7 = bit x 7" by (simp add: bit_uint_iff)
    with that have "even (uint x div 128)" by (simp add: bit_iff_odd)
    moreover have "uint x < 256" using unsigned_less [of x] by simp
    moreover have "0 \<le> uint x" by simp
    ultimately show ?thesis by presburger
  qed
  with Suc show ?case by (auto simp: x split: if_splits)
qed

lemma unat_byte: "unat (ucast (drop_bit n (w :: u32)) :: u8) = unat w div 2 ^ n mod 256"
proof -
  have "unat (ucast (drop_bit n w) :: u8) = drop_bit n (unat w) mod 256"
  proof -
    have "unat w < 2 ^ LENGTH(32)" by (rule unsigned_less)
    then have "unat w < 4294967296" by simp
    then have "unat w mod 4294967296 = unat w" by simp
    then show ?thesis by (simp add: unsigned_ucast_eq unsigned_drop_bit_eq take_bit_eq_mod)
  qed
  then show ?thesis by (simp only: drop_bit_eq_div)
qed

lemma big_endian_bytes:
  "foldl (\<lambda>n b. 256 * n + unat b) 0
     (map (\<lambda>i. ucast (drop_bit (8 * (3 - i)) arg) :: u8) [0..<4]) = unat (arg :: u32)"
proof -
  let ?x = "unat arg"
  have "?x < 256 * (256 * (256 * 256))" using unsigned_less [of arg] by simp
  then have m: "?x div 2 ^ 24 mod 256 = ?x div 256 div 256 div 256"
    using div_mult2_eq [of ?x 256 "256 * 256"] div_mult2_eq [of "?x div 256" 256 256]
    by (simp add: less_mult_imp_div_less)
  have q: "?x div 2 ^ 16 mod 256 = ?x div 256 div 256 mod 256" "?x div 2 ^ 8 mod 256 = ?x div 256 mod 256"
    "?x div 2 ^ 0 mod 256 = ?x mod 256"
    using div_mult2_eq [of ?x 256 256] by simp_all
  have l: "[0..<4] = [0, 1, 2, 3 :: nat]" by (simp add: upt_conv_Cons)
  have "foldl (\<lambda>n b. 256 * n + unat b) 0 (map (\<lambda>i. ucast (drop_bit (8 * (3 - i)) arg) :: u8) [0..<4]) =
    256 * (256 * (256 * (256 * 0 + ?x div 2 ^ 24 mod 256) + ?x div 2 ^ 16 mod 256) + ?x div 2 ^ 8 mod 256) +
      ?x div 2 ^ 0 mod 256"
    unfolding l list.map foldl_Cons foldl_Nil unat_byte by simp
  also have "\<dots> = ?x" unfolding m q by simp
  finally show ?thesis .
qed

text \<open>
  A command reaches the card as the six bytes of the SPI frame behind one idle byte: the command,
  its 32-bit argument most significant byte first, from which the argument can be read back, and
  the checksum. The result is what the card answered within ten polls, a byte below 128, or -1.
\<close>

theorem sd_command_frame:
  assumes "sd_host B base sinv cs_n clk_div busy rx crd xchg"
    and "sinv d" and "busy d = 0" and "\<not> cs_n d"
    and "a = map (\<lambda>i. ucast (drop_bit (8 * (3 - i)) arg)) [0..<4]"
    and "k = snd (exchange xchg False (crd d) ([0xFF, cmd] @ a @ [crc]))"
  shows "\<exists>r d'. SendCommand B (SDCard_ctor base) cmd arg crc d = Some (r, d') \<and>
           (r, crd d') = card_response xchg 10 k \<and> (r = -1 \<or> 0 \<le> r \<and> r < 128) \<and>
           foldl (\<lambda>n b. 256 * n + unat b) 0 a = unat arg \<and> \<not> cs_n d' \<and> clk_div d' = clk_div d"
proof -
  note d = sd_host.situ_def [OF assms(1)] sd_host.idle_def [OF assms(1)]
  have s: "sd_host.situ sinv cs_n clk_div busy crd d False (clk_div d) (crd d)"
    using assms(2-4) by (simp add: d)
  have "[0xFF, cmd] @ a @ [crc] = frame cmd arg crc" by (simp add: assms(5) frame_def upt_conv_Cons)
  then have c: "card_command xchg cmd arg crc (crd d) = card_response xchg 10 k"
    by (simp add: card_command_def assms(6))
  obtain r k' where r: "card_response xchg 10 k = (r, k')" by fastforce
  obtain d' where "SendCommand B (SDCard_ctor base) cmd arg crc d = Some (r, d')"
    "sd_host.situ sinv cs_n clk_div busy crd d' False (clk_div d) k'"
    by (rule sd_host.SendCommand_situ [OF assms(1) s, of cmd arg crc]) (simp only: c r fst_conv snd_conv)
  with response_range [OF r] big_endian_bytes [of arg] show ?thesis
    by (auto simp: d r assms(5))
qed

text \<open>
  C36: \<open>ReadBlock\<close> refines the protocol: over every controller and card it returns with the result of
  \<open>card_read\<close>. On success the buffer holds exactly the 512 bytes the card sent after its data token
  and is otherwise untouched; on a refused command or a missing token the buffer is untouched; in
  every case the card is deselected and the clock divider is kept.
\<close>

theorem sd_read_block_refines:
  assumes "sd_host B base sinv cs_n clk_div busy rx crd xchg"
    and "sinv d" and "busy d = 0" and "card_read xchg block_addr (crd d) = ((r, bs), k)"
    and "512 \<le> length buf"
  shows "\<exists>d'. ReadBlock B (SDCard_ctor base) block_addr (Some buf) d =
                Some ((r, Some (bs @ drop (length bs) buf)), d') \<and>
              length bs = (if r = 0 then 512 else 0) \<and> r \<in> {0, -1, -2} \<and>
              crd d' = k \<and> cs_n d' \<and> sinv d' \<and> busy d' = 0 \<and> clk_div d' = clk_div d"
proof -
  note d = sd_host.situ_def [OF assms(1)] sd_host.idle_def [OF assms(1)]
  have "sd_host.situ sinv cs_n clk_div busy crd d (cs_n d) (clk_div d) (crd d)"
    using assms(2,3) by (simp add: d)
  from sd_host.ReadBlock_situ [OF assms(1) this assms(5), of block_addr] assms(4) have
    "\<exists>d'. ReadBlock B (SDCard_ctor base) block_addr (Some buf) d =
                Some ((r, Some (bs @ drop (length bs) buf)), d') \<and>
              crd d' = k \<and> cs_n d' \<and> sinv d' \<and> busy d' = 0 \<and> clk_div d' = clk_div d"
    by (auto simp: d)
  with card_read_result [OF assms(4)] show ?thesis by blast
qed

subsection \<open>Witnesses\<close>

text \<open>A card that plays a recorded session: its answers while it is selected, in order.\<close>

definition script_card :: "bool \<Rightarrow> u8 list \<Rightarrow> u8 \<Rightarrow> u8 \<times> u8 list" where
  "script_card cs rs x = (if cs then (0xFF, rs) else case rs of [] \<Rightarrow> (0xFF, []) | r # rs' \<Rightarrow> (r, rs'))"

lemma script_exchange:
  "length xs = length rs \<Longrightarrow> exchange script_card False (rs @ rest) xs = (rs, rest)"
proof (induction xs arbitrary: rs)
  case Nil
  then show ?case by simp
next
  case (Cons x xs)
  then show ?case by (cases rs) (auto simp: script_card_def)
qed

lemma script_deselected: "snd (exchange script_card True rs xs) = rs" "card_deselect script_card rs = rs"
  by (induction xs) (simp_all add: script_card_def card_deselect_def split_beta)

lemma script_command:
  assumes "length fs = 7" and "\<not> bit r 7"
  shows "card_command script_card cmd arg crc (fs @ r # rest) = (uint r, rest)"
proof -
  have "exchange script_card False (fs @ r # rest) (frame cmd arg crc) = (fs, r # rest)"
    using script_exchange [of "frame cmd arg crc" fs "r # rest"] assms(1) by (simp add: frame_def)
  moreover have "card_response script_card (Suc 9) (r # rest) = (uint r, rest)"
    using assms(2) by (simp only: card_response.simps) (simp add: script_card_def)
  ultimately show ?thesis by (simp add: card_command_def)
qed

definition idle_bytes :: "nat \<Rightarrow> u8 list" where
  "idle_bytes n = replicate n 0xFF"

lemma length_idle_bytes [simp]: "length (idle_bytes n) = n"
  by (simp add: idle_bytes_def)

text \<open>A card that becomes ready at the first attempt, and one that delivers a block of sevens.\<close>

definition good_init :: "u8 list" where
  "good_init = idle_bytes 7 @ 1 # idle_bytes 7 @ 1 # [0, 0, 1, 0xAA] @ idle_bytes 7 @ 1 # idle_bytes 7 @ [0]"

lemma card_init_good: "card_init script_card good_init = (0, [])"
proof -
  let ?k1 = "idle_bytes 7 @ 1 # [0, 0, 1, 0xAA] @ idle_bytes 7 @ 1 # idle_bytes 7 @ [0]"
  let ?k2 = "[0, 0, 1, 0xAA] @ idle_bytes 7 @ 1 # idle_bytes 7 @ [0]"
  let ?k3 = "idle_bytes 7 @ 1 # idle_bytes 7 @ [0]"
  have c0: "card_command script_card CMD0 0 0x95 good_init = (1, ?k1)"
    unfolding good_init_def by (subst script_command) simp_all
  have c8: "card_command script_card CMD8 0x1AA 0x87 ?k1 = (1, ?k2)"
    by (subst script_command) simp_all
  have x: "exchange script_card False ?k2 (replicate 4 0xFF) = ([0, 0, 1, 0xAA], ?k3)"
    by (rule script_exchange) simp
  have c55: "card_command script_card CMD55 0 0xFF ?k3 = (1, idle_bytes 7 @ [0])"
    by (subst script_command) simp_all
  have c41: "card_command script_card ACMD41 0x40000000 0xFF (idle_bytes 7 @ [0]) = (0, [])"
    by (subst script_command) simp_all
  have "card_op_cond script_card (Suc 9999) ?k3 = (Suc 9999, [])"
    unfolding card_op_cond.simps c55 snd_conv c41 by simp
  then have oc: "card_op_cond script_card 10000 ?k3 = (10000, [])" by simp
  show ?thesis
    unfolding card_init_def script_deselected(1) c0 prod.case c8
    by (simp only: x oc script_deselected(2) prod.case simp_thms if_True snd_conv) simp
qed

lemma card_read_good:
  assumes "length bs = 512"
  shows "card_read script_card a (idle_bytes 7 @ 0 # 0xFE # bs @ [0, 0]) = ((0, bs), [])"
proof -
  have c: "card_command script_card CMD17 a 0xFF (idle_bytes 7 @ 0 # 0xFE # bs @ [0, 0]) = (0, 0xFE # bs @ [0, 0])"
    by (subst script_command) simp_all
  have "card_token script_card (Suc 9999) (0xFE # bs @ [0, 0]) = (Suc 9999, bs @ [0, 0])"
    by (simp only: card_token.simps) (simp add: script_card_def)
  then have t: "card_token script_card 10000 (0xFE # bs @ [0, 0]) = (10000, bs @ [0, 0])" by simp
  have x: "exchange script_card False (bs @ [0, 0]) (replicate 512 0xFF) = (bs, [0, 0])"
    by (rule script_exchange) (simp only: assms length_replicate)
  have y: "exchange script_card False [0, 0] [0xFF, 0xFF] = ([0, 0], [])"
    using script_exchange [of "[0xFF, 0xFF]" "[0, 0]" "[]"] by simp
  show ?thesis
    unfolding card_read_def c prod.case t x y by (simp add: script_deselected(2))
qed

text \<open>The controller at \<open>0x40000050\<close>, busy for as many polls as its divider says.\<close>

abbreviation demo_sd_bus :: "u8 list sdcard_wblite bus" where
  "demo_sd_bus \<equiv> sdw_bus unat script_card 0x40000050"

lemma demo_sd_host:
  "sd_host demo_sd_bus 0x40000050 (\<lambda>p. clk_div_reg p \<noteq> 0) cs_n_reg clk_div_reg busy_left rx_data the_card script_card"
  by (rule sdw.sd_host_axioms)

lemma sdw_reset_fields [simp]:
  "clk_div_reg (sdw_reset k) = 1" "busy_left (sdw_reset k) = 0" "the_card (sdw_reset k) = k"
  by (simp_all add: sdw_reset_def)

theorem sd_init_refines_witness:
  "\<exists>d'. Init demo_sd_bus (SDCard_ctor 0x40000050) (sdw_reset good_init) = Some (0, d') \<and>
        clk_div_reg d' = 2 \<and> cs_n_reg d'"
proof -
  have c: "card_init script_card (the_card (sdw_reset good_init)) = (0, [])" by (simp add: card_init_good)
  from sd_init_refines [OF demo_sd_host _ _ c] show ?thesis by auto
qed

theorem sd_read_block_refines_witness:
  "\<exists>d'. ReadBlock demo_sd_bus (SDCard_ctor 0x40000050) 3 (Some (replicate 513 1))
          (sdw_reset (idle_bytes 7 @ 0 # 0xFE # replicate 512 7 @ [0, 0])) =
        Some ((0, Some (replicate 512 7 @ [1])), d') \<and> cs_n_reg d'"
proof -
  let ?k = "idle_bytes 7 @ 0 # 0xFE # replicate 512 7 @ [0, 0]"
  have l: "length (replicate 512 (7 :: u8)) = 512" by (rule length_replicate)
  have c: "card_read script_card 3 (the_card (sdw_reset ?k)) = ((0, replicate 512 7), [])"
    unfolding sdw_reset_fields by (rule card_read_good [OF l])
  have "512 \<le> length (replicate 513 (1 :: u8))" by (simp only: length_replicate)
  moreover have "drop 512 (replicate 513 (1 :: u8)) = [1]" by (simp only: drop_replicate) simp
  ultimately show ?thesis
    using sd_read_block_refines [OF demo_sd_host _ _ c] unfolding l by fastforce
qed

theorem sd_command_frame_witness:
  "\<exists>d'. SendCommand demo_sd_bus (SDCard_ctor 0x40000050) CMD17 0x12345678 0xFF
          ((sdw_reset [])\<lparr>cs_n_reg := False\<rparr>) = Some (-1, d')"
proof -
  let ?d = "(sdw_reset [])\<lparr>cs_n_reg := False\<rparr>"
  have x: "script_card False [] b = (0xFF, [])" for b by (simp add: script_card_def)
  have e: "snd (exchange script_card False [] xs) = []" for xs
    by (induction xs) (simp_all add: x split_beta)
  have "card_response script_card n [] = (-1, [])" for n
    by (induction n) (simp_all add: script_card_def)
  with sd_command_frame [OF demo_sd_host _ _ _ refl refl, of ?d CMD17 "0x12345678" "0xFF"] show ?thesis
    by (auto simp: x e split_beta)
qed

end
