(* ===== verification/Ddr3Exec.thy ===== *)
theory Ddr3Exec
  imports Upload
begin

text \<open>
  The program \<open>bin/rv32_ddr3exec\<close>: it receives a program into the memory at the address of
  \<open>lib/hw/memory_map\<close>, reports where it starts and calls it.
\<close>

text \<open>
  \<open>kMemoryBase\<close> is fixed by the build (\<open>LIB_HW_MEMORY_BASE\<close>); the uploaded program is a parameter:
  what calling a function at an address does to the state, \<open>None\<close> if it never returns.
\<close>

definition kMemoryBase :: u32 where
  "kMemoryBase = 0x00040000"

definition MemStart :: u32 where
  "MemStart = kMemoryBase"

definition MemStartPtr :: u32 where
  "MemStartPtr = kMemoryBase"

definition ddr3exec_main ::
    "('d, 'b) mem_bus_scheme \<Rightarrow> 'i ihex_lib \<Rightarrow>
     (u32 \<Rightarrow> ('d, 'z) loader_scheme \<Rightarrow> ('d, 'z) loader_scheme option) \<Rightarrow> ('d, 'z) loader_scheme \<Rightarrow>
     (unit, ('d, 'z) loader_scheme) outcome option" where
  "ddr3exec_main B L call s =
     do { s1 \<leftarrow> printme B (cstr ''ihex:'') (s\<lparr>ih := (ih s)\<lparr>ihex_line := 1\<rparr>\<rparr>);
          let s2 = s1\<lparr>ih := (ih s1)\<lparr>gEof := False\<rparr>\<rparr>;
          obind (upload_loop B L True (ihex_begin_read L) s2) (\<lambda>i s3.
            obind (run_ihex (ihex_data_read B L) (ihex_end_read L i) s3) (\<lambda>_ s4.
              do { s5 \<leftarrow> uart_putchar B XON s4;
                   let (begin_word, s6) = on_dev (rd32 B MemStartPtr) s5;
                   (_, s7) \<leftarrow> kprintf B (''b: 0x%08x'' @ newline) [begin_word] s6;
                   (_, s8) \<leftarrow> kprintf B (''m: 0x%08x'' @ newline) [MemStartPtr] s7;
                   (_, s9) \<leftarrow> kprintf B (''j: 0x%08x'' @ newline) [MemStartPtr] s8;
                   s10 \<leftarrow> call MemStartPtr s9;
                   s11 \<leftarrow> printme B (cstr ''halt.'') s10;
                   Some (Hung s11) })) }"

context soc_host
begin

lemma ddr3exec_report:
  assumes "at_line s p k" and "MemStartPtr \<in> ram_area"
  shows "\<exists>w s1 n1 s2 n2 s3 n3 s4. on_dev (rd32 B MemStartPtr) s = (w, s1) \<and> w = ram_word (ram (dev s)) MemStartPtr \<and>
           kprintf B (''b: 0x%08x'' @ newline) [w] s1 = Some (n1, s2) \<and>
           kprintf B (''m: 0x%08x'' @ newline) [MemStartPtr] s2 = Some (n2, s3) \<and>
           kprintf B (''j: 0x%08x'' @ newline) [MemStartPtr] s3 = Some (n3, s4) \<and> at_line s4 p k \<and>
           sent_only s (hex_line (CHR ''b'') w @ hex_line (CHR ''m'') MemStartPtr @ hex_line (CHR ''j'') MemStartPtr) s4"
proof -
  obtain w d where r: "rd32 B MemStartPtr (dev s) = (w, d)" by fastforce
  let ?s1 = "s\<lparr>dev := d\<rparr>"
  have "dinv (dev s)" using assms(1) by (simp add: at_line_def ready_def io_ok_def fw_ok_def)
  from ram_read [OF assms(2) this r] assms(1) have w: "w = ram_word (ram (dev s)) MemStartPtr"
    and a1: "at_line ?s1 p k" and t1: "sent_only s [] ?s1"
    by (auto simp: at_line_def ready_def io_ok_def fw_ok_def pending_def exposed_def sent_only_def)
  have od: "on_dev (rd32 B MemStartPtr) s = (w, ?s1)" by (simp add: on_dev_def r)
  have "ready ?s1" using a1 by (simp add: at_line_def)
  from hex_line_wrote [OF this, of "CHR ''b''" w] obtain n1 s2 where s2:
    "kprintf B (''b: 0x%08x'' @ newline) [w] ?s1 = Some (n1, s2)" "wrote ?s1 (hex_line (CHR ''b'') w) id s2" "ih s2 = ih ?s1"
    by (auto simp: plain_def)
  from hex_line_wrote [OF wrote_ready [OF s2(2)], of "CHR ''m''" MemStartPtr] obtain n2 s3 where s3:
    "kprintf B (''m: 0x%08x'' @ newline) [MemStartPtr] s2 = Some (n2, s3)"
    "wrote s2 (hex_line (CHR ''m'') MemStartPtr) id s3" "ih s3 = ih s2"
    by (auto simp: plain_def)
  from hex_line_wrote [OF wrote_ready [OF s3(2)], of "CHR ''j''" MemStartPtr] obtain n3 s4 where s4:
    "kprintf B (''j: 0x%08x'' @ newline) [MemStartPtr] s3 = Some (n3, s4)"
    "wrote s3 (hex_line (CHR ''j'') MemStartPtr) id s4" "ih s4 = ih s3"
    by (auto simp: plain_def)
  have "at_line s4 p k" using at_line_wrote a1 s2(2) s3(2) s4(2) by blast
  moreover have "sent_only s (hex_line (CHR ''b'') w @ hex_line (CHR ''m'') MemStartPtr @ hex_line (CHR ''j'') MemStartPtr) s4"
    using t1 s2(2,3) s3(2,3) s4(2,3) by (simp add: sent_only_def wrote_def)
  ultimately show ?thesis using od w s2(1) s3(1) s4(1) by blast
qed

lemma ddr3exec_main_good:
  assumes "ls \<noteq> []" and "at_line s (concat ls @ rest) (length (hd ls))"
    and "\<forall>l \<in> set ls. good_line l" and "length (first_line rest) < 256"
    and "feed L (ihex_begin_read L) ls = (css, i)" and "lib_calls (ihex_end_read L i) = (ce, i')"
    and "calls_ok L ram_area (concat css @ ce)"
    and "\<forall>cs \<in> set (butlast css). \<not> has_eof L cs" and "has_eof L (last css)" and "MemStartPtr \<in> ram_area"
    and "m = calls_ram L (concat css @ ce) (ram (dev s))"
  shows "\<exists>s'. ddr3exec_main B L call s =
              Option.bind (call MemStartPtr s') (\<lambda>s1. Option.bind (printme B (cstr ''halt.'') s1) (\<lambda>s2. Some (Hung s2))) \<and>
           at_line s' rest (length (first_line rest)) \<and> ram (dev s') = m \<and> val (dev s') = val (dev s) \<and>
           tx (dev s') = tx (dev s) @ cstr ''ihex:'' @ CRLF @ upload_text L True (boot_vars (ih s)) css @
              calls_text L ce (calls_vars L (concat css) (boot_vars (ih s))) @ [XON] @
              hex_line (CHR ''b'') (ram_word m MemStartPtr) @ hex_line (CHR ''m'') MemStartPtr @
              hex_line (CHR ''j'') MemStartPtr"
proof -
  have "at_line (s\<lparr>ih := (ih s)\<lparr>ihex_line := 1\<rparr>\<rparr>) (concat ls @ rest) (length (hd ls))" using assms(2) by simp
  moreover have "plain ''ihex:''" by (simp add: plain_def)
  ultimately obtain s1 where s1: "printme B (cstr ''ihex:'') (s\<lparr>ih := (ih s)\<lparr>ihex_line := 1\<rparr>\<rparr>) = Some s1"
    "at_line s1 (concat ls @ rest) (length (hd ls))"
    "sent_only (s\<lparr>ih := (ih s)\<lparr>ihex_line := 1\<rparr>\<rparr>) (cstr ''ihex:'' @ CRLF) s1" using prompt by blast
  let ?s2 = "s1\<lparr>ih := (ih s1)\<lparr>gEof := False\<rparr>\<rparr>"
  have v: "ih ?s2 = boot_vars (ih s)" using s1(3) by (cases "ih s") (simp add: sent_only_def)
  have "\<not> gEof (ih ?s2)" and "at_line ?s2 (concat ls @ rest) (length (hd ls))" using s1(2) by simp_all
  from upload_complete [OF assms(1) this assms(3-9)] obtain s3 s4 s5 where s5:
    "upload_loop B L True (ihex_begin_read L) ?s2 = Some (Returned i s3)"
    "run_ihex (ihex_data_read B L) (ihex_end_read L i) s3 = Some (Returned i' s4)"
    "uart_putchar B XON s4 = Some s5" "at_line s5 rest (length (first_line rest))"
    "tx (dev s5) = tx (dev ?s2) @ upload_text L True (ih ?s2) css @
                         calls_text L ce (calls_vars L (concat css) (ih ?s2)) @ [XON]"
    "val (dev s5) = val (dev ?s2)" "ram (dev s5) = calls_ram L (concat css @ ce) (ram (dev ?s2))"
    by (elim exE conjE) (rule that)
  from ddr3exec_report [OF s5(4) assms(10)] obtain w s6 n1 s7 n2 s8 n3 s9 where s9:
    "on_dev (rd32 B MemStartPtr) s5 = (w, s6)" "w = ram_word (ram (dev s5)) MemStartPtr"
    "kprintf B (''b: 0x%08x'' @ newline) [w] s6 = Some (n1, s7)"
    "kprintf B (''m: 0x%08x'' @ newline) [MemStartPtr] s7 = Some (n2, s8)"
    "kprintf B (''j: 0x%08x'' @ newline) [MemStartPtr] s8 = Some (n3, s9)" "at_line s9 rest (length (first_line rest))"
    "sent_only s5 (hex_line (CHR ''b'') w @ hex_line (CHR ''m'') MemStartPtr @ hex_line (CHR ''j'') MemStartPtr) s9"
    by (elim exE conjE) (rule that)
  have m: "ram (dev s5) = m" using s5(7) s1(3) by (simp add: assms(11) sent_only_def)
  have "ddr3exec_main B L call s =
              Option.bind (call MemStartPtr s9) (\<lambda>s1. Option.bind (printme B (cstr ''halt.'') s1) (\<lambda>s2. Some (Hung s2)))"
    unfolding ddr3exec_main_def s1(1) bind.bind_lunit Let_def s5(1,2,3) obind_simps s9(1,3,4,5) prod.case ..
  with s9(2,6,7) s5(5,6) s1(3) show ?thesis
    unfolding v m by (intro exI [of _ s9]) (simp add: sent_only_def m)
qed

end

subsection \<open>Properties\<close>

text \<open>
  C3: The upload of rv32_ddr3exec, under the same conditions as for noelv_serv_upload: it ends in a call
  of the uploaded program at the start of the memory, in a state in which the RAM holds exactly the
  data records stored in order, no register was written and the input behind the upload is still
  there. Before the call it has reported the first word of the program, as it stands in the RAM, and
  the address it jumps to. If the program returns, \<open>halt.\<close> is printed and the loader stops.
\<close>

theorem ddr3exec_runs_upload:
  assumes "soc_host B dinv inp avail tx room tx_wait rx_wait val ram regs ram_area tx_left"
    and "fw_ok dinv s" and "length (fmtbuf s) = 256" and "length (linebuf s) = 256"
    and "ls \<noteq> []" and "pending inp s = concat ls @ rest" and "exposed avail s = length (hd ls)"
    and "\<forall>l \<in> set ls. good_line l" and "length (first_line rest) < 256"
    and "feed L (ihex_begin_read L) ls = (css, i)" and "lib_calls (ihex_end_read L i) = (ce, i')"
    and "calls_ok L ram_area (concat css @ ce)"
    and "\<forall>cs \<in> set (butlast css). \<not> has_eof L cs" and "has_eof L (last css)" and "MemStartPtr \<in> ram_area"
    and "m = calls_ram L (concat css @ ce) (ram (dev s))"
  shows "\<exists>s'. ddr3exec_main B L call s =
              Option.bind (call MemStartPtr s') (\<lambda>s1. Option.bind (printme B (cstr ''halt.'') s1) (\<lambda>s2. Some (Hung s2))) \<and>
           pending inp s' = rest \<and> ram (dev s') = m \<and> val (dev s') = val (dev s) \<and>
           tx (dev s') = tx (dev s) @ cstr ''ihex:'' @ CRLF @ upload_text L True (boot_vars (ih s)) css @
              calls_text L ce (calls_vars L (concat css) (boot_vars (ih s))) @ [XON] @
              hex_line (CHR ''b'') (ram_word m MemStartPtr) @ hex_line (CHR ''m'') MemStartPtr @
              hex_line (CHR ''j'') MemStartPtr"
proof -
  have "good_line (hd ls)" using assms(5,8) by (cases ls) auto
  then have "exposed avail s \<le> 255" using assms(7) by (simp add: good_line_def)
  note start = at_line_start [OF assms(1-4) this, unfolded assms(7), unfolded assms(6)]
  from soc_host.ddr3exec_main_good [OF assms(1,5) start assms(8-16), of call] show ?thesis
    by (elim exE) (simp only: soc_host.at_line_def [OF assms(1)], blast)
qed

subsection \<open>Witnesses\<close>

text \<open>A program that checks that it has been loaded, and then runs for ever.\<close>

theorem ddr3exec_runs_upload_witness:
  "ddr3exec_main soc_mem_bus (line_lib 0x40000)
     (\<lambda>a s. if a = 0x40000 \<and> s_ram (dev s) 0x40010 = 7 \<and> s_ram (dev s) 0x40011 = 8 then None else Some s)
     (upload_start demo_line1 [demo_eof]) = None"
proof -
  have a: "MemStartPtr \<in> {a. is_ram a}" by (simp add: MemStartPtr_def kMemoryBase_def is_ram_def)
  let ?call = "\<lambda>a s. if a = 0x40000 \<and> s_ram (dev s) 0x40010 = 7 \<and> s_ram (dev s) 0x40011 = 8 then None else Some s"
  from ddr3exec_runs_upload [OF soc_machine demo_start demo_feed(1,3) demo_end a refl, of ?call]
  show ?thesis using demo_ram by (auto simp: upload_soc_def MemStartPtr_def kMemoryBase_def)
qed

end
