(* ===== verification/ImageLoader.thy ===== *)
theory ImageLoader
  imports Upload Memtest Perinput
begin

text \<open>
  The loaders of the DDR3 systems, \<open>bin/rv32_ddr3\<close> and \<open>bin/muntjac\<close>: the same program but for one
  line that shows a debug bit. Their callback looks at the checksum before it stores anything and
  places the image at an offset; they do not throttle the host.
\<close>

subsection \<open>The callback\<close>

definition image_format :: string where
  "image_format = ''a: %08x: len=%4d(%4x): line_len=%4d(%4x)''"

definition image_data_read ::
    "('d, 'b) mem_bus_scheme \<Rightarrow> 'i ihex_lib \<Rightarrow> ihex_record \<Rightarrow> u8 \<Rightarrow> bool \<Rightarrow> ('d, 'z) loader_scheme \<Rightarrow>
     (bool, ('d, 'z) loader_scheme) outcome option" where
  "image_data_read B L ihex type checksum_error s =
     (if checksum_error
      then do { s1 \<leftarrow> printme B (cstr ''ihex err'') s; Some (Hung s1) }
      else if type = IHEX_DATA_RECORD L then
        (let address = linear_address ihex + kRamStart;
             len = ucast (ihex_length ihex) :: u32;
             line_len = ucast (line_length ihex) :: u32
         in do { (_, s1) \<leftarrow> kprintf B image_format [ihex_address ihex, len, len, line_len, line_len] s;
                 let s2 = s1\<lparr>dev := store_loop B address (ihex_data ihex) (unat (ihex_length ihex)) 0 (dev s1)\<rparr>;
                 (_, s3) \<leftarrow> kprintf B newline [] s2;
                 Some (Returned True s3) })
      else if type = IHEX_END_OF_FILE_RECORD L then
        do { s1 \<leftarrow> printme B (cstr ''EOF'') s;
             Some (Returned True (s1\<lparr>ih := (ih s1)\<lparr>gEof := True\<rparr>\<rparr>)) }
      else Some (Returned True s))"

subsection \<open>The programs\<close>

partial_function (option) image_loop ::
    "('d, 'b) mem_bus_scheme \<Rightarrow> 'i ihex_lib \<Rightarrow> 'i \<Rightarrow> ('d, 'z) loader_scheme \<Rightarrow>
     ('i, ('d, 'z) loader_scheme) outcome option" where
  "image_loop B L i s =
     (if gEof (ih s) then Some (Returned i s)
      else do { ((line_ok, b), s1) \<leftarrow> uart_getline B (linebuf s) 256 s;
                let s2 = s1\<lparr>linebuf := b\<rparr>;
                if line_ok = False
                then do { s3 \<leftarrow> printme B (cstr ''1 err'') s2; Some (Hung s3) }
                else do { out \<leftarrow> run_ihex (image_data_read B L) (ihex_read_bytes L (c_string (linebuf s2)) i) s2;
                          case out of Returned i' s3 \<Rightarrow> image_loop B L i' s3
                                    | Hung s3 \<Rightarrow> Some (Hung s3) } })"

declare image_loop.simps [code]

text \<open>
  What the two programs share from the prompt on. The image is entered at \<open>0x80000004\<close>; \<open>call\<close> is what
  the code at an address does, as in \<open>ddr3exec_main\<close>.
\<close>

definition image_start :: u32 where
  "image_start = 0x80000004"

definition image_boot ::
    "('d, 'b) mem_bus_scheme \<Rightarrow> 'i ihex_lib \<Rightarrow>
     (u32 \<Rightarrow> ('d, 'z) loader_scheme \<Rightarrow> ('d, 'z) loader_scheme option) \<Rightarrow> ('d, 'z) loader_scheme \<Rightarrow>
     (unit, ('d, 'z) loader_scheme) outcome option" where
  "image_boot B L call s =
     do { s1 \<leftarrow> printme B (cstr ''ihex:'') s;
          (_, s2) \<leftarrow> printmef B ''buf: %d'' [256] (s1\<lparr>ih := (ih s1)\<lparr>gEof := False\<rparr>\<rparr>);
          obind (image_loop B L (ihex_begin_read L) s2) (\<lambda>i s3.
            obind (run_ihex (image_data_read B L) (ihex_end_read L i) s3) (\<lambda>_ s4.
              do { s5 \<leftarrow> printme B (cstr ''u'') s4;
                   let (begin_word, s6) = on_dev (rd32 B kRamStart) s5;
                   s7 \<leftarrow> printme B (cstr ''t'') s6;
                   (_, s8) \<leftarrow> kprintf B (''b: 0x%08x'' @ newline) [begin_word] s7;
                   (_, s9) \<leftarrow> kprintf B (''m: %0x'' @ newline) [kRamStart] s8;
                   (_, s10) \<leftarrow> kprintf B (''m: %0x'' @ newline) [image_start] s9;
                   s11 \<leftarrow> call image_start s10;
                   s12 \<leftarrow> printme B (cstr ''completed'') s11;
                   Some (Hung s12) })) }"

definition ddr3_main ::
    "('d, 'b) mem_bus_scheme \<Rightarrow> 'i ihex_lib \<Rightarrow>
     (u32 \<Rightarrow> ('d, 'z) loader_scheme \<Rightarrow> ('d, 'z) loader_scheme option) \<Rightarrow> ('d, 'z) loader_scheme \<Rightarrow>
     (unit, ('d, 'z) loader_scheme) outcome option" where
  "ddr3_main B L call s =
     do { (_, s1) \<leftarrow> TestOneCell B 0x11111111 0 s;
          s2 \<leftarrow> printme B (cstr ''>-< memtest'') s1;
          image_boot B L call s2 }"

text \<open>
  The muntjac program, from its own source: its callback and its loop read as those of rv32_ddr3, which
  the two lemmas behind it confirm.
\<close>

definition muntjac_data_read ::
    "('d, 'b) mem_bus_scheme \<Rightarrow> 'i ihex_lib \<Rightarrow> ihex_record \<Rightarrow> u8 \<Rightarrow> bool \<Rightarrow> ('d, 'z) loader_scheme \<Rightarrow>
     (bool, ('d, 'z) loader_scheme) outcome option" where
  "muntjac_data_read B L ihex type checksum_error s =
     (if checksum_error
      then do { s1 \<leftarrow> printme B (cstr ''ihex err'') s; Some (Hung s1) }
      else if type = IHEX_DATA_RECORD L then
        (let address = linear_address ihex + kRamStart;
             len = ucast (ihex_length ihex) :: u32;
             line_len = ucast (line_length ihex) :: u32
         in do { (_, s1) \<leftarrow> kprintf B ''a: %08x: len=%4d(%4x): line_len=%4d(%4x)''
                              [ihex_address ihex, len, len, line_len, line_len] s;
                 let s2 = s1\<lparr>dev := store_loop B address (ihex_data ihex) (unat (ihex_length ihex)) 0 (dev s1)\<rparr>;
                 (_, s3) \<leftarrow> kprintf B newline [] s2;
                 Some (Returned True s3) })
      else if type = IHEX_END_OF_FILE_RECORD L then
        do { s1 \<leftarrow> printme B (cstr ''EOF'') s;
             Some (Returned True (s1\<lparr>ih := (ih s1)\<lparr>gEof := True\<rparr>\<rparr>)) }
      else Some (Returned True s))"

partial_function (option) muntjac_loop ::
    "('d, 'b) mem_bus_scheme \<Rightarrow> 'i ihex_lib \<Rightarrow> 'i \<Rightarrow> ('d, 'z) loader_scheme \<Rightarrow>
     ('i, ('d, 'z) loader_scheme) outcome option" where
  "muntjac_loop B L i s =
     (if gEof (ih s) then Some (Returned i s)
      else do { ((line_ok, b), s1) \<leftarrow> uart_getline B (linebuf s) 256 s;
                let s2 = s1\<lparr>linebuf := b\<rparr>;
                if line_ok = False
                then do { s3 \<leftarrow> printme B (cstr ''1 err'') s2; Some (Hung s3) }
                else do { out \<leftarrow> run_ihex (muntjac_data_read B L) (ihex_read_bytes L (c_string (linebuf s2)) i) s2;
                          case out of Returned i' s3 \<Rightarrow> muntjac_loop B L i' s3
                                    | Hung s3 \<Rightarrow> Some (Hung s3) } })"

declare muntjac_loop.simps [code]

definition muntjac_main ::
    "('d, 'b) mem_bus_scheme \<Rightarrow> 'i ihex_lib \<Rightarrow>
     (u32 \<Rightarrow> ('d, 'z) loader_scheme \<Rightarrow> ('d, 'z) loader_scheme option) \<Rightarrow> ('d, 'z) loader_scheme \<Rightarrow>
     (unit, ('d, 'z) loader_scheme) outcome option" where
  "muntjac_main B L call s =
     do { (_, s1) \<leftarrow> TestOneCell B 0x11111111 0 s;
          s2 \<leftarrow> printme B (cstr ''>-< memtest'') s1;
          let (a_valid, s3) = on_dev (read_mem_a_valid B) s2;
          (_, s4) \<leftarrow> kprintf B (''mem_a_valid: %d'' @ newline) [ucast a_valid] s3;
          s5 \<leftarrow> printme B (cstr ''ihex:'') s4;
          (_, s6) \<leftarrow> printmef B ''buf: %d'' [256] (s5\<lparr>ih := (ih s5)\<lparr>gEof := False\<rparr>\<rparr>);
          obind (muntjac_loop B L (ihex_begin_read L) s6) (\<lambda>i s7.
            obind (run_ihex (muntjac_data_read B L) (ihex_end_read L i) s7) (\<lambda>_ s8.
              do { s9 \<leftarrow> printme B (cstr ''u'') s8;
                   let (begin_word, s10) = on_dev (rd32 B kRamStart) s9;
                   s11 \<leftarrow> printme B (cstr ''t'') s10;
                   (_, s12) \<leftarrow> kprintf B (''b: 0x%08x'' @ newline) [begin_word] s11;
                   (_, s13) \<leftarrow> kprintf B (''m: %0x'' @ newline) [kRamStart] s12;
                   (_, s14) \<leftarrow> kprintf B (''m: %0x'' @ newline) [0x80000004] s13;
                   s15 \<leftarrow> call 0x80000004 s14;
                   s16 \<leftarrow> printme B (cstr ''completed'') s15;
                   Some (Hung s16) })) }"

lemma muntjac_data_read_eq: "muntjac_data_read = image_data_read"
  by (simp add: fun_eq_iff muntjac_data_read_def image_data_read_def image_format_def)

lemma muntjac_loop_image: "muntjac_loop B L i s = Some r \<Longrightarrow> image_loop B L i s = Some r"
  by (erule muntjac_loop.raw_induct [rotated, where P = "\<lambda>B L i s r. image_loop B L i s = Some r"])
    (subst image_loop.simps, auto simp: muntjac_data_read_eq Let_def split: Option.bind_splits prod.splits outcome.splits if_splits)

lemma image_loop_muntjac: "image_loop B L i s = Some r \<Longrightarrow> muntjac_loop B L i s = Some r"
  by (erule image_loop.raw_induct [rotated, where P = "\<lambda>B L i s r. muntjac_loop B L i s = Some r"])
    (subst muntjac_loop.simps, auto simp: muntjac_data_read_eq Let_def split: Option.bind_splits prod.splits outcome.splits if_splits)

lemma muntjac_loop_eq: "muntjac_loop = image_loop"
proof (intro ext)
  fix B L i s
  show "muntjac_loop B L i s = image_loop B L i s"
    using muntjac_loop_image [of B L i s] image_loop_muntjac [of B L i s]
    by (cases "muntjac_loop B L i s"; cases "image_loop B L i s") auto
qed

lemma muntjac_main_boot:
  "muntjac_main B L call s =
     do { (_, s1) \<leftarrow> TestOneCell B 0x11111111 0 s;
          s2 \<leftarrow> printme B (cstr ''>-< memtest'') s1;
          let (a_valid, s3) = on_dev (read_mem_a_valid B) s2;
          (_, s4) \<leftarrow> kprintf B (''mem_a_valid: %d'' @ newline) [ucast a_valid] s3;
          image_boot B L call s4 }"
  unfolding muntjac_main_def image_boot_def muntjac_data_read_eq muntjac_loop_eq image_start_def by (rule refl)

subsection \<open>What a record means for an image\<close>

text \<open>A record of the image, moved to where it is stored.\<close>

definition placed :: "ihex_record \<Rightarrow> ihex_record" where
  "placed r = r\<lparr>linear_address := linear_address r + kRamStart\<rparr>"

definition placed_calls :: "ihex_calls \<Rightarrow> ihex_calls" where
  "placed_calls cs = map (\<lambda>(r, t, e). (placed r, t, e)) cs"

definition image_text :: "'i ihex_lib \<Rightarrow> ihex_record \<Rightarrow> u8 \<Rightarrow> u8 list" where
  "image_text L r t =
     (if t = IHEX_DATA_RECORD L
      then take 255 (vformat image_format [ihex_address r, ucast (ihex_length r), ucast (ihex_length r),
                                           ucast (line_length r), ucast (line_length r)]) @ [0x0A]
      else if t = IHEX_END_OF_FILE_RECORD L then cstr ''EOF'' @ CRLF else [])"

definition image_vars :: "'i ihex_lib \<Rightarrow> ihex_calls \<Rightarrow> ihex_vars \<Rightarrow> ihex_vars" where
  "image_vars L cs v = (if has_eof L cs then v\<lparr>gEof := True\<rparr> else v)"

definition image_calls_text :: "'i ihex_lib \<Rightarrow> ihex_calls \<Rightarrow> u8 list" where
  "image_calls_text L cs = concat (map (\<lambda>(r, t, e). image_text L r t) cs)"

lemma placed_calls_simps [simp]:
  "placed_calls [] = []" "placed_calls ((r, t, e) # cs) = (placed r, t, e) # placed_calls cs"
  "placed_calls (cs @ cs') = placed_calls cs @ placed_calls cs'"
  by (simp_all add: placed_calls_def)

lemma image_calls_text_simps [simp]:
  "image_calls_text L [] = []" "image_calls_text L ((r, t, e) # cs) = image_text L r t @ image_calls_text L cs"
  "image_calls_text L (cs @ cs') = image_calls_text L cs @ image_calls_text L cs'"
  by (simp_all add: image_calls_text_def)

lemma image_vars_simps [simp]:
  "image_vars L [] v = v" "image_vars L (cs @ cs') v = image_vars L cs' (image_vars L cs v)"
  "gEof (image_vars L cs v) \<longleftrightarrow> gEof v \<or> has_eof L cs"
  by (auto simp: image_vars_def has_eof_def)

lemma image_vars_Cons: "image_vars L (c # cs) v = image_vars L cs (image_vars L [c] v)"
  using image_vars_simps(2) [of L "[c]" cs v] by simp

lemma payload_placed [simp]: "payload (placed r) = payload r" "linear_address (placed r) = linear_address r + kRamStart"
  "ihex_length (placed r) = ihex_length r"
  by (simp_all add: placed_def payload_def)

text \<open>What is printed between the upload and the call of the image.\<close>

definition image_boot_text :: "u32 \<Rightarrow> u8 list" where
  "image_boot_text w = cstr ''u'' @ CRLF @ cstr ''t'' @ CRLF @ hex_line (CHR ''b'') w @
     (cstr ''m: '' @ hex_digits kRamStart @ [0x0A]) @ (cstr ''m: '' @ hex_digits image_start @ [0x0A])"

context soc_host
begin

lemma image_data_stored:
  assumes s: "ready s" and t: "t = IHEX_DATA_RECORD L" and area: "record_area L (placed r) t \<subseteq> ram_area"
  shows "\<exists>s'. image_data_read B L r t False s = Some (Returned True s') \<and>
              wrote s (image_text L r t) (apply_record L (placed r) t) s' \<and> ih s' = ih s"
proof -
  let ?args = "[ihex_address r, ucast (ihex_length r), ucast (ihex_length r), ucast (line_length r), ucast (line_length r)]"
  let ?a = "linear_address r + kRamStart"
  have "plain image_format" by (simp add: plain_def image_format_def)
  from kprintf_wrote [OF s this, of ?args] obtain n s1 where s1: "kprintf B image_format ?args s = Some (n, s1)"
    "wrote s (take 255 (vformat image_format ?args)) id s1" "ih s1 = ih s" by blast
  define s2 where "s2 = s1\<lparr>dev := store_loop B ?a (ihex_data r) (unat (ihex_length r)) 0 (dev s1)\<rparr>"
  have "span ?a (unat (ihex_length r)) \<subseteq> ram_area" using area by (simp add: record_area_def t)
  from store_record [OF wrote_ready [OF s1(2)] this, of "ihex_data r"]
  have w2: "wrote s1 [] (apply_record L (placed r) t) s2"
    by (simp add: s2_def apply_record_def t) (simp add: payload_def)
  obtain m s3 where s3: "kprintf B newline [] s2 = Some (m, s3)" "wrote s2 [0x0A] id s3" "ih s3 = ih s2"
    using newline_wrote [OF wrote_ready [OF w2]] by blast
  have "image_data_read B L r t False s = Some (Returned True s3)"
    unfolding image_data_read_def t Let_def s1(1) bind.bind_lunit prod.case
    by (simp only: if_False if_True refl flip: s2_def) (simp only: s3(1) bind.bind_lunit prod.case)
  moreover have "wrote s (image_text L r t) (apply_record L (placed r) t) s3"
    using wrote_trans [OF wrote_trans [OF s1(2) w2] s3(2)] by (simp add: image_text_def t)
  moreover have "ih s3 = ih s" using s1(3) s3(3) by (simp add: s2_def)
  ultimately show ?thesis by blast
qed

lemma image_data_read_good:
  assumes "ready s" and "record_area L (placed r) t \<subseteq> ram_area"
  shows "\<exists>s'. image_data_read B L r t False s = Some (Returned True s') \<and>
              wrote s (image_text L r t) (apply_record L (placed r) t) s' \<and> ih s' = image_vars L [(r, t, False)] (ih s)"
proof -
  consider "t = IHEX_DATA_RECORD L" | "t \<noteq> IHEX_DATA_RECORD L" "t = IHEX_END_OF_FILE_RECORD L"
    | "t \<noteq> IHEX_DATA_RECORD L" "t \<noteq> IHEX_END_OF_FILE_RECORD L" by blast
  then show ?thesis
  proof cases
    case 1
    from image_data_stored [OF assms(1) 1 assms(2)] 1 show ?thesis by (auto simp: image_vars_def has_eof_def)
  next
    case 2
    have "plain ''EOF''" by (simp add: plain_def)
    from printme_wrote [OF assms(1) this] 2 show ?thesis
      by (auto simp: image_data_read_def image_text_def image_vars_def has_eof_def apply_record_def)
  next
    case 3
    with wrote_refl [OF assms(1)] show ?thesis
      by (auto simp: image_data_read_def image_text_def image_vars_def has_eof_def apply_record_def)
  qed
qed

lemma image_data_read_bad:
  assumes "ready s"
  shows "\<exists>s'. image_data_read B L r t True s = Some (Hung s') \<and> wrote s (cstr ''ihex err'' @ CRLF) id s' \<and> ih s' = ih s"
proof -
  have "plain ''ihex err''" by (simp add: plain_def)
  from printme_wrote [OF assms this] show ?thesis by (auto simp: image_data_read_def)
qed

lemma run_image_good:
  "ready s \<Longrightarrow> lib_calls run = (cs, i) \<Longrightarrow> calls_ok L ram_area (placed_calls cs) \<Longrightarrow>
   \<exists>s'. run_ihex (image_data_read B L) run s = Some (Returned i s') \<and>
        wrote s (image_calls_text L cs) (calls_ram L (placed_calls cs)) s' \<and> ih s' = image_vars L cs (ih s)"
proof (induction run arbitrary: s cs)
  case (Ihex_done i)
  then show ?case using wrote_refl by (auto simp: id_def)
next
  case (Ihex_call r t e k)
  obtain cs' where cs': "lib_calls (k True) = (cs', i)" "cs = (r, t, e) # cs'"
    using Ihex_call.prems(2) by (cases "lib_calls (k True)") auto
  then have e: "e = False" "record_area L (placed r) t \<subseteq> ram_area" "calls_ok L ram_area (placed_calls cs')"
    using Ihex_call.prems(3) by (auto simp: calls_ok_def)
  obtain s1 where s1: "image_data_read B L r t False s = Some (Returned True s1)"
    "wrote s (image_text L r t) (apply_record L (placed r) t) s1" "ih s1 = image_vars L [(r, t, False)] (ih s)"
    using image_data_read_good [OF Ihex_call.prems(1) e(2)] by blast
  from Ihex_call.IH [OF rangeI wrote_ready [OF s1(2)] cs'(1) e(3)] obtain s2 where s2:
    "run_ihex (image_data_read B L) (k True) s1 = Some (Returned i s2)"
    "wrote s1 (image_calls_text L cs') (calls_ram L (placed_calls cs')) s2" "ih s2 = image_vars L cs' (ih s1)"
    by (elim exE conjE) (rule that)
  have "run_ihex (image_data_read B L) (Ihex_call r t e k) s = Some (Returned i s2)"
    using s1(1) s2(1) by (simp add: e(1))
  moreover have "wrote s (image_calls_text L cs) (calls_ram L (placed_calls cs)) s2"
    using wrote_trans [OF s1(2) s2(2)] by (simp only: cs'(2) image_calls_text_simps placed_calls_simps calls_ram.simps)
  moreover have "ih s2 = image_vars L cs (ih s)"
    using image_vars_Cons [of L "(r, t, False)" cs' "ih s"] by (simp only: s2(3) s1(3) cs'(2) e(1))
  ultimately show ?case by blast
qed

text \<open>The loop: every line is read, parsed and stored; nothing is sent but the progress output.\<close>

lemma image_turn:
  assumes "\<not> gEof (ih s)" and "at_line s (l @ rest) k" and "length l \<le> k" and "good_line l"
    and "lib_calls (ihex_read_bytes L l i) = (cs, i1)" and "calls_ok L ram_area (placed_calls cs)"
  shows "\<exists>s'. image_loop B L i s = image_loop B L i1 s' \<and> at_line s' rest (k - length l) \<and>
           tx (dev s') = tx (dev s) @ image_calls_text L cs \<and> val (dev s') = val (dev s) \<and>
           ram (dev s') = calls_ram L (placed_calls cs) (ram (dev s)) \<and> ih s' = image_vars L cs (ih s)"
proof -
  obtain b s1 where s1: "uart_getline B (linebuf s) 256 s = Some ((True, b), s1)" "c_string b = l"
    "at_line (s1\<lparr>linebuf := b\<rparr>) rest (k - length l)" "sent_only s [] (s1\<lparr>linebuf := b\<rparr>)"
    using getline_step [OF assms(2-4)] by blast
  have "ready (s1\<lparr>linebuf := b\<rparr>)" using s1(3) by (simp add: at_line_def)
  from run_image_good [OF this assms(5,6)] obtain s2 where s2:
    "run_ihex (image_data_read B L) (ihex_read_bytes L l i) (s1\<lparr>linebuf := b\<rparr>) = Some (Returned i1 s2)"
    "wrote (s1\<lparr>linebuf := b\<rparr>) (image_calls_text L cs) (calls_ram L (placed_calls cs)) s2"
    "ih s2 = image_vars L cs (ih (s1\<lparr>linebuf := b\<rparr>))" by (elim exE conjE) (rule that)
  have "linebuf (s1\<lparr>linebuf := b\<rparr>) = b" by simp
  then have "image_loop B L i s = image_loop B L i1 s2"
    by (subst image_loop.simps)
      (simp only: assms(1) if_False s1(1,2) s2(1) bind.bind_lunit prod.case Let_def outcome.case simp_thms)
  moreover have "at_line s2 rest (k - length l)" using at_line_wrote [OF s1(3) s2(2)] .
  ultimately show ?thesis
    using s1(4) s2(2,3) by (intro exI [of _ s2]) (simp add: wrote_def sent_only_def)
qed

lemma image_loop_good:
  assumes "ls \<noteq> []" and "\<not> gEof (ih s)" and "at_line s (concat ls @ rest) k" and "length (concat ls) \<le> k"
    and "\<forall>l \<in> set ls. good_line l" and "feed L i ls = (css, i')" and "calls_ok L ram_area (placed_calls (concat css))"
    and "\<forall>cs \<in> set (butlast css). \<not> has_eof L cs" and "has_eof L (last css)"
  shows "\<exists>s'. image_loop B L i s = Some (Returned i' s') \<and> at_line s' rest (k - length (concat ls)) \<and>
           tx (dev s') = tx (dev s) @ image_calls_text L (concat css) \<and> val (dev s') = val (dev s) \<and>
           ram (dev s') = calls_ram L (placed_calls (concat css)) (ram (dev s)) \<and>
           ih s' = image_vars L (concat css) (ih s)"
  using assms
proof (induction ls arbitrary: k i s css)
  case (Cons l ls)
  obtain cs i1 css1 where f: "lib_calls (ihex_read_bytes L l i) = (cs, i1)" "feed L i1 ls = (css1, i')"
    "css = cs # css1" using Cons.prems(6)
    by (cases "lib_calls (ihex_read_bytes L l i)"; cases "feed L (snd (lib_calls (ihex_read_bytes L l i))) ls") auto
  have ok: "calls_ok L ram_area (placed_calls cs)" "calls_ok L ram_area (placed_calls (concat css1))" and gl: "good_line l"
    and k: "length l \<le> k" "length (concat ls) \<le> k - length l" and h: "at_line s (l @ concat ls @ rest) k"
    using Cons.prems(3,4,5,7) by (simp_all add: f(3) calls_append)
  obtain s1 where s1: "image_loop B L i s = image_loop B L i1 s1" "at_line s1 (concat ls @ rest) (k - length l)"
    "tx (dev s1) = tx (dev s) @ image_calls_text L cs" "val (dev s1) = val (dev s)"
    "ram (dev s1) = calls_ram L (placed_calls cs) (ram (dev s))" "ih s1 = image_vars L cs (ih s)"
    using image_turn [OF Cons.prems(2) h k(1) gl f(1) ok(1)] by (elim exE conjE) (rule that)
  show ?case
  proof (cases "ls = []")
    case True
    then have css: "css = [cs]" "i1 = i'" using f by auto
    then have "gEof (ih s1)" using Cons.prems(9) s1(6) by simp
    then have "image_loop B L i1 s1 = Some (Returned i1 s1)" by (subst image_loop.simps) simp
    with s1 True show ?thesis by (intro exI [of _ s1]) (simp add: css)
  next
    case False
    have "css1 \<noteq> []" using False length_feed [of L i1 ls] f(2) by auto
    then have "\<not> has_eof L cs" and e: "\<forall>cs \<in> set (butlast css1). \<not> has_eof L cs" "has_eof L (last css1)"
      using Cons.prems(8,9) by (simp_all add: f(3))
    then have g: "\<not> gEof (ih s1)" using Cons.prems(2) s1(6) by simp
    have "\<forall>l \<in> set ls. good_line l" using Cons.prems(5) by simp
    from Cons.IH [OF False g s1(2) k(2) this f(2) ok(2) e] obtain s' where s':
      "image_loop B L i1 s1 = Some (Returned i' s')" "at_line s' rest (k - length l - length (concat ls))"
      "tx (dev s') = tx (dev s1) @ image_calls_text L (concat css1)" "val (dev s') = val (dev s1)"
      "ram (dev s') = calls_ram L (placed_calls (concat css1)) (ram (dev s1))"
      "ih s' = image_vars L (concat css1) (ih s1)" by (elim exE conjE) (rule that)
    with s1 show ?thesis by (intro exI [of _ s']) (simp add: f(3) calls_append)
  qed
qed simp

text \<open>The memory test in front: one word of the RAM is written and read back.\<close>

lemma TestOneCell_ram:
  assumes "at_line s p k" and "cell_addr kRamStart c \<in> ram_area"
  shows "\<exists>s'. TestOneCell B e c s = Some (True, s') \<and> at_line s' p k \<and> tx (dev s') = tx (dev s) \<and>
              val (dev s') = val (dev s) \<and> ram (dev s') = put_word (cell_addr kRamStart c) e (ram (dev s)) \<and> ih s' = ih s"
proof -
  let ?a = "cell_addr kRamStart c"
  have d: "dinv (dev s)" using assms(1) by (simp add: at_line_def ready_def io_ok_def fw_ok_def)
  have w: "dinv (wr32 B ?a e (dev s))" "ram (wr32 B ?a e (dev s)) = put_word ?a e (ram (dev s))"
    "val (wr32 B ?a e (dev s)) = val (dev s)" "tx (wr32 B ?a e (dev s)) = tx (dev s)"
    "inp (wr32 B ?a e (dev s)) = inp (dev s)" "avail (wr32 B ?a e (dev s)) = avail (dev s)"
    using ram_write32 [OF assms(2) d, of e] by simp_all
  obtain v d' where r: "rd32 B ?a (wr32 B ?a e (dev s)) = (v, d')" by fastforce
  from ram_read [OF assms(2) w(1) r] w ram_word_put_word [of ?a e "ram (dev s)"]
  have v: "v = e" "dinv d'" "ram d' = put_word ?a e (ram (dev s))" "val d' = val (dev s)" "tx d' = tx (dev s)"
    "inp d' = inp (dev s)" "avail d' = avail (dev s)" by simp_all
  then have "TestOneCell B e c s = Some (True, s\<lparr>dev := d'\<rparr>)" by (simp add: TestOneCell_def on_dev_def r)
  with v assms(1) show ?thesis
    by (auto simp: at_line_def ready_def io_ok_def fw_ok_def pending_def exposed_def)
qed

lemma hex_digits_wrote:
  assumes "ready s"
  shows "\<exists>n s'. kprintf B (''m: %0x'' @ newline) [a] s = Some (n, s') \<and>
                wrote s (cstr ''m: '' @ hex_digits a @ [0x0A]) id s' \<and> ih s' = ih s"
proof -
  have f: "plain (''m: %0x'' @ newline)" by (simp add: plain_def newline_def)
  have "take 255 (vformat (''m: %0x'' @ newline) [a]) = cstr ''m: '' @ hex_digits a @ [0x0A]"
    using length_hex_digits [of a]
    by (simp add: newline_def skip_zero_flag_def is_digit_def width_value_def conv_text_def pad_field_def hex_digits_def Let_def)
  with kprintf_wrote [OF assms f, of "[a]"] show ?thesis by metis
qed

text \<open>The report after the upload.\<close>

lemma image_report:
  assumes "at_line s p k" and "kRamStart \<in> ram_area"
  shows "\<exists>s1 w s2 s3 n1 s4 n2 s5 n3 s6. printme B (cstr ''u'') s = Some s1 \<and> on_dev (rd32 B kRamStart) s1 = (w, s2) \<and>
           printme B (cstr ''t'') s2 = Some s3 \<and> kprintf B (''b: 0x%08x'' @ newline) [w] s3 = Some (n1, s4) \<and>
           kprintf B (''m: %0x'' @ newline) [kRamStart] s4 = Some (n2, s5) \<and>
           kprintf B (''m: %0x'' @ newline) [image_start] s5 = Some (n3, s6) \<and> at_line s6 p k \<and>
           sent_only s (image_boot_text (ram_word (ram (dev s)) kRamStart)) s6"
proof -
  have pl: "plain ''u''" "plain ''t''" "plain [CHR ''b'']" by (simp_all add: plain_def)
  obtain s1 where s1: "printme B (cstr ''u'') s = Some s1" "at_line s1 p k" "sent_only s (cstr ''u'' @ CRLF) s1"
    using prompt [OF assms(1) pl(1)] by blast
  obtain w d where r: "rd32 B kRamStart (dev s1) = (w, d)" by fastforce
  let ?s2 = "s1\<lparr>dev := d\<rparr>"
  have "dinv (dev s1)" using s1(2) by (simp add: at_line_def ready_def io_ok_def fw_ok_def)
  from ram_read [OF assms(2) this r] s1(2) have w: "w = ram_word (ram (dev s1)) kRamStart"
    and a2: "at_line ?s2 p k" and t2: "sent_only s1 [] ?s2"
    by (auto simp: at_line_def ready_def io_ok_def fw_ok_def pending_def exposed_def sent_only_def)
  have od: "on_dev (rd32 B kRamStart) s1 = (w, ?s2)" by (simp add: on_dev_def r)
  obtain s3 where s3: "printme B (cstr ''t'') ?s2 = Some s3" "at_line s3 p k" "sent_only ?s2 (cstr ''t'' @ CRLF) s3"
    using prompt [OF a2 pl(2)] by blast
  have "ready s3" using s3(2) by (simp add: at_line_def)
  from hex_line_wrote [OF this _ pl(3), of w] obtain n1 s4 where s4:
    "kprintf B (''b: 0x%08x'' @ newline) [w] s3 = Some (n1, s4)" "wrote s3 (hex_line (CHR ''b'') w) id s4" "ih s4 = ih s3"
    by auto
  obtain n2 s5 where s5: "kprintf B (''m: %0x'' @ newline) [kRamStart] s4 = Some (n2, s5)"
    "wrote s4 (cstr ''m: '' @ hex_digits kRamStart @ [0x0A]) id s5" "ih s5 = ih s4"
    using hex_digits_wrote [OF wrote_ready [OF s4(2)]] by blast
  obtain n3 s6 where s6: "kprintf B (''m: %0x'' @ newline) [image_start] s5 = Some (n3, s6)"
    "wrote s5 (cstr ''m: '' @ hex_digits image_start @ [0x0A]) id s6" "ih s6 = ih s5"
    using hex_digits_wrote [OF wrote_ready [OF s5(2)]] by blast
  have a6: "at_line s6 p k" using at_line_wrote s3(2) s4(2) s5(2) s6(2) by blast
  note t46 = wrote_sent_only [OF s4(2,3)] wrote_sent_only [OF s5(2,3)] wrote_sent_only [OF s6(2,3)]
  have w': "w = ram_word (ram (dev s)) kRamStart" using w s1(3) by (simp add: sent_only_def)
  from sent_only_trans [OF sent_only_trans [OF sent_only_trans [OF sent_only_trans [OF sent_only_trans
    [OF s1(3) t2] s3(3)] t46(1)] t46(2)] t46(3)]
  have "sent_only s (image_boot_text (ram_word (ram (dev s)) kRamStart)) s6"
    unfolding image_boot_text_def w' by (simp only: append_assoc append_Nil)
  with s1(1) od s3(1) s4(1) s5(1) s6(1) a6 show ?thesis by blast
qed

lemma image_boot_good:
  assumes "ls \<noteq> []" and "at_line s (concat ls @ rest) k" and "length (concat ls) \<le> k"
    and "\<forall>l \<in> set ls. good_line l" and "feed L (ihex_begin_read L) ls = (css, i)"
    and "lib_calls (ihex_end_read L i) = (ce, i')" and "calls_ok L ram_area (placed_calls (concat css @ ce))"
    and "\<forall>cs \<in> set (butlast css). \<not> has_eof L cs" and "has_eof L (last css)" and "kRamStart \<in> ram_area"
    and "m = calls_ram L (placed_calls (concat css @ ce)) (ram (dev s))"
  shows "\<exists>s'. image_boot B L call s = Option.bind (call image_start s')
                (\<lambda>s1. Option.bind (printme B (cstr ''completed'') s1) (\<lambda>s2. Some (Hung s2))) \<and>
           at_line s' rest (k - length (concat ls)) \<and> ram (dev s') = m \<and> val (dev s') = val (dev s) \<and>
           tx (dev s') = tx (dev s) @ cstr ''ihex:'' @ CRLF @ cstr ''buf: 256'' @ CRLF @
                         image_calls_text L (concat css @ ce) @ image_boot_text (ram_word m kRamStart)"
proof -
  have pl: "plain ''ihex:''" "plain ''buf: %d''" by (simp_all add: plain_def)
  obtain s1 where s1: "printme B (cstr ''ihex:'') s = Some s1" "at_line s1 (concat ls @ rest) k"
    "sent_only s (cstr ''ihex:'' @ CRLF) s1" using prompt [OF assms(2) pl(1)] by blast
  let ?s1 = "s1\<lparr>ih := (ih s1)\<lparr>gEof := False\<rparr>\<rparr>"
  have "ready ?s1" using s1(2) by (simp add: at_line_def)
  from printmef_wrote [OF this pl(2), of "[256]"] obtain n s2 where s2: "printmef B ''buf: %d'' [256] ?s1 = Some (n, s2)"
    "wrote ?s1 (take 255 (vformat ''buf: %d'' [256]) @ CRLF) id s2" "ih s2 = ih ?s1" by blast
  have "take 255 (vformat ''buf: %d'' [256]) = cstr ''buf: 256''"
    by (simp add: skip_zero_flag_def is_digit_def width_value_def conv_text_def pad_field_def nat_digits.simps digit_char_def Let_def)
  with s2(2) have t2: "sent_only ?s1 (cstr ''buf: 256'' @ CRLF) s2" using wrote_sent_only [OF _ s2(3)] by simp
  have a2: "at_line s2 (concat ls @ rest) k" using at_line_wrote [OF _ s2(2)] s1(2) by simp
  have "\<not> gEof (ih s2)" using s2(3) by simp
  have ok: "calls_ok L ram_area (placed_calls (concat css))" "calls_ok L ram_area (placed_calls ce)"
    using assms(7) by (simp_all add: calls_append)
  obtain s3 where s3: "image_loop B L (ihex_begin_read L) s2 = Some (Returned i s3)"
    "at_line s3 rest (k - length (concat ls))" "tx (dev s3) = tx (dev s2) @ image_calls_text L (concat css)"
    "val (dev s3) = val (dev s2)" "ram (dev s3) = calls_ram L (placed_calls (concat css)) (ram (dev s2))"
    using image_loop_good [OF assms(1) \<open>\<not> gEof (ih s2)\<close> a2 assms(3,4,5) ok(1) assms(8,9)]
    by (elim exE conjE) (rule that)
  have "ready s3" using s3(2) by (simp add: at_line_def)
  from run_image_good [OF this assms(6) ok(2)] obtain s4 where s4:
    "run_ihex (image_data_read B L) (ihex_end_read L i) s3 = Some (Returned i' s4)"
    "wrote s3 (image_calls_text L ce) (calls_ram L (placed_calls ce)) s4" by blast
  have a4: "at_line s4 rest (k - length (concat ls))" using at_line_wrote [OF s3(2) s4(2)] .
  have m: "ram (dev s4) = m"
    using s1(3) t2 s3(5) s4(2) by (simp add: assms(11) sent_only_def wrote_def calls_append)
  from image_report [OF a4 assms(10)] obtain s5 w s6 s7 n1 s8 n2 s9 n3 s10 where s10:
    "printme B (cstr ''u'') s4 = Some s5" "on_dev (rd32 B kRamStart) s5 = (w, s6)"
    "printme B (cstr ''t'') s6 = Some s7" "kprintf B (''b: 0x%08x'' @ newline) [w] s7 = Some (n1, s8)"
    "kprintf B (''m: %0x'' @ newline) [kRamStart] s8 = Some (n2, s9)"
    "kprintf B (''m: %0x'' @ newline) [image_start] s9 = Some (n3, s10)" "at_line s10 rest (k - length (concat ls))"
    "sent_only s4 (image_boot_text (ram_word (ram (dev s4)) kRamStart)) s10"
    by (elim exE conjE) (rule that)
  have "image_boot B L call s = Option.bind (call image_start s10)
                (\<lambda>s1. Option.bind (printme B (cstr ''completed'') s1) (\<lambda>s2. Some (Hung s2)))"
    unfolding image_boot_def s1(1) bind.bind_lunit s2(1) prod.case s3(1) s4(1) obind_simps s10(1,2,3,4,5,6) Let_def ..
  moreover have "tx (dev s10) = tx (dev s) @ cstr ''ihex:'' @ CRLF @ cstr ''buf: 256'' @ CRLF @
                         image_calls_text L (concat css @ ce) @ image_boot_text (ram_word m kRamStart)"
    using s1(3) t2 s3(3) s4(2) s10(8) unfolding m sent_only_def wrote_def by simp
  moreover have "val (dev s10) = val (dev s)" "ram (dev s10) = m"
    using s1(3) t2 s3(4) s4(2) s10(8) m unfolding sent_only_def wrote_def by simp_all
  ultimately show ?thesis using s10(7) by blast
qed

text \<open>The common beginning of the two programs.\<close>

lemma memtest_prefix:
  assumes "at_line s p k" and "kRamStart \<in> ram_area"
  shows "\<exists>s1 s2. TestOneCell B 0x11111111 0 s = Some (True, s1) \<and> printme B (cstr ''>-< memtest'') s1 = Some s2 \<and>
           at_line s2 p k \<and> tx (dev s2) = tx (dev s) @ cstr ''>-< memtest'' @ CRLF \<and> val (dev s2) = val (dev s) \<and>
           ram (dev s2) = put_word kRamStart 0x11111111 (ram (dev s)) \<and> ih s2 = ih s"
proof -
  have "cell_addr kRamStart 0 = kRamStart" by (simp add: cell_addr_def)
  with TestOneCell_ram [OF assms(1), of 0 "0x11111111"] assms(2) obtain s1 where s1:
    "TestOneCell B 0x11111111 0 s = Some (True, s1)" "at_line s1 p k" "tx (dev s1) = tx (dev s)"
    "val (dev s1) = val (dev s)" "ram (dev s1) = put_word kRamStart 0x11111111 (ram (dev s))" "ih s1 = ih s" by auto
  have "plain ''>-< memtest''" by (simp add: plain_def)
  from prompt [OF s1(2) this] s1 show ?thesis by (auto simp: sent_only_def)
qed

end

subsection \<open>Properties\<close>

lemma soc_host_ready:
  assumes "soc_host B dinv inp avail tx room tx_wait rx_wait val ram regs ram_area tx_left"
    and "fw_ok dinv s" and "length (fmtbuf s) = 256" and "exposed avail s \<le> 255"
  shows "soc_host.ready dinv avail s"
proof -
  have u: "uart_dev B dinv inp avail tx room tx_wait rx_wait (\<lambda>d. (val d, ram d))"
    using assms(1) by (simp add: soc_host_def soc_bus_def)
  show ?thesis using assms(2-4) by (simp add: soc_host.ready_def [OF assms(1)] uart_dev.io_ok_def [OF u])
qed

text \<open>
  The callback of the image loaders on every kind of record: it stores the payload of a data record
  at its address plus \<open>0x80000000\<close> and notes the end of the file; but a record with a bad checksum
  stops the program before anything is stored or noted.
\<close>

theorem image_record_checked_first:
  assumes "soc_host B dinv inp avail tx room tx_wait rx_wait val ram regs ram_area tx_left"
    and "fw_ok dinv s" and "length (fmtbuf s) = 256" and "exposed avail s \<le> 255"
    and "span (linear_address r + 0x80000000) (unat (ihex_length r)) \<subseteq> ram_area"
  shows "\<exists>s'. image_data_read B L r t e s = Some (if e then Hung s' else Returned True s') \<and>
           ram (dev s') = (if e \<or> t \<noteq> IHEX_DATA_RECORD L then ram (dev s)
                           else poke (linear_address r + 0x80000000) (payload r) (ram (dev s))) \<and>
           val (dev s') = val (dev s) \<and> pending inp s' = pending inp s \<and>
           tx (dev s') = tx (dev s) @ (if e then cstr ''ihex err'' @ CRLF else image_text L r t) \<and>
           (gEof (ih s') \<longleftrightarrow> gEof (ih s) \<or> \<not> e \<and> has_eof L [(r, t, e)])"
proof (cases e)
  case True
  from soc_host.image_data_read_bad [OF assms(1) soc_host_ready [OF assms(1-4)], of L r t] True show ?thesis
    by (auto simp: soc_host.wrote_def [OF assms(1)])
next
  case False
  have "record_area L (placed r) t \<subseteq> ram_area" using assms(5) by (simp add: record_area_def kRamStart_def)
  from soc_host.image_data_read_good [OF assms(1) soc_host_ready [OF assms(1-4)] this] obtain s' where s':
    "image_data_read B L r t False s = Some (Returned True s')"
    "soc_host.wrote dinv inp avail tx val ram s (image_text L r t) (apply_record L (placed r) t) s'"
    "ih s' = image_vars L [(r, t, False)] (ih s)" by blast
  with False show ?thesis
    by (intro exI [of _ s']) (simp add: soc_host.wrote_def [OF assms(1)] apply_record_def kRamStart_def)
qed

text \<open>
  C2: The whole program rv32_ddr3, over any machine with RAM and any parser library, when the upload
  fits the 255 bytes that can be buffered: it tests one cell, loads every data record at its address
  plus \<open>0x80000000\<close>, and calls \<open>0x80000004\<close>. The RAM is then the one before with \<open>0x11111111\<close> in the tested word and
  the image over it; what was printed, the first word of the image included, is exactly as stated.
\<close>

theorem ddr3_boots_image:
  assumes "soc_host B dinv inp avail tx room tx_wait rx_wait val ram regs ram_area tx_left"
    and "fw_ok dinv s" and "length (fmtbuf s) = 256" and "length (linebuf s) = 256" and "exposed avail s \<le> 255"
    and "ls \<noteq> []" and "pending inp s = concat ls @ rest" and "length (concat ls) \<le> exposed avail s"
    and "\<forall>l \<in> set ls. good_line l" and "feed L (ihex_begin_read L) ls = (css, i)"
    and "lib_calls (ihex_end_read L i) = (ce, i')" and "calls_ok L ram_area (placed_calls (concat css @ ce))"
    and "\<forall>cs \<in> set (butlast css). \<not> has_eof L cs" and "has_eof L (last css)" and "0x80000000 \<in> ram_area"
    and "m = calls_ram L (placed_calls (concat css @ ce)) (put_word 0x80000000 0x11111111 (ram (dev s)))"
  shows "\<exists>s'. ddr3_main B L call s = Option.bind (call 0x80000004 s')
                (\<lambda>s1. Option.bind (printme B (cstr ''completed'') s1) (\<lambda>s2. Some (Hung s2))) \<and>
           fw_ok dinv s' \<and> pending inp s' = rest \<and> ram (dev s') = m \<and> val (dev s') = val (dev s) \<and>
           tx (dev s') = tx (dev s) @ cstr ''>-< memtest'' @ CRLF @ cstr ''ihex:'' @ CRLF @ cstr ''buf: 256'' @ CRLF @
                         image_calls_text L (concat css @ ce) @ image_boot_text (ram_word m 0x80000000)"
proof -
  have k: "kRamStart \<in> ram_area" "image_start = 0x80000004" "kRamStart = 0x80000000"
    using assms(15) by (simp_all add: kRamStart_def image_start_def)
  note start = at_line_start [OF assms(1-5), unfolded assms(7)]
  from soc_host.memtest_prefix [OF assms(1) start k(1)] obtain s1 s2 where s2:
    "TestOneCell B 0x11111111 0 s = Some (True, s1)" "printme B (cstr ''>-< memtest'') s1 = Some s2"
    "soc_host.at_line dinv inp avail s2 (concat ls @ rest) (exposed avail s)"
    "tx (dev s2) = tx (dev s) @ cstr ''>-< memtest'' @ CRLF" "val (dev s2) = val (dev s)"
    "ram (dev s2) = put_word kRamStart 0x11111111 (ram (dev s))" by (elim exE conjE) (rule that)
  have "ddr3_main B L call s = image_boot B L call s2"
    unfolding ddr3_main_def s2(1,2) bind.bind_lunit prod.case ..
  moreover obtain s' where s': "image_boot B L call s2 = Option.bind (call image_start s')
                (\<lambda>s1. Option.bind (printme B (cstr ''completed'') s1) (\<lambda>s2. Some (Hung s2)))"
    "soc_host.at_line dinv inp avail s' rest (exposed avail s - length (concat ls))" "ram (dev s') = m"
    "val (dev s') = val (dev s2)"
    "tx (dev s') = tx (dev s2) @ cstr ''ihex:'' @ CRLF @ cstr ''buf: 256'' @ CRLF @
                         image_calls_text L (concat css @ ce) @ image_boot_text (ram_word m kRamStart)"
    using soc_host.image_boot_good [OF assms(1,6) s2(3) assms(8-14) k(1), of m call] assms(16) s2(6) k(3) by auto
  moreover have "uart_dev B dinv inp avail tx room tx_wait rx_wait (\<lambda>d. (val d, ram d))"
    using assms(1) by (simp add: soc_host_def soc_bus_def)
  then have "fw_ok dinv s'" "pending inp s' = rest" using s'(2)
    by (simp_all add: soc_host.at_line_def [OF assms(1)] soc_host.ready_def [OF assms(1)] uart_dev.io_ok_def)
  ultimately show ?thesis using s2(4,5) by (intro exI [of _ s']) (simp add: k(2,3))
qed

text \<open>
  C39: The muntjac loader is the rv32_ddr3 loader with one more line of output: from the same start, for
  every program \<open>call\<close>, the two reach the boot sequence in states with the same memory, registers,
  input and variables, and muntjac has printed bit 15 of the register at \<open>0x40000060\<close> in between.
\<close>

theorem muntjac_is_ddr3:
  assumes "soc_host B dinv inp avail tx room tx_wait rx_wait val ram regs ram_area tx_left"
    and "fw_ok dinv s" and "length (fmtbuf s) = 256" and "length (linebuf s) = 256" and "exposed avail s \<le> 255"
    and "0x80000000 \<in> ram_area" and "0x40000060 \<in> regs"
  shows "\<exists>s1 s2. (\<forall>call. ddr3_main B L call s = image_boot B L call s1 \<and> muntjac_main B L call s = image_boot B L call s2) \<and>
           fw_ok dinv s1 \<and> fw_ok dinv s2 \<and> ram (dev s2) = ram (dev s1) \<and> val (dev s2) = val (dev s1) \<and>
           pending inp s2 = pending inp s1 \<and> exposed avail s2 = exposed avail s1 \<and> ih s2 = ih s1 \<and>
           tx (dev s2) = tx (dev s1) @ cstr ''mem_a_valid: '' @
                         (if bit (val (dev s) 0x40000060) 15 then cstr ''1'' else cstr ''0'') @ [0x0A]"
proof -
  have k: "kRamStart \<in> ram_area" using assms(6) by (simp add: kRamStart_def)
  note d = soc_host.at_line_def [OF assms(1)] soc_host.ready_def [OF assms(1)]
  have u: "uart_dev B dinv inp avail tx room tx_wait rx_wait (\<lambda>d. (val d, ram d))"
    and sb: "soc_bus B dinv inp avail tx room tx_wait rx_wait val ram regs"
    using assms(1) by (simp_all add: soc_host_def soc_bus_def)
  note io = uart_dev.io_ok_def [OF u]
  from soc_host.memtest_prefix [OF assms(1) at_line_start [OF assms(1-5)] k] obtain s1 s2 where s2:
    "TestOneCell B 0x11111111 0 s = Some (True, s1)" "printme B (cstr ''>-< memtest'') s1 = Some s2"
    "soc_host.at_line dinv inp avail s2 (pending inp s) (exposed avail s)"
    "tx (dev s2) = tx (dev s) @ cstr ''>-< memtest'' @ CRLF" "val (dev s2) = val (dev s)"
    "ram (dev s2) = put_word kRamStart 0x11111111 (ram (dev s))" "ih s2 = ih s" by (elim exE conjE) (rule that)
  have ok2: "fw_ok dinv s2" "length (fmtbuf s2) = 256" "exposed avail s2 \<le> 255" using s2(3) by (simp_all add: d io)
  obtain v d' where r: "rd32 B 0x40000060 (dev s2) = (v, d')" by fastforce
  have "dinv (dev s2)" using ok2 by (simp add: fw_ok_def)
  from soc_bus.reg_read [OF sb assms(7) this r] have v: "v = val (dev s) 0x40000060" "dinv d'" "val d' = val (dev s2)"
    "ram d' = ram (dev s2)" "tx d' = tx (dev s2)" "inp d' = inp (dev s2)" "avail d' = avail (dev s2)"
    by (simp_all add: s2(5))
  let ?s3 = "s2\<lparr>dev := d'\<rparr>" and ?b = "ucast (drop_bit 15 (v AND MEM_A_VALID_MASK)) :: u8"
  have od: "on_dev (read_mem_a_valid B) s2 = (?b, ?s3)"
    using r by (simp add: on_dev_def read_mem_a_valid_def perinput_read_reg_def perinput_BASE_ADDRESS_def
        MEM_A_VALID_REG_OFFSET_def REG_OFFSET_def)
  have b: "(ucast ?b :: u32) = (if bit v 15 then 1 else 0)"
    using masked_bit [of 15 v] by (simp add: MEM_A_VALID_MASK_def)
  have "fw_ok dinv ?s3" "length (fmtbuf ?s3) = 256" "exposed avail ?s3 \<le> 255"
    using ok2 v by (simp_all add: fw_ok_def exposed_def)
  from soc_host_ready [OF assms(1) this] have ready: "soc_host.ready dinv avail ?s3" .
  have "plain (''mem_a_valid: %d'' @ newline)" by (simp add: plain_def newline_def)
  from soc_host.kprintf_wrote [OF assms(1) ready this, of "[ucast ?b]"] obtain n s4 where s4:
    "kprintf B (''mem_a_valid: %d'' @ newline) [ucast ?b] ?s3 = Some (n, s4)"
    "soc_host.wrote dinv inp avail tx val ram ?s3 (take 255 (vformat (''mem_a_valid: %d'' @ newline) [ucast ?b])) id s4"
    "ih s4 = ih ?s3" by blast
  have out: "take 255 (vformat (''mem_a_valid: %d'' @ newline) [ucast ?b]) =
      cstr ''mem_a_valid: '' @ (if bit v 15 then cstr ''1'' else cstr ''0'') @ [0x0A]"
    unfolding b by (simp add: newline_def skip_zero_flag_def is_digit_def width_value_def conv_text_def pad_field_def
        nat_digits.simps digit_char_def Let_def)
  have "ddr3_main B L call s = image_boot B L call s2" "muntjac_main B L call s = image_boot B L call s4" for call
    unfolding ddr3_main_def muntjac_main_boot s2(1,2) od Let_def bind.bind_lunit prod.case s4(1) by (rule refl)+
  with ok2 v(2-7) s4(3) s4(2) [unfolded out soc_host.wrote_def [OF assms(1)] d(2) io] show ?thesis
    unfolding v(1) by (intro exI [of _ s2] exI [of _ s4]) (simp add: pending_def exposed_def)
qed

subsection \<open>Witnesses\<close>

text \<open>The two lines of the demonstration, without an upper half of the address.\<close>

definition low_record :: ihex_record where
  "low_record = demo_record\<lparr>linear_address := 0x10\<rparr>"

definition low_eof :: ihex_record where
  "low_eof = eof_record\<lparr>linear_address := 0\<rparr>"

lemma low_feed:
  "feed (line_lib 0) i [demo_line1, demo_eof] = ([[(low_record, 0, False)], [(low_eof, 1, False)]], ())"
  "lib_calls (ihex_end_read (line_lib 0) i) = ([], i)"
  by (simp_all add: line_lib_def line_record_def demo_line1_def demo_eof_def demo_record_def eof_record_def
      low_record_def low_eof_def digit_value_def)

lemma low_area: "span (linear_address low_record + 0x80000000) (unat (ihex_length low_record)) \<subseteq> {a. is_ddr a}"
proof -
  have n: "unat (ihex_length low_record) = Suc (Suc 0)" by (simp add: low_record_def demo_record_def)
  show ?thesis by (simp only: n span_Suc) (simp add: span_def low_record_def is_ddr_def)
qed

lemma low_payload: "payload low_record = [7, 8]" "linear_address low_record = 0x10"
  using demo_payload(1) by (simp_all add: low_record_def payload_def)

lemma low_calls:
  "calls_ok (line_lib 0) {a. is_ddr a} (placed_calls (concat [[(low_record, 0, False)], [(low_eof, 1, False)]] @ []))"
  "\<forall>cs \<in> set (butlast [[(low_record, 0, False)], [(low_eof, 1, False)]]). \<not> has_eof (line_lib 0) cs"
  "has_eof (line_lib 0) (last [[(low_record, 0, False)], [(low_eof, 1, False)]])"
  using low_area by (simp_all add: calls_ok_def record_area_def kRamStart_def has_eof_def)

lemma ddr_start:
  "fw_ok (\<lambda>m. wbu_inv (s_uart m)) (loader_reset (soc_reset bs))" "length (fmtbuf (loader_reset d)) = 256"
  "length (linebuf (loader_reset d)) = 256"
  "length bs \<le> 255 \<Longrightarrow> exposed (\<lambda>m. wbu_avail (s_uart m)) (loader_reset (soc_reset bs)) \<le> 255"
  by (simp_all add: loader_reset_ok)

theorem image_record_checked_first_witness:
  "\<exists>s'. image_data_read ddr_mem_bus (line_lib 0) low_record 0 True (loader_reset (soc_reset [])) = Some (Hung s') \<and>
        s_ram (dev s') 0x80000010 = 0"
proof -
  have e: "exposed (\<lambda>m. wbu_avail (s_uart m)) (loader_reset (soc_reset [])) \<le> 255" by (rule ddr_start) simp
  from image_record_checked_first [OF ddr_machine ddr_start(1,2) e low_area, of "line_lib 0" 0 True] show ?thesis
    by (auto simp: soc_reset_def)
qed

text \<open>An image that checks that it has been loaded and entered, and then runs for ever.\<close>

theorem ddr3_boots_image_witness:
  "ddr3_main ddr_mem_bus (line_lib 0)
     (\<lambda>a s. if a = 0x80000004 \<and> s_ram (dev s) 0x80000010 = 7 \<and> s_ram (dev s) 0x80000011 = 8 \<and>
               s_ram (dev s) 0x80000000 = 0x11 then None else Some s)
     (loader_reset (soc_reset (demo_line1 @ demo_eof))) = None"
proof -
  let ?call = "\<lambda>a s. if a = 0x80000004 \<and> s_ram (dev s) 0x80000010 = 7 \<and> s_ram (dev s) 0x80000011 = 8 \<and>
               s_ram (dev s) 0x80000000 = 0x11 then None else Some s"
  let ?s = "loader_reset (soc_reset (demo_line1 @ demo_eof))"
  have len: "length (demo_line1 @ demo_eof) \<le> 255" by (simp add: demo_line1_def demo_eof_def)
  have p: "pending (\<lambda>m. wbu_inp (s_uart m)) ?s = concat [demo_line1, demo_eof] @ []"
    and e: "length (concat [demo_line1, demo_eof]) \<le> exposed (\<lambda>m. wbu_avail (s_uart m)) ?s"
    by (simp_all add: loader_reset_ok)
  have a: "(0x80000000 :: u32) \<in> {a. is_ddr a}" by (simp add: is_ddr_def)
  from ddr3_boots_image [OF ddr_machine ddr_start(1,2,3) ddr_start(4) [OF len] _ p e _ low_feed low_calls a refl, of ?call]
  show ?thesis
    using demo_good by (auto simp: apply_record_def low_payload put_word_def kRamStart_def)
qed

theorem muntjac_is_ddr3_witness:
  "\<exists>s1 s2. ddr3_main ddr_mem_bus (line_lib 0) (\<lambda>_ _. None) (loader_reset (soc_reset [])) =
             image_boot ddr_mem_bus (line_lib 0) (\<lambda>_ _. None) s1 \<and>
           muntjac_main ddr_mem_bus (line_lib 0) (\<lambda>_ _. None) (loader_reset (soc_reset [])) =
             image_boot ddr_mem_bus (line_lib 0) (\<lambda>_ _. None) s2 \<and> s_ram (dev s2) = s_ram (dev s1)"
proof -
  have e: "exposed (\<lambda>m. wbu_avail (s_uart m)) (loader_reset (soc_reset [])) \<le> 255" by (rule ddr_start) simp
  have a: "(0x80000000 :: u32) \<in> {a. is_ddr a}" "0x40000060 \<in> {a. a \<noteq> UART_ADDRESS \<and> \<not> is_ddr a}"
    by (simp_all add: is_ddr_def UART_ADDRESS_def)
  from muntjac_is_ddr3 [OF ddr_machine ddr_start(1,2,3) e a, of "line_lib 0"] show ?thesis by blast
qed

end
