(* ===== verification/Programs.thy ===== *)
theory Programs
  imports Upload
begin

text \<open>
  The small programs: \<open>bin/hello\<close>, \<open>bin/echo\<close> (boots the second core of the muntjac system) and
  \<open>bin/rv32_uart\<close> (a banner for ever), and the host program \<open>boards/rv32_uart/main.cc\<close> that clocks the
  simulated design: 100 ticks of reset, then up to the time it was given.
\<close>

subsection \<open>hello, echo and rv32_uart\<close>

definition hello_main :: "('d, 'b) bus_scheme \<Rightarrow> ('d, 'z) fw_scheme \<Rightarrow> (unit, ('d, 'z) fw_scheme) outcome option" where
  "hello_main B s =
     do { s1 \<leftarrow> printme B (cstr ''Hello world!'') s;
          s2 \<leftarrow> printme B (cstr ''halt.'') s1;
          Some (Hung s2) }"

definition echo_text :: "u8 list" where
  "echo_text = cstr ''SERV: Booting. Releasing Muntjac reset and routing UART...'' @ [0x0A]"

definition echo_main :: "('d, 'b) bus_scheme \<Rightarrow> ('d, 'z) fw_scheme \<Rightarrow> (unit, ('d, 'z) fw_scheme) outcome option" where
  "echo_main B s =
     do { s1 \<leftarrow> printme B echo_text s;
          Some (Hung (s1\<lparr>dev := wr32 B 0x40000040 0x00000002 (dev s1)\<rparr>)) }"

definition banner_rule :: string where
  "banner_rule = ''======================''"

text \<open>The body of the endless loop, and its first \<open>n\<close> turns; the spins of the pause touch no state.\<close>

definition rv32_uart_turn :: "('d, 'b) bus_scheme \<Rightarrow> ('d, 'z) fw_scheme \<Rightarrow> ('d, 'z) fw_scheme option" where
  "rv32_uart_turn B s =
     do { (_, s1) \<leftarrow> uart_print B (CRLF @ CRLF @ cstr banner_rule @ CRLF) s;
          (_, s2) \<leftarrow> uart_print B (cstr ''hello from rv32.'' @ CRLF) s1;
          (_, s3) \<leftarrow> uart_print B (cstr banner_rule @ CRLF) s2;
          let _ = pause_for_spins 10000;
          Some s3 }"

primrec rv32_uart_turns :: "('d, 'b) bus_scheme \<Rightarrow> nat \<Rightarrow> ('d, 'z) fw_scheme \<Rightarrow> ('d, 'z) fw_scheme option" where
  "rv32_uart_turns B 0 s = Some s"
| "rv32_uart_turns B (Suc n) s = Option.bind (rv32_uart_turn B s) (rv32_uart_turns B n)"

definition banner :: "u8 list" where
  "banner = CRLF @ CRLF @ cstr banner_rule @ CRLF @ cstr ''hello from rv32.'' @ CRLF @ cstr banner_rule @ CRLF"

subsection \<open>The simulator\<close>

text \<open>
  The design under test is generated by Verilator: a model with some state, which \<open>eval\<close> advances for
  the present values of its inputs \<open>clk\<close> and \<open>reset\<close>. A waveform is the list of samples dumped.
\<close>

type_synonym u64 = "64 word"

record 'm sim =
  sim_time :: u64
  sim_clk :: u8
  sim_reset :: u8
  sim_model :: 'm
  sim_trace :: "(u64 \<times> u8 \<times> u8 \<times> 'm) list"

text \<open>The body of either loop; they differ in the value of \<open>reset\<close>.\<close>

definition sim_tick :: "(u8 \<Rightarrow> u8 \<Rightarrow> 'm \<Rightarrow> 'm) \<Rightarrow> u8 \<Rightarrow> 'm sim \<Rightarrow> 'm sim" where
  "sim_tick eval reset s =
     (let c = sim_clk s XOR 1; m = eval c reset (sim_model s)
      in \<lparr>sim_time = sim_time s + 1, sim_clk = c, sim_reset = reset, sim_model = m,
          sim_trace = sim_trace s @ [(sim_time s, c, reset, m)]\<rparr>)"

lemma unat_Suc_less:
  fixes a b :: u64
  assumes "a < b"
  shows "unat (a + 1) = Suc (unat a)"
proof -
  have "unat a < unat b" using assms by (simp add: word_less_nat_alt)
  moreover have "unat b < 2 ^ LENGTH(64)" by (rule unsigned_less)
  ultimately show ?thesis by (simp add: unat_word_ariths)
qed

function sim_loop :: "(u8 \<Rightarrow> u8 \<Rightarrow> 'm \<Rightarrow> 'm) \<Rightarrow> u8 \<Rightarrow> u64 \<Rightarrow> 'm sim \<Rightarrow> 'm sim" where
  "sim_loop eval reset limit s =
     (if sim_time s < limit then sim_loop eval reset limit (sim_tick eval reset s) else s)"
  by pat_completeness auto

termination
proof (relation "measure (\<lambda>(eval, reset, limit, s). unat limit - unat (sim_time s))", goal_cases)
  case (2 eval reset limit s)
  then show ?case by (simp add: sim_tick_def Let_def unat_Suc_less word_less_nat_alt)
qed simp

declare sim_loop.simps [simp del]

text \<open>
  \<open>std::atoll\<close>: white space, a sign, decimal digits. A number outside the range of \<open>long long\<close> is undefined
  behaviour, here \<open>None\<close>.
\<close>

definition decimal_value :: "string \<Rightarrow> int" where
  "decimal_value str =
     (let s1 = dropWhile (\<lambda>c. c \<in> set '' '' \<or> (9 :: nat) \<le> of_char c \<and> of_char c \<le> (13 :: nat)) str
      in case s1 of
           [] \<Rightarrow> 0
         | c # r \<Rightarrow> if c = CHR ''-'' then - int (width_value (takeWhile is_digit r))
                     else int (width_value (takeWhile is_digit (if c = CHR ''+'' then r else s1))))"

definition atoll :: "string \<Rightarrow> int option" where
  "atoll str = (let n = decimal_value str in if - (2 ^ 63) \<le> n \<and> n < 2 ^ 63 then Some n else None)"

text \<open>How a run ends; \<open>Sim_undefined\<close> is a run about which the C++ standard says nothing.\<close>

datatype 'm sim_exit = Sim_usage | Sim_undefined | Sim_success "(u64 \<times> u8 \<times> u8 \<times> 'm) list"

text \<open>
  \<open>argv\<close> with the name of the program first, and the design as constructed. The conversion of the time to
  \<open>vluint64_t\<close> wraps.
\<close>

definition sim_main :: "(u8 \<Rightarrow> u8 \<Rightarrow> 'm \<Rightarrow> 'm) \<Rightarrow> u8 \<Rightarrow> u8 \<Rightarrow> 'm \<Rightarrow> string list \<Rightarrow> 'm sim_exit" where
  "sim_main eval clk0 reset0 m0 argv =
     (if length argv \<noteq> 3 then Sim_usage
      else case atoll (argv ! 2) of
             None \<Rightarrow> Sim_undefined
           | Some n \<Rightarrow>
               let max_sim_time_ps = of_int n;
                   s0 = \<lparr>sim_time = 0, sim_clk = clk0, sim_reset = reset0, sim_model = m0, sim_trace = []\<rparr>;
                   s1 = sim_loop eval 1 100 s0;
                   s2 = sim_loop eval 0 max_sim_time_ps s1
               in Sim_success (sim_trace s2))"


subsection \<open>Printing and the simulated time\<close>

lemma print_append:
  "0 \<notin> set xs \<Longrightarrow> uart_print B (xs @ ys) s = Option.bind (uart_print B xs s) (\<lambda>(_, s1). uart_print B ys s1)"
proof (induction xs arbitrary: s)
  case (Cons x xs)
  then show ?case by (cases "uart_putchar B x s") auto
qed simp

lemma text_no_nul: "0 \<notin> set CRLF" "0 \<notin> set echo_text" "0 \<notin> set (cstr banner_rule)" "0 \<notin> set (cstr ''hello from rv32.'')"
  by (simp_all add: CRLF_def echo_text_def banner_rule_def)

context uart_dev
begin

lemma rv32_uart_turn_keeps:
  assumes "fw_ok dinv s"
  shows "\<exists>s'. rv32_uart_turn B s = Some s' \<and> keeps s [] banner s'"
proof -
  have b: "c_string (CRLF @ CRLF @ cstr banner_rule @ CRLF) = CRLF @ CRLF @ cstr banner_rule @ CRLF"
    "c_string (cstr ''hello from rv32.'' @ CRLF) = cstr ''hello from rv32.'' @ CRLF"
    "c_string (cstr banner_rule @ CRLF) = cstr banner_rule @ CRLF"
    by (rule c_string_id, simp only: set_append Un_iff text_no_nul simp_thms)+
  obtain s1 where s1: "uart_print B (CRLF @ CRLF @ cstr banner_rule @ CRLF) s = Some (0, s1)"
    "keeps s [] (CRLF @ CRLF @ cstr banner_rule @ CRLF) s1" using print_keeps [OF assms] b(1) by metis
  then have "fw_ok dinv s1" by (simp add: keeps_def)
  then obtain s2 where s2: "uart_print B (cstr ''hello from rv32.'' @ CRLF) s1 = Some (0, s2)"
    "keeps s1 [] (cstr ''hello from rv32.'' @ CRLF) s2" using print_keeps b(2) by metis
  then have "fw_ok dinv s2" by (simp add: keeps_def)
  then obtain s3 where s3: "uart_print B (cstr banner_rule @ CRLF) s2 = Some (0, s3)"
    "keeps s2 [] (cstr banner_rule @ CRLF) s3" using print_keeps b(3) by metis
  have "rv32_uart_turn B s = Some s3"
    unfolding rv32_uart_turn_def s1(1) s2(1) s3(1) bind.bind_lunit prod.case Let_def ..
  with keeps_trans [OF keeps_trans [OF s1(2) s2(2)] s3(2)] show ?thesis
    by (simp only: banner_def append_assoc append_Nil) blast
qed

lemma rv32_uart_turns_keep:
  "fw_ok dinv s \<Longrightarrow> \<exists>s'. rv32_uart_turns B n s = Some s' \<and> keeps s [] (concat (replicate n banner)) s'"
proof (induction n arbitrary: s)
  case 0
  then show ?case by (simp add: keeps_refl)
next
  case (Suc n)
  obtain s1 where s1: "rv32_uart_turn B s = Some s1" "keeps s [] banner s1"
    using rv32_uart_turn_keeps [OF Suc.prems] by blast
  then have "fw_ok dinv s1" by (simp add: keeps_def)
  from Suc.IH [OF this] s1 keeps_trans [OF s1(2)] show ?case by fastforce
qed

text \<open>The last byte of a text goes out by a write of the data register and nothing comes after it.\<close>

lemma print_ends_with_write:
  assumes "fw_ok dinv s" and "0 \<notin> set xs" and "c \<noteq> 0"
  shows "\<exists>s1. uart_print B (xs @ [c]) s = Some (0, uart_raw_write B (ucast c) s1) \<and> keeps s [] xs s1 \<and> room (dev s1)"
proof -
  obtain s1 where s1: "uart_print B xs s = Some (0, s1)" "keeps s [] xs s1"
    using print_keeps [OF assms(1)] c_string_id [OF assms(2)] by metis
  then have "fw_ok dinv s1" by (simp add: keeps_def)
  then obtain s2 where s2: "UartBuf_Put B c s1 = Some (True, uart_raw_write B (ucast c) s2)" "keeps s1 [] [] s2" "room (dev s2)"
    using Put_writes by blast
  have "uart_print B (xs @ [c]) s = Some (0, uart_raw_write B (ucast c) s2)"
    using s1(1) s2(1) assms(3) by (simp add: print_append [OF assms(2)] uart_putchar_def)
  with keeps_trans [OF s1(2) s2(2)] s2(3) show ?thesis by auto
qed

end

text \<open>The simulation at tick \<open>k\<close>: the inputs of the design, its state and the samples so far.\<close>

definition clk_at :: "u8 \<Rightarrow> nat \<Rightarrow> u8" where
  "clk_at clk0 k = (if even k then clk0 XOR 1 else clk0)"

definition reset_at :: "nat \<Rightarrow> u8" where
  "reset_at k = (if k < 100 then 1 else 0)"

primrec model_at :: "(u8 \<Rightarrow> u8 \<Rightarrow> 'm \<Rightarrow> 'm) \<Rightarrow> u8 \<Rightarrow> 'm \<Rightarrow> nat \<Rightarrow> 'm" where
  "model_at eval clk0 m0 0 = m0"
| "model_at eval clk0 m0 (Suc k) = eval (clk_at clk0 k) (reset_at k) (model_at eval clk0 m0 k)"

definition sample_at :: "(u8 \<Rightarrow> u8 \<Rightarrow> 'm \<Rightarrow> 'm) \<Rightarrow> u8 \<Rightarrow> 'm \<Rightarrow> nat \<Rightarrow> u64 \<times> u8 \<times> u8 \<times> 'm" where
  "sample_at eval clk0 m0 k = (of_nat k, clk_at clk0 k, reset_at k, model_at eval clk0 m0 (Suc k))"

definition sim_at :: "(u8 \<Rightarrow> u8 \<Rightarrow> 'm \<Rightarrow> 'm) \<Rightarrow> u8 \<Rightarrow> u8 \<Rightarrow> 'm \<Rightarrow> nat \<Rightarrow> 'm sim" where
  "sim_at eval clk0 reset0 m0 k =
     \<lparr>sim_time = of_nat k, sim_clk = (if even k then clk0 else clk0 XOR 1),
      sim_reset = (if k = 0 then reset0 else reset_at (k - 1)), sim_model = model_at eval clk0 m0 k,
      sim_trace = map (sample_at eval clk0 m0) [0..<k]\<rparr>"

lemma sim_tick_at: "sim_tick eval (reset_at k) (sim_at eval clk0 reset0 m0 k) = sim_at eval clk0 reset0 m0 (Suc k)"
proof -
  have "clk_at clk0 k = (if even k then clk0 else clk0 XOR 1) XOR 1" by (simp add: clk_at_def ac_simps)
  moreover have "clk_at clk0 k = (if even (Suc k) then clk0 else clk0 XOR 1)" by (simp add: clk_at_def)
  ultimately show ?thesis by (simp add: sim_tick_def sim_at_def sample_at_def Let_def add.commute)
qed

lemma sim_loop_at:
  assumes "\<And>j. k \<le> j \<Longrightarrow> j < unat limit \<Longrightarrow> reset_at j = r" and "k < 2 ^ 64"
  shows "sim_loop eval r limit (sim_at eval clk0 reset0 m0 k) = sim_at eval clk0 reset0 m0 (max k (unat limit))"
  using assms
proof (induction "unat limit - k" arbitrary: k)
  case 0
  then have "\<not> (of_nat k :: u64) < limit" by (simp add: word_less_nat_alt unat_of_nat)
  moreover have "sim_time (sim_at eval clk0 reset0 m0 k) = of_nat k" by (simp add: sim_at_def)
  ultimately show ?case using 0 by (subst sim_loop.simps) (simp add: max_def)
next
  case (Suc n)
  then have k: "k < unat limit" by simp
  then have "(of_nat k :: u64) < limit" using Suc.prems(2) by (simp add: word_less_nat_alt unat_of_nat)
  moreover have "sim_time (sim_at eval clk0 reset0 m0 k) = of_nat k" by (simp add: sim_at_def)
  moreover have "r = reset_at k" using Suc.prems(1) [OF order_refl k] by simp
  ultimately have "sim_loop eval r limit (sim_at eval clk0 reset0 m0 k) = sim_loop eval r limit (sim_at eval clk0 reset0 m0 (Suc k))"
    by (subst sim_loop.simps) (simp add: sim_tick_at)
  moreover have "unat limit < 2 ^ LENGTH(64)" by (rule unsigned_less)
  then have "Suc k < 2 ^ 64" using k by simp
  moreover have "max (Suc k) (unat limit) = max k (unat limit)" using k by simp
  ultimately show ?case using Suc.hyps(1) [of "Suc k"] Suc.hyps(2) Suc.prems(1) by simp
qed

subsection \<open>Properties\<close>

text \<open>
  C40: The simulation ends for every time that \<open>std::atoll\<close> can read, and the waveform is exactly determined: with the
  number \<open>n\<close> on the command line it has one sample per tick, up to \<open>n\<close> but never fewer than the 100 ticks of
  reset; the clock toggles with every tick, reset is high for the first 100 ticks and low after them,
  and the design is evaluated once per tick. A time too small is not refused, nor a negative one, which wraps to a
  huge one. A number outside the range of \<open>long long\<close> is undefined behaviour, and nothing is said about it; without
  exactly two arguments nothing is simulated.
\<close>

theorem sim_waveform:
  "sim_main eval clk0 reset0 m0 [program, file, t] =
     (if - (2 ^ 63) \<le> decimal_value t \<and> decimal_value t < 2 ^ 63
      then Sim_success (map (sample_at eval clk0 m0) [0..<max 100 (nat (decimal_value t mod 2 ^ 64))])
      else Sim_undefined) \<and>
   (sim_main eval clk0 reset0 m0 argv = Sim_usage) = (length argv \<noteq> 3)"
proof -
  let ?s0 = "\<lparr>sim_time = 0, sim_clk = clk0, sim_reset = reset0, sim_model = m0, sim_trace = []\<rparr>"
  have s0: "?s0 = sim_at eval clk0 reset0 m0 0" by (simp add: sim_at_def)
  have s1: "sim_loop eval 1 100 ?s0 = sim_at eval clk0 reset0 m0 100"
    unfolding s0 by (subst sim_loop_at) (simp_all add: reset_at_def)
  have s2: "sim_loop eval 0 lim (sim_at eval clk0 reset0 m0 100) = sim_at eval clk0 reset0 m0 (max 100 (unat lim))" for lim
    by (rule sim_loop_at) (simp_all add: reset_at_def)
  have l: "length [program, file, t] = 3" "[program, file, t] ! 2 = t" by simp_all
  have u: "unat (of_int n :: u64) = nat (n mod 2 ^ 64)" for n
    by (simp add: unsigned_of_int take_bit_eq_mod)
  have "sim_main eval clk0 reset0 m0 [program, file, t] =
      (case atoll t of None \<Rightarrow> Sim_undefined
       | Some n \<Rightarrow> Sim_success (sim_trace (sim_at eval clk0 reset0 m0 (max 100 (nat (n mod 2 ^ 64))))))"
    by (simp only: sim_main_def l Let_def s1 s2 u not_True_eq_False simp_thms if_False)
  moreover have "(sim_main eval clk0 reset0 m0 argv = Sim_usage) = (length argv \<noteq> 3)"
    by (simp add: sim_main_def Let_def split: option.split)
  ultimately show ?thesis by (simp add: sim_at_def atoll_def Let_def)
qed

text \<open>
  The banner program makes progress for ever: however many turns are asked for, they return, and
  what has been sent is exactly that many banners.
\<close>

theorem rv32_uart_prints_banners:
  assumes "uart_dev B dinv inp avail tx room tx_wait rx_wait oth" and "fw_ok dinv s"
  shows "\<exists>s'. rv32_uart_turns B n s = Some s' \<and> fw_ok dinv s' \<and> oth (dev s') = oth (dev s) \<and>
              tx (dev s') = tx (dev s) @ concat (replicate n banner)"
  using uart_dev.rv32_uart_turns_keep [OF assms, of n] by (auto simp: uart_dev.keeps_def [OF assms(1)])

text \<open>
  \<open>echo\<close> switches the UART to the other core in the very next bus access after it has put the last
  byte of its text into the transmit FIFO: unlike \<open>noelv_serv_upload\<close> it does not wait until the FIFO is empty.
  All of the text has then been accepted by the device, and the register is the only one written.
\<close>

lemma echo_does_not_drain:
  assumes "soc_bus B dinv inp avail tx room tx_wait rx_wait val ram regs" and "fw_ok dinv s"
  shows "\<exists>s' d. echo_main B s = Some (Hung s') \<and> room d \<and> dinv d \<and>
                dev s' = wr32 B 0x40000040 2 (wr32 B UART_ADDRESS 0x0A d) \<and>
                tx d @ [0x0A] = tx (dev s) @ echo_text @ CRLF \<and> val d = val (dev s) \<and> ram d = ram (dev s)"
proof -
  have u: "uart_dev B dinv inp avail tx room tx_wait rx_wait (\<lambda>d. (val d, ram d))"
    using assms(1) by (simp add: soc_bus_def)
  note k = uart_dev.keeps_def [OF u]
  obtain s1 where s1: "uart_print B echo_text s = Some (0, s1)" "uart_dev.keeps dinv inp avail tx (\<lambda>d. (val d, ram d)) s [] echo_text s1"
    using uart_dev.print_keeps [OF u assms(2), of echo_text] unfolding c_string_id [OF text_no_nul(2)] by blast
  then have "fw_ok dinv s1" by (simp add: k)
  moreover have "0 \<notin> set [0x0D :: u8]" "(0x0A :: u8) \<noteq> 0" by simp_all
  ultimately obtain s2 where s2: "uart_print B ([0x0D] @ [0x0A]) s1 = Some (0, uart_raw_write B (ucast (0x0A :: u8)) s2)"
    "uart_dev.keeps dinv inp avail tx (\<lambda>d. (val d, ram d)) s1 [] [0x0D] s2" "room (dev s2)"
    using uart_dev.print_ends_with_write [OF u] by blast
  have "uart_print B CRLF s1 = Some (0, uart_raw_write B 0x0A s2)" using s2(1) by (simp add: CRLF_def)
  then have "printme B echo_text s = Some (uart_raw_write B 0x0A s2)" using s1(1) by (simp add: printme_def)
  then have "echo_main B s = Some (Hung (s2\<lparr>dev := wr32 B 0x40000040 2 (wr32 B UART_ADDRESS 0x0A (dev s2))\<rparr>))"
    by (simp add: echo_main_def uart_raw_write_def)
  with s1(2) s2(2,3) show ?thesis by (auto simp: k CRLF_def fw_ok_def)
qed

text \<open>What \<open>hello\<close> sends.\<close>

lemma hello_output:
  assumes "uart_dev B dinv inp avail tx room tx_wait rx_wait oth" and "fw_ok dinv s"
  shows "\<exists>s'. hello_main B s = Some (Hung s') \<and> oth (dev s') = oth (dev s) \<and>
              tx (dev s') = tx (dev s) @ cstr ''Hello world!'' @ CRLF @ cstr ''halt.'' @ CRLF"
proof -
  note k = uart_dev.keeps_def [OF assms(1)]
  have c: "c_string (cstr ''Hello world!'') = cstr ''Hello world!''" "c_string (cstr ''halt.'') = cstr ''halt.''"
    by (simp_all add: c_string_Cons)
  obtain s1 where s1: "printme B (cstr ''Hello world!'') s = Some s1"
    "uart_dev.keeps dinv inp avail tx oth s [] (cstr ''Hello world!'' @ CRLF) s1"
    using uart_dev.printme_keeps [OF assms] c(1) by metis
  then have "fw_ok dinv s1" by (simp add: k)
  then obtain s2 where s2: "printme B (cstr ''halt.'') s1 = Some s2"
    "uart_dev.keeps dinv inp avail tx oth s1 [] (cstr ''halt.'' @ CRLF) s2"
    using uart_dev.printme_keeps [OF assms(1)] c(2) by metis
  have "hello_main B s = Some (Hung s2)" unfolding hello_main_def s1(1) s2(1) bind.bind_lunit ..
  with s1(2) s2(2) show ?thesis by (simp add: k)
qed

subsection \<open>Witnesses\<close>

theorem rv32_uart_prints_banners_witness:
  "\<exists>s'. rv32_uart_turns (wb_uart_bus 0) 3 (fw_reset (wbu_reset [])) = Some s' \<and>
        wbu_tx (dev s') = banner @ banner @ banner"
  using rv32_uart_prints_banners [OF wbu.uart_dev_axioms fw_reset_ok(1), of 0 3 "[]"]
  by (auto simp: fw_reset_ok numeral_eq_Suc)

lemma echo_does_not_drain_witness:
  "\<exists>s'. echo_main soc_mem_bus (loader_reset (soc_reset [])) = Some (Hung s') \<and>
        mock_val (s_regs (dev s')) 0x40000040 = 2"
proof -
  obtain s' d where "echo_main soc_mem_bus (loader_reset (soc_reset [])) = Some (Hung s')"
    "dev s' = wr32 soc_mem_bus 0x40000040 2 (wr32 soc_mem_bus UART_ADDRESS 0x0A d)"
    using echo_does_not_drain [OF soc_machine_bus loader_reset_ok(1), of "[]"] by blast
  then show ?thesis by (auto simp: soc_bus_on_def soc_write_def is_ram_def UART_ADDRESS_def mock_defs)
qed

end
