(* ===== verification/Handshake.thy ===== *)
theory Handshake
  imports Prelude
begin

text \<open>
  The crossing of two clock domains by a four-phase handshake, as the bus bridges of the boards make it
  (\<open>ip/general/wb_cdc.vhdl\<close>, \<open>ip/bridges/ahb2wb_bridge.vhdl\<close>). A process on each clock, a request and an
  acknowledge line between them, each sampled by a chain of three registers. The interface of the two
  processes is the locale \<open>four_phase\<close>; inside it: in whatever order the edges of the two clocks come, every
  request crosses exactly once and its answer comes back unchanged; and the crossing makes progress.
\<close>

subsection \<open>Two clocks\<close>

text \<open>
  An instant is a pair of edges with the inputs they sample; \<open>None\<close> is a clock that has no edge then. Two
  processes with an edge at the same instant both read the old registers.
\<close>

definition two_clocks ::
  "('i \<Rightarrow> 'p \<Rightarrow> 'h \<Rightarrow> 'h) \<Rightarrow> ('j \<Rightarrow> 'h \<Rightarrow> 'p \<Rightarrow> 'p) \<Rightarrow> 'i option \<times> 'j option \<Rightarrow> 'h \<times> 'p \<Rightarrow> 'h \<times> 'p" where
  "two_clocks hn pn e s =
     (case fst e of None \<Rightarrow> fst s | Some i \<Rightarrow> hn i (snd s) (fst s),
      case snd e of None \<Rightarrow> snd s | Some j \<Rightarrow> pn j (fst s) (snd s))"

text \<open>What is seen at the edges of a run, in the order it happens.\<close>

primrec observe :: "('e \<Rightarrow> 's \<Rightarrow> 's) \<Rightarrow> ('e \<Rightarrow> 's \<Rightarrow> 'x list) \<Rightarrow> 'e list \<Rightarrow> 's \<Rightarrow> 'x list" where
  "observe f out [] s = []"
| "observe f out (e # es) s = out e s @ observe f out es (f e s)"

lemma observe_append: "observe f out (es @ es') s = observe f out es s @ observe f out es' (fold f es s)"
  by (induction es arbitrary: s) simp_all

lemma observe_cong_inv:
  assumes "I s" and "\<And>e s. I s \<Longrightarrow> I (f e s)" and "\<And>e s. I s \<Longrightarrow> out e s = out' e s"
  shows "observe f out es s = observe f out' es s"
  using assms(1) by (induction es arbitrary: s) (simp_all add: assms(2,3))

lemma fold_inv: "I s \<Longrightarrow> (\<And>e s. I s \<Longrightarrow> I (f e s)) \<Longrightarrow> I (fold f es s)"
  by (induction es arbitrary: s) simp_all

lemma set_observe: "x \<in> set (observe f out es s) \<Longrightarrow> \<exists>es1 e es2. es = es1 @ e # es2 \<and> x \<in> set (out e (fold f es1 s))"
proof (induction es arbitrary: s)
  case (Cons e es)
  then consider "x \<in> set (out e s)" | "x \<in> set (observe f out es (f e s))" by auto
  then show ?case
  proof cases
    case 1
    then show ?thesis by (intro exI [of _ "[]"]) auto
  next
    case 2
    then obtain es1 e' es2 where "es = es1 @ e' # es2" "x \<in> set (out e' (fold f es1 (f e s)))" using Cons.IH by blast
    then show ?thesis by (intro exI [of _ "e # es1"] exI [of _ e'] exI [of _ es2]) simp
  qed
qed simp

lemma observe_one:
  assumes "observe f out es s = [x]" and "\<And>e s. length (out e s) \<le> 1"
  obtains es1 e es2 where "es = es1 @ e # es2" and "observe f out es1 s = []" and "out e (fold f es1 s) = [x]"
    and "observe f out es2 (fold f (es1 @ [e]) s) = []"
  using assms(1)
proof (induction es arbitrary: s thesis)
  case (Cons e es)
  have l: "out e s = [] \<or> (\<exists>y. out e s = [y])" using assms(2) [of e s] by (cases "out e s") auto
  show ?case
  proof (cases "out e s = []")
    case True
    with Cons.prems(2) have "observe f out es (f e s) = [x]" by simp
    from Cons.IH [OF _ this] obtain es1 e' es2 where i: "es = es1 @ e' # es2" "observe f out es1 (f e s) = []"
      "out e' (fold f es1 (f e s)) = [x]" "observe f out es2 (fold f (es1 @ [e']) (f e s)) = []" by blast
    show ?thesis by (rule Cons.prems(1) [of "e # es1" e' es2]) (use i True in simp_all)
  next
    case False
    show ?thesis by (rule Cons.prems(1) [of "[]" e es]) (use False l Cons.prems(2) in auto)
  qed
qed simp

text \<open>The edges of each clock in a run.\<close>

definition host_edges :: "('i option \<times> 'j option) list \<Rightarrow> nat" where
  "host_edges es = length (filter (\<lambda>e. fst e \<noteq> None) es)"

definition per_edges :: "('i option \<times> 'j option) list \<Rightarrow> nat" where
  "per_edges es = length (filter (\<lambda>e. snd e \<noteq> None) es)"

lemma edges_simps [simp]:
  "host_edges [] = 0" "per_edges [] = 0"
  "host_edges (e # es) = of_bool (fst e \<noteq> None) + host_edges es"
  "per_edges (e # es) = of_bool (snd e \<noteq> None) + per_edges es"
  "host_edges (es @ es') = host_edges es + host_edges es'" "per_edges (es @ es') = per_edges es + per_edges es'"
  by (simp_all add: host_edges_def per_edges_def)

lemma split_per_edges:
  assumes "n \<le> per_edges es"
  shows "\<exists>xs ys. es = xs @ ys \<and> per_edges xs = n"
  using assms
proof (induction es arbitrary: n)
  case (Cons e es)
  show ?case
  proof (cases n)
    case 0
    then show ?thesis by (intro exI [of _ "[]"] exI [of _ "e # es"]) simp
  next
    case (Suc k)
    have "n - of_bool (snd e \<noteq> None) \<le> per_edges es" using Cons.prems by simp
    from Cons.IH [OF this] obtain xs ys where "es = xs @ ys" "per_edges xs = n - of_bool (snd e \<noteq> None)" by blast
    then show ?thesis using Suc by (intro exI [of _ "e # xs"] exI [of _ ys]) (simp split: if_splits)
  qed
qed simp

subsection \<open>The interface of the two processes\<close>

datatype host_phase = Host_Idle | Host_Req | Host_Wait
datatype per_phase = Per_Idle | Per_Busy | Per_Done | Per_Stray

type_synonym chain = "bool \<times> bool \<times> bool"

definition chain_last :: "chain \<Rightarrow> bool" where "chain_last q = snd (snd q)"
definition chain_shift :: "bool \<Rightarrow> chain \<Rightarrow> chain" where "chain_shift b q = (b, fst q, fst (snd q))"

text \<open>A chain that a line is rising or falling through.\<close>

definition rising :: "chain \<Rightarrow> bool" where "rising q \<longleftrightarrow> (chain_last q \<longrightarrow> fst (snd q)) \<and> (fst (snd q) \<longrightarrow> fst q)"
definition falling :: "chain \<Rightarrow> bool" where "falling q \<longleftrightarrow> (fst q \<longrightarrow> fst (snd q)) \<and> (fst (snd q) \<longrightarrow> chain_last q)"

text \<open>Edges until the end of the chain shows the new value.\<close>

definition chain_left :: "bool \<Rightarrow> chain \<Rightarrow> nat" where
  "chain_left b q = of_bool (fst q \<noteq> b) + of_bool (fst (snd q) \<noteq> b) + of_bool (snd (snd q) \<noteq> b)"

lemmas chain_defs = chain_last_def chain_shift_def rising_def falling_def chain_left_def

text \<open>
  The laws of a pair of processes. The host side raises its request with the payload \<open>hpay\<close>, which then
  stands; at the end of the acknowledge chain it takes the response of the other side and lowers the
  request; and it is idle again when the chain has fallen. The peripheral side takes the payload at the end of
  the request chain, is busy, raises its acknowledge with its response, which then stands, and lowers it when
  the request has fallen.
\<close>

locale four_phase =
  fixes hn :: "'i \<Rightarrow> 'p \<Rightarrow> 'h \<Rightarrow> 'h" and pn :: "'j \<Rightarrow> 'h \<Rightarrow> 'p \<Rightarrow> 'p"
    and hphase :: "'h \<Rightarrow> host_phase" and hreq :: "'h \<Rightarrow> bool" and hq :: "'h \<Rightarrow> chain" and hpay :: "'h \<Rightarrow> 'a" and hres :: "'h \<Rightarrow> 'b"
    and pphase :: "'p \<Rightarrow> per_phase" and pack :: "'p \<Rightarrow> bool" and pq :: "'p \<Rightarrow> chain" and ppay :: "'p \<Rightarrow> 'a" and pres :: "'p \<Rightarrow> 'b"
  assumes h_chain: "hq (hn i p h) = chain_shift (pack p) (hq h)"
    and h_idle: "hphase h = Host_Idle \<Longrightarrow>
          hphase (hn i p h) = Host_Idle \<and> hreq (hn i p h) = hreq h \<or> hphase (hn i p h) = Host_Req \<and> hreq (hn i p h)"
    and h_req: "hphase h = Host_Req \<Longrightarrow> \<not> chain_last (hq h) \<Longrightarrow>
          hphase (hn i p h) = Host_Req \<and> hreq (hn i p h) = hreq h \<and> hpay (hn i p h) = hpay h"
    and h_answer: "hphase h = Host_Req \<Longrightarrow> chain_last (hq h) \<Longrightarrow>
          hphase (hn i p h) = Host_Wait \<and> \<not> hreq (hn i p h) \<and> hres (hn i p h) = pres p"
    and h_wait: "hphase h = Host_Wait \<Longrightarrow>
          hphase (hn i p h) = (if chain_last (hq h) then Host_Wait else Host_Idle) \<and> hreq (hn i p h) = hreq h"
    and p_chain: "pq (pn j h p) = chain_shift (hreq h) (pq p)"
    and p_idle: "pphase p = Per_Idle \<Longrightarrow> pack (pn j h p) = pack p \<and>
          (if chain_last (pq p) then pphase (pn j h p) = Per_Busy \<and> ppay (pn j h p) = hpay h else pphase (pn j h p) = Per_Idle)"
    and p_busy: "pphase p = Per_Busy \<Longrightarrow> ppay (pn j h p) = ppay p \<and>
          (pphase (pn j h p) = Per_Busy \<and> pack (pn j h p) = pack p \<or> pphase (pn j h p) = Per_Done \<and> pack (pn j h p))"
    and p_done: "pphase p = Per_Done \<Longrightarrow> pres (pn j h p) = pres p \<and>
          (if chain_last (pq p) then pphase (pn j h p) = Per_Done \<and> pack (pn j h p) = pack p
           else pphase (pn j h p) = Per_Idle \<and> \<not> pack (pn j h p))"
begin

definition step :: "'i option \<times> 'j option \<Rightarrow> 'h \<times> 'p \<Rightarrow> 'h \<times> 'p" where
  "step = two_clocks hn pn"

text \<open>The requests made, the requests carried out with their responses, and the answers given.\<close>

definition requests :: "'i option \<times> 'j option \<Rightarrow> 'h \<times> 'p \<Rightarrow> 'a list" where
  "requests e s = (if hphase (fst s) = Host_Idle \<and> hphase (fst (step e s)) = Host_Req then [hpay (fst (step e s))] else [])"

definition served :: "'i option \<times> 'j option \<Rightarrow> 'h \<times> 'p \<Rightarrow> ('a \<times> 'b) list" where
  "served e s = (if pphase (snd s) = Per_Busy \<and> pphase (snd (step e s)) = Per_Done
                 then [(ppay (snd (step e s)), pres (snd (step e s)))] else [])"

definition answers :: "'i option \<times> 'j option \<Rightarrow> 'h \<times> 'p \<Rightarrow> 'b list" where
  "answers e s = (if hphase (fst s) = Host_Req \<and> hphase (fst (step e s)) = Host_Wait then [hres (fst (step e s))] else [])"

definition quiet :: "'h \<times> 'p \<Rightarrow> bool" where
  "quiet s \<longleftrightarrow> hphase (fst s) = Host_Idle \<and> pphase (snd s) = Per_Idle \<and> \<not> hreq (fst s) \<and> \<not> pack (snd s) \<and>
     hq (fst s) = (False, False, False) \<and> pq (snd s) = (False, False, False)"

subsection \<open>The phases of a crossing\<close>

text \<open>The link in one of six phases, with the requests made, carried out and answered so far.\<close>

definition link :: "'a list \<Rightarrow> ('a \<times> 'b) list \<Rightarrow> 'b list \<Rightarrow> 'h \<times> 'p \<Rightarrow> bool" where
  "link rs ds ans s \<longleftrightarrow>
     (let h = fst s; p = snd s in
      (case (hphase h, pphase p) of
         (Host_Idle, Per_Idle) \<Rightarrow> quiet s \<and> map fst ds = rs \<and> map snd ds = ans
       | (Host_Req, Per_Idle) \<Rightarrow> hreq h \<and> \<not> pack p \<and> hq h = (False, False, False) \<and> rising (pq p) \<and>
           rs = map fst ds @ [hpay h] \<and> map snd ds = ans
       | (Host_Req, Per_Busy) \<Rightarrow> hreq h \<and> \<not> pack p \<and> hq h = (False, False, False) \<and> pq p = (True, True, True) \<and>
           rs = map fst ds @ [hpay h] \<and> ppay p = hpay h \<and> map snd ds = ans
       | (Host_Req, Per_Done) \<Rightarrow> hreq h \<and> pack p \<and> rising (hq h) \<and> pq p = (True, True, True) \<and>
           map fst ds = rs \<and> map snd ds = ans @ [pres p]
       | (Host_Wait, Per_Done) \<Rightarrow> \<not> hreq h \<and> pack p \<and> hq h = (True, True, True) \<and> falling (pq p) \<and>
           map fst ds = rs \<and> map snd ds = ans
       | (Host_Wait, Per_Idle) \<Rightarrow> \<not> hreq h \<and> \<not> pack p \<and> falling (hq h) \<and> pq p = (False, False, False) \<and>
           map fst ds = rs \<and> map snd ds = ans
       | _ \<Rightarrow> False))"

lemma linkE:
  assumes "link rs ds ans (h, p)"
  obtains (quiet) "hphase h = Host_Idle" "pphase p = Per_Idle" "\<not> hreq h" "\<not> pack p" "hq h = (False, False, False)"
      "pq p = (False, False, False)" "map fst ds = rs" "map snd ds = ans"
  | (asked) "hphase h = Host_Req" "pphase p = Per_Idle" "hreq h" "\<not> pack p" "hq h = (False, False, False)" "rising (pq p)"
      "rs = map fst ds @ [hpay h]" "map snd ds = ans"
  | (busy) "hphase h = Host_Req" "pphase p = Per_Busy" "hreq h" "\<not> pack p" "hq h = (False, False, False)" "pq p = (True, True, True)"
      "rs = map fst ds @ [hpay h]" "ppay p = hpay h" "map snd ds = ans"
  | (served) "hphase h = Host_Req" "pphase p = Per_Done" "hreq h" "pack p" "rising (hq h)" "pq p = (True, True, True)"
      "map fst ds = rs" "map snd ds = ans @ [pres p]"
  | (answered) "hphase h = Host_Wait" "pphase p = Per_Done" "\<not> hreq h" "pack p" "hq h = (True, True, True)" "falling (pq p)"
      "map fst ds = rs" "map snd ds = ans"
  | (clearing) "hphase h = Host_Wait" "pphase p = Per_Idle" "\<not> hreq h" "\<not> pack p" "falling (hq h)" "pq p = (False, False, False)"
      "map fst ds = rs" "map snd ds = ans"
  using assms
  by (cases "hphase h"; cases "pphase p") (auto simp: link_def Let_def quiet_def)

lemma rising_last: "rising q \<Longrightarrow> chain_last q \<Longrightarrow> q = (True, True, True)"
  by (cases q) (auto simp: chain_defs)

lemma falling_last: "falling q \<Longrightarrow> \<not> chain_last q \<Longrightarrow> q = (False, False, False)"
  by (cases q) (auto simp: chain_defs)

lemma chain_steps [simp]:
  "rising q \<Longrightarrow> rising (chain_shift True q)" "falling q \<Longrightarrow> falling (chain_shift False q)"
  "chain_shift b (b, b, b) = (b, b, b)" "rising (chain_shift b (False, False, False))" "falling (chain_shift b (True, True, True))"
  "rising (b, b, b)" "falling (b, b, b)" "chain_last (b, b, b) = b"
  by (cases q; auto simp: chain_defs)+

lemma link_host:
  assumes "link rs ds ans (h, p)"
  shows "hreq h \<longleftrightarrow> hphase h = Host_Req"
    and "hphase h = Host_Req \<Longrightarrow> chain_last (hq h) \<Longrightarrow> pphase p = Per_Done"
    and "hphase h = Host_Wait \<Longrightarrow> \<not> chain_last (hq h) \<Longrightarrow> hq h = (False, False, False) \<and> pphase p = Per_Idle"
  using assms by (cases rule: linkE; simp add: falling_last)+

lemma link_per:
  assumes "link rs ds ans (h, p)"
  shows "pack p \<longleftrightarrow> pphase p = Per_Done"
    and "pphase p = Per_Idle \<Longrightarrow> chain_last (pq p) \<Longrightarrow> hphase h = Host_Req \<and> pq p = (True, True, True)"
    and "pphase p = Per_Busy \<Longrightarrow> ppay p = hpay h"
    and "pphase p = Per_Done \<Longrightarrow> \<not> chain_last (pq p) \<Longrightarrow> hphase h = Host_Wait \<and> pq p = (False, False, False)"
  using assms by (cases rule: linkE; simp add: falling_last rising_last)+

lemma host_moves:
  assumes "link rs ds ans (h, p)"
  shows "hphase h = Host_Idle \<Longrightarrow> hphase (hn i p h) = Host_Idle \<and> \<not> hreq (hn i p h) \<or> hphase (hn i p h) = Host_Req \<and> hreq (hn i p h)"
    and "hphase h = Host_Req \<Longrightarrow> hphase (hn i p h) = Host_Req \<and> hreq (hn i p h) \<and> hpay (hn i p h) = hpay h \<or>
           chain_last (hq h) \<and> pphase p = Per_Done \<and> hphase (hn i p h) = Host_Wait \<and> \<not> hreq (hn i p h) \<and> hres (hn i p h) = pres p"
    and "hphase h = Host_Wait \<Longrightarrow> hphase (hn i p h) = Host_Wait \<and> \<not> hreq (hn i p h) \<or>
           hq h = (False, False, False) \<and> pphase p = Per_Idle \<and> hphase (hn i p h) = Host_Idle \<and> \<not> hreq (hn i p h)"
proof -
  show "hphase (hn i p h) = Host_Idle \<and> \<not> hreq (hn i p h) \<or> hphase (hn i p h) = Host_Req \<and> hreq (hn i p h)"
    if a: "hphase h = Host_Idle"
    using h_idle [OF a, of i p] link_host(1) [OF assms] a by simp
  show "hphase (hn i p h) = Host_Req \<and> hreq (hn i p h) \<and> hpay (hn i p h) = hpay h \<or>
      chain_last (hq h) \<and> pphase p = Per_Done \<and> hphase (hn i p h) = Host_Wait \<and> \<not> hreq (hn i p h) \<and> hres (hn i p h) = pres p"
    if a: "hphase h = Host_Req"
    using h_req [OF a, of i p] h_answer [OF a, of i p] link_host(1,2) [OF assms] a by (cases "chain_last (hq h)") simp_all
  show "hphase (hn i p h) = Host_Wait \<and> \<not> hreq (hn i p h) \<or>
      hq h = (False, False, False) \<and> pphase p = Per_Idle \<and> hphase (hn i p h) = Host_Idle \<and> \<not> hreq (hn i p h)"
    if a: "hphase h = Host_Wait"
    using h_wait [OF a, of i p] link_host(1,3) [OF assms] a by (cases "chain_last (hq h)") simp_all
qed

lemma per_moves:
  assumes "link rs ds ans (h, p)"
  shows "pphase p = Per_Idle \<Longrightarrow> \<not> pack (pn j h p) \<and> (pphase (pn j h p) = Per_Idle \<or>
           hphase h = Host_Req \<and> pq p = (True, True, True) \<and> pphase (pn j h p) = Per_Busy \<and> ppay (pn j h p) = hpay h)"
    and "pphase p = Per_Busy \<Longrightarrow> ppay (pn j h p) = hpay h \<and>
           (pphase (pn j h p) = Per_Busy \<and> \<not> pack (pn j h p) \<or> pphase (pn j h p) = Per_Done \<and> pack (pn j h p))"
    and "pphase p = Per_Done \<Longrightarrow> pres (pn j h p) = pres p \<and> (pphase (pn j h p) = Per_Done \<and> pack (pn j h p) \<or>
           hphase h = Host_Wait \<and> pq p = (False, False, False) \<and> pphase (pn j h p) = Per_Idle \<and> \<not> pack (pn j h p))"
proof -
  show "\<not> pack (pn j h p) \<and> (pphase (pn j h p) = Per_Idle \<or>
      hphase h = Host_Req \<and> pq p = (True, True, True) \<and> pphase (pn j h p) = Per_Busy \<and> ppay (pn j h p) = hpay h)"
    if a: "pphase p = Per_Idle"
    using p_idle [OF a, of j h] link_per(1,2) [OF assms] a by (cases "chain_last (pq p)") simp_all
  show "ppay (pn j h p) = hpay h \<and>
      (pphase (pn j h p) = Per_Busy \<and> \<not> pack (pn j h p) \<or> pphase (pn j h p) = Per_Done \<and> pack (pn j h p))"
    if a: "pphase p = Per_Busy"
    using p_busy [OF a, of j h] link_per(1,3) [OF assms] a by simp
  show "pres (pn j h p) = pres p \<and> (pphase (pn j h p) = Per_Done \<and> pack (pn j h p) \<or>
      hphase h = Host_Wait \<and> pq p = (False, False, False) \<and> pphase (pn j h p) = Per_Idle \<and> \<not> pack (pn j h p))"
    if a: "pphase p = Per_Done"
    using p_done [OF a, of j h] link_per(1,4) [OF assms] a by (cases "chain_last (pq p)") simp_all
qed

lemma step_simps:
  "step (None, None) (h, p) = (h, p)" "step (Some i, None) (h, p) = (hn i p h, p)"
  "step (None, Some j) (h, p) = (h, pn j h p)" "step (Some i, Some j) (h, p) = (hn i p h, pn j h p)"
  by (simp_all add: step_def two_clocks_def)

lemmas observed = requests_def served_def answers_def

text \<open>Every instant keeps the link in one of its phases.\<close>

lemma link_step:
  assumes "link rs ds ans s"
  shows "link (rs @ requests e s) (ds @ served e s) (ans @ answers e s) (step e s)"
proof -
  obtain h p where s: "s = (h, p)" by (cases s)
  note l = assms [unfolded s]
  obtain x y where e: "e = (x, y)" by (cases e)
  define h' where "h' = (case x of None \<Rightarrow> h | Some i \<Rightarrow> hn i p h)"
  define p' where "p' = (case y of None \<Rightarrow> p | Some j \<Rightarrow> pn j h p)"
  have st: "step e (h, p) = (h', p')" by (simp add: step_def two_clocks_def e h'_def p'_def split: option.split)
  have hq: "hq h' = hq h \<and> h' = h \<or> hq h' = chain_shift (pack p) (hq h)" by (simp add: h'_def h_chain split: option.split)
  have pq: "pq p' = pq p \<and> p' = p \<or> pq p' = chain_shift (hreq h) (pq p)" by (simp add: p'_def p_chain split: option.split)
  have hi: "hphase h = Host_Idle \<Longrightarrow> hphase h' = Host_Idle \<and> \<not> hreq h' \<or> hphase h' = Host_Req \<and> hreq h'"
    using host_moves(1) [OF l] link_host(1) [OF l] by (simp add: h'_def split: option.split)
  have hr: "hphase h = Host_Req \<Longrightarrow> hphase h' = Host_Req \<and> hreq h' \<and> hpay h' = hpay h \<or>
      chain_last (hq h) \<and> pphase p = Per_Done \<and> hphase h' = Host_Wait \<and> \<not> hreq h' \<and> hres h' = pres p \<and> hq h' = chain_shift (pack p) (hq h)"
    using host_moves(2) [OF l] link_host(1) [OF l] by (simp add: h'_def h_chain split: option.split)
  have hw: "hphase h = Host_Wait \<Longrightarrow> hphase h' = Host_Wait \<and> \<not> hreq h' \<or>
      hq h = (False, False, False) \<and> pphase p = Per_Idle \<and> hphase h' = Host_Idle \<and> \<not> hreq h'"
    using host_moves(3) [OF l] link_host(1) [OF l] by (simp add: h'_def split: option.split)
  have pi: "pphase p = Per_Idle \<Longrightarrow> \<not> pack p' \<and> (pphase p' = Per_Idle \<or>
      hphase h = Host_Req \<and> pq p = (True, True, True) \<and> pphase p' = Per_Busy \<and> ppay p' = hpay h)"
    using per_moves(1) [OF l] link_per(1,3) [OF l] by (simp add: p'_def split: option.split)
  have pb: "pphase p = Per_Busy \<Longrightarrow> ppay p' = hpay h \<and> (pphase p' = Per_Busy \<and> \<not> pack p' \<or> pphase p' = Per_Done \<and> pack p')"
    using per_moves(2) [OF l] link_per(1,3) [OF l] by (simp add: p'_def split: option.split)
  have pd: "pphase p = Per_Done \<Longrightarrow> pres p' = pres p \<and> (pphase p' = Per_Done \<and> pack p' \<or>
      hphase h = Host_Wait \<and> pq p = (False, False, False) \<and> pphase p' = Per_Idle \<and> \<not> pack p')"
    using per_moves(3) [OF l] link_per(1,3) [OF l] by (simp add: p'_def split: option.split)
  note u = link_def observed st Let_def fst_conv snd_conv
  from l have "link (rs @ requests e (h, p)) (ds @ served e (h, p)) (ans @ answers e (h, p)) (step e (h, p))"
  proof (cases rule: linkE)
    case quiet
    then have "\<not> pack p'" "pphase p' = Per_Idle" "hq h' = (False, False, False)" "pq p' = (False, False, False)"
      using hq pq pi by auto
    with quiet hi [OF quiet(1)] show ?thesis unfolding u by (elim disjE) (simp_all add: quiet_def)
  next
    case asked
    have a: "hphase h' = Host_Req" "hreq h'" "hpay h' = hpay h" "hq h' = (False, False, False)" "\<not> pack p'"
      using asked hr hq pi by auto
    have "rising (pq p')" using asked pq by auto
    moreover have "pq p' = (True, True, True)" if "pq p = (True, True, True)" using that asked(3) pq by auto
    ultimately show ?thesis using asked a pi [OF asked(2)] unfolding u by (elim conjE disjE) simp_all
  next
    case busy
    have "hphase h' = Host_Req" "hreq h'" "hpay h' = hpay h" "hq h' = (False, False, False)" "pq p' = (True, True, True)" "rising (hq h')"
      using busy hr hq pq by auto
    with busy pb [OF busy(2)] show ?thesis unfolding u by (elim conjE disjE) simp_all
  next
    case served
    have a: "pphase p' = Per_Done" "pack p'" "pres p' = pres p" "pq p' = (True, True, True)" using served pd pq by auto
    have "rising (hq h')" using served hq by auto
    moreover have "hq h' = (True, True, True)" if "chain_last (hq h)" using that served rising_last [of "hq h"] hq by auto
    ultimately show ?thesis using served a hr [OF served(1)] unfolding u by (elim conjE disjE) simp_all
  next
    case answered
    have a: "hphase h' = Host_Wait" "\<not> hreq h'" "hq h' = (True, True, True)" using answered hw hq by auto
    have "falling (pq p')" using answered pq by auto
    moreover have "pq p' = (False, False, False)" if "pq p = (False, False, False)" using that answered(3) pq by auto
    ultimately show ?thesis using answered a pd [OF answered(2)] unfolding u by (elim conjE disjE) simp_all
  next
    case clearing
    have a: "pphase p' = Per_Idle" "\<not> pack p'" "pq p' = (False, False, False)" using clearing pi pq by auto
    have "falling (hq h')" using clearing hq by auto
    moreover have "hq h' = (False, False, False)" if "hq h = (False, False, False)" using that clearing(4) hq by auto
    ultimately show ?thesis using clearing a hw [OF clearing(1)] unfolding u by (elim conjE disjE) (simp_all add: quiet_def)
  qed
  then show ?thesis by (simp add: s)
qed

lemma link_run:
  assumes "link rs ds ans s"
  shows "link (rs @ observe step requests es s) (ds @ observe step served es s) (ans @ observe step answers es s) (fold step es s)"
  using assms
proof (induction es arbitrary: rs ds ans s)
  case (Cons e es)
  show ?case using Cons.IH [OF link_step [OF Cons.prems, of e]] by simp
qed simp

lemma link_quiet: "quiet s \<Longrightarrow> link [] [] [] s"
  by (simp add: link_def quiet_def)

lemma link_run_quiet:
  "quiet s \<Longrightarrow> link (observe step requests es s) (observe step served es s) (observe step answers es s) (fold step es s)"
  using link_run [OF link_quiet, of s es] by simp

text \<open>Every request is carried out once, in order, and answered with the response it was given.\<close>

lemma exactly_once:
  assumes "quiet s"
  shows "\<exists>waiting undelivered. observe step requests es s = map fst (observe step served es s) @ waiting \<and>
           map snd (observe step served es s) = observe step answers es s @ undelivered \<and>
           length waiting + length undelivered \<le> 1"
proof -
  obtain h p where hp: "fold step es s = (h, p)" by (cases "fold step es s")
  have "link (observe step requests es s) (observe step served es s) (observe step answers es s) (h, p)"
    using link_run_quiet [OF assms, of es] hp by simp
  then show ?thesis
  proof (cases rule: linkE)
    case asked
    then show ?thesis by (intro exI [of _ "[hpay h]"] exI [of _ "[]"]) simp
  next
    case busy
    then show ?thesis by (intro exI [of _ "[hpay h]"] exI [of _ "[]"]) simp
  next
    case served
    then show ?thesis by (intro exI [of _ "[]"] exI [of _ "[pres p]"]) simp
  qed (intro exI [of _ "[]"], simp)+
qed

subsection \<open>Progress\<close>

text \<open>Four edges of the peripheral clock bring a request to the other side.\<close>

lemma chain_left_shift:
  "rising q \<Longrightarrow> \<not> chain_last q \<Longrightarrow> chain_left True (chain_shift True q) < chain_left True q"
  by (cases q) (auto simp: chain_defs)

lemma reaches_busy:
  assumes "link rs ds ans s" and "hphase (fst s) = Host_Req" and "pphase (snd s) = Per_Idle"
    and "chain_left True (pq (snd s)) < per_edges es"
  shows "\<exists>es1 es2. es = es1 @ es2 \<and> hphase (fst (fold step es1 s)) = Host_Req \<and> pphase (snd (fold step es1 s)) = Per_Busy \<and>
           observe step answers es1 s = []"
  using assms
proof (induction es arbitrary: rs ds ans s)
  case (Cons e es)
  obtain h p where s: "s = (h, p)" by (cases s)
  note l = Cons.prems(1) [unfolded s] and r = Cons.prems(2,3) [unfolded s fst_conv snd_conv]
  from l r have c: "\<not> chain_last (hq h)" "hreq h" "rising (pq p)" "\<not> pack p" by (cases rule: linkE; simp)+
  have h: "hphase (fst (step e s)) = Host_Req"
    using h_req [OF r(1) c(1)] r(1) by (cases e) (simp add: step_def two_clocks_def s split: option.split)
  have a: "answers e s = []" by (simp add: answers_def h)
  have l': "link (rs @ requests e s) (ds @ served e s) (ans @ answers e s) (step e s)" by (rule link_step [OF Cons.prems(1)])
  show ?case
  proof (cases "pphase (snd (step e s)) = Per_Busy")
    case True
    then show ?thesis using h a by (intro exI [of _ "[e]"] exI [of _ es]) simp
  next
    case False
    have i: "pphase (snd (step e s)) = Per_Idle"
      using False per_moves(1) [OF l r(2), of "the (snd e)"] r(2) by (cases "snd e") (auto simp: step_def two_clocks_def s)
    have "chain_left True (pq (snd (step e s))) < per_edges es"
    proof (cases "snd e")
      case None
      then show ?thesis using Cons.prems(4) by (simp add: step_def two_clocks_def s)
    next
      case (Some j)
      then have n: "\<not> chain_last (pq p)" using False p_idle [OF r(2), of j h] by (auto simp: step_def two_clocks_def s)
      show ?thesis using Cons.prems(4) chain_left_shift [OF c(3) n] Some c(2) by (simp add: step_def two_clocks_def s p_chain)
    qed
    from Cons.IH [OF l' h i this] obtain es1 es2 where "es = es1 @ es2" "hphase (fst (fold step es1 (step e s))) = Host_Req"
      "pphase (snd (fold step es1 (step e s))) = Per_Busy" "observe step answers es1 (step e s) = []" by blast
    then show ?thesis using a by (intro exI [of _ "e # es1"] exI [of _ es2]) simp
  qed
qed simp

text \<open>Four edges of the host clock bring the answer back.\<close>

lemma reaches_answer:
  assumes "link rs ds ans s" and "hphase (fst s) = Host_Req" and "pphase (snd s) = Per_Done"
    and "chain_left True (hq (fst s)) < host_edges es"
  shows "observe step answers es s \<noteq> []"
  using assms
proof (induction es arbitrary: rs ds ans s)
  case (Cons e es)
  obtain h p where s: "s = (h, p)" by (cases s)
  note l = Cons.prems(1) [unfolded s] and r = Cons.prems(2,3) [unfolded s fst_conv snd_conv]
  from l r have c: "chain_last (pq p)" "pack p" "rising (hq h)" by (cases rule: linkE; simp)+
  have l': "link (rs @ requests e s) (ds @ served e s) (ans @ answers e s) (step e s)" by (rule link_step [OF Cons.prems(1)])
  show ?case
  proof (cases "answers e s = []")
    case True
    have d: "pphase (snd (step e s)) = Per_Done"
      using p_done [OF r(2)] c(1) r(2) by (cases e) (simp add: step_def two_clocks_def s split: option.split)
    have n: "fst e \<noteq> None \<Longrightarrow> \<not> chain_last (hq h)" using True h_answer [OF r(1)] r(1) by (auto simp: answers_def step_def two_clocks_def s)
    have h: "hphase (fst (step e s)) = Host_Req"
      using h_req [OF r(1)] n r(1) by (cases e) (auto simp: step_def two_clocks_def s split: option.split)
    have "chain_left True (hq (fst (step e s))) < host_edges es"
      using Cons.prems(4) chain_left_shift [OF c(3)] n c(2) by (cases "fst e") (simp_all add: step_def two_clocks_def s h_chain)
    then have "observe step answers es (step e s) \<noteq> []" by (rule Cons.IH [OF l' h d])
    then show ?thesis by simp
  qed simp
qed simp

text \<open>
  Events that serve whatever request the other side is busy with. Then a request that is in the link is answered:
  four edges of the peripheral clock, events that serve it, four edges of the host clock.
\<close>

definition serves :: "('i option \<times> 'j option) list \<Rightarrow> bool" where
  "serves es \<longleftrightarrow> (\<forall>rs ds ans s es0. link rs ds ans s \<longrightarrow> hphase (fst s) = Host_Req \<longrightarrow> pphase (snd s) = Per_Busy \<longrightarrow>
     (\<exists>es1 es2. es0 @ es = es1 @ es2 \<and> hphase (fst (fold step es1 s)) = Host_Req \<and> pphase (snd (fold step es1 s)) = Per_Done))"

lemma chain_left_max: "chain_left b q \<le> 3"
  by (simp add: chain_left_def)

lemma answered_from_done:
  assumes "link rs ds ans s" and "hphase (fst s) = Host_Req" and "pphase (snd s) = Per_Done" and "4 \<le> host_edges es"
  shows "observe step answers es s \<noteq> []"
  using reaches_answer [OF assms(1-3), of es] assms(4) chain_left_max [of True "hq (fst s)"] by simp

lemma answered_from_busy:
  assumes "link rs ds ans s" and "hphase (fst s) = Host_Req" and "pphase (snd s) = Per_Busy" and "serves es" and "4 \<le> host_edges es'"
  shows "observe step answers (es0 @ es @ es') s \<noteq> []"
proof -
  obtain es1 es2 where d: "es0 @ es = es1 @ es2" "hphase (fst (fold step es1 s)) = Host_Req" "pphase (snd (fold step es1 s)) = Per_Done"
    using assms(4) [unfolded serves_def] assms(1-3) by metis
  have "observe step answers (es2 @ es') (fold step es1 s) \<noteq> []"
    by (rule answered_from_done [OF link_run [OF assms(1)] d(2,3)]) (use assms(5) in simp)
  then have "observe step answers (es1 @ es2 @ es') s \<noteq> []" by (simp add: observe_append)
  then show ?thesis using d(1) by (metis append_assoc)
qed

lemma answered:
  assumes "link rs ds ans s" and "hphase (fst s) = Host_Req" and "4 \<le> per_edges es" and "serves es'" and "4 \<le> host_edges es''"
  shows "observe step answers (es @ es' @ es'') s \<noteq> []"
proof -
  obtain h p where s: "s = (h, p)" by (cases s)
  consider "pphase (snd s) = Per_Idle" | "pphase (snd s) = Per_Busy" | "pphase (snd s) = Per_Done"
    using assms(1) [unfolded s] by (cases rule: linkE) (simp_all add: s)
  then show ?thesis
  proof cases
    case 1
    have "chain_left True (pq (snd s)) < per_edges es" using assms(3) chain_left_max [of True "pq (snd s)"] by simp
    then obtain es1 es2 where d: "es = es1 @ es2" "hphase (fst (fold step es1 s)) = Host_Req" "pphase (snd (fold step es1 s)) = Per_Busy"
      using reaches_busy [OF assms(1,2) 1] by blast
    have "observe step answers (es2 @ es' @ es'') (fold step es1 s) \<noteq> []"
      by (rule answered_from_busy [OF link_run [OF assms(1)] d(2,3) assms(4,5)])
    then show ?thesis by (simp add: d(1) observe_append)
  next
    case 2
    show ?thesis by (rule answered_from_busy [OF assms(1,2) 2 assms(4,5)])
  next
    case 3
    show ?thesis by (rule answered_from_done [OF assms(1,2) 3]) (use assms(5) in simp)
  qed
qed

text \<open>And the link is idle again: four more edges of each clock.\<close>

lemma chain_left_fall: "falling q \<Longrightarrow> chain_last q \<Longrightarrow> chain_left False (chain_shift False q) < chain_left False q"
  by (cases q) (auto simp: chain_defs)

lemma wait_stays:
  assumes "link rs ds ans s" and "hphase (fst s) = Host_Wait" and "hphase (fst (step e s)) \<noteq> Host_Idle"
  shows "hphase (fst (step e s)) = Host_Wait"
  using assms h_wait [of "fst s"] by (cases "fst e") (auto simp: step_def two_clocks_def split: if_splits)

lemma reaches_clearing:
  assumes "link rs ds ans s" and "hphase (fst s) = Host_Wait" and "pphase (snd s) = Per_Done" and "chain_left False (pq (snd s)) < per_edges es"
  shows "\<exists>es1 es2. es = es1 @ es2 \<and> hphase (fst (fold step es1 s)) = Host_Wait \<and> pphase (snd (fold step es1 s)) = Per_Idle"
  using assms
proof (induction es arbitrary: rs ds ans s)
  case (Cons e es)
  obtain h p where s: "s = (h, p)" by (cases s)
  note l = Cons.prems(1) [unfolded s] and r = Cons.prems(2,3) [unfolded s fst_conv snd_conv]
  from l r have c: "\<not> hreq h" "chain_last (hq h)" "falling (pq p)" by (cases rule: linkE; simp)+
  have l': "link (rs @ requests e s) (ds @ served e s) (ans @ answers e s) (step e s)" by (rule link_step [OF Cons.prems(1)])
  have h: "hphase (fst (step e s)) = Host_Wait"
    using h_wait [OF r(1)] c(2) r(1) by (cases "fst e") (simp_all add: step_def two_clocks_def s)
  show ?case
  proof (cases "pphase (snd (step e s)) = Per_Idle")
    case True
    then show ?thesis using h by (intro exI [of _ "[e]"] exI [of _ es]) simp
  next
    case False
    have i: "pphase (snd (step e s)) = Per_Done"
      using False per_moves(3) [OF l r(2), of "the (snd e)"] r(2) by (cases "snd e") (auto simp: step_def two_clocks_def s)
    have "chain_left False (pq (snd (step e s))) < per_edges es"
    proof (cases "snd e")
      case None
      then show ?thesis using Cons.prems(4) by (simp add: step_def two_clocks_def s)
    next
      case (Some j)
      then have n: "chain_last (pq p)" using False p_done [OF r(2), of j h] by (auto simp: step_def two_clocks_def s split: if_splits)
      show ?thesis using Cons.prems(4) chain_left_fall [OF c(3) n] Some c(1) by (simp add: step_def two_clocks_def s p_chain)
    qed
    from Cons.IH [OF l' h i this] obtain es1 es2 where "es = es1 @ es2" "hphase (fst (fold step es1 (step e s))) = Host_Wait"
      "pphase (snd (fold step es1 (step e s))) = Per_Idle" by blast
    then show ?thesis by (intro exI [of _ "e # es1"] exI [of _ es2]) simp
  qed
qed simp

lemma reaches_idle:
  assumes "link rs ds ans s" and "hphase (fst s) = Host_Wait" and "pphase (snd s) = Per_Idle" and "chain_left False (hq (fst s)) < host_edges es"
  shows "\<exists>es1 es2. es = es1 @ es2 \<and> hphase (fst (fold step es1 s)) = Host_Idle"
  using assms
proof (induction es arbitrary: rs ds ans s)
  case (Cons e es)
  obtain h p where s: "s = (h, p)" by (cases s)
  note l = Cons.prems(1) [unfolded s] and r = Cons.prems(2,3) [unfolded s fst_conv snd_conv]
  from l r have c: "\<not> chain_last (pq p)" "\<not> pack p" "falling (hq h)" by (cases rule: linkE; simp)+
  have l': "link (rs @ requests e s) (ds @ served e s) (ans @ answers e s) (step e s)" by (rule link_step [OF Cons.prems(1)])
  show ?case
  proof (cases "hphase (fst (step e s)) = Host_Idle")
    case True
    then show ?thesis by (intro exI [of _ "[e]"] exI [of _ es]) simp
  next
    case False
    have h: "hphase (fst (step e s)) = Host_Wait" by (rule wait_stays [OF Cons.prems(1,2) False])
    have i: "pphase (snd (step e s)) = Per_Idle"
      using p_idle [OF r(2)] c(1) r(2) by (cases "snd e") (simp_all add: step_def two_clocks_def s)
    have "chain_left False (hq (fst (step e s))) < host_edges es"
    proof (cases "fst e")
      case None
      then show ?thesis using Cons.prems(4) by (simp add: step_def two_clocks_def s)
    next
      case (Some j)
      then have n: "chain_last (hq h)" using False h_wait [OF r(1), of j p] by (auto simp: step_def two_clocks_def s split: if_splits)
      show ?thesis using Cons.prems(4) chain_left_fall [OF c(3) n] Some c(2) by (simp add: step_def two_clocks_def s h_chain)
    qed
    from Cons.IH [OF l' h i this] obtain es1 es2 where "es = es1 @ es2" "hphase (fst (fold step es1 (step e s))) = Host_Idle" by blast
    then show ?thesis by (intro exI [of _ "e # es1"] exI [of _ es2]) simp
  qed
qed simp

lemma cleared:
  assumes "link rs ds ans s" and "hphase (fst s) = Host_Wait" and "4 \<le> per_edges es" and "4 \<le> host_edges es'"
  shows "\<exists>es1 es2. es @ es' = es1 @ es2 \<and> hphase (fst (fold step es1 s)) = Host_Idle"
proof -
  obtain h p where s: "s = (h, p)" by (cases s)
  have idle: "\<exists>es1 es2. es2' @ es' = es1 @ es2 \<and> hphase (fst (fold step es1 t)) = Host_Idle"
    if "link rs ds ans t" "hphase (fst t) = Host_Wait" "pphase (snd t) = Per_Idle" for rs ds ans t es2'
    by (rule reaches_idle [OF that]) (use assms(4) chain_left_max [of False "hq (fst t)"] in simp)
  consider "pphase (snd s) = Per_Done" | "pphase (snd s) = Per_Idle"
    using assms(1) [unfolded s] assms(2) by (cases rule: linkE) (simp_all add: s)
  then show ?thesis
  proof cases
    case 1
    have "chain_left False (pq (snd s)) < per_edges es" using assms(3) chain_left_max [of False "pq (snd s)"] by simp
    from reaches_clearing [OF assms(1,2) 1 this] obtain xs ys where x: "es = xs @ ys" "hphase (fst (fold step xs s)) = Host_Wait"
      "pphase (snd (fold step xs s)) = Per_Idle" by blast
    from idle [OF link_run [OF assms(1)] x(2,3), of ys] obtain es1 es2 where "ys @ es' = es1 @ es2" "hphase (fst (fold step es1 (fold step xs s))) = Host_Idle" by blast
    then show ?thesis using x(1) by (intro exI [of _ "xs @ es1"] exI [of _ es2]) simp
  next
    case 2
    show ?thesis by (rule idle [OF assms(1,2) 2])
  qed
qed

end

end
