(* ===== verification/TlC2Wb.thy ===== *)
theory TlC2Wb
  imports Handshake Fabric
begin

text \<open>
  The converter of the cached core's TileLink bus to Wishbone (\<open>ip/tl/tl_c2wblite.ent.vhdl\<close>), clock cycle by
  clock cycle, and its arithmetic unit. On a Wishbone memory it is a TileLink memory: reads, bursts, writes
  and atomic operations have their effect and their answer. The converter needs its master to be ready for
  every response, and leaves a request for a block's permission unfinished; both are stated too.
\<close>

subsection \<open>The channels\<close>

record tl_a =
  a_opcode :: "3 word"
  a_param :: "3 word"
  a_size :: "3 word"
  a_source :: u8
  a_address :: u32
  a_mask :: "4 word"
  a_data :: u32
  a_corrupt :: bool
  a_valid :: bool

record tl_d =
  d_opcode :: "3 word"
  d_param :: "3 word"
  d_size :: "3 word"
  d_source :: u8
  d_sink :: u8
  d_data :: u32
  d_corrupt :: bool
  d_valid :: bool

text \<open>What the converter reads of the host's side, and what it drives; it reads nothing of channels C and E.\<close>

record tl_host =
  th_a :: tl_a
  th_d_ready :: bool

record tl_per =
  tp_a_ready :: bool
  tp_c_ready :: bool
  tp_d :: tl_d
  tp_e_ready :: bool

definition OP_PUT_FULL_DATA :: "3 word" where "OP_PUT_FULL_DATA = 0"
definition OP_PUT_PARTIAL_DATA :: "3 word" where "OP_PUT_PARTIAL_DATA = 1"
definition OP_ARITHMETIC_DATA :: "3 word" where "OP_ARITHMETIC_DATA = 2"
definition OP_LOGICAL_DATA :: "3 word" where "OP_LOGICAL_DATA = 3"
definition OP_GET :: "3 word" where "OP_GET = 4"
definition OP_ACQUIRE_BLOCK :: "3 word" where "OP_ACQUIRE_BLOCK = 6"
definition OP_ACQUIRE_PERM :: "3 word" where "OP_ACQUIRE_PERM = 7"
definition OP_ACCESS_ACK :: "3 word" where "OP_ACCESS_ACK = 0"
definition OP_ACCESS_ACK_DATA :: "3 word" where "OP_ACCESS_ACK_DATA = 1"
definition OP_GRANT :: "3 word" where "OP_GRANT = 4"
definition OP_GRANT_DATA :: "3 word" where "OP_GRANT_DATA = 5"

lemmas tl_ops = OP_PUT_FULL_DATA_def OP_PUT_PARTIAL_DATA_def OP_ARITHMETIC_DATA_def OP_LOGICAL_DATA_def OP_GET_def
  OP_ACQUIRE_BLOCK_def OP_ACQUIRE_PERM_def OP_ACCESS_ACK_def OP_ACCESS_ACK_DATA_def OP_GRANT_def OP_GRANT_DATA_def

definition d_type_new :: tl_d where
  "d_type_new = \<lparr>d_opcode = 0, d_param = 0, d_size = 0, d_source = 0, d_sink = 0, d_data = 0, d_corrupt = False, d_valid = False\<rparr>"

definition per_type_c_new :: tl_per where
  "per_type_c_new = \<lparr>tp_a_ready = False, tp_c_ready = False, tp_d = d_type_new, tp_e_ready = False\<rparr>"

subsection \<open>Byte lanes, beats and the arithmetic unit\<close>

definition masked_value :: "u32 \<Rightarrow> 4 word \<Rightarrow> u32" where
  "masked_value v sel = v AND (\<Sum>i \<leftarrow> [0..<4]. if bit sel i then push_bit (8 * i) 0xFF else 0)"

definition get_total_beats :: "3 word \<Rightarrow> u8" where
  "get_total_beats sz = (if unat sz \<le> 2 then 1 else push_bit (unat sz - 2) 1)"

definition tl_alu :: "tl_a \<Rightarrow> u32 \<Rightarrow> u32" where
  "tl_alu saved_a saved_wb_dat =
     (if a_opcode saved_a = OP_ARITHMETIC_DATA then
        (if a_param saved_a = 0 then (if saved_wb_dat <s a_data saved_a then saved_wb_dat else a_data saved_a)
         else if a_param saved_a = 1 then (if a_data saved_a <s saved_wb_dat then saved_wb_dat else a_data saved_a)
         else if a_param saved_a = 2 then (if saved_wb_dat < a_data saved_a then saved_wb_dat else a_data saved_a)
         else if a_param saved_a = 3 then (if a_data saved_a < saved_wb_dat then saved_wb_dat else a_data saved_a)
         else if a_param saved_a = 4 then saved_wb_dat + a_data saved_a
         else a_data saved_a)
      else if a_opcode saved_a = OP_LOGICAL_DATA then
        (if a_param saved_a = 0 then saved_wb_dat XOR a_data saved_a
         else if a_param saved_a = 1 then saved_wb_dat OR a_data saved_a
         else if a_param saved_a = 2 then saved_wb_dat AND a_data saved_a
         else a_data saved_a)
      else a_data saved_a)"

subsection \<open>The state machine\<close>

datatype tl_state_t = IDLE | A_WAIT | WB_RD_WAIT | ALU | WB_WR_WAIT | TL_RESP

record tl_reg =
  tl_state :: tl_state_t
  saved_a :: tl_a
  saved_wb_dat :: u32
  beat_count :: u8
  get_address :: u32
  tl_o :: tl_per
  tl_wb_o :: wb_host

definition tl_reset :: "tl_reg \<Rightarrow> tl_reg" where
  "tl_reset r = r\<lparr>tl_state := IDLE, tl_o := per_type_c_new, tl_wb_o := host_new_bus_type, beat_count := 0\<rparr>"

definition is_get :: "tl_a \<Rightarrow> bool" where
  "is_get a \<longleftrightarrow> a_opcode a = OP_GET \<or> a_opcode a = OP_ACQUIRE_BLOCK"

definition is_atomic :: "tl_a \<Rightarrow> bool" where
  "is_atomic a \<longleftrightarrow> a_opcode a = OP_ARITHMETIC_DATA \<or> a_opcode a = OP_LOGICAL_DATA"

definition is_put :: "tl_a \<Rightarrow> bool" where
  "is_put a \<longleftrightarrow> a_opcode a = OP_PUT_FULL_DATA \<or> a_opcode a = OP_PUT_PARTIAL_DATA"

text \<open>The assignments every cycle starts with.\<close>

definition tl_defaults :: "tl_reg \<Rightarrow> tl_reg" where
  "tl_defaults r = r\<lparr>tl_wb_o := (tl_wb_o r)\<lparr>wb_cyc := False\<rparr>,
     tl_o := (tl_o r)\<lparr>tp_a_ready := False, tp_d := (tp_d (tl_o r))\<lparr>d_valid := False\<rparr>, tp_c_ready := True, tp_e_ready := True\<rparr>\<rparr>"

definition set_a_ready :: "bool \<Rightarrow> tl_reg \<Rightarrow> tl_reg" where
  "set_a_ready b r = r\<lparr>tl_o := (tl_o r)\<lparr>tp_a_ready := b\<rparr>\<rparr>"

definition tl_accepts :: "tl_a \<Rightarrow> tl_reg \<Rightarrow> bool" where
  "tl_accepts a r \<longleftrightarrow> a_valid a \<and> tp_a_ready (tl_o r)"

definition tl_idle :: "tl_a \<Rightarrow> tl_reg \<Rightarrow> tl_reg \<Rightarrow> tl_reg" where
  "tl_idle a r r1 =
     (if tl_accepts a r then
        (let r2 = (set_a_ready False r1)\<lparr>saved_a := a, beat_count := get_total_beats (a_size a)\<rparr> in
         if is_get a then r2\<lparr>get_address := a_address a, tl_state := WB_RD_WAIT\<rparr>
         else if a_opcode a = OP_ACQUIRE_PERM then r2\<lparr>tl_state := TL_RESP\<rparr>
         else if is_atomic a then r2\<lparr>tl_state := WB_RD_WAIT\<rparr>
         else r2\<lparr>tl_state := WB_WR_WAIT\<rparr>)
      else set_a_ready True r1)"

definition tl_a_wait :: "tl_a \<Rightarrow> tl_reg \<Rightarrow> tl_reg \<Rightarrow> tl_reg" where
  "tl_a_wait a r r1 =
     (if tl_accepts a r then
        (let r2 = (set_a_ready False r1)\<lparr>saved_a := a\<rparr> in
         r2\<lparr>tl_state := (if is_atomic a then WB_RD_WAIT else WB_WR_WAIT)\<rparr>)
      else set_a_ready True r1)"

definition tl_rd_wait :: "wb_per \<Rightarrow> tl_reg \<Rightarrow> tl_reg \<Rightarrow> tl_reg" where
  "tl_rd_wait wb_i r r1 =
     (let r2 = r1\<lparr>tl_wb_o := (tl_wb_o r1)\<lparr>wb_cyc := True,
                   wb_adr := (if is_get (saved_a r) then get_address r else a_address (saved_a r)), wb_we := False, wb_sel := 15\<rparr>\<rparr> in
      if per_ack wb_i
      then r2\<lparr>tl_wb_o := (tl_wb_o r2)\<lparr>wb_cyc := False\<rparr>, saved_wb_dat := per_rdt wb_i,
              tl_state := (if is_get (saved_a r) then TL_RESP else ALU)\<rparr>
      else r2)"

definition tl_wr_wait :: "wb_per \<Rightarrow> tl_reg \<Rightarrow> tl_reg \<Rightarrow> tl_reg" where
  "tl_wr_wait wb_i r r1 =
     (let a = saved_a r;
          w = (tl_wb_o r1)\<lparr>wb_cyc := True, wb_adr := a_address a\<rparr>;
          w = (if is_atomic a
               then w\<lparr>wb_we := True, wb_sel := a_mask a,
                      wb_dat := (saved_wb_dat r AND NOT (masked_value 0xFFFFFFFF (a_mask a))) OR
                                masked_value (tl_alu a (saved_wb_dat r)) (a_mask a)\<rparr>
               else w\<lparr>wb_dat := a_data a, wb_sel := a_mask a, wb_we := is_put a\<rparr>);
          r2 = r1\<lparr>tl_wb_o := w\<rparr> in
      if per_ack wb_i
      then (let r3 = r2\<lparr>tl_wb_o := w\<lparr>wb_cyc := False\<rparr>\<rparr>;
                r4 = (if is_atomic a then r3 else r3\<lparr>saved_wb_dat := per_rdt wb_i\<rparr>) in
            if is_put a \<and> 1 < beat_count r then r4\<lparr>beat_count := beat_count r - 1, tl_state := A_WAIT\<rparr>
            else r4\<lparr>tl_state := TL_RESP\<rparr>)
      else r2)"

definition tl_response :: "tl_a \<Rightarrow> u32 \<Rightarrow> tl_d \<Rightarrow> tl_d" where
  "tl_response a dat d =
     (let d = d\<lparr>d_valid := True\<rparr>;
          d = (if a_opcode a = OP_ACQUIRE_BLOCK then d\<lparr>d_opcode := OP_GRANT_DATA, d_data := dat\<rparr>
               else if a_opcode a = OP_ACQUIRE_PERM then d\<lparr>d_opcode := OP_GRANT, d_data := 0\<rparr>
               else if a_opcode a = OP_GET \<or> is_atomic a then d\<lparr>d_opcode := OP_ACCESS_ACK_DATA, d_data := dat\<rparr>
               else d\<lparr>d_opcode := OP_ACCESS_ACK, d_data := 0\<rparr>) in
      d\<lparr>d_size := a_size a, d_source := a_source a, d_sink := 0, d_corrupt := False\<rparr>)"

definition tl_resp :: "bool \<Rightarrow> tl_reg \<Rightarrow> tl_reg \<Rightarrow> tl_reg" where
  "tl_resp d_ready r r1 =
     (let a = saved_a r;
          r2 = r1\<lparr>tl_o := (tl_o r1)\<lparr>tp_d := tl_response a (saved_wb_dat r) (tp_d (tl_o r1))\<rparr>\<rparr> in
      if \<not> d_ready then r2
      else if is_put a then r2\<lparr>tl_state := IDLE\<rparr>
      else if 1 < beat_count r then
        (let r3 = r2\<lparr>beat_count := beat_count r - 1\<rparr> in
         if is_get a then r3\<lparr>get_address := get_address r + 4, tl_state := WB_RD_WAIT\<rparr> else r3\<lparr>tl_state := A_WAIT\<rparr>)
      else r2\<lparr>tl_state := IDLE\<rparr>)"

text \<open>A rising edge outside reset.\<close>

definition tl_next :: "tl_host \<Rightarrow> wb_per \<Rightarrow> tl_reg \<Rightarrow> tl_reg" where
  "tl_next tl_i wb_i r =
     (let r1 = tl_defaults r in
      case tl_state r of
        IDLE \<Rightarrow> tl_idle (th_a tl_i) r r1
      | A_WAIT \<Rightarrow> tl_a_wait (th_a tl_i) r r1
      | WB_RD_WAIT \<Rightarrow> tl_rd_wait wb_i r r1
      | ALU \<Rightarrow> r1\<lparr>tl_state := WB_WR_WAIT\<rparr>
      | WB_WR_WAIT \<Rightarrow> tl_wr_wait wb_i r r1
      | TL_RESP \<Rightarrow> tl_resp (th_d_ready tl_i) r r1)"

subsection \<open>On a memory\<close>

text \<open>Byte lanes: the bytes of \<open>new\<close> that \<open>sel\<close> selects, the others of \<open>old\<close>.\<close>

definition lane_merge :: "u32 \<Rightarrow> u32 \<Rightarrow> 4 word \<Rightarrow> u32" where
  "lane_merge old new sel = (old AND NOT (masked_value 0xFFFFFFFF sel)) OR masked_value new sel"

lemma bit_FF: "bit (0xFF :: u32) n \<longleftrightarrow> n < 8"
proof -
  have "(0xFF :: u32) = mask 8" by (simp add: mask_eq_exp_minus_1)
  then show ?thesis by (simp only: bit_mask_iff) (auto simp: min_def)
qed

lemma lanes_sum:
  "(\<Sum>i \<leftarrow> [0..<4]. if bit sel i then push_bit (8 * i) 0xFF else 0) =
   ((if bit sel 0 then 0xFF else 0) OR (if bit sel 1 then 0xFF00 else 0) OR (if bit sel 2 then 0xFF0000 else 0) OR
    (if bit sel 3 then 0xFF000000 else 0) :: u32)" for sel :: "4 word"
  by (simp add: upt_rec numeral_eq_Suc push_bit_eq_mult)

lemma bit_masked_value: "bit (masked_value v sel) n \<longleftrightarrow> n < 32 \<and> bit v n \<and> bit sel (n div 8)"
proof (cases "n < 32")
  case True
  have e: "(0xFF00 :: u32) = push_bit 8 0xFF" "(0xFF0000 :: u32) = push_bit 16 0xFF" "(0xFF000000 :: u32) = push_bit 24 0xFF"
    by (simp_all add: push_bit_eq_mult)
  have b: "bit (if c then x else 0 :: u32) n \<longleftrightarrow> c \<and> bit x n" for c x by simp
  have r: "bit (push_bit k 0xFF :: u32) n \<longleftrightarrow> k \<le> n \<and> n < k + 8" for k
    using True by (simp only: bit_push_bit_iff bit_FF possible_bit_word) auto
  have "n div 8 = 0 \<or> n div 8 = 1 \<or> n div 8 = 2 \<or> n div 8 = 3" using True by auto
  then have "bit sel (n div 8) \<longleftrightarrow> (bit sel 0 \<and> n < 8) \<or> (bit sel 1 \<and> 8 \<le> n \<and> n < 16) \<or> (bit sel 2 \<and> 16 \<le> n \<and> n < 24) \<or>
      (bit sel 3 \<and> 24 \<le> n \<and> n < 32)"
    by (elim disjE) auto
  then show ?thesis using True by (simp only: masked_value_def lanes_sum e bit_and_iff bit_or_iff b r bit_FF) auto
next
  case False
  then show ?thesis using bit_imp_le_length [of "masked_value v sel" n] by auto
qed

lemma bit_ones: "bit (0xFFFFFFFF :: u32) n \<longleftrightarrow> n < 32"
proof -
  have "(0xFFFFFFFF :: u32) = mask 32" by (simp add: mask_eq_exp_minus_1)
  then show ?thesis by (simp only: bit_mask_iff) (auto simp: min_def)
qed

lemma bit_lane_merge: "n < 32 \<Longrightarrow> bit (lane_merge old new sel) n \<longleftrightarrow> (if bit sel (n div 8) then bit new n else bit old n)"
  by (simp only: lane_merge_def bit_or_iff bit_and_iff bit_not_iff bit_masked_value bit_ones possible_bit_word) auto

lemma lane_merge_again: "lane_merge old (lane_merge old new sel) sel = lane_merge old new sel"
  by (rule bit_word_eqI) (simp add: bit_lane_merge)

text \<open>What the arithmetic unit computes: the operations of TileLink on the old word \<open>x\<close> and the operand \<open>y\<close>.\<close>

definition amo_result :: "3 word \<Rightarrow> 3 word \<Rightarrow> u32 \<Rightarrow> u32 \<Rightarrow> u32" where
  "amo_result opcode param x y =
     (if opcode = OP_ARITHMETIC_DATA
      then [word_of_int (min (sint x) (sint y)), word_of_int (max (sint x) (sint y)), min x y, max x y, x + y, y, y, y] ! unat param
      else [x XOR y, x OR y, x AND y, y, y, y, y, y] ! unat param)"

lemma param_cases:
  fixes p :: "3 word"
  obtains "p = 0" | "p = 1" | "p = 2" | "p = 3" | "p = 4" | "p = 5" | "p = 6" | "p = 7"
proof -
  have "unat p < 8" using unsigned_less [of p] by simp
  then have "unat p \<in> {0, 1, 2, 3, 4, 5, 6, 7}" by auto
  then show ?thesis using that by (auto simp: word_unat_eq_iff)
qed

lemma tl_alu_amo: "is_atomic a \<Longrightarrow> tl_alu a x = amo_result (a_opcode a) (a_param a) x (a_data a)"
  by (cases rule: param_cases [of "a_param a"])
    (auto simp: tl_alu_def amo_result_def is_atomic_def tl_ops word_sless_alt min_def max_def)

text \<open>
  The converter with a memory on its Wishbone side: words by word address. The memory acknowledges in the cycles the
  environment chooses, never outside an access. An event is what the TileLink side shows and that choice.
\<close>

type_synonym wmem = "u32 \<Rightarrow> u32"

definition mem_response :: "wmem \<Rightarrow> wb_host \<Rightarrow> bool \<Rightarrow> wb_per" where
  "mem_response m h b = \<lparr>per_rdt = m (drop_bit 2 (wb_adr h)), per_ack = wb_cyc h \<and> b\<rparr>"

definition mem_next :: "wb_host \<Rightarrow> bool \<Rightarrow> wmem \<Rightarrow> wmem" where
  "mem_next h b m =
     (if wb_cyc h \<and> b \<and> wb_we h
      then m(drop_bit 2 (wb_adr h) := lane_merge (m (drop_bit 2 (wb_adr h))) (wb_dat h) (wb_sel h)) else m)"

definition tl_mem_step :: "tl_host \<times> bool \<Rightarrow> tl_reg \<times> wmem \<Rightarrow> tl_reg \<times> wmem" where
  "tl_mem_step e s = (tl_next (fst e) (mem_response (snd s) (tl_wb_o (fst s)) (snd e)) (fst s),
                      mem_next (tl_wb_o (fst s)) (snd e) (snd s))"

text \<open>The requests the converter takes, and the beats the master receives, at a clock edge.\<close>

definition tl_taken :: "tl_host \<times> bool \<Rightarrow> tl_reg \<times> wmem \<Rightarrow> tl_a list" where
  "tl_taken e s = (if tl_accepts (th_a (fst e)) (fst s) then [th_a (fst e)] else [])"

definition tl_pending :: "tl_reg \<Rightarrow> tl_d list" where
  "tl_pending r = (if d_valid (tp_d (tl_o r)) then [tp_d (tl_o r)] else [])"

definition tl_beats :: "tl_host \<times> bool \<Rightarrow> tl_reg \<times> wmem \<Rightarrow> tl_d list" where
  "tl_beats e s = (if th_d_ready (fst e) then tl_pending (fst s) else [])"

text \<open>The specification: what a request means on a memory.\<close>

definition tl_reply :: "3 word \<Rightarrow> tl_a \<Rightarrow> u32 \<Rightarrow> tl_d" where
  "tl_reply opcode a dat = \<lparr>d_opcode = opcode, d_param = 0, d_size = a_size a, d_source = a_source a, d_sink = 0,
     d_data = dat, d_corrupt = False, d_valid = True\<rparr>"

definition tl_words :: "tl_a \<Rightarrow> nat" where
  "tl_words a = (if unat (a_size a) \<le> 2 then 1 else 2 ^ (unat (a_size a) - 2))"

definition tl_beat_adr :: "tl_a \<Rightarrow> nat \<Rightarrow> u32" where
  "tl_beat_adr a i = drop_bit 2 (a_address a + 4 * of_nat i)"

definition tl_exec :: "tl_a \<Rightarrow> wmem \<Rightarrow> tl_d list \<times> wmem" where
  "tl_exec a m =
     (let w = drop_bit 2 (a_address a) in
      if is_get a then (map (\<lambda>i. tl_reply (if a_opcode a = OP_GET then OP_ACCESS_ACK_DATA else OP_GRANT_DATA) a (m (tl_beat_adr a i))) [0..<tl_words a], m)
      else if is_atomic a then ([tl_reply OP_ACCESS_ACK_DATA a (m w)],
                                m(w := lane_merge (m w) (amo_result (a_opcode a) (a_param a) (m w) (a_data a)) (a_mask a)))
      else ([tl_reply OP_ACCESS_ACK a 0], m(w := lane_merge (m w) (a_data a) (a_mask a))))"

primrec tl_exec_all :: "tl_a list \<Rightarrow> wmem \<Rightarrow> tl_d list \<times> wmem" where
  "tl_exec_all [] m = ([], m)"
| "tl_exec_all (a # as) m = (let (ds, m') = tl_exec a m; (ds', m'') = tl_exec_all as m' in (ds @ ds', m''))"

lemma tl_exec_all_snoc:
  "tl_exec_all (as @ [a]) m =
     (fst (tl_exec_all as m) @ fst (tl_exec a (snd (tl_exec_all as m))), snd (tl_exec a (snd (tl_exec_all as m))))"
  by (induction as arbitrary: m) (simp_all add: case_prod_beta Let_def)

text \<open>Reads of any size, and writes and atomic operations of a word or less.\<close>

definition tl_single :: "tl_a \<Rightarrow> bool" where
  "tl_single a \<longleftrightarrow> is_get a \<or> (is_put a \<or> is_atomic a) \<and> unat (a_size a) \<le> 2"

text \<open>A request under way: the beats \<open>ds\<close> made so far and the memory it started on.\<close>

definition get_at :: "tl_a \<Rightarrow> wmem \<Rightarrow> tl_d list \<Rightarrow> nat \<Rightarrow> tl_reg \<Rightarrow> bool" where
  "get_at a M ds i r \<longleftrightarrow> is_get a \<and> i < tl_words a \<and> beat_count r = of_nat (tl_words a - i) \<and>
     get_address r = a_address a + 4 * of_nat i \<and> ds = take i (fst (tl_exec a M))"

definition tl_busy :: "tl_a \<Rightarrow> wmem \<Rightarrow> tl_d list \<Rightarrow> tl_reg \<times> wmem \<Rightarrow> bool" where
  "tl_busy a M ds s \<longleftrightarrow>
     (let r = fst s; m = snd s; w = drop_bit 2 (a_address a); h = tl_wb_o r in
      saved_a r = a \<and> tl_single a \<and> \<not> tp_a_ready (tl_o r) \<and> d_param (tp_d (tl_o r)) = 0 \<and>
      (if is_get a
       then m = M \<and> (\<exists>i. get_at a M ds i r \<and>
              (tl_state r = WB_RD_WAIT \<and> (wb_cyc h \<longrightarrow> wb_adr h = get_address r \<and> \<not> wb_we h) \<or>
               tl_state r = TL_RESP \<and> \<not> wb_cyc h \<and> saved_wb_dat r = m (tl_beat_adr a i)))
       else ds = [] \<and> beat_count r = 1 \<and>
         (if is_atomic a
          then tl_state r = WB_RD_WAIT \<and> m = M \<and> (wb_cyc h \<longrightarrow> wb_adr h = a_address a \<and> \<not> wb_we h) \<or>
               tl_state r = ALU \<and> m = M \<and> \<not> wb_cyc h \<and> saved_wb_dat r = m w \<or>
               tl_state r = WB_WR_WAIT \<and> m = M \<and> saved_wb_dat r = m w \<and>
                 (wb_cyc h \<longrightarrow> wb_adr h = a_address a \<and> wb_we h \<and> wb_sel h = a_mask a \<and>
                               wb_dat h = lane_merge (m w) (tl_alu a (m w)) (a_mask a)) \<or>
               tl_state r = TL_RESP \<and> \<not> wb_cyc h \<and> saved_wb_dat r = M w \<and> m = snd (tl_exec a M)
          else tl_state r = WB_WR_WAIT \<and> m = M \<and>
                 (wb_cyc h \<longrightarrow> wb_adr h = a_address a \<and> wb_we h \<and> wb_sel h = a_mask a \<and> wb_dat h = a_data a) \<or>
               tl_state r = TL_RESP \<and> \<not> wb_cyc h \<and> m = snd (tl_exec a M))))"

definition tl_free :: "tl_reg \<Rightarrow> bool" where
  "tl_free r \<longleftrightarrow> tl_state r = IDLE \<and> \<not> wb_cyc (tl_wb_o r) \<and> d_param (tp_d (tl_o r)) = 0"

lemma words_bound: "1 \<le> tl_words a" "tl_words a \<le> 32"
proof -
  have "unat (a_size a) < 8" using unsigned_less [of "a_size a"] by simp
  then have "unat (a_size a) - 2 \<le> 5" by simp
  then have "(2 :: nat) ^ (unat (a_size a) - 2) \<le> 2 ^ 5" by (rule power_increasing) simp
  then show "1 \<le> tl_words a" "tl_words a \<le> 32" by (simp_all add: tl_words_def)
qed

lemma total_beats_words: "get_total_beats (a_size a) = of_nat (tl_words a)"
  by (simp add: get_total_beats_def tl_words_def push_bit_eq_mult)

lemma beats_more: "i < tl_words a \<Longrightarrow> 1 < (of_nat (tl_words a - i) :: u8) \<longleftrightarrow> Suc i < tl_words a"
proof -
  assume i: "i < tl_words a"
  have u: "unat (of_nat k :: u8) = k" if "k \<le> 32" for k using that by (simp add: unat_of_nat)
  have "1 < (of_nat k :: u8) \<longleftrightarrow> 1 < k" if "k \<le> 32" for k using u [OF that] by (simp only: word_less_nat_alt) simp
  from this [of "tl_words a - i"] i words_bound(2) [of a] show ?thesis by auto
qed

lemma op_excl:
  "is_get a \<Longrightarrow> \<not> is_atomic a \<and> \<not> is_put a \<and> a_opcode a \<noteq> OP_ACQUIRE_PERM"
  "is_atomic a \<Longrightarrow> \<not> is_get a \<and> \<not> is_put a \<and> a_opcode a \<noteq> OP_ACQUIRE_PERM"
  "is_put a \<Longrightarrow> \<not> is_get a \<and> \<not> is_atomic a \<and> a_opcode a \<noteq> OP_ACQUIRE_PERM"
  by (auto simp: is_get_def is_atomic_def is_put_def tl_ops)

lemma reply_get: "is_get a \<Longrightarrow> d_param d = 0 \<Longrightarrow> i < tl_words a \<Longrightarrow> dat = M (tl_beat_adr a i) \<Longrightarrow> tl_response a dat d = fst (tl_exec a M) ! i"
  by (auto simp: tl_response_def tl_exec_def tl_reply_def is_get_def is_atomic_def tl_ops Let_def)

lemma reply_atomic: "is_atomic a \<Longrightarrow> d_param d = 0 \<Longrightarrow> [tl_response a (M (drop_bit 2 (a_address a))) d] = fst (tl_exec a M)"
  by (auto simp: tl_response_def tl_exec_def tl_reply_def is_get_def is_atomic_def tl_ops Let_def)

lemma reply_put: "is_put a \<Longrightarrow> d_param d = 0 \<Longrightarrow> [tl_response a dat d] = fst (tl_exec a M)"
  by (auto simp: tl_response_def tl_exec_def tl_reply_def is_get_def is_atomic_def is_put_def tl_ops Let_def)

lemma busy_rd_get:
  assumes "tl_busy a M ds (r, m)" and "tl_state r = WB_RD_WAIT" and "is_get a"
  shows "let s' = tl_mem_step e (r, m) in tl_busy a M (ds @ tl_pending (fst s')) s' \<and> snd s' = m"
proof -
  obtain i where a: "saved_a r = a" "tl_single a" "\<not> tp_a_ready (tl_o r)" "d_param (tp_d (tl_o r)) = 0" "m = M" "get_at a M ds i r"
    "wb_cyc (tl_wb_o r) \<longrightarrow> wb_adr (tl_wb_o r) = get_address r \<and> \<not> wb_we (tl_wb_o r)"
    using assms by (auto simp: tl_busy_def Let_def)
  let ?r' = "tl_rd_wait (mem_response m (tl_wb_o r) (snd e)) r (tl_defaults r)"
  have m: "mem_next (tl_wb_o r) (snd e) m = m" using a(7) by (auto simp: mem_next_def)
  have "tl_mem_step e (r, m) = (?r', m)" using assms(2) m by (simp add: tl_mem_step_def tl_next_def Let_def)
  moreover have "tl_pending ?r' = []" by (simp add: tl_pending_def tl_rd_wait_def tl_defaults_def Let_def)
  moreover have "get_at a M ds i ?r'" using a(6) by (simp add: get_at_def tl_rd_wait_def tl_defaults_def Let_def)
  moreover have "tl_beat_adr a i = drop_bit 2 (get_address r)" using a(6) by (simp add: tl_beat_adr_def get_at_def)
  then have "tl_state ?r' = WB_RD_WAIT \<and> (wb_cyc (tl_wb_o ?r') \<longrightarrow> wb_adr (tl_wb_o ?r') = get_address ?r' \<and> \<not> wb_we (tl_wb_o ?r')) \<or>
      tl_state ?r' = TL_RESP \<and> \<not> wb_cyc (tl_wb_o ?r') \<and> saved_wb_dat ?r' = m (tl_beat_adr a i)"
    using a(1,7) assms(2,3) by (auto simp: tl_rd_wait_def tl_defaults_def mem_response_def Let_def)
  ultimately show ?thesis using a assms(3) by (auto simp: tl_busy_def tl_rd_wait_def tl_defaults_def Let_def)
qed

lemma busy_resp_get:
  assumes "tl_busy a M ds (r, m)" and "tl_state r = TL_RESP" and "is_get a" and "th_d_ready (fst e)"
  shows "let s' = tl_mem_step e (r, m) in
    tl_busy a M (ds @ tl_pending (fst s')) s' \<and> tl_state (fst s') = WB_RD_WAIT \<and> beat_count (fst s') = beat_count r - 1 \<and> 1 < beat_count r \<or>
    tl_free (fst s') \<and> \<not> tp_a_ready (tl_o (fst s')) \<and> ds @ tl_pending (fst s') = fst (tl_exec a M) \<and> snd s' = snd (tl_exec a M)"
proof -
  obtain i where a: "saved_a r = a" "tl_single a" "\<not> tp_a_ready (tl_o r)" "d_param (tp_d (tl_o r)) = 0" "m = M" "get_at a M ds i r"
    "\<not> wb_cyc (tl_wb_o r)" "saved_wb_dat r = m (tl_beat_adr a i)"
    using assms by (auto simp: tl_busy_def Let_def)
  let ?d = "tl_response a (saved_wb_dat r) (tp_d (tl_o (tl_defaults r)))"
  let ?r' = "tl_resp True r (tl_defaults r)"
  have g: "i < tl_words a" "beat_count r = of_nat (tl_words a - i)" "ds = take i (fst (tl_exec a M))" "get_address r = a_address a + 4 * of_nat i"
    using a(6) by (simp_all add: get_at_def)
  have l: "length (fst (tl_exec a M)) = tl_words a" using assms(3) by (simp add: tl_exec_def Let_def)
  have d: "?d = fst (tl_exec a M) ! i" by (rule reply_get [OF assms(3)]) (use a g in \<open>simp_all add: tl_defaults_def\<close>)
  have st: "tl_mem_step e (r, m) = (?r', m)" using assms(2,4) a(7) by (simp add: tl_mem_step_def tl_next_def mem_next_def Let_def)
  have v: "d_valid ?d" by (simp add: tl_response_def Let_def)
  have o: "tp_d (tl_o ?r') = ?d" "\<not> tp_a_ready (tl_o ?r')" "\<not> wb_cyc (tl_wb_o ?r')" "saved_a ?r' = a"
    using a(1) op_excl(1) [OF assms(3)] by (simp_all add: tl_resp_def tl_defaults_def Let_def)
  have p: "ds @ tl_pending ?r' = take (Suc i) (fst (tl_exec a M))" using v o d g l by (simp add: tl_pending_def take_Suc_conv_app_nth)
  have pr: "d_param ?d = 0" using a(4) by (simp add: tl_response_def tl_defaults_def Let_def)
  show ?thesis
  proof (cases "Suc i < tl_words a")
    case True
    have b: "1 < beat_count r" using True g beats_more [of i a] by simp
    have "tl_words a - i = Suc (tl_words a - Suc i)" using True by simp
    then have c: "beat_count r - 1 = of_nat (tl_words a - Suc i)" using g(2) by simp
    have r: "tl_state ?r' = WB_RD_WAIT" "beat_count ?r' = beat_count r - 1" "get_address ?r' = get_address r + 4"
      using a(1) op_excl(1) [OF assms(3)] assms(3) b by (simp_all add: tl_resp_def tl_defaults_def Let_def)
    have "get_at a M (ds @ tl_pending ?r') (Suc i) ?r'" using assms(3) True r c p g(4) by (simp add: get_at_def algebra_simps)
    then have "tl_busy a M (ds @ tl_pending ?r') (?r', m)" using a(2,5) assms(3) r o pr by (auto simp: tl_busy_def Let_def)
    with r b show ?thesis by (simp add: st)
  next
    case False
    have b: "\<not> 1 < beat_count r" using False g beats_more [of i a] by simp
    have "tl_state ?r' = IDLE" using a(1) op_excl(1) [OF assms(3)] b by (simp add: tl_resp_def tl_defaults_def Let_def)
    moreover have "take (Suc i) (fst (tl_exec a M)) = fst (tl_exec a M)" using False l by simp
    moreover have "snd (tl_exec a M) = M" using assms(3) by (simp add: tl_exec_def Let_def)
    ultimately show ?thesis using o p pr a(5) unfolding st Let_def fst_conv snd_conv by (simp add: tl_free_def)
  qed
qed

lemmas tl_edge = tl_mem_step_def tl_next_def tl_defaults_def mem_response_def mem_next_def Let_def

lemma busy_alu:
  assumes "tl_busy a M ds (r, m)" and "tl_state r = ALU"
  shows "let s' = tl_mem_step e (r, m) in tl_busy a M (ds @ tl_pending (fst s')) s' \<and> snd s' = m"
proof -
  have a: "saved_a r = a" "tl_single a" "\<not> tp_a_ready (tl_o r)" "d_param (tp_d (tl_o r)) = 0" "is_atomic a" "ds = []" "beat_count r = 1"
    "m = M" "\<not> wb_cyc (tl_wb_o r)" "saved_wb_dat r = m (drop_bit 2 (a_address a))" "\<not> is_get a"
    using assms by (auto simp: tl_busy_def Let_def split: if_splits)
  show ?thesis using a assms(2) by (simp add: tl_edge tl_busy_def tl_pending_def)
qed

lemma busy_rd_atomic:
  assumes "tl_busy a M ds (r, m)" and "tl_state r = WB_RD_WAIT" and "\<not> is_get a"
  shows "let s' = tl_mem_step e (r, m) in tl_busy a M (ds @ tl_pending (fst s')) s' \<and> snd s' = m"
proof -
  have a: "saved_a r = a" "tl_single a" "\<not> tp_a_ready (tl_o r)" "d_param (tp_d (tl_o r)) = 0" "is_atomic a" "ds = []" "beat_count r = 1"
    "m = M" "wb_cyc (tl_wb_o r) \<longrightarrow> wb_adr (tl_wb_o r) = a_address a \<and> \<not> wb_we (tl_wb_o r)"
    using assms by (auto simp: tl_busy_def Let_def split: if_splits)
  have m: "mem_next (tl_wb_o r) (snd e) m = m" using a(9) by (auto simp: mem_next_def)
  let ?r' = "tl_rd_wait (mem_response m (tl_wb_o r) (snd e)) r (tl_defaults r)"
  have st: "tl_mem_step e (r, m) = (?r', m)" using assms(2) m by (simp add: tl_mem_step_def tl_next_def Let_def)
  have "tl_pending ?r' = []" by (simp add: tl_pending_def tl_rd_wait_def tl_defaults_def Let_def)
  then show ?thesis unfolding st Let_def fst_conv snd_conv using a assms(2,3)
    by (cases "wb_cyc (tl_wb_o r) \<and> snd e")
      (auto simp: tl_busy_def tl_rd_wait_def tl_defaults_def mem_response_def Let_def)
qed

lemma exec_atomic: "is_atomic a \<Longrightarrow> snd (tl_exec a M) = M(drop_bit 2 (a_address a) :=
    lane_merge (M (drop_bit 2 (a_address a))) (tl_alu a (M (drop_bit 2 (a_address a)))) (a_mask a))"
  using op_excl(2) [of a] tl_alu_amo [of a] by (simp add: tl_exec_def Let_def)

lemma exec_put: "is_put a \<Longrightarrow> snd (tl_exec a M) = M(drop_bit 2 (a_address a) :=
    lane_merge (M (drop_bit 2 (a_address a))) (a_data a) (a_mask a))"
  using op_excl(3) [of a] by (simp add: tl_exec_def Let_def)

lemma busy_wr:
  assumes "tl_busy a M ds (r, m)" and "tl_state r = WB_WR_WAIT"
  shows "let s' = tl_mem_step e (r, m) in tl_busy a M (ds @ tl_pending (fst s')) s'"
proof -
  let ?w = "drop_bit 2 (a_address a)" and ?h = "tl_wb_o r"
  have a: "saved_a r = a" "tl_single a" "\<not> tp_a_ready (tl_o r)" "d_param (tp_d (tl_o r)) = 0" "\<not> is_get a" "ds = []" "beat_count r = 1" "m = M"
    using assms by (auto simp: tl_busy_def Let_def split: if_splits)
  let ?v = "if is_atomic a then lane_merge (m ?w) (tl_alu a (m ?w)) (a_mask a) else a_data a"
  have h: "wb_cyc ?h \<longrightarrow> wb_adr ?h = a_address a \<and> wb_we ?h \<and> wb_sel ?h = a_mask a \<and> wb_dat ?h = ?v"
    and d: "is_atomic a \<longrightarrow> saved_wb_dat r = m ?w"
    using assms by (auto simp: tl_busy_def Let_def split: if_splits)
  have p: "is_put a" if "\<not> is_atomic a" using a(2,5) that by (simp add: tl_single_def)
  have x: "snd (tl_exec a M) = m(?w := lane_merge (m ?w) ?v (a_mask a))"
    using a(8) exec_atomic [of a M] exec_put [OF p, of M] by (simp add: lane_merge_again)
  let ?r' = "tl_wr_wait (mem_response m ?h (snd e)) r (tl_defaults r)" and ?m' = "mem_next ?h (snd e) m"
  have st: "tl_mem_step e (r, m) = (?r', ?m')" using assms(2) by (simp add: tl_mem_step_def tl_next_def Let_def)
  have v: "tl_pending ?r' = []" "saved_a ?r' = a" "\<not> tp_a_ready (tl_o ?r')" "d_param (tp_d (tl_o ?r')) = 0" "beat_count ?r' = 1"
    using a by (simp_all add: tl_pending_def tl_wr_wait_def tl_defaults_def Let_def)
  have "tl_busy a M ds (?r', ?m')"
  proof (cases "wb_cyc ?h \<and> snd e")
    case True
    then have "?m' = snd (tl_exec a M)" using h x by (simp add: mem_next_def)
    moreover have "tl_state ?r' = TL_RESP" "\<not> wb_cyc (tl_wb_o ?r')" "is_atomic a \<longrightarrow> saved_wb_dat ?r' = saved_wb_dat r"
      using True a(1,7) by (simp_all add: tl_wr_wait_def tl_defaults_def mem_response_def Let_def)
    ultimately show ?thesis using a v d by (simp add: tl_busy_def Let_def)
  next
    case False
    then have "?m' = m" by (auto simp: mem_next_def)
    moreover have "tl_state ?r' = WB_WR_WAIT" "saved_wb_dat ?r' = saved_wb_dat r"
      "tl_wb_o ?r' = (tl_wb_o r)\<lparr>wb_cyc := True, wb_adr := a_address a, wb_we := True, wb_sel := a_mask a, wb_dat := ?v\<rparr>"
      using False a(1) assms(2) d p by (auto simp: tl_wr_wait_def tl_defaults_def mem_response_def lane_merge_def Let_def)
    ultimately show ?thesis using a v d by (auto simp: tl_busy_def Let_def)
  qed
  then show ?thesis using v(1) by (simp add: st Let_def)
qed

lemma busy_resp_other:
  assumes "tl_busy a M ds (r, m)" and "tl_state r = TL_RESP" and "\<not> is_get a" and "th_d_ready (fst e)"
  shows "let s' = tl_mem_step e (r, m) in
    tl_free (fst s') \<and> \<not> tp_a_ready (tl_o (fst s')) \<and> ds @ tl_pending (fst s') = fst (tl_exec a M) \<and> snd s' = snd (tl_exec a M)"
proof -
  have a: "saved_a r = a" "tl_single a" "\<not> tp_a_ready (tl_o r)" "d_param (tp_d (tl_o r)) = 0" "ds = []" "beat_count r = 1"
    "\<not> wb_cyc (tl_wb_o r)" "m = snd (tl_exec a M)" "is_atomic a \<longrightarrow> saved_wb_dat r = M (drop_bit 2 (a_address a))"
    using assms by (auto simp: tl_busy_def Let_def split: if_splits)
  let ?d = "tl_response a (saved_wb_dat r) (tp_d (tl_o (tl_defaults r)))"
  let ?r' = "tl_resp True r (tl_defaults r)"
  have st: "tl_mem_step e (r, m) = (?r', m)" using assms(2,4) a(7) by (simp add: tl_mem_step_def tl_next_def mem_next_def Let_def)
  have p: "is_put a" if "\<not> is_atomic a" using a(2) assms(3) that by (simp add: tl_single_def)
  have v: "d_valid ?d" "d_param ?d = 0" using a(4) by (simp_all add: tl_response_def tl_defaults_def Let_def)
  have d: "[?d] = fst (tl_exec a M)"
    using reply_atomic [of a "tp_d (tl_o (tl_defaults r))" M] reply_put [OF p, of "tp_d (tl_o (tl_defaults r))" _ M] a(4,9)
    by (cases "is_atomic a") (simp_all add: tl_defaults_def)
  have o: "tp_d (tl_o ?r') = ?d" "\<not> tp_a_ready (tl_o ?r')" "\<not> wb_cyc (tl_wb_o ?r')" "tl_state ?r' = IDLE"
    using a(1,6) by (simp_all add: tl_resp_def tl_defaults_def Let_def)
  show ?thesis unfolding st Let_def fst_conv snd_conv using o v d a(5,8) by (simp add: tl_free_def tl_pending_def)
qed

lemma free_step:
  assumes "tl_free r" and "\<forall>a \<in> set (tl_taken e (r, m)). tl_single a"
  shows "let s' = tl_mem_step e (r, m) in tl_pending (fst s') = [] \<and>
    (if tl_accepts (th_a (fst e)) r then tl_busy (th_a (fst e)) m [] s' else tl_free (fst s') \<and> snd s' = m)"
proof -
  let ?a = "th_a (fst e)" and ?r' = "tl_idle (th_a (fst e)) r (tl_defaults r)"
  have f: "tl_state r = IDLE" "\<not> wb_cyc (tl_wb_o r)" "d_param (tp_d (tl_o r)) = 0" using assms(1) by (simp_all add: tl_free_def)
  have st: "tl_mem_step e (r, m) = (?r', m)" using f by (simp add: tl_mem_step_def tl_next_def mem_next_def Let_def)
  have p: "tl_pending ?r' = []" by (simp add: tl_pending_def tl_idle_def tl_defaults_def set_a_ready_def Let_def)
  show ?thesis
  proof (cases "tl_accepts ?a r")
    case True
    then have s: "tl_single ?a" using assms(2) by (simp add: tl_taken_def)
    have r: "?r' = (let r2 = (set_a_ready False (tl_defaults r))\<lparr>saved_a := ?a, beat_count := get_total_beats (a_size ?a)\<rparr> in
        if is_get ?a then r2\<lparr>get_address := a_address ?a, tl_state := WB_RD_WAIT\<rparr>
        else if is_atomic ?a then r2\<lparr>tl_state := WB_RD_WAIT\<rparr> else r2\<lparr>tl_state := WB_WR_WAIT\<rparr>)"
    proof -
      have "a_opcode ?a \<noteq> OP_ACQUIRE_PERM" using s op_excl [of ?a] unfolding tl_single_def by blast
      then show ?thesis using True by (simp add: tl_idle_def Let_def)
    qed
    have "tl_busy ?a m [] (?r', m)"
    proof (cases "is_get ?a")
      case True
      then have "get_at ?a m [] 0 ?r'"
        using words_bound(1) [of ?a] unfolding r by (simp add: get_at_def total_beats_words Let_def)
      then show ?thesis using s f True unfolding tl_busy_def r
        by (simp add: Let_def tl_defaults_def set_a_ready_def) blast
    next
      case False
      then have "get_total_beats (a_size ?a) = 1" using s by (auto simp: tl_single_def get_total_beats_def)
      then show ?thesis using s f False unfolding tl_busy_def r by (simp add: Let_def tl_defaults_def set_a_ready_def)
    qed
    then show ?thesis using True p by (simp add: st)
  next
    case False
    then show ?thesis using f p unfolding st Let_def fst_conv snd_conv by (simp add: tl_free_def tl_idle_def tl_defaults_def set_a_ready_def)
  qed
qed

lemma busy_step:
  assumes "tl_busy a M ds s" and "th_d_ready (fst e)"
  shows "tl_busy a M (ds @ tl_pending (fst (tl_mem_step e s))) (tl_mem_step e s) \<or>
    tl_free (fst (tl_mem_step e s)) \<and> ds @ tl_pending (fst (tl_mem_step e s)) = fst (tl_exec a M) \<and> snd (tl_mem_step e s) = snd (tl_exec a M)"
proof -
  obtain r m where s: "s = (r, m)" by (cases s)
  note b = assms(1) [unfolded s]
  have "tl_state r \<noteq> IDLE" "tl_state r \<noteq> A_WAIT" using b by (auto simp: tl_busy_def Let_def split: if_splits)
  then consider "tl_state r = WB_RD_WAIT" | "tl_state r = ALU" | "tl_state r = WB_WR_WAIT" | "tl_state r = TL_RESP"
    by (cases "tl_state r") auto
  then show ?thesis
  proof cases
    case 1
    show ?thesis using busy_rd_get [OF b 1] busy_rd_atomic [OF b 1] s by (cases "is_get a") (simp_all add: Let_def)
  next
    case 2
    show ?thesis using busy_alu [OF b 2] s by (simp add: Let_def)
  next
    case 3
    show ?thesis using busy_wr [OF b 3] s by (simp add: Let_def)
  next
    case 4
    show ?thesis using busy_resp_get [OF b 4 _ assms(2)] busy_resp_other [OF b 4 _ assms(2)] s by (cases "is_get a") (auto simp: Let_def)
  qed
qed

definition tl_inv :: "wmem \<Rightarrow> tl_a list \<Rightarrow> tl_d list \<Rightarrow> tl_reg \<times> wmem \<Rightarrow> bool" where
  "tl_inv M as ds s \<longleftrightarrow>
     tl_free (fst s) \<and> snd s = snd (tl_exec_all as M) \<and> ds @ tl_pending (fst s) = fst (tl_exec_all as M) \<or>
     (\<exists>as' a ds'. as = as' @ [a] \<and> tl_busy a (snd (tl_exec_all as' M)) ds' s \<and> ds @ tl_pending (fst s) = fst (tl_exec_all as' M) @ ds')"

lemma tl_inv_step:
  assumes "tl_inv M as ds s" and "th_d_ready (fst e)" and "\<forall>a \<in> set (tl_taken e s). tl_single a"
  shows "tl_inv M (as @ tl_taken e s) (ds @ tl_beats e s) (tl_mem_step e s)"
proof -
  have b: "tl_beats e s = tl_pending (fst s)" using assms(2) by (simp add: tl_beats_def)
  from assms(1) consider
      (free) "tl_free (fst s)" "snd s = snd (tl_exec_all as M)" "ds @ tl_pending (fst s) = fst (tl_exec_all as M)"
    | (busy) as' a ds' where "as = as' @ [a]" "tl_busy a (snd (tl_exec_all as' M)) ds' s" "ds @ tl_pending (fst s) = fst (tl_exec_all as' M) @ ds'"
    unfolding tl_inv_def by blast
  then show ?thesis
  proof cases
    case free
    obtain r m where s: "s = (r, m)" by (cases s)
    note f = free_step [OF free(1), unfolded s fst_conv, of e m] and a = assms(3) [unfolded s]
    show ?thesis
    proof (cases "tl_accepts (th_a (fst e)) r")
      case True
      then show ?thesis using f a free b s unfolding tl_inv_def
        by (intro disjI2 exI [of _ as] exI [of _ "th_a (fst e)"] exI [of _ "[]"]) (simp add: tl_taken_def Let_def)
    next
      case False
      then show ?thesis using f a free b s by (simp add: tl_inv_def tl_taken_def Let_def)
    qed
  next
    case busy
    have "\<not> tp_a_ready (tl_o (fst s))" using busy(2) by (simp add: tl_busy_def Let_def)
    then have t: "tl_taken e s = []" by (simp add: tl_taken_def tl_accepts_def)
    from busy_step [OF busy(2) assms(2)] show ?thesis
    proof (elim disjE conjE)
      assume "tl_busy a (snd (tl_exec_all as' M)) (ds' @ tl_pending (fst (tl_mem_step e s))) (tl_mem_step e s)"
      then show ?thesis using busy b t unfolding tl_inv_def
        by (intro disjI2 exI [of _ as'] exI [of _ a] exI [of _ "ds' @ tl_pending (fst (tl_mem_step e s))"]) simp
    next
      assume "tl_free (fst (tl_mem_step e s))" "ds' @ tl_pending (fst (tl_mem_step e s)) = fst (tl_exec a (snd (tl_exec_all as' M)))"
        "snd (tl_mem_step e s) = snd (tl_exec a (snd (tl_exec_all as' M)))"
      then show ?thesis using busy b t by (simp add: tl_inv_def tl_exec_all_snoc)
    qed
  qed
qed

lemma tl_inv_run:
  assumes "tl_inv M as ds s" and "\<forall>e \<in> set es. th_d_ready (fst e)" and "\<forall>a \<in> set (observe tl_mem_step tl_taken es s). tl_single a"
  shows "tl_inv M (as @ observe tl_mem_step tl_taken es s) (ds @ observe tl_mem_step tl_beats es s) (fold tl_mem_step es s)"
  using assms
proof (induction es arbitrary: as ds s)
  case (Cons e es)
  have "tl_inv M (as @ tl_taken e s) (ds @ tl_beats e s) (tl_mem_step e s)"
    by (rule tl_inv_step) (use Cons.prems in auto)
  from Cons.IH [OF this] Cons.prems show ?case by auto
qed simp

lemma tl_inv_reset: "tl_inv m [] [] (tl_reset r, m)"
  by (simp add: tl_inv_def tl_free_def tl_pending_def tl_reset_def per_type_c_new_def d_type_new_def)

lemma tl_idle_memory:
  assumes "\<forall>e \<in> set es. th_d_ready (fst e)" and "\<forall>a \<in> set (observe tl_mem_step tl_taken es (tl_reset r, m)). tl_single a"
    and "fold tl_mem_step es (tl_reset r, m) = (r', m')" and "tl_state r' = IDLE"
  shows "(observe tl_mem_step tl_beats es (tl_reset r, m) @ tl_pending r', m') = tl_exec_all (observe tl_mem_step tl_taken es (tl_reset r, m)) m"
proof -
  have "tl_inv m (observe tl_mem_step tl_taken es (tl_reset r, m)) (observe tl_mem_step tl_beats es (tl_reset r, m)) (r', m')"
    using tl_inv_run [OF tl_inv_reset assms(1,2)] assms(3) by simp
  then show ?thesis using assms(4) unfolding tl_inv_def
    by (elim disjE exE conjE) (auto simp: tl_busy_def Let_def prod_eq_iff split: if_splits)
qed

text \<open>Requests and a register file to run.\<close>

definition tl_request :: "3 word \<Rightarrow> 3 word \<Rightarrow> 3 word \<Rightarrow> u32 \<Rightarrow> u32 \<Rightarrow> tl_a" where
  "tl_request opcode param sz adr dat = \<lparr>a_opcode = opcode, a_param = param, a_size = sz, a_source = 3, a_address = adr,
     a_mask = 15, a_data = dat, a_corrupt = False, a_valid = True\<rparr>"

definition tl_reg_zero :: tl_reg where
  "tl_reg_zero = \<lparr>tl_state = IDLE, saved_a = tl_request 0 0 0 0 0, saved_wb_dat = 0, beat_count = 0, get_address = 0,
     tl_o = per_type_c_new, tl_wb_o = host_new_bus_type\<rparr>"

lemma bit_all_lanes: "n < 32 \<Longrightarrow> bit (15 :: 4 word) (n div 8)"
proof -
  assume "n < 32"
  then have "n div 8 \<in> {0, 1, 2, 3}" by auto
  then show ?thesis by auto
qed

lemma masked_value_full [simp]: "masked_value v 15 = v"
proof (rule bit_word_eqI)
  fix n assume "n < LENGTH(32)"
  then have "n < 32" by simp
  then show "bit (masked_value v 15) n = bit v n" by (simp only: bit_masked_value bit_all_lanes simp_thms)
qed

lemma lane_merge_full [simp]: "lane_merge old new 15 = new"
proof (rule bit_word_eqI)
  fix n assume "n < LENGTH(32)"
  then have "n < 32" by simp
  then show "bit (lane_merge old new 15) n = bit new n" by (simp only: bit_lane_merge bit_all_lanes if_True)
qed

lemmas tl_eval = tl_mem_step_def tl_next_def tl_idle_def tl_a_wait_def tl_rd_wait_def tl_wr_wait_def tl_resp_def tl_response_def tl_defaults_def set_a_ready_def
  tl_accepts_def is_get_def is_atomic_def is_put_def tl_ops tl_alu_def get_total_beats_def mem_response_def mem_next_def Let_def
  tl_request_def tl_reset_def tl_reg_zero_def per_type_c_new_def d_type_new_def host_new_bus_type_def

subsection \<open>Progress\<close>

text \<open>Cycles in which the converter does not wait for the memory.\<close>

definition tl_moves :: "tl_host \<times> bool \<Rightarrow> tl_reg \<times> wmem \<Rightarrow> unit list" where
  "tl_moves e s = (if wb_cyc (tl_wb_o (fst s)) \<and> \<not> snd e then [] else [()])"

definition tl_rank :: "tl_reg \<Rightarrow> nat" where
  "tl_rank r =
     (case tl_state r of
        IDLE \<Rightarrow> 0 | A_WAIT \<Rightarrow> 0
      | WB_RD_WAIT \<Rightarrow> (if is_get (saved_a r) then 3 * unat (beat_count r) else 6) - of_bool (wb_cyc (tl_wb_o r))
      | ALU \<Rightarrow> 4
      | WB_WR_WAIT \<Rightarrow> 3 - of_bool (wb_cyc (tl_wb_o r))
      | TL_RESP \<Rightarrow> (if is_get (saved_a r) then 3 * unat (beat_count r) - 2 else 1))"

lemma get_at_beats: "get_at a M ds i r \<Longrightarrow> 1 \<le> unat (beat_count r) \<and> unat (beat_count r) \<le> 32"
  using words_bound [of a] by (auto simp: get_at_def unat_of_nat simp del: of_nat_diff)

lemma rank_bound: "tl_busy a M ds s \<Longrightarrow> tl_rank (fst s) \<le> 96"
  by (auto simp: tl_busy_def Let_def tl_rank_def dest!: get_at_beats split: tl_state_t.splits if_splits)

lemma rank_get_resp:
  assumes "get_at a M ds i r"
  shows "unat (beat_count r - 1) = unat (beat_count r) - 1"
proof -
  have "unat (1 :: u8) \<le> unat (beat_count r)" using get_at_beats [OF assms] by simp
  then show ?thesis by (simp add: unat_sub word_le_nat_alt)
qed

lemma rank_step:
  assumes "tl_busy a M ds s" and "th_d_ready (fst e)"
  shows "tl_rank (fst (tl_mem_step e s)) + length (tl_moves e s) \<le> tl_rank (fst s)"
proof -
  obtain r m where s: "s = (r, m)" by (cases s)
  note b = assms(1) [unfolded s]
  have sa: "saved_a r = a" using b by (simp add: tl_busy_def Let_def)
  have "tl_state r \<noteq> IDLE" "tl_state r \<noteq> A_WAIT" using b by (auto simp: tl_busy_def Let_def split: if_splits)
  then consider "tl_state r = WB_RD_WAIT" | "tl_state r = ALU" | "tl_state r = WB_WR_WAIT" | "tl_state r = TL_RESP"
    by (cases "tl_state r") auto
  then show ?thesis
  proof cases
    case 1
    have "is_get a \<Longrightarrow> 1 \<le> unat (beat_count r)" using b by (auto simp: tl_busy_def Let_def dest: get_at_beats)
    then show ?thesis using 1 sa
      by (cases "is_get a"; cases "wb_cyc (tl_wb_o r)"; cases "snd e") (simp_all add: s tl_rank_def tl_moves_def tl_mem_step_def tl_next_def tl_rd_wait_def tl_defaults_def mem_response_def Let_def)
  next
    case 2
    have "\<not> wb_cyc (tl_wb_o r)" using b 2 by (auto simp: tl_busy_def Let_def split: if_splits)
    then show ?thesis using 2 by (simp add: s tl_rank_def tl_moves_def tl_mem_step_def tl_next_def tl_defaults_def Let_def)
  next
    case 3
    have a: "\<not> is_get a" "beat_count r = 1" using b 3 by (auto simp: tl_busy_def Let_def split: if_splits)
    show ?thesis using 3 sa a
      by (simp add: s tl_rank_def tl_moves_def tl_mem_step_def tl_next_def tl_wr_wait_def tl_defaults_def mem_response_def Let_def)
  next
    case 4
    have st: "fst (tl_mem_step e s) = tl_resp True r (tl_defaults r)"
      using 4 assms(2) by (simp add: s tl_mem_step_def tl_next_def Let_def)
    have m: "length (tl_moves e s) = 1" using b 4 by (auto simp: s tl_moves_def tl_busy_def Let_def split: if_splits)
    show ?thesis
    proof (cases "is_get a")
      case True
      then obtain i where "get_at a M ds i r" using b by (auto simp: tl_busy_def Let_def)
      then have u: "unat (beat_count r - 1) = unat (beat_count r) - 1" "1 \<le> unat (beat_count r)"
        using rank_get_resp get_at_beats by blast+
      have "1 < beat_count r \<longleftrightarrow> 1 < unat (beat_count r)" by (simp add: word_less_nat_alt)
      then show ?thesis using u m True 4 sa op_excl(1) [OF True]
        unfolding st by (cases "1 < unat (beat_count r)") (simp_all add: s tl_rank_def tl_resp_def tl_defaults_def Let_def)
    next
      case False
      then have "beat_count r = 1" using b by (simp add: tl_busy_def Let_def)
      then show ?thesis using m False 4 sa unfolding st by (simp add: s tl_rank_def tl_resp_def tl_defaults_def Let_def)
    qed
  qed
qed

lemma busy_returns:
  assumes "tl_busy a M ds s" and "\<forall>e \<in> set es. th_d_ready (fst e)" and "tl_rank (fst s) \<le> length (observe tl_mem_step tl_moves es s)"
  shows "\<exists>es1 es2. es = es1 @ es2 \<and> tl_state (fst (fold tl_mem_step es1 s)) = IDLE"
  using assms
proof (induction es arbitrary: ds s)
  case Nil
  then have "tl_rank (fst s) = 0" by simp
  moreover have "0 < tl_rank (fst s)" using Nil(1)
    by (auto simp: tl_busy_def Let_def tl_rank_def dest!: get_at_beats split: tl_state_t.splits if_splits)
  ultimately show ?case by simp
next
  case (Cons e es)
  have d: "th_d_ready (fst e)" "\<forall>e \<in> set es. th_d_ready (fst e)" using Cons.prems(2) by simp_all
  from busy_step [OF Cons.prems(1) d(1)] show ?case
  proof (elim disjE conjE)
    assume b: "tl_busy a M (ds @ tl_pending (fst (tl_mem_step e s))) (tl_mem_step e s)"
    have "tl_rank (fst (tl_mem_step e s)) \<le> length (observe tl_mem_step tl_moves es (tl_mem_step e s))"
      using rank_step [OF Cons.prems(1) d(1)] Cons.prems(3) by simp
    from Cons.IH [OF b d(2) this] obtain es1 es2 where "es = es1 @ es2" "tl_state (fst (fold tl_mem_step es1 (tl_mem_step e s))) = IDLE" by blast
    then show ?thesis by (intro exI [of _ "e # es1"] exI [of _ es2]) simp
  next
    assume "tl_free (fst (tl_mem_step e s))"
    then show ?thesis by (intro exI [of _ "[e]"] exI [of _ es]) (simp add: tl_free_def)
  qed
qed

lemma tl_converter_returns:
  assumes "\<forall>e \<in> set (es0 @ es). th_d_ready (fst e)" and "\<forall>a \<in> set (observe tl_mem_step tl_taken es0 (tl_reset r, m)). tl_single a"
    and "96 \<le> length (observe tl_mem_step tl_moves es (fold tl_mem_step es0 (tl_reset r, m)))"
  shows "\<exists>es1 es2. es = es1 @ es2 \<and> tl_state (fst (fold tl_mem_step (es0 @ es1) (tl_reset r, m))) = IDLE"
proof -
  let ?t = "fold tl_mem_step es0 (tl_reset r, m)"
  have d: "\<forall>e \<in> set es0. th_d_ready (fst e)" "\<forall>e \<in> set es. th_d_ready (fst e)" using assms(1) by simp_all
  have "tl_inv m ([] @ observe tl_mem_step tl_taken es0 (tl_reset r, m)) ([] @ observe tl_mem_step tl_beats es0 (tl_reset r, m)) ?t"
    by (rule tl_inv_run [OF tl_inv_reset d(1) assms(2)])
  then consider "tl_free (fst ?t)" | a M ds where "tl_busy a M ds ?t" unfolding tl_inv_def by blast
  then have "\<exists>es1 es2. es = es1 @ es2 \<and> tl_state (fst (fold tl_mem_step es1 ?t)) = IDLE"
  proof cases
    case 1
    then show ?thesis by (intro exI [of _ "[]"] exI [of _ es]) (simp add: tl_free_def)
  next
    case 2
    show ?thesis by (rule busy_returns [OF 2 d(2)]) (use rank_bound [OF 2] assms(3) in simp)
  qed
  then show ?thesis by simp
qed

text \<open>
  C13: The converter on a Wishbone memory is a TileLink memory. In any run after the reset, whatever delays the
  memory has, for a master that is ready for every response and asks for reads and blocks of any size, and for
  writes and atomic operations of at most a word: whenever the converter is idle, the memory holds what the
  requests taken so far mean in order, and the responses the master has had (with the one on the bus) are the
  specified ones: the old word of each atomic operation, every word of a burst in turn, one acknowledge per write.
  And the converter comes back to its idle state, in at most 96 cycles that do not wait for the memory.
\<close>

theorem tl_converter_is_memory:
  assumes "\<forall>e \<in> set es. th_d_ready (fst e)" and "\<forall>a \<in> set (observe tl_mem_step tl_taken es (tl_reset r, m)). tl_single a"
    and "fold tl_mem_step es (tl_reset r, m) = (r', m')"
  shows "(tl_state r' = IDLE \<longrightarrow>
      (observe tl_mem_step tl_beats es (tl_reset r, m) @ tl_pending r', m') = tl_exec_all (observe tl_mem_step tl_taken es (tl_reset r, m)) m) \<and>
    (\<forall>es'. (\<forall>e \<in> set es'. th_d_ready (fst e)) \<longrightarrow> 96 \<le> length (observe tl_mem_step tl_moves es' (r', m')) \<longrightarrow>
      (\<exists>es1 es2. es' = es1 @ es2 \<and> tl_state (fst (fold tl_mem_step es1 (r', m'))) = IDLE))"
proof (intro conjI impI allI)
  show "(observe tl_mem_step tl_beats es (tl_reset r, m) @ tl_pending r', m') = tl_exec_all (observe tl_mem_step tl_taken es (tl_reset r, m)) m"
    if "tl_state r' = IDLE"
    by (rule tl_idle_memory [OF assms that])
  show "\<exists>es1 es2. es' = es1 @ es2 \<and> tl_state (fst (fold tl_mem_step es1 (r', m'))) = IDLE"
    if "\<forall>e \<in> set es'. th_d_ready (fst e)" "96 \<le> length (observe tl_mem_step tl_moves es' (r', m'))" for es'
  proof -
    have "\<forall>e \<in> set (es @ es'). th_d_ready (fst e)" using assms(1) that(1) by auto
    from tl_converter_returns [OF this assms(2)] that(2) show ?thesis by (simp add: assms(3))
  qed
qed

text \<open>A word added to a cell and read back: the memory ends with the sum, the master has both answers.\<close>

theorem tl_converter_is_memory_witness:
  "\<exists>es m r' m'. fold tl_mem_step es (tl_reset tl_reg_zero, m) = (r', m') \<and> m' 1 = 12 \<and>
     observe tl_mem_step tl_taken es (tl_reset tl_reg_zero, m) = [tl_request 2 4 2 4 5] \<and>
     (observe tl_mem_step tl_beats es (tl_reset tl_reg_zero, m) @ tl_pending r', m') = tl_exec_all [tl_request 2 4 2 4 5] m"
proof -
  define e where "e = (\<lparr>th_a = tl_request 2 4 2 4 5, th_d_ready = True\<rparr>, True)"
  define q where "q = (\<lparr>th_a = (tl_request 2 4 2 4 5)\<lparr>a_valid := False\<rparr>, th_d_ready = True\<rparr>, True)"
  define m :: wmem where "m = (\<lambda>_. 7)"
  define s where "s = (tl_reset tl_reg_zero, m)"
  define es where "es = [e, e, q, q, q, q, q, q]"
  have r: "\<forall>x \<in> set es. th_d_ready (fst x)" by (simp add: es_def e_def q_def)
  have t: "observe tl_mem_step tl_taken es s = [tl_request 2 4 2 4 5]"
    by (simp add: es_def e_def q_def s_def tl_taken_def tl_eval)
  obtain r' m' where f: "fold tl_mem_step es s = (r', m')" by (cases "fold tl_mem_step es s")
  have i: "tl_state r' = IDLE" "m' 1 = 12"
    using f by (auto simp: es_def e_def q_def s_def m_def tl_eval)
  have "(observe tl_mem_step tl_beats es s @ tl_pending r', m') = tl_exec_all (observe tl_mem_step tl_taken es s) m"
    unfolding s_def
    by (rule tl_converter_is_memory [OF r _ _, THEN conjunct1, rule_format]) (use t f i in \<open>simp_all add: s_def tl_single_def is_atomic_def tl_ops tl_request_def\<close>)
  then show ?thesis using f i t unfolding s_def by auto
qed

subsection \<open>What the converter asks of its master\<close>

text \<open>
  The response channel is not a handshake. In the response to a write, the converter looks at the master's
  ready one cycle before its valid is on the bus: a master that is ready in that cycle and not in the next never
  gets the response, and one that is first not ready and then stays ready gets it twice.
\<close>

lemma tl_response_lost_or_doubled:
  assumes "tl_state r = TL_RESP" and "is_put (saved_a r)" and "\<not> d_valid (tp_d (tl_o r))" and "\<not> a_valid a" and "\<not> a_valid a'"
  defines "ready \<equiv> \<lambda>b. (\<lparr>th_a = a, th_d_ready = b\<rparr>, False)"
  shows "observe tl_mem_step tl_beats [ready True, ready False, ready True, ready True] (r, m) = []"
    and "map d_opcode (observe tl_mem_step tl_beats [ready False, ready True, ready True, ready True] (r, m)) = [OP_ACCESS_ACK, OP_ACCESS_ACK]"
proof -
  show "observe tl_mem_step tl_beats [ready True, ready False, ready True, ready True] (r, m) = []"
    using assms by (simp add: ready_def tl_beats_def tl_pending_def tl_mem_step_def tl_next_def tl_resp_def tl_idle_def tl_accepts_def
        set_a_ready_def tl_response_def tl_defaults_def Let_def)
  show "map d_opcode (observe tl_mem_step tl_beats [ready False, ready True, ready True, ready True] (r, m)) = [OP_ACCESS_ACK, OP_ACCESS_ACK]"
    using assms by (auto simp: ready_def tl_beats_def tl_pending_def tl_mem_step_def tl_next_def tl_resp_def tl_idle_def tl_accepts_def
        set_a_ready_def tl_response_def tl_defaults_def Let_def is_put_def is_atomic_def tl_ops)
qed

text \<open>
  A request for the permission of a block leaves the converter waiting for more of the request, of which there
  is none. The next request, here for one word, is taken for that: it gets its word and then another response, with
  a word from four bytes past the address of an earlier read.
\<close>

lemma tl_perm_takes_next_request:
  "\<exists>es. observe tl_mem_step tl_taken es (tl_reset r, m) = [tl_request 7 1 6 adr 0, tl_request 4 0 2 adr' 0] \<and>
     map d_data (observe tl_mem_step tl_beats es (tl_reset r, m)) = [0, m (drop_bit 2 adr'), m (drop_bit 2 (get_address r + 4))]"
proof -
  define p where "p = (\<lparr>th_a = tl_request 7 1 6 adr 0, th_d_ready = True\<rparr>, True)"
  define g where "g = (\<lparr>th_a = tl_request 4 0 2 adr' 0, th_d_ready = True\<rparr>, True)"
  define q where "q = (\<lparr>th_a = (tl_request 4 0 2 adr' 0)\<lparr>a_valid := False\<rparr>, th_d_ready = True\<rparr>, True)"
  let ?es = "[p, p, q, g, g, q, q, q, q, q, q, q]"
  have "observe tl_mem_step tl_taken ?es (tl_reset r, m) = [tl_request 7 1 6 adr 0, tl_request 4 0 2 adr' 0]"
    by (simp add: p_def g_def q_def tl_taken_def tl_eval)
  moreover have "map d_data (observe tl_mem_step tl_beats ?es (tl_reset r, m)) = [0, m (drop_bit 2 adr'), m (drop_bit 2 (get_address r + 4))]"
    by (simp add: p_def g_def q_def tl_beats_def tl_pending_def tl_eval)
  ultimately show ?thesis by (intro exI [of _ ?es]) blast
qed

end
