(* ===== verification/WbCdc.thy ===== *)
theory WbCdc
  imports Handshake Fabric
begin

text \<open>
  The bridge of the Wishbone bus from the clock of the cached core to that of the peripherals
  (\<open>ip/general/wb_cdc.vhdl\<close>), edge by edge: the process of each clock, its synchronisers and its state
  machine. The two clocks are free: a run is any sequence of their edges. Interpreting the handshake on the two
  processes gives the theorems: every access crosses exactly once, unchanged, with its own answer; and it is answered.
\<close>

subsection \<open>The process of the host clock\<close>

datatype host_state_t = ST_HOST_IDLE | ST_HOST_REQ | ST_HOST_WAIT_ACK_LOW

record cdc_host =
  ch_state :: host_state_t
  ch_adr :: u32
  ch_dat :: u32
  ch_sel :: "4 word"
  ch_we :: bool
  ch_req :: bool
  ch_ack_sync :: bool
  ch_ack_q :: "bool \<times> bool"
  ch_o :: wb_per

datatype per_state_t = ST_PER_IDLE | ST_PER_START | ST_PER_WAIT | ST_PER_DONE

record cdc_per =
  cp_state :: per_state_t
  cp_req_sync :: bool
  cp_req_q :: "bool \<times> bool"
  cp_ack :: bool
  cp_rdt :: u32
  cp_o :: wb_host

definition cdc_host_reset :: "cdc_host \<Rightarrow> cdc_host" where
  "cdc_host_reset h = h\<lparr>ch_state := ST_HOST_IDLE, ch_req := False, ch_ack_q := (False, False), ch_ack_sync := False,
     ch_o := per_new_bus_type\<rparr>"

text \<open>A rising edge of \<open>clk_host\<close>; the pair holds the chain's elements 0 and 1.\<close>

definition cdc_host_next :: "wb_host \<Rightarrow> cdc_per \<Rightarrow> cdc_host \<Rightarrow> cdc_host" where
  "cdc_host_next host_i p h =
     (let h1 = h\<lparr>ch_ack_q := (cp_ack p, fst (ch_ack_q h)), ch_ack_sync := snd (ch_ack_q h)\<rparr> in
      case ch_state h of
        ST_HOST_IDLE \<Rightarrow>
          (let h2 = h1\<lparr>ch_o := (ch_o h)\<lparr>per_ack := False\<rparr>\<rparr> in
           if wb_cyc host_i
           then h2\<lparr>ch_adr := wb_adr host_i, ch_dat := wb_dat host_i, ch_sel := wb_sel host_i, ch_we := wb_we host_i,
                   ch_req := True, ch_state := ST_HOST_REQ\<rparr>
           else h2)
      | ST_HOST_REQ \<Rightarrow>
          (if ch_ack_sync h
           then h1\<lparr>ch_o := \<lparr>per_rdt = cp_rdt p, per_ack = True\<rparr>, ch_req := False, ch_state := ST_HOST_WAIT_ACK_LOW\<rparr>
           else h1)
      | ST_HOST_WAIT_ACK_LOW \<Rightarrow>
          (if \<not> ch_ack_sync h
           then h1\<lparr>ch_o := (ch_o h)\<lparr>per_ack := False\<rparr>, ch_state := ST_HOST_IDLE\<rparr>
           else h1\<lparr>ch_o := (ch_o h)\<lparr>per_ack := True\<rparr>\<rparr>))"

subsection \<open>The process of the peripheral clock\<close>

definition cdc_per_reset :: "cdc_per \<Rightarrow> cdc_per" where
  "cdc_per_reset p = p\<lparr>cp_state := ST_PER_IDLE, cp_req_q := (False, False), cp_req_sync := False, cp_ack := False,
     cp_o := host_new_bus_type\<rparr>"

definition cdc_per_next :: "wb_per \<Rightarrow> cdc_host \<Rightarrow> cdc_per \<Rightarrow> cdc_per" where
  "cdc_per_next per_i h p =
     (let p1 = p\<lparr>cp_req_q := (ch_req h, fst (cp_req_q p)), cp_req_sync := snd (cp_req_q p)\<rparr> in
      case cp_state p of
        ST_PER_IDLE \<Rightarrow>
          (if cp_req_sync p
           then p1\<lparr>cp_o := \<lparr>wb_adr = ch_adr h, wb_dat = ch_dat h, wb_sel = ch_sel h, wb_we = ch_we h, wb_cyc = True\<rparr>,
                   cp_state := ST_PER_START\<rparr>
           else p1\<lparr>cp_o := (cp_o p)\<lparr>wb_cyc := False\<rparr>\<rparr>)
      | ST_PER_START \<Rightarrow>
          (if per_ack per_i
           then p1\<lparr>cp_rdt := per_rdt per_i, cp_ack := True, cp_o := (cp_o p)\<lparr>wb_cyc := False\<rparr>, cp_state := ST_PER_WAIT\<rparr>
           else p1\<lparr>cp_o := (cp_o p)\<lparr>wb_cyc := True\<rparr>\<rparr>)
      | ST_PER_WAIT \<Rightarrow>
          (let p2 = p1\<lparr>cp_o := (cp_o p)\<lparr>wb_cyc := False\<rparr>\<rparr> in
           if \<not> cp_req_sync p then p2\<lparr>cp_ack := False, cp_state := ST_PER_IDLE\<rparr> else p2)
      | ST_PER_DONE \<Rightarrow> p1\<lparr>cp_state := ST_PER_IDLE\<rparr>)"

text \<open>The bridge at one instant: an edge of one clock or of both, with the inputs of that side.\<close>

definition cdc_step :: "wb_host option \<times> wb_per option \<Rightarrow> cdc_host \<times> cdc_per \<Rightarrow> cdc_host \<times> cdc_per" where
  "cdc_step = two_clocks cdc_host_next cdc_per_next"

definition cdc_reset :: "cdc_host \<times> cdc_per \<Rightarrow> cdc_host \<times> cdc_per" where
  "cdc_reset s = (cdc_host_reset (fst s), cdc_per_reset (snd s))"

subsection \<open>What the buses show\<close>

text \<open>
  A request is taken from the host; an access is acknowledged at the peripherals; an answer is the acknowledge
  rising at the host.
\<close>

definition cdc_requests :: "wb_host option \<times> wb_per option \<Rightarrow> cdc_host \<times> cdc_per \<Rightarrow> wb_host list" where
  "cdc_requests e s =
     (case fst e of None \<Rightarrow> [] | Some host_i \<Rightarrow> if ch_state (fst s) = ST_HOST_IDLE \<and> wb_cyc host_i then [host_i] else [])"

definition cdc_accesses :: "wb_host option \<times> wb_per option \<Rightarrow> cdc_host \<times> cdc_per \<Rightarrow> (wb_host \<times> u32) list" where
  "cdc_accesses e s =
     (case snd e of None \<Rightarrow> []
      | Some per_i \<Rightarrow> if wb_cyc (cp_o (snd s)) \<and> per_ack per_i then [(cp_o (snd s), per_rdt per_i)] else [])"

definition cdc_answers :: "wb_host option \<times> wb_per option \<Rightarrow> cdc_host \<times> cdc_per \<Rightarrow> u32 list" where
  "cdc_answers e s =
     (if \<not> per_ack (ch_o (fst s)) \<and> per_ack (ch_o (fst (cdc_step e s))) then [per_rdt (ch_o (fst (cdc_step e s)))] else [])"

subsection \<open>The handshake\<close>

definition cdc_hphase :: "cdc_host \<Rightarrow> host_phase" where
  "cdc_hphase h = (case ch_state h of ST_HOST_IDLE \<Rightarrow> Host_Idle | ST_HOST_REQ \<Rightarrow> Host_Req | ST_HOST_WAIT_ACK_LOW \<Rightarrow> Host_Wait)"

definition cdc_pphase :: "cdc_per \<Rightarrow> per_phase" where
  "cdc_pphase p = (case cp_state p of ST_PER_IDLE \<Rightarrow> Per_Idle | ST_PER_START \<Rightarrow> Per_Busy | ST_PER_WAIT \<Rightarrow> Per_Done | ST_PER_DONE \<Rightarrow> Per_Stray)"

definition cdc_hq :: "cdc_host \<Rightarrow> chain" where "cdc_hq h = (fst (ch_ack_q h), snd (ch_ack_q h), ch_ack_sync h)"
definition cdc_pq :: "cdc_per \<Rightarrow> chain" where "cdc_pq p = (fst (cp_req_q p), snd (cp_req_q p), cp_req_sync p)"

definition cdc_hpay :: "cdc_host \<Rightarrow> wb_host" where
  "cdc_hpay h = \<lparr>wb_adr = ch_adr h, wb_dat = ch_dat h, wb_sel = ch_sel h, wb_we = ch_we h, wb_cyc = True\<rparr>"

definition cdc_ppay :: "cdc_per \<Rightarrow> wb_host" where "cdc_ppay p = (cp_o p)\<lparr>wb_cyc := True\<rparr>"

lemmas cdc_views = cdc_hphase_def cdc_pphase_def cdc_hq_def cdc_pq_def cdc_hpay_def cdc_ppay_def chain_last_def chain_shift_def

interpretation cdc: four_phase cdc_host_next cdc_per_next cdc_hphase ch_req cdc_hq cdc_hpay "\<lambda>h. per_rdt (ch_o h)"
  cdc_pphase cp_ack cdc_pq cdc_ppay cp_rdt
proof unfold_locales
  fix i p h
  show "cdc_hq (cdc_host_next i p h) = chain_shift (cp_ack p) (cdc_hq h)"
    by (cases "ch_state h") (simp_all add: cdc_views cdc_host_next_def Let_def)
  show "cdc_hphase (cdc_host_next i p h) = Host_Idle \<and> ch_req (cdc_host_next i p h) = ch_req h \<or>
        cdc_hphase (cdc_host_next i p h) = Host_Req \<and> ch_req (cdc_host_next i p h)" if "cdc_hphase h = Host_Idle"
    using that by (cases "ch_state h") (simp_all add: cdc_views cdc_host_next_def Let_def)
  show "cdc_hphase (cdc_host_next i p h) = Host_Req \<and> ch_req (cdc_host_next i p h) = ch_req h \<and>
        cdc_hpay (cdc_host_next i p h) = cdc_hpay h" if "cdc_hphase h = Host_Req" "\<not> chain_last (cdc_hq h)"
    using that by (cases "ch_state h") (simp_all add: cdc_views cdc_host_next_def Let_def)
  show "cdc_hphase (cdc_host_next i p h) = Host_Wait \<and> \<not> ch_req (cdc_host_next i p h) \<and>
        per_rdt (ch_o (cdc_host_next i p h)) = cp_rdt p" if "cdc_hphase h = Host_Req" "chain_last (cdc_hq h)"
    using that by (cases "ch_state h") (simp_all add: cdc_views cdc_host_next_def Let_def)
  show "cdc_hphase (cdc_host_next i p h) = (if chain_last (cdc_hq h) then Host_Wait else Host_Idle) \<and>
        ch_req (cdc_host_next i p h) = ch_req h" if "cdc_hphase h = Host_Wait"
    using that by (cases "ch_state h") (simp_all add: cdc_views cdc_host_next_def Let_def)
next
  fix j h p
  show "cdc_pq (cdc_per_next j h p) = chain_shift (ch_req h) (cdc_pq p)"
    by (cases "cp_state p") (simp_all add: cdc_views cdc_per_next_def Let_def)
  show "cp_ack (cdc_per_next j h p) = cp_ack p \<and>
        (if chain_last (cdc_pq p) then cdc_pphase (cdc_per_next j h p) = Per_Busy \<and> cdc_ppay (cdc_per_next j h p) = cdc_hpay h
         else cdc_pphase (cdc_per_next j h p) = Per_Idle)" if "cdc_pphase p = Per_Idle"
    using that by (cases "cp_state p") (simp_all add: cdc_views cdc_per_next_def Let_def)
  show "cdc_ppay (cdc_per_next j h p) = cdc_ppay p \<and>
        (cdc_pphase (cdc_per_next j h p) = Per_Busy \<and> cp_ack (cdc_per_next j h p) = cp_ack p \<or>
         cdc_pphase (cdc_per_next j h p) = Per_Done \<and> cp_ack (cdc_per_next j h p))" if "cdc_pphase p = Per_Busy"
    using that by (cases "cp_state p") (simp_all add: cdc_views cdc_per_next_def Let_def)
  show "cp_rdt (cdc_per_next j h p) = cp_rdt p \<and>
        (if chain_last (cdc_pq p) then cdc_pphase (cdc_per_next j h p) = Per_Done \<and> cp_ack (cdc_per_next j h p) = cp_ack p
         else cdc_pphase (cdc_per_next j h p) = Per_Idle \<and> \<not> cp_ack (cdc_per_next j h p))" if "cdc_pphase p = Per_Done"
    using that by (cases "cp_state p") (simp_all add: cdc_views cdc_per_next_def Let_def)
qed

lemma cdc_step_eq: "cdc_step = cdc.step"
  by (simp add: cdc_step_def cdc.step_def)

lemma cdc_quiet_reset: "cdc.quiet (cdc_reset s)"
  by (simp add: cdc.quiet_def cdc_reset_def cdc_host_reset_def cdc_per_reset_def cdc_views)

text \<open>The lines of the buses follow the states.\<close>

definition cdc_lines :: "cdc_host \<times> cdc_per \<Rightarrow> bool" where
  "cdc_lines s \<longleftrightarrow> (wb_cyc (cp_o (snd s)) \<longleftrightarrow> cp_state (snd s) = ST_PER_START) \<and>
     (per_ack (ch_o (fst s)) \<longleftrightarrow> ch_state (fst s) = ST_HOST_WAIT_ACK_LOW)"

lemma cdc_lines_reset: "cdc_lines (cdc_reset s)"
  by (simp add: cdc_lines_def cdc_reset_def cdc_host_reset_def cdc_per_reset_def)

lemma host_line:
  assumes "per_ack (ch_o h) \<longleftrightarrow> ch_state h = ST_HOST_WAIT_ACK_LOW"
  shows "per_ack (ch_o (cdc_host_next i p h)) \<longleftrightarrow> ch_state (cdc_host_next i p h) = ST_HOST_WAIT_ACK_LOW"
  using assms by (cases "ch_state h") (simp_all add: cdc_host_next_def Let_def)

lemma per_line:
  assumes "wb_cyc (cp_o p) \<longleftrightarrow> cp_state p = ST_PER_START"
  shows "wb_cyc (cp_o (cdc_per_next j h p)) \<longleftrightarrow> cp_state (cdc_per_next j h p) = ST_PER_START"
  using assms by (cases "cp_state p") (simp_all add: cdc_per_next_def Let_def)

lemma cdc_lines_step: "cdc_lines s \<Longrightarrow> cdc_lines (cdc_step e s)"
  by (simp add: cdc_lines_def cdc_step_def two_clocks_def host_line per_line split: option.split)

lemma cdc_lines_run: "cdc_lines (fold cdc_step es (cdc_reset s))"
  using fold_inv [of cdc_lines, OF cdc_lines_reset cdc_lines_step] .

lemma requests_view: "cdc_requests e s = cdc.requests e s"
  by (cases "fst e"; cases "ch_state (fst s)")
    (simp_all add: cdc_requests_def cdc.requests_def cdc.step_def two_clocks_def cdc_views cdc_host_next_def Let_def)

lemma accesses_view: "cdc_lines s \<Longrightarrow> cdc_accesses e s = cdc.served e s"
  by (cases "snd e"; cases "cp_state (snd s)")
    (simp_all add: cdc_accesses_def cdc.served_def cdc.step_def two_clocks_def cdc_views cdc_per_next_def cdc_lines_def Let_def)

lemma answers_view:
  assumes "cdc_lines s"
  shows "cdc_answers e s = cdc.answers e s"
proof -
  have h: "cdc_hphase h = Host_Wait \<longleftrightarrow> ch_state h = ST_HOST_WAIT_ACK_LOW" for h
    by (cases "ch_state h") (simp_all add: cdc_hphase_def)
  have "cdc_hphase (fst s) \<noteq> Host_Wait \<Longrightarrow> cdc_hphase (fst (cdc.step e s)) = Host_Wait \<Longrightarrow> cdc_hphase (fst s) = Host_Req"
    using cdc.h_idle [of "fst s" "the (fst e)" "snd s"]
    by (cases "fst e"; cases "cdc_hphase (fst s)") (auto simp: cdc.step_def two_clocks_def)
  then show ?thesis
    using assms cdc_lines_step [OF assms, of e] h [of "fst s"] h [of "fst (cdc.step e s)"]
    by (auto simp: cdc_answers_def cdc.answers_def cdc_lines_def cdc_step_eq)
qed

lemma observed_views:
  "observe cdc_step cdc_requests es (cdc_reset s) = observe cdc.step cdc.requests es (cdc_reset s)"
  "observe cdc_step cdc_accesses es (cdc_reset s) = observe cdc.step cdc.served es (cdc_reset s)"
  "observe cdc_step cdc_answers es (cdc_reset s) = observe cdc.step cdc.answers es (cdc_reset s)"
proof -
  have "observe cdc_step out es (cdc_reset s) = observe cdc.step out' es (cdc_reset s)"
    if "\<And>e t. cdc_lines t \<Longrightarrow> out e t = out' e t" for out out' :: "_ \<Rightarrow> _ \<Rightarrow> 'z list"
    unfolding cdc_step_eq [symmetric]
    by (rule observe_cong_inv [where I = cdc_lines]) (simp_all add: cdc_lines_reset cdc_lines_step that)
  from this [of cdc_requests cdc.requests] this [of cdc_accesses cdc.served] this [of cdc_answers cdc.answers]
  show "observe cdc_step cdc_requests es (cdc_reset s) = observe cdc.step cdc.requests es (cdc_reset s)"
    and "observe cdc_step cdc_accesses es (cdc_reset s) = observe cdc.step cdc.served es (cdc_reset s)"
    and "observe cdc_step cdc_answers es (cdc_reset s) = observe cdc.step cdc.answers es (cdc_reset s)"
    by (simp_all add: requests_view accesses_view answers_view)
qed

subsection \<open>Every access crosses exactly once\<close>

lemma busy_until_ack:
  assumes "cdc.link rs ds ans s" and "cdc_hphase (fst s) = Host_Req" and "cdc_pphase (snd s) = Per_Busy"
    and "\<exists>e \<in> set es. \<exists>p. snd e = Some p \<and> per_ack p"
  shows "\<exists>es1 es2. es = es1 @ es2 \<and> cdc_hphase (fst (fold cdc_step es1 s)) = Host_Req \<and> cdc_pphase (snd (fold cdc_step es1 s)) = Per_Done"
  using assms
proof (induction es arbitrary: rs ds ans s)
  case (Cons e es)
  obtain h p where s: "s = (h, p)" by (cases s)
  note l = Cons.prems(1) [unfolded s] and r = Cons.prems(2,3) [unfolded s fst_conv snd_conv]
  from l r have c: "\<not> chain_last (cdc_hq h)" by (cases rule: cdc.linkE; simp)
  have h: "cdc_hphase (fst (cdc_step e s)) = Host_Req"
    using cdc.h_req [OF r(1) c] r(1) by (cases "fst e") (simp_all add: cdc_step_def two_clocks_def s)
  have l': "cdc.link (rs @ cdc.requests e s) (ds @ cdc.served e s) (ans @ cdc.answers e s) (cdc_step e s)"
    unfolding cdc_step_eq by (rule cdc.link_step [OF Cons.prems(1)])
  have b: "cdc_pphase (snd (cdc_step e s)) = (if \<exists>q. snd e = Some q \<and> per_ack q then Per_Done else Per_Busy)"
    using r(2) by (cases "cp_state p"; cases "snd e") (auto simp: cdc_step_def two_clocks_def s cdc_pphase_def cdc_per_next_def Let_def)
  show ?case
  proof (cases "\<exists>q. snd e = Some q \<and> per_ack q")
    case True
    then show ?thesis using h b by (intro exI [of _ "[e]"] exI [of _ es]) simp
  next
    case False
    then have "\<exists>e \<in> set es. \<exists>p. snd e = Some p \<and> per_ack p" using Cons.prems(4) by auto
    from Cons.IH [OF l' h _ this] False b obtain es1 es2 where "es = es1 @ es2"
      "cdc_hphase (fst (fold cdc_step es1 (cdc_step e s))) = Host_Req"
      "cdc_pphase (snd (fold cdc_step es1 (cdc_step e s))) = Per_Done" by auto
    then show ?thesis by (intro exI [of _ "e # es1"] exI [of _ es2]) simp
  qed
qed simp

lemma cdc_serves: "\<exists>e \<in> set es. \<exists>p. snd e = Some p \<and> per_ack p \<Longrightarrow> cdc.serves es"
  unfolding cdc.serves_def
proof (intro allI impI)
  fix rs ds ans s es0
  assume a: "\<exists>e \<in> set es. \<exists>p. snd e = Some p \<and> per_ack p" "cdc.link rs ds ans s" "cdc_hphase (fst s) = Host_Req" "cdc_pphase (snd s) = Per_Busy"
  then have "\<exists>e \<in> set (es0 @ es). \<exists>p. snd e = Some p \<and> per_ack p" by auto
  from busy_until_ack [OF a(2-4) this] show "\<exists>es1 es2. es0 @ es = es1 @ es2 \<and> cdc_hphase (fst (fold cdc.step es1 s)) = Host_Req \<and>
      cdc_pphase (snd (fold cdc.step es1 s)) = Per_Done" unfolding cdc_step_eq .
qed

lemma wb_cdc_answers:
  assumes "ch_state (fst (fold cdc_step es (cdc_reset s))) = ST_HOST_REQ"
    and "4 \<le> per_edges es1" and "\<exists>e \<in> set es2. \<exists>p. snd e = Some p \<and> per_ack p" and "4 \<le> host_edges es3"
  shows "length (observe cdc_step cdc_answers es (cdc_reset s)) < length (observe cdc_step cdc_answers (es @ es1 @ es2 @ es3) (cdc_reset s))"
proof -
  let ?t = "fold cdc.step es (cdc_reset s)"
  have "cdc_hphase (fst ?t) = Host_Req" using assms(1) by (simp add: cdc_hphase_def flip: cdc_step_eq)
  from cdc.answered [OF cdc.link_run_quiet [OF cdc_quiet_reset [of s]] this assms(2) cdc_serves [OF assms(3)] assms(4)]
  show ?thesis unfolding observed_views by (simp only: observe_append [of _ _ es] length_append) simp
qed



end
