(* ===== verification/CoreBus.thy ===== *)
theory CoreBus
  imports TlC2Wb WbCdc
begin

text \<open>
  The bus of the cached core on the muntjac board (\<open>boards/muntjac/board.arch_rtl.vhdl\<close>): the TileLink
  converter behind the clock bridge. Each of the two is right on its own, but the bridge keeps its
  acknowledge up for at least four cycles, and the converter takes an acknowledge for that of its next access. The
  theorems: the write of an atomic operation never reaches the peripherals, and the second word of a block is the first.
\<close>

subsection \<open>The two on one clock\<close>

definition core_host_next :: "tl_host \<Rightarrow> cdc_per \<Rightarrow> tl_reg \<times> cdc_host \<Rightarrow> tl_reg \<times> cdc_host" where
  "core_host_next tl_i p s = (tl_next tl_i (ch_o (snd s)) (fst s), cdc_host_next (tl_wb_o (fst s)) p (snd s))"

definition core_per_next :: "wb_per \<Rightarrow> tl_reg \<times> cdc_host \<Rightarrow> cdc_per \<Rightarrow> cdc_per" where
  "core_per_next per_i s p = cdc_per_next per_i (snd s) p"

type_synonym core_state = "(tl_reg \<times> cdc_host) \<times> cdc_per"

definition core_step :: "tl_host option \<times> wb_per option \<Rightarrow> core_state \<Rightarrow> core_state" where
  "core_step = two_clocks core_host_next core_per_next"

definition core_reset :: "core_state \<Rightarrow> core_state" where
  "core_reset s = ((tl_reset (fst (fst s)), cdc_host_reset (snd (fst s))), cdc_per_reset (snd s))"

text \<open>What the core's side shows, and the accesses at the peripherals.\<close>

definition core_taken :: "tl_host option \<times> wb_per option \<Rightarrow> core_state \<Rightarrow> tl_a list" where
  "core_taken e s = (case fst e of None \<Rightarrow> [] | Some i \<Rightarrow> if tl_accepts (th_a i) (fst (fst s)) then [th_a i] else [])"

definition core_beats :: "tl_host option \<times> wb_per option \<Rightarrow> core_state \<Rightarrow> tl_d list" where
  "core_beats e s = (case fst e of None \<Rightarrow> [] | Some i \<Rightarrow> if th_d_ready i then tl_pending (fst (fst s)) else [])"

definition core_cdc :: "core_state \<Rightarrow> cdc_host \<times> cdc_per" where
  "core_cdc s = (snd (fst s), snd s)"

definition core_cdc_event :: "tl_host option \<times> wb_per option \<Rightarrow> core_state \<Rightarrow> wb_host option \<times> wb_per option" where
  "core_cdc_event e s = (map_option (\<lambda>_. tl_wb_o (fst (fst s))) (fst e), snd e)"

definition core_accesses :: "tl_host option \<times> wb_per option \<Rightarrow> core_state \<Rightarrow> (wb_host \<times> u32) list" where
  "core_accesses e s = cdc_accesses (core_cdc_event e s) (core_cdc s)"

lemma core_cdc_step: "core_cdc (core_step e s) = cdc_step (core_cdc_event e s) (core_cdc s)"
  by (simp add: core_cdc_def core_step_def core_cdc_event_def cdc_step_def two_clocks_def core_host_next_def core_per_next_def split: option.split)

lemma core_cdc_reset: "core_cdc (core_reset s) = cdc_reset (core_cdc s)"
  by (simp add: core_cdc_def core_reset_def cdc_reset_def)

subsection \<open>The bridge inside\<close>

text \<open>The bridge's side of a run: its phases and lines, the requests it took and the accesses it made.\<close>

definition core_link :: "wb_host list \<Rightarrow> (wb_host \<times> u32) list \<Rightarrow> core_state \<Rightarrow> bool" where
  "core_link rs ds s \<longleftrightarrow> cdc_lines (core_cdc s) \<and> (\<exists>ans. cdc.link rs ds ans (core_cdc s))"

lemma core_link_reset: "core_link [] [] (core_reset s)"
  using cdc.link_quiet [OF cdc_quiet_reset [of "core_cdc s"]] by (auto simp: core_link_def core_cdc_reset cdc_lines_reset)

lemma core_link_step:
  "core_link rs ds s \<Longrightarrow> core_link (rs @ cdc_requests (core_cdc_event e s) (core_cdc s)) (ds @ core_accesses e s) (core_step e s)"
  using cdc.link_step [of rs ds _ "core_cdc s" "core_cdc_event e s"]
    cdc_lines_step [of "core_cdc s" "core_cdc_event e s"]
  by (auto simp: core_link_def core_cdc_step requests_view core_accesses_def accesses_view cdc_step_eq)

lemma core_link_accesses:
  assumes "core_link rs ds s"
  shows "set (map fst ds) \<subseteq> set rs" and "length ds \<le> length rs"
proof -
  obtain ans h p where "cdc.link rs ds ans (h, p)" using assms by (cases "core_cdc s") (auto simp: core_link_def)
  then show "set (map fst ds) \<subseteq> set rs" and "length ds \<le> length rs" by (cases rule: cdc.linkE; auto)+
qed

lemma core_request:
  "cdc_requests (core_cdc_event e s) (core_cdc s) =
     (if fst e \<noteq> None \<and> ch_state (snd (fst s)) = ST_HOST_IDLE \<and> wb_cyc (tl_wb_o (fst (fst s))) then [tl_wb_o (fst (fst s))] else [])"
  by (simp add: cdc_requests_def core_cdc_event_def core_cdc_def split: option.split)

text \<open>The acknowledge the bridge gives, and how long it stands.\<close>

lemma bridge_ack: "core_link rs ds ((r, h), p) \<Longrightarrow> per_ack (ch_o h) \<longleftrightarrow> ch_state h = ST_HOST_WAIT_ACK_LOW"
  by (simp add: core_link_def cdc_lines_def core_cdc_def)

lemma bridge_idle: "ch_state h = ST_HOST_IDLE \<Longrightarrow> ch_state (cdc_host_next w p h) = (if wb_cyc w then ST_HOST_REQ else ST_HOST_IDLE)"
  by (simp add: cdc_host_next_def Let_def)

lemma bridge_req:
  assumes "core_link rs ds ((r, h), p)" and "ch_state h = ST_HOST_REQ"
  shows "ch_state (cdc_host_next w p h) = ST_HOST_REQ \<or>
    ch_state (cdc_host_next w p h) = ST_HOST_WAIT_ACK_LOW \<and> cdc_hq (cdc_host_next w p h) = (True, True, True)"
proof (cases "ch_ack_sync h")
  case True
  obtain ans where l: "cdc.link rs ds ans (h, p)" using assms(1) by (auto simp: core_link_def core_cdc_def)
  have p: "cdc_hphase h = Host_Req" "chain_last (cdc_hq h)" using assms(2) True by (simp_all add: cdc_views)
  from l p have "cdc_hq h = (True, True, True)" "cp_ack p" by (cases rule: cdc.linkE; auto dest: cdc.rising_last)+
  then show ?thesis using True assms(2) by (simp add: cdc_views cdc_host_next_def Let_def)
next
  case False
  then show ?thesis using assms(2) by (simp add: cdc_host_next_def Let_def)
qed

lemma bridge_wait:
  assumes "ch_state h = ST_HOST_WAIT_ACK_LOW"
  shows "cdc_hq h = (x, y, True) \<Longrightarrow> ch_state (cdc_host_next w p h) = ST_HOST_WAIT_ACK_LOW \<and> (\<exists>z. cdc_hq (cdc_host_next w p h) = (z, x, y))"
    and "ch_state (cdc_host_next w p h) \<noteq> ST_HOST_REQ"
  using assms by (auto simp: cdc_views cdc_host_next_def Let_def)

lemma bridge_rdt: "ch_state h = ST_HOST_WAIT_ACK_LOW \<Longrightarrow> per_rdt (ch_o (cdc_host_next w p h)) = per_rdt (ch_o h)"
  by (simp add: cdc_host_next_def Let_def)

lemma core_edge:
  "fst (core_step e ((r, h), p)) =
     (case fst e of None \<Rightarrow> (r, h) | Some i \<Rightarrow> (tl_next i (ch_o h) r, cdc_host_next (tl_wb_o r) p h))"
  by (simp add: core_step_def two_clocks_def core_host_next_def split: option.split)

subsection \<open>An atomic operation\<close>

text \<open>The course of the first request when it is atomic; \<open>rs\<close> are the accesses asked of the bridge.\<close>

definition only_read :: "wb_host list \<Rightarrow> bool" where
  "only_read rs \<longleftrightarrow> length rs \<le> 1 \<and> (\<forall>x \<in> set rs. \<not> wb_we x)"

definition atomic_course :: "wb_host list \<Rightarrow> tl_reg \<Rightarrow> cdc_host \<Rightarrow> bool" where
  "atomic_course rs r h \<longleftrightarrow> is_atomic (saved_a r) \<and>
     (case tl_state r of
        WB_RD_WAIT \<Rightarrow> (wb_cyc (tl_wb_o r) \<longrightarrow> \<not> wb_we (tl_wb_o r)) \<and>
          (ch_state h = ST_HOST_IDLE \<and> rs = [] \<or> ch_state h = ST_HOST_REQ \<and> only_read rs \<or>
           ch_state h = ST_HOST_WAIT_ACK_LOW \<and> only_read rs \<and> cdc_hq h = (True, True, True))
      | ALU \<Rightarrow> ch_state h = ST_HOST_WAIT_ACK_LOW \<and> only_read rs \<and> (\<exists>x. cdc_hq h = (x, True, True))
      | WB_WR_WAIT \<Rightarrow> ch_state h = ST_HOST_WAIT_ACK_LOW \<and> only_read rs \<and> (\<exists>x y. cdc_hq h = (x, y, True))
      | _ \<Rightarrow> \<not> wb_cyc (tl_wb_o r) \<and> ch_state h \<noteq> ST_HOST_REQ \<and> only_read rs)"

lemma course_rd:
  assumes "core_link rs ds ((r, h), p)" and "atomic_course rs r h" and "tl_state r = WB_RD_WAIT"
  shows "atomic_course (rs @ (if ch_state h = ST_HOST_IDLE \<and> wb_cyc (tl_wb_o r) then [tl_wb_o r] else []))
           (tl_next i (ch_o h) r) (cdc_host_next (tl_wb_o r) p h)"
proof -
  note ack = bridge_ack [OF assms(1)]
  have a: "is_atomic (saved_a r)" "\<not> is_get (saved_a r)" "wb_cyc (tl_wb_o r) \<longrightarrow> \<not> wb_we (tl_wb_o r)"
    using assms(2,3) op_excl(2) by (auto simp: atomic_course_def)
  let ?r' = "tl_next i (ch_o h) r"
  have r: "saved_a ?r' = saved_a r" "wb_cyc (tl_wb_o ?r') \<longrightarrow> \<not> wb_we (tl_wb_o ?r')"
    "tl_state ?r' = (if per_ack (ch_o h) then ALU else WB_RD_WAIT)"
    using assms(3) a by (simp_all add: tl_next_def tl_rd_wait_def tl_defaults_def Let_def)
  from assms(2,3) consider
      "ch_state h = ST_HOST_IDLE" "rs = []" | "ch_state h = ST_HOST_REQ" "only_read rs"
    | "ch_state h = ST_HOST_WAIT_ACK_LOW" "only_read rs" "cdc_hq h = (True, True, True)"
    by (auto simp: atomic_course_def)
  then show ?thesis
  proof cases
    case 1
    then show ?thesis using a r ack bridge_idle [of h "tl_wb_o r" p] by (simp add: atomic_course_def only_read_def)
  next
    case 2
    then show ?thesis using a r ack bridge_req [OF assms(1), of "tl_wb_o r"] by (auto simp: atomic_course_def)
  next
    case 3
    then show ?thesis using a r ack bridge_wait(1) [OF 3(1,3), of "tl_wb_o r" p] by (simp add: atomic_course_def)
  qed
qed

lemma course_step:
  assumes "core_link rs ds s" and "atomic_course rs (fst (fst s)) (snd (fst s))" and "core_taken e s = []"
  shows "let s' = core_step e s in atomic_course (rs @ cdc_requests (core_cdc_event e s) (core_cdc s)) (fst (fst s')) (snd (fst s'))"
proof -
  obtain r h p where s: "s = ((r, h), p)" by (metis prod.exhaust)
  note l = assms(1) [unfolded s] and c = assms(2) [unfolded s fst_conv snd_conv]
  note ack = bridge_ack [OF l]
  have a: "is_atomic (saved_a r)" "\<not> is_get (saved_a r)" "\<not> is_put (saved_a r)" using c op_excl(2) by (auto simp: atomic_course_def)
  show ?thesis
  proof (cases "fst e")
    case None
    then have "fst (core_step e s) = (r, h)" by (simp add: s core_edge)
    then show ?thesis using c None by (simp add: core_request)
  next
    case (Some i)
    let ?r' = "tl_next i (ch_o h) r" and ?h' = "cdc_host_next (tl_wb_o r) p h"
    have st: "fst (core_step e s) = (?r', ?h')" using Some by (simp add: s core_edge)
    have n: "\<not> tl_accepts (th_a i) r" using assms(3) Some by (auto simp: core_taken_def s split: if_splits)
    have q: "cdc_requests (core_cdc_event e s) (core_cdc s) = (if ch_state h = ST_HOST_IDLE \<and> wb_cyc (tl_wb_o r) then [tl_wb_o r] else [])"
      using Some by (simp add: core_request s)
    have "atomic_course (rs @ (if ch_state h = ST_HOST_IDLE \<and> wb_cyc (tl_wb_o r) then [tl_wb_o r] else [])) ?r' ?h'"
    proof (cases "tl_state r")
      case WB_RD_WAIT
      then show ?thesis using course_rd [OF l c] by simp
    next
      case ALU
      then obtain x where w: "ch_state h = ST_HOST_WAIT_ACK_LOW" "only_read rs" "cdc_hq h = (x, True, True)"
        using c by (auto simp: atomic_course_def)
      show ?thesis using a w ALU bridge_wait(1) [OF w(1,3), of "tl_wb_o r" p]
        by (auto simp: atomic_course_def tl_next_def tl_defaults_def Let_def)
    next
      case WB_WR_WAIT
      then obtain x y where w: "ch_state h = ST_HOST_WAIT_ACK_LOW" "only_read rs" "cdc_hq h = (x, y, True)"
        using c by (auto simp: atomic_course_def)
      show ?thesis using a w ack WB_WR_WAIT bridge_wait(2) [OF w(1), of "tl_wb_o r" p]
        by (simp add: atomic_course_def tl_next_def tl_wr_wait_def tl_defaults_def Let_def)
    next
      case IDLE
      then show ?thesis using a c n bridge_idle [of h "tl_wb_o r" p] bridge_wait(2) [of h "tl_wb_o r" p]
        by (cases "ch_state h") (auto simp: atomic_course_def tl_next_def tl_idle_def tl_defaults_def set_a_ready_def Let_def)
    next
      case A_WAIT
      then show ?thesis using a c n bridge_idle [of h "tl_wb_o r" p] bridge_wait(2) [of h "tl_wb_o r" p]
        by (cases "ch_state h") (auto simp: atomic_course_def tl_next_def tl_a_wait_def tl_defaults_def set_a_ready_def Let_def)
    next
      case TL_RESP
      then show ?thesis using a c bridge_idle [of h "tl_wb_o r" p] bridge_wait(2) [of h "tl_wb_o r" p]
        by (cases "ch_state h") (auto simp: atomic_course_def tl_next_def tl_resp_def tl_defaults_def Let_def)
    qed
    then show ?thesis by (simp add: st q)
  qed
qed

text \<open>Before the first request both are idle; then the converter has it.\<close>

definition core_still :: "core_state \<Rightarrow> bool" where
  "core_still s \<longleftrightarrow> tl_state (fst (fst s)) = IDLE \<and> \<not> wb_cyc (tl_wb_o (fst (fst s))) \<and> \<not> d_valid (tp_d (tl_o (fst (fst s)))) \<and>
     ch_state (snd (fst s)) = ST_HOST_IDLE"

lemma core_still_reset: "core_still (core_reset s)"
  by (simp add: core_still_def core_reset_def tl_reset_def cdc_host_reset_def per_type_c_new_def d_type_new_def)

lemma core_still_step: "core_still s \<Longrightarrow> core_taken e s = [] \<Longrightarrow> core_still (core_step e s)"
  by (cases s; cases "fst s"; cases "fst e")
    (auto simp: core_still_def core_edge core_taken_def bridge_idle tl_next_def tl_idle_def tl_defaults_def set_a_ready_def Let_def split: if_splits)

lemma core_still_requests: "core_still s \<Longrightarrow> cdc_requests (core_cdc_event e s) (core_cdc s) = []"
  by (simp add: core_still_def core_request)

lemma core_still_run:
  assumes "core_still s" and "core_link [] ds s" and "observe core_step core_taken es s = []"
  shows "core_still (fold core_step es s) \<and> core_link [] (ds @ observe core_step core_accesses es s) (fold core_step es s) \<and>
    observe core_step core_beats es s = []"
  using assms
proof (induction es arbitrary: s ds)
  case (Cons e es)
  have t: "core_taken e s = []" "observe core_step core_taken es (core_step e s) = []" using Cons.prems(3) by simp_all
  have s: "core_still (core_step e s)" by (rule core_still_step [OF Cons.prems(1) t(1)])
  have l: "core_link [] (ds @ core_accesses e s) (core_step e s)"
    using core_link_step [OF Cons.prems(2), of e] core_still_requests [OF Cons.prems(1), of e] by simp
  have b: "core_beats e s = []" using Cons.prems(1) by (simp add: core_still_def core_beats_def tl_pending_def split: option.split)
  show ?case using Cons.IH [OF s l t(2)] b by simp
qed simp

lemma core_taken_one: "length (core_taken e s) \<le> 1"
  by (simp add: core_taken_def split: option.split)

text \<open>Whenever both are idle, the accesses can be counted from there.\<close>

lemma core_still_restart:
  assumes "core_still (fold core_step es (core_reset s))"
  shows "core_link [] [] (fold core_step es (core_reset s))"
proof -
  let ?u = "fold core_step es (core_reset s)"
  have "\<exists>rs ds. core_link rs ds ?u"
    by (rule fold_inv [of "\<lambda>u. \<exists>rs ds. core_link rs ds u"]) (use core_link_reset core_link_step in blast)+
  then obtain rs ds ans where l: "cdc_lines (core_cdc ?u)" "cdc.link rs ds ans (core_cdc ?u)" by (auto simp: core_link_def)
  obtain h p where u: "core_cdc ?u = (h, p)" by (cases "core_cdc ?u")
  have i: "cdc_hphase h = Host_Idle" using assms u by (auto simp: core_still_def core_cdc_def cdc_hphase_def)
  from l(2) [unfolded u] have "cdc.quiet (h, p)" by (cases rule: cdc.linkE) (use i in \<open>simp_all add: cdc.quiet_def\<close>)
  then show ?thesis using l(1) cdc.link_quiet u by (auto simp: core_link_def)
qed

text \<open>The state after the first request is taken.\<close>

lemma core_first:
  assumes "core_still u" and "core_link [] [] u" and "observe core_step core_taken es u = [a]"
  obtains es1 e es2 t i where "es = es1 @ e # es2" and "core_still t" and "core_link [] [] t" and "fst e = Some i" and "th_a i = a"
    and "tl_accepts a (fst (fst t))" and "core_link [] [] (core_step e t)" and "observe core_step core_taken es2 (core_step e t) = []"
    and "fst (core_step e t) = (tl_idle a (fst (fst t)) (tl_defaults (fst (fst t))), cdc_host_next (tl_wb_o (fst (fst t))) (snd t) (snd (fst t)))"
    and "observe core_step core_accesses es u = observe core_step core_accesses es2 (core_step e t)"
    and "observe core_step core_beats es u = observe core_step core_beats es2 (core_step e t)"
    and "fold core_step es u = fold core_step es2 (core_step e t)"
proof -
  obtain es1 e es2 where d: "es = es1 @ e # es2" "observe core_step core_taken es1 u = []"
    "core_taken e (fold core_step es1 u) = [a]" "observe core_step core_taken es2 (fold core_step (es1 @ [e]) u) = []"
    by (rule observe_one [OF assms(3) core_taken_one])
  let ?t = "fold core_step es1 u"
  have r: "core_still ?t" "core_link [] ([] @ observe core_step core_accesses es1 u) ?t" "observe core_step core_beats es1 u = []"
    using core_still_run [OF assms(1,2) d(2)] by simp_all
  have acc: "observe core_step core_accesses es1 u = []" using core_link_accesses(2) [OF r(2)] by simp
  obtain i where i: "fst e = Some i" "th_a i = a" "tl_accepts a (fst (fst ?t))"
    using d(3) by (auto simp: core_taken_def split: option.splits if_splits)
  have l: "core_link [] (core_accesses e ?t) (core_step e ?t)"
    using core_link_step [OF r(2), of e] core_still_requests [OF r(1), of e] acc by simp
  have ae: "core_accesses e ?t = []" using core_link_accesses(2) [OF l] by simp
  have be: "core_beats e ?t = []" using r(1) by (simp add: core_still_def core_beats_def tl_pending_def split: option.split)
  have st: "tl_state (fst (fst ?t)) = IDLE" using r(1) by (simp add: core_still_def)
  have f: "fst (core_step e ?t) = (tl_idle a (fst (fst ?t)) (tl_defaults (fst (fst ?t))), cdc_host_next (tl_wb_o (fst (fst ?t))) (snd ?t) (snd (fst ?t)))"
    using i st by (simp add: core_step_def two_clocks_def core_host_next_def tl_next_def Let_def)
  show thesis
    by (rule that [of es1 e es2 ?t i]) (use d r i l f acc ae be in \<open>simp_all add: observe_append\<close>)
qed

lemma course_run:
  assumes "core_link rs ds s" and "atomic_course rs (fst (fst s)) (snd (fst s))" and "observe core_step core_taken es s = []"
  shows "\<exists>rs'. core_link rs' (ds @ observe core_step core_accesses es s) (fold core_step es s) \<and>
           atomic_course rs' (fst (fst (fold core_step es s))) (snd (fst (fold core_step es s)))"
  using assms
proof (induction es arbitrary: rs ds s)
  case (Cons e es)
  have t: "core_taken e s = []" "observe core_step core_taken es (core_step e s) = []" using Cons.prems(3) by simp_all
  show ?case
    using Cons.IH [OF core_link_step [OF Cons.prems(1)] _ t(2)] course_step [OF Cons.prems(1,2) t(1)] by (simp add: Let_def)
qed auto

lemma course_only_read: "atomic_course rs r h \<Longrightarrow> only_read rs"
  by (auto simp: atomic_course_def only_read_def split: tl_state_t.splits)

text \<open>
  C11: An atomic operation of the core never writes. Take any moment of any run after the reset at which converter
  and bridge are idle; if the core then asks for one atomic operation, whatever the clocks, the delays of the
  peripherals and the core's readiness, at most one access is made at the peripherals for it, and it is a read. The
  converter takes the bridge's standing acknowledge of that read for the acknowledge of its write.
\<close>

theorem atomic_write_lost:
  assumes "core_still (fold core_step es0 (core_reset s))"
    and "observe core_step core_taken es (fold core_step es0 (core_reset s)) = [a]" and "is_atomic a"
  shows "length (observe core_step core_accesses es (fold core_step es0 (core_reset s))) \<le> 1 \<and>
    (\<forall>x \<in> set (observe core_step core_accesses es (fold core_step es0 (core_reset s))). \<not> wb_we (fst x))"
proof -
  let ?u = "fold core_step es0 (core_reset s)"
  obtain es1 e es2 t i where d: "core_still t" "tl_accepts a (fst (fst t))" "core_link [] [] (core_step e t)"
    "observe core_step core_taken es2 (core_step e t) = []"
    "fst (core_step e t) = (tl_idle a (fst (fst t)) (tl_defaults (fst (fst t))), cdc_host_next (tl_wb_o (fst (fst t))) (snd t) (snd (fst t)))"
    "observe core_step core_accesses es ?u = observe core_step core_accesses es2 (core_step e t)"
    by (rule core_first [OF assms(1) core_still_restart [OF assms(1)] assms(2)])
  have "atomic_course [] (fst (fst (core_step e t))) (snd (fst (core_step e t)))"
    using d(1,2) assms(3) op_excl(2) [OF assms(3)]
    by (simp add: d(5) atomic_course_def core_still_def bridge_idle tl_idle_def tl_defaults_def set_a_ready_def Let_def)
  from course_run [OF d(3) this d(4)] obtain rs where
    rs: "core_link rs (observe core_step core_accesses es2 (core_step e t)) (fold core_step es2 (core_step e t))" "only_read rs"
    by (auto dest: course_only_read)
  show ?thesis using core_link_accesses [OF rs(1)] rs(2) unfolding d(6) only_read_def by auto
qed

text \<open>An addition, both clocks in step: the core is told the old word, and the only access was the read.\<close>

definition cdc_zero :: "cdc_host \<times> cdc_per" where
  "cdc_zero = (\<lparr>ch_state = ST_HOST_IDLE, ch_adr = 0, ch_dat = 0, ch_sel = 0, ch_we = False, ch_req = False, ch_ack_sync = False,
     ch_ack_q = (False, False), ch_o = per_new_bus_type\<rparr>, \<lparr>cp_state = ST_PER_IDLE, cp_req_sync = False, cp_req_q = (False, False),
     cp_ack = False, cp_rdt = 0, cp_o = host_new_bus_type\<rparr>)"

definition core_zero :: core_state where
  "core_zero = ((tl_reg_zero, fst cdc_zero), snd cdc_zero)"

definition core_tick :: "tl_a \<Rightarrow> bool \<Rightarrow> u32 \<Rightarrow> tl_host option \<times> wb_per option" where
  "core_tick a v dat = (Some \<lparr>th_a = a\<lparr>a_valid := v\<rparr>, th_d_ready = True\<rparr>, Some \<lparr>per_rdt = dat, per_ack = True\<rparr>)"

theorem atomic_write_lost_witness:
  "let es = replicate 2 (core_tick (tl_request 2 4 2 4 5) True 7) @ replicate 18 (core_tick (tl_request 2 4 2 4 5) False 7) in
   map d_data (observe core_step core_beats es (core_reset core_zero)) = [7] \<and>
   length (observe core_step core_accesses es (core_reset core_zero)) \<le> 1 \<and>
   (\<forall>x \<in> set (observe core_step core_accesses es (core_reset core_zero)). \<not> wb_we (fst x))"
proof -
  let ?es = "replicate 2 (core_tick (tl_request 2 4 2 4 5) True 7) @ replicate 18 (core_tick (tl_request 2 4 2 4 5) False 7)"
  have t: "observe core_step core_taken ?es (core_reset core_zero) = [tl_request 2 4 2 4 5]" by code_simp
  have b: "map d_data (observe core_step core_beats ?es (core_reset core_zero)) = [7]" by code_simp
  have "is_atomic (tl_request 2 4 2 4 5)" by code_simp
  moreover have "core_still (fold core_step [] (core_reset core_zero))" using core_still_reset by simp
  ultimately show ?thesis using b t atomic_write_lost [of "[]" core_zero ?es "tl_request 2 4 2 4 5"] unfolding Let_def by simp
qed

subsection \<open>A block\<close>

text \<open>The course of the first request when it reads a block of two words or more; \<open>ds\<close> are the responses made.\<close>

definition nth_word :: "tl_a \<Rightarrow> nat \<Rightarrow> tl_reg \<Rightarrow> bool" where
  "nth_word a i r \<longleftrightarrow> i < tl_words a \<and> beat_count r = of_nat (tl_words a - i) \<and> get_address r = a_address a + 4 * of_nat i"

definition twin :: "tl_d list \<Rightarrow> bool" where
  "twin ds \<longleftrightarrow> 2 \<le> length ds \<and> d_data (ds ! 1) = d_data (ds ! 0)"

definition block_course :: "tl_a \<Rightarrow> wb_host list \<Rightarrow> tl_d list \<Rightarrow> tl_reg \<Rightarrow> cdc_host \<Rightarrow> bool" where
  "block_course a rs ds r h \<longleftrightarrow> saved_a r = a \<and> (\<forall>x \<in> set rs. wb_adr x \<noteq> a_address a + 4) \<and>
     (case tl_state r of
        WB_RD_WAIT \<Rightarrow>
          (nth_word a 0 r \<and> ds = [] \<and> (wb_cyc (tl_wb_o r) \<longrightarrow> wb_adr (tl_wb_o r) = a_address a) \<and>
             (ch_state h = ST_HOST_WAIT_ACK_LOW \<longrightarrow> cdc_hq h = (True, True, True))) \<or>
          (nth_word a 1 r \<and> (\<exists>d. ds = [d] \<and> d_data d = per_rdt (ch_o h)) \<and> \<not> wb_cyc (tl_wb_o r) \<and>
             ch_state h = ST_HOST_WAIT_ACK_LOW \<and> (\<exists>x y. cdc_hq h = (x, y, True))) \<or>
          ((\<exists>i \<ge> 2. nth_word a i r) \<and> twin ds \<and> (wb_cyc (tl_wb_o r) \<longrightarrow> wb_adr (tl_wb_o r) = get_address r))
      | TL_RESP \<Rightarrow> \<not> wb_cyc (tl_wb_o r) \<and>
          ((nth_word a 0 r \<and> ds = [] \<and> ch_state h = ST_HOST_WAIT_ACK_LOW \<and> saved_wb_dat r = per_rdt (ch_o h) \<and>
              (\<exists>x. cdc_hq h = (x, True, True))) \<or>
           (nth_word a 1 r \<and> (\<exists>d. ds = [d] \<and> saved_wb_dat r = d_data d)) \<or>
           ((\<exists>i \<ge> 2. nth_word a i r) \<and> twin ds))
      | IDLE \<Rightarrow> \<not> wb_cyc (tl_wb_o r) \<and> twin ds
      | _ \<Rightarrow> False)"

lemma nth_word_adr: "nth_word a i r \<Longrightarrow> i \<noteq> 1 \<Longrightarrow> get_address r \<noteq> a_address a + 4"
proof -
  assume n: "nth_word a i r" "i \<noteq> 1"
  then have i: "i < 32" using words_bound(2) [of a] by (simp add: nth_word_def)
  have "(4 * of_nat i :: u32) = of_nat (4 * i)" by simp
  moreover have "unat (of_nat k :: u32) = k" if "k < 128" for k using that by (simp add: unat_of_nat)
  from this [of "4 * i"] have "unat (of_nat (4 * i) :: u32) = 4 * i" using i by simp
  ultimately have "unat (4 * of_nat i :: u32) = 4 * i" by simp
  then have "(4 * of_nat i :: u32) \<noteq> 4" using n(2) by auto
  then show ?thesis using n(1) by (simp add: nth_word_def)
qed

lemma nth_word_more: "nth_word a i r \<Longrightarrow> 1 < beat_count r \<longleftrightarrow> Suc i < tl_words a"
  using beats_more [of i a] by (simp add: nth_word_def)

lemma twin_snoc: "twin ds \<Longrightarrow> twin (ds @ ds')"
  by (auto simp: twin_def nth_append)

lemma twin_prefix: "twin (ds @ ds') \<Longrightarrow> 2 \<le> length ds \<Longrightarrow> twin ds"
proof -
  assume t: "twin (ds @ ds')" and l: "2 \<le> length ds"
  have "(ds @ ds') ! 0 = ds ! 0" "(ds @ ds') ! 1 = ds ! 1" using l by (auto simp: nth_append simp del: One_nat_def)
  then show ?thesis using t l by (simp add: twin_def)
qed

lemma block_rd:
  fixes i :: tl_host and w :: wb_per
  assumes "is_get a" and "saved_a r = a" and "tl_state r = WB_RD_WAIT"
  defines "r' \<equiv> tl_next i w r"
  shows "saved_a r' = a" and "tl_pending r' = []" and "wb_cyc (tl_wb_o r') \<longrightarrow> wb_adr (tl_wb_o r') = get_address r"
    and "nth_word a n r' = nth_word a n r" and "get_address r' = get_address r"
    and "per_ack w \<Longrightarrow> tl_state r' = TL_RESP \<and> saved_wb_dat r' = per_rdt w \<and> \<not> wb_cyc (tl_wb_o r')"
    and "\<not> per_ack w \<Longrightarrow> tl_state r' = WB_RD_WAIT"
  using assms by (simp_all add: r'_def tl_next_def tl_rd_wait_def tl_defaults_def tl_pending_def nth_word_def Let_def)

lemma block_resp:
  fixes i :: tl_host and w :: wb_per
  assumes "is_get a" and "saved_a r = a" and "tl_state r = TL_RESP" and "th_d_ready i" and "nth_word a n r"
  defines "r' \<equiv> tl_next i w r"
  shows "saved_a r' = a" and "\<exists>d. tl_pending r' = [d] \<and> d_data d = saved_wb_dat r" and "\<not> wb_cyc (tl_wb_o r')"
    and "Suc n < tl_words a \<Longrightarrow> tl_state r' = WB_RD_WAIT \<and> nth_word a (Suc n) r'"
    and "\<not> Suc n < tl_words a \<Longrightarrow> tl_state r' = IDLE"
proof -
  note b = nth_word_more [OF assms(5)] and o = op_excl(1) [OF assms(1)]
  show "saved_a r' = a" "\<not> wb_cyc (tl_wb_o r')"
    using assms(2-4) o by (simp_all add: r'_def tl_next_def tl_resp_def tl_defaults_def Let_def)
  have "tl_pending r' = [tl_response a (saved_wb_dat r) (tp_d (tl_o (tl_defaults r)))]"
    using assms(2-4) o by (simp add: r'_def tl_next_def tl_resp_def tl_pending_def tl_response_def Let_def)
  moreover have "d_data (tl_response a dat d) = dat" for dat d
    using assms(1) by (auto simp: tl_response_def is_get_def tl_ops Let_def)
  ultimately show "\<exists>d. tl_pending r' = [d] \<and> d_data d = saved_wb_dat r" by simp
  show "tl_state r' = WB_RD_WAIT \<and> nth_word a (Suc n) r'" if m: "Suc n < tl_words a"
  proof -
    have "tl_words a - n = Suc (tl_words a - Suc n)" using m by simp
    then have c: "beat_count r - 1 = of_nat (tl_words a - Suc n)" using assms(5) by (simp add: nth_word_def)
    have "tl_state r' = WB_RD_WAIT" "beat_count r' = beat_count r - 1" "get_address r' = get_address r + 4"
      using assms(1-4) o b m by (simp_all add: r'_def tl_next_def tl_resp_def tl_defaults_def Let_def)
    then show ?thesis using m c assms(5) by (simp add: nth_word_def algebra_simps)
  qed
  show "tl_state r' = IDLE" if "\<not> Suc n < tl_words a"
    using assms(2-4) o b that by (simp add: r'_def tl_next_def tl_resp_def tl_defaults_def Let_def)
qed

lemma block_step_rd:
  assumes "core_link rs qs ((r, h), p)" and "block_course a rs ds r h" and "is_get a" and "tl_state r = WB_RD_WAIT"
  shows "block_course a (rs @ (if ch_state h = ST_HOST_IDLE \<and> wb_cyc (tl_wb_o r) then [tl_wb_o r] else []))
           (ds @ tl_pending (tl_next i (ch_o h) r)) (tl_next i (ch_o h) r) (cdc_host_next (tl_wb_o r) p h)"
proof -
  note ack = bridge_ack [OF assms(1)]
  let ?r' = "tl_next i (ch_o h) r" and ?h' = "cdc_host_next (tl_wb_o r) p h"
  have a: "saved_a r = a" "\<forall>x \<in> set rs. wb_adr x \<noteq> a_address a + 4" using assms(2) by (simp_all add: block_course_def)
  note r = block_rd [OF assms(3) a(1) assms(4), where w = "ch_o h" and i = i]
  from assms(2,4) consider
      (first) "nth_word a 0 r" "ds = []" "wb_cyc (tl_wb_o r) \<longrightarrow> wb_adr (tl_wb_o r) = a_address a"
        "ch_state h = ST_HOST_WAIT_ACK_LOW \<longrightarrow> cdc_hq h = (True, True, True)"
    | (second) d x y where "nth_word a 1 r" "ds = [d]" "d_data d = per_rdt (ch_o h)" "\<not> wb_cyc (tl_wb_o r)"
        "ch_state h = ST_HOST_WAIT_ACK_LOW" "cdc_hq h = (x, y, True)"
    | (rest) i where "2 \<le> i" "nth_word a i r" "twin ds" "wb_cyc (tl_wb_o r) \<longrightarrow> wb_adr (tl_wb_o r) = get_address r"
    by (auto simp: block_course_def)
  then show ?thesis
  proof cases
    case first
    have g: "get_address r = a_address a" using first(1) by (simp add: nth_word_def)
    have w: "nth_word a 0 ?r'" "wb_cyc (tl_wb_o ?r') \<longrightarrow> wb_adr (tl_wb_o ?r') = a_address a" using first(1) r g by simp_all
    show ?thesis
    proof (cases "ch_state h")
      case ST_HOST_WAIT_ACK_LOW
      then have "cdc_hq h = (True, True, True)" using first(4) by simp
      with bridge_wait(1) [OF ST_HOST_WAIT_ACK_LOW this] bridge_rdt [OF ST_HOST_WAIT_ACK_LOW] show ?thesis
        using ST_HOST_WAIT_ACK_LOW a ack r(1,2,6) w(1) first(2) by (simp add: block_course_def)
    next
      case ST_HOST_REQ
      with bridge_req [OF assms(1), of "tl_wb_o r"] show ?thesis
        using a ack r(1,2,7) w first(2) by (auto simp: block_course_def)
    next
      case ST_HOST_IDLE
      with bridge_idle [of h "tl_wb_o r" p] show ?thesis
        using a ack r(1,2,7) w first(2,3) by (auto simp: block_course_def)
    qed
  next
    case second
    have "nth_word a 1 ?r'" using second(1) r(4) by simp
    then show ?thesis using second a ack r(1,2,6) by (simp add: block_course_def)
  next
    case rest
    have w: "nth_word a i ?r'" "wb_cyc (tl_wb_o ?r') \<longrightarrow> wb_adr (tl_wb_o ?r') = get_address ?r'" using rest(2) r by simp_all
    have n: "get_address r \<noteq> a_address a + 4" using nth_word_adr [OF rest(2)] rest(1) by simp
    have q: "\<forall>x \<in> set (rs @ (if ch_state h = ST_HOST_IDLE \<and> wb_cyc (tl_wb_o r) then [tl_wb_o r] else [])). wb_adr x \<noteq> a_address a + 4"
      using a(2) rest(4) n by auto
    have e: "\<exists>i \<ge> 2. nth_word a i ?r'" using rest(1) w(1) by blast
    show ?thesis unfolding block_course_def r(2) append_Nil2
      using q e w(2) rest(3) r(1,6,7) by (cases "per_ack (ch_o h)") simp_all
  qed
qed

lemma block_step_resp:
  assumes "core_link rs qs ((r, h), p)" and "block_course a rs ds r h" and "is_get a" and "tl_state r = TL_RESP" and "1 < tl_words a"
    and "th_d_ready i"
  shows "block_course a rs (ds @ tl_pending (tl_next i (ch_o h) r)) (tl_next i (ch_o h) r) (cdc_host_next (tl_wb_o r) p h)"
proof -
  let ?r' = "tl_next i (ch_o h) r" and ?h' = "cdc_host_next (tl_wb_o r) p h"
  have a: "saved_a r = a" "\<forall>x \<in> set rs. wb_adr x \<noteq> a_address a + 4" using assms(2) by (simp_all add: block_course_def)
  from assms(2,4) consider
      (first) x where "nth_word a 0 r" "ds = []" "ch_state h = ST_HOST_WAIT_ACK_LOW" "saved_wb_dat r = per_rdt (ch_o h)" "cdc_hq h = (x, True, True)"
    | (second) d where "nth_word a 1 r" "ds = [d]" "saved_wb_dat r = d_data d"
    | (rest) n where "2 \<le> n" "nth_word a n r" "twin ds"
    by (auto simp: block_course_def)
  then show ?thesis
  proof cases
    case first
    note r = block_resp [OF assms(3) a(1) assms(4,6) first(1), where w = "ch_o h"]
    have "tl_state ?r' = WB_RD_WAIT" "nth_word a 1 ?r'" using r(4) assms(5) by simp_all
    then show ?thesis
      using bridge_wait(1) [OF first(3,5), of "tl_wb_o r" p] bridge_rdt [OF first(3), of "tl_wb_o r" p] first(2,4) a(2) r(1-3)
      by (auto simp: block_course_def)
  next
    case second
    note r = block_resp [OF assms(3) a(1) assms(4,6) second(1), where w = "ch_o h"]
    obtain d' where "tl_pending ?r' = [d']" "d_data d' = d_data d" using r(2) second(3) by auto
    then have t: "twin (ds @ tl_pending ?r')" by (simp add: twin_def second(2))
    have e: "\<exists>i \<ge> 2. nth_word a i ?r'" "tl_state ?r' = WB_RD_WAIT" if "2 < tl_words a"
      using r(4) that by (auto simp: numeral_2_eq_2)
    show ?thesis using t e a(2) r(1,3,5) by (cases "2 < tl_words a") (simp_all add: block_course_def)
  next
    case rest
    note r = block_resp [OF assms(3) a(1) assms(4,6) rest(2), where w = "ch_o h"]
    have e: "\<exists>i \<ge> 2. nth_word a i ?r'" "tl_state ?r' = WB_RD_WAIT" if "Suc n < tl_words a"
      using r(4) [OF that] rest(1) by (auto intro: exI [of _ "Suc n"])
    show ?thesis using twin_snoc [OF rest(3), of "tl_pending ?r'"] e a(2) r(1,3,5)
      by (cases "Suc n < tl_words a") (simp_all add: block_course_def)
  qed
qed

lemma block_step:
  assumes "core_link rs qs s" and "block_course a rs (ds @ tl_pending (fst (fst s))) (fst (fst s)) (snd (fst s))"
    and "is_get a" and "1 < tl_words a" and "core_taken e s = []" and "\<forall>i. fst e = Some i \<longrightarrow> th_d_ready i"
  shows "let s' = core_step e s in
    block_course a (rs @ cdc_requests (core_cdc_event e s) (core_cdc s)) ((ds @ core_beats e s) @ tl_pending (fst (fst s'))) (fst (fst s')) (snd (fst s'))"
proof -
  obtain r h p where s: "s = ((r, h), p)" by (metis prod.exhaust)
  note l = assms(1) [unfolded s] and c = assms(2) [unfolded s fst_conv snd_conv]
  show ?thesis
  proof (cases "fst e")
    case None
    then have "fst (core_step e s) = (r, h)" by (simp add: s core_edge)
    then show ?thesis using c None by (simp add: core_request core_beats_def)
  next
    case (Some i)
    let ?r' = "tl_next i (ch_o h) r" and ?h' = "cdc_host_next (tl_wb_o r) p h"
    have st: "fst (core_step e s) = (?r', ?h')" using Some by (simp add: s core_edge)
    have d: "th_d_ready i" using assms(6) Some by simp
    have b: "core_beats e s = tl_pending r" using Some d by (simp add: core_beats_def s)
    have n: "\<not> tl_accepts (th_a i) r" using assms(5) Some by (auto simp: core_taken_def s split: if_splits)
    have q: "cdc_requests (core_cdc_event e s) (core_cdc s) = (if ch_state h = ST_HOST_IDLE \<and> wb_cyc (tl_wb_o r) then [tl_wb_o r] else [])"
      using Some by (simp add: core_request s)
    have "block_course a (rs @ (if ch_state h = ST_HOST_IDLE \<and> wb_cyc (tl_wb_o r) then [tl_wb_o r] else []))
      ((ds @ tl_pending r) @ tl_pending ?r') ?r' ?h'"
    proof (cases "tl_state r")
      case WB_RD_WAIT
      show ?thesis by (rule block_step_rd [OF l c assms(3) WB_RD_WAIT])
    next
      case TL_RESP
      have "\<not> wb_cyc (tl_wb_o r)" using c TL_RESP by (simp add: block_course_def)
      then show ?thesis using block_step_resp [OF l c assms(3) TL_RESP assms(4) d] by simp
    next
      case IDLE
      have "tl_pending ?r' = []" "tl_state ?r' = IDLE" "\<not> wb_cyc (tl_wb_o ?r')" "saved_a ?r' = saved_a r"
        using n IDLE by (simp_all add: tl_next_def tl_idle_def tl_pending_def tl_defaults_def set_a_ready_def Let_def)
      then show ?thesis using c IDLE by (simp add: block_course_def)
    qed (use c in \<open>simp_all add: block_course_def\<close>)
    then show ?thesis by (simp add: st q b)
  qed
qed

lemma block_run:
  assumes "core_link rs qs s" and "block_course a rs (ds @ tl_pending (fst (fst s))) (fst (fst s)) (snd (fst s))"
    and "is_get a" and "1 < tl_words a" and "observe core_step core_taken es s = []" and "\<forall>e \<in> set es. \<forall>i. fst e = Some i \<longrightarrow> th_d_ready i"
  shows "\<exists>rs'. core_link rs' (qs @ observe core_step core_accesses es s) (fold core_step es s) \<and>
    block_course a rs' ((ds @ observe core_step core_beats es s) @ tl_pending (fst (fst (fold core_step es s))))
      (fst (fst (fold core_step es s))) (snd (fst (fold core_step es s)))"
  using assms(1,2,5,6)
proof (induction es arbitrary: rs qs ds s)
  case (Cons e es)
  have t: "core_taken e s = []" "observe core_step core_taken es (core_step e s) = []"
    "\<forall>i. fst e = Some i \<longrightarrow> th_d_ready i" "\<forall>e \<in> set es. \<forall>i. fst e = Some i \<longrightarrow> th_d_ready i" using Cons.prems(3,4) by simp_all
  from Cons.IH [where ds = "ds @ core_beats e s", OF core_link_step [OF Cons.prems(1)] _ t(2,4)] block_step [OF Cons.prems(1,2) assms(3,4) t(1,3)]
  show ?case by (simp add: Let_def)
qed auto

text \<open>
  C12: The core reads a block and gets its first word twice. Take any moment of any run after the reset at which
  converter and bridge are idle; if the core then asks for a block of two words or more and is always ready,
  whatever the clocks and the peripherals, the second word of the response is the first again, and the second word
  of the block is never read.
\<close>

theorem block_second_word_is_first:
  assumes "core_still (fold core_step es0 (core_reset s))"
    and "observe core_step core_taken es (fold core_step es0 (core_reset s)) = [a]" and "is_get a" and "1 < tl_words a"
    and "\<forall>e \<in> set es. \<forall>i. fst e = Some i \<longrightarrow> th_d_ready i"
  shows "(let ds = observe core_step core_beats es (fold core_step es0 (core_reset s)) in 2 \<le> length ds \<longrightarrow> d_data (ds ! 1) = d_data (ds ! 0)) \<and>
    (\<forall>x \<in> set (observe core_step core_accesses es (fold core_step es0 (core_reset s))). wb_adr (fst x) \<noteq> a_address a + 4)"
proof -
  let ?u = "fold core_step es0 (core_reset s)"
  obtain es1 e es2 t i where d: "es = es1 @ e # es2" "core_still t" "tl_accepts a (fst (fst t))" "core_link [] [] (core_step e t)"
    "observe core_step core_taken es2 (core_step e t) = []"
    "fst (core_step e t) = (tl_idle a (fst (fst t)) (tl_defaults (fst (fst t))), cdc_host_next (tl_wb_o (fst (fst t))) (snd t) (snd (fst t)))"
    "observe core_step core_accesses es ?u = observe core_step core_accesses es2 (core_step e t)"
    "observe core_step core_beats es ?u = observe core_step core_beats es2 (core_step e t)"
    by (rule core_first [OF assms(1) core_still_restart [OF assms(1)] assms(2)])
  have "block_course a [] ([] @ tl_pending (fst (fst (core_step e t)))) (fst (fst (core_step e t))) (snd (fst (core_step e t)))"
    using d(2,3) assms(3,4)
    by (simp add: d(6) block_course_def nth_word_def core_still_def bridge_idle tl_idle_def tl_defaults_def set_a_ready_def tl_pending_def
        total_beats_words Let_def)
  from block_run [OF d(4) this assms(3,4) d(5)] assms(5) d(1) obtain rs where
    rs: "core_link rs (observe core_step core_accesses es2 (core_step e t)) (fold core_step es2 (core_step e t))"
      "block_course a rs (observe core_step core_beats es2 (core_step e t) @ tl_pending (fst (fst (fold core_step es2 (core_step e t)))))
         (fst (fst (fold core_step es2 (core_step e t)))) (snd (fst (fold core_step es2 (core_step e t))))"
    by auto
  let ?ds = "observe core_step core_beats es2 (core_step e t)"
  have two: "2 \<le> length ds \<longrightarrow> twin ds" if "block_course a rs ds r h" for ds r h
    using that by (auto simp: block_course_def split: tl_state_t.splits)
  have "d_data (?ds ! 1) = d_data (?ds ! 0)" if "2 \<le> length ?ds"
    using two [OF rs(2)] twin_prefix [of ?ds] that by (simp add: twin_def)
  moreover have "wb_adr x \<noteq> a_address a + 4" if "x \<in> set rs" for x using rs(2) that by (simp add: block_course_def)
  ultimately show ?thesis using core_link_accesses(1) [OF rs(1)] unfolding d(7,8) Let_def by auto
qed

text \<open>A block of four words, with both clocks in step; the peripherals answer with the number of the cycle.\<close>

theorem block_second_word_is_first_witness:
  "let es = replicate 2 (core_tick (tl_request 6 0 4 0x100 0) True 0) @ map (\<lambda>n. core_tick (tl_request 6 0 4 0x100 0) False (of_nat n)) [2..<40];
       ds = observe core_step core_beats es (core_reset core_zero) in
   length ds = 4 \<and> d_data (ds ! 1) = d_data (ds ! 0)"
proof -
  let ?es = "replicate 2 (core_tick (tl_request 6 0 4 0x100 0) True 0) @ map (\<lambda>n. core_tick (tl_request 6 0 4 0x100 0) False (of_nat n)) [2..<40]"
  have t: "observe core_step core_taken ?es (core_reset core_zero) = [tl_request 6 0 4 0x100 0]" by code_simp
  have l: "length (observe core_step core_beats ?es (core_reset core_zero)) = 4" by code_simp
  have g: "is_get (tl_request 6 0 4 0x100 0)" "1 < tl_words (tl_request 6 0 4 0x100 0)" by code_simp+
  have r: "\<forall>e \<in> set ?es. \<forall>i. fst e = Some i \<longrightarrow> th_d_ready i" by (auto simp: core_tick_def)
  have s: "core_still (fold core_step [] (core_reset core_zero))" using core_still_reset by simp
  from block_second_word_is_first [of "[]" core_zero, OF s _ g r] t l show ?thesis by (simp add: Let_def)
qed

end
