(* ===== verification/AhbBridge.thy ===== *)
theory AhbBridge
  imports Handshake TlC2Wb
begin

text \<open>
  The bridge from the AHB bus of the NOEL-V core to the Wishbone bus of the RAM (\<open>ip/bridges/ahb2wb_bridge.vhdl\<close>),
  edge by edge, on two free clocks. It is the second provider of the handshake: what
  the bridge takes becomes exactly one Wishbone access and gets its data. The theorem of this theory: the byte
  strobes are the bytes of the transfer. What that means for the AHB is in \<open>AhbBus\<close>.
\<close>

subsection \<open>The AHB side\<close>

record ahb_slv_in =
  hs_hsel :: bool
  hs_haddr :: u32
  hs_hwrite :: bool
  hs_htrans :: "2 word"
  hs_hsize :: "3 word"
  hs_hwdata :: u32
  hs_hready :: bool

definition HTRANS_NONSEQ :: "2 word" where "HTRANS_NONSEQ = 2"
definition HTRANS_SEQ :: "2 word" where "HTRANS_SEQ = 3"

datatype ahb_state_t = AHB_IDLE | AHB_DATA_PHASE | AHB_WAIT_ACK | AHB_CLEANUP

record ahb_host =
  ab_state :: ahb_state_t
  ab_haddr :: u32
  ab_hwdata :: u32
  ab_hwrite :: bool
  ab_hready :: bool
  ab_hrdata :: u32
  ab_req :: bool
  ab_ack_sync :: bool
  ab_ack_q :: "bool \<times> bool"
  ab_sel :: "4 word"

datatype wb_state_t = WB_IDLE | WB_START | WB_WAIT | WB_DONE

record ahb_wb =
  bb_state :: wb_state_t
  bb_req_sync :: bool
  bb_req_q :: "bool \<times> bool"
  bb_ack :: bool
  bb_adr :: u32
  bb_dat :: u32
  bb_we :: bool
  bb_cyc :: bool
  bb_hrdata_reg :: u32
  bb_sel :: "4 word"

text \<open>The strobes of a transfer, from its size and the low bits of its address.\<close>

definition ahb_strobes :: "3 word \<Rightarrow> u32 \<Rightarrow> 4 word" where
  "ahb_strobes hsize haddr =
     (if take_bit 2 hsize = 0
      then (if take_bit 2 haddr = 0 then 1 else if take_bit 2 haddr = 1 then 2 else if take_bit 2 haddr = 2 then 4 else 8)
      else if take_bit 2 hsize = 1 then (if \<not> bit haddr 1 then 3 else 12)
      else 15)"

definition ahb_selected :: "ahb_slv_in \<Rightarrow> bool" where
  "ahb_selected i \<longleftrightarrow> hs_hsel i \<and> (hs_htrans i = HTRANS_NONSEQ \<or> hs_htrans i = HTRANS_SEQ)"

definition ahb_host_reset :: "ahb_host \<Rightarrow> ahb_host" where
  "ahb_host_reset h = h\<lparr>ab_state := AHB_IDLE, ab_req := False, ab_hready := True, ab_ack_q := (False, False), ab_ack_sync := False\<rparr>"

text \<open>A rising edge of \<open>clk_ahb\<close> outside reset.\<close>

definition ahb_host_next :: "ahb_slv_in \<Rightarrow> ahb_wb \<Rightarrow> ahb_host \<Rightarrow> ahb_host" where
  "ahb_host_next i w h =
     (let h1 = h\<lparr>ab_ack_q := (bb_ack w, fst (ab_ack_q h)), ab_ack_sync := snd (ab_ack_q h)\<rparr> in
      case ab_state h of
        AHB_IDLE \<Rightarrow>
          (if ahb_selected i
           then (let h2 = h1\<lparr>ab_haddr := hs_haddr i, ab_hwrite := hs_hwrite i, ab_sel := ahb_strobes (hs_hsize i) (hs_haddr i), ab_hready := False\<rparr> in
                 if hs_hwrite i then h2\<lparr>ab_state := AHB_DATA_PHASE\<rparr> else h2\<lparr>ab_req := True, ab_state := AHB_WAIT_ACK\<rparr>)
           else h1)
      | AHB_DATA_PHASE \<Rightarrow> h1\<lparr>ab_hwdata := hs_hwdata i, ab_req := True, ab_state := AHB_WAIT_ACK\<rparr>
      | AHB_WAIT_ACK \<Rightarrow>
          (if ab_ack_sync h then h1\<lparr>ab_hrdata := bb_hrdata_reg w, ab_req := False, ab_state := AHB_CLEANUP\<rparr> else h1)
      | AHB_CLEANUP \<Rightarrow>
          (if \<not> ab_ack_sync h then h1\<lparr>ab_hready := True, ab_state := AHB_IDLE\<rparr> else h1))"

subsection \<open>The Wishbone side\<close>

definition ahb_wb_reset :: "ahb_wb \<Rightarrow> ahb_wb" where
  "ahb_wb_reset w = w\<lparr>bb_state := WB_IDLE, bb_ack := False, bb_req_q := (False, False), bb_req_sync := False, bb_cyc := False\<rparr>"

definition ahb_wb_next :: "wb_per \<Rightarrow> ahb_host \<Rightarrow> ahb_wb \<Rightarrow> ahb_wb" where
  "ahb_wb_next wbi h w =
     (let w1 = w\<lparr>bb_req_q := (ab_req h, fst (bb_req_q w)), bb_req_sync := snd (bb_req_q w)\<rparr> in
      case bb_state w of
        WB_IDLE \<Rightarrow>
          (if bb_req_sync w
           then w1\<lparr>bb_adr := ab_haddr h, bb_we := ab_hwrite h, bb_dat := ab_hwdata h, bb_sel := ab_sel h, bb_state := WB_START\<rparr>
           else w1)
      | WB_START \<Rightarrow> w1\<lparr>bb_cyc := True, bb_state := WB_WAIT\<rparr>
      | WB_WAIT \<Rightarrow>
          (if per_ack wbi
           then w1\<lparr>bb_cyc := False, bb_hrdata_reg := per_rdt wbi, bb_ack := True, bb_state := WB_DONE\<rparr> else w1)
      | WB_DONE \<Rightarrow> (if \<not> bb_req_sync w then w1\<lparr>bb_ack := False, bb_state := WB_IDLE\<rparr> else w1))"

definition ahb_wb_o :: "ahb_wb \<Rightarrow> wb_host" where
  "ahb_wb_o w = \<lparr>wb_adr = bb_adr w, wb_dat = bb_dat w, wb_sel = bb_sel w, wb_we = bb_we w, wb_cyc = bb_cyc w\<rparr>"

definition ahb_step :: "ahb_slv_in option \<times> wb_per option \<Rightarrow> ahb_host \<times> ahb_wb \<Rightarrow> ahb_host \<times> ahb_wb" where
  "ahb_step = two_clocks ahb_host_next ahb_wb_next"

definition ahb_reset :: "ahb_host \<times> ahb_wb \<Rightarrow> ahb_host \<times> ahb_wb" where
  "ahb_reset s = (ahb_host_reset (fst s), ahb_wb_reset (snd s))"

subsection \<open>What the buses show\<close>

text \<open>
  What the bridge takes from the AHB, when it has all of it: a read at the edge that samples its address, a write at
  the next edge. The data of a read is whatever an earlier write has left in the register. What the bus itself
  calls a transfer is in \<open>AhbBus\<close>.
\<close>

definition ahb_taken :: "ahb_slv_in option \<times> wb_per option \<Rightarrow> ahb_host \<times> ahb_wb \<Rightarrow> wb_host list" where
  "ahb_taken e s =
     (let h = fst s in
      case fst e of None \<Rightarrow> []
      | Some i \<Rightarrow>
          (if ab_state h = AHB_IDLE \<and> ahb_selected i \<and> \<not> hs_hwrite i
           then [\<lparr>wb_adr = hs_haddr i, wb_dat = ab_hwdata h, wb_sel = ahb_strobes (hs_hsize i) (hs_haddr i), wb_we = False, wb_cyc = True\<rparr>]
           else if ab_state h = AHB_DATA_PHASE
           then [\<lparr>wb_adr = ab_haddr h, wb_dat = hs_hwdata i, wb_sel = ab_sel h, wb_we = ab_hwrite h, wb_cyc = True\<rparr>]
           else []))"

definition ahb_accesses :: "ahb_slv_in option \<times> wb_per option \<Rightarrow> ahb_host \<times> ahb_wb \<Rightarrow> (wb_host \<times> u32) list" where
  "ahb_accesses e s =
     (case snd e of None \<Rightarrow> []
      | Some wbi \<Rightarrow> if bb_cyc (snd s) \<and> per_ack wbi then [(ahb_wb_o (snd s), per_rdt wbi)] else [])"

text \<open>The read data the AHB has when its ready comes up again.\<close>

definition ahb_finished :: "ahb_slv_in option \<times> wb_per option \<Rightarrow> ahb_host \<times> ahb_wb \<Rightarrow> u32 list" where
  "ahb_finished e s =
     (if \<not> ab_hready (fst s) \<and> ab_hready (fst (ahb_step e s)) then [ab_hrdata (fst (ahb_step e s))] else [])"

subsection \<open>The handshake\<close>

definition ahb_hphase :: "ahb_host \<Rightarrow> host_phase" where
  "ahb_hphase h = (case ab_state h of AHB_WAIT_ACK \<Rightarrow> Host_Req | AHB_CLEANUP \<Rightarrow> Host_Wait | _ \<Rightarrow> Host_Idle)"

definition ahb_pphase :: "ahb_wb \<Rightarrow> per_phase" where
  "ahb_pphase w = (case bb_state w of WB_IDLE \<Rightarrow> Per_Idle | WB_DONE \<Rightarrow> Per_Done | _ \<Rightarrow> Per_Busy)"

definition ahb_hq :: "ahb_host \<Rightarrow> chain" where "ahb_hq h = (fst (ab_ack_q h), snd (ab_ack_q h), ab_ack_sync h)"
definition ahb_pq :: "ahb_wb \<Rightarrow> chain" where "ahb_pq w = (fst (bb_req_q w), snd (bb_req_q w), bb_req_sync w)"

definition ahb_hpay :: "ahb_host \<Rightarrow> wb_host" where
  "ahb_hpay h = \<lparr>wb_adr = ab_haddr h, wb_dat = ab_hwdata h, wb_sel = ab_sel h, wb_we = ab_hwrite h, wb_cyc = True\<rparr>"

definition ahb_ppay :: "ahb_wb \<Rightarrow> wb_host" where "ahb_ppay w = (ahb_wb_o w)\<lparr>wb_cyc := True\<rparr>"

lemmas ahb_views = ahb_hphase_def ahb_pphase_def ahb_hq_def ahb_pq_def ahb_hpay_def ahb_ppay_def ahb_wb_o_def chain_last_def chain_shift_def

interpretation ahb: four_phase ahb_host_next ahb_wb_next ahb_hphase ab_req ahb_hq ahb_hpay ab_hrdata
  ahb_pphase bb_ack ahb_pq ahb_ppay bb_hrdata_reg
proof unfold_locales
  fix i p h
  show "ahb_hq (ahb_host_next i p h) = chain_shift (bb_ack p) (ahb_hq h)"
    by (cases "ab_state h") (simp_all add: ahb_views ahb_host_next_def Let_def)
  show "ahb_hphase (ahb_host_next i p h) = Host_Idle \<and> ab_req (ahb_host_next i p h) = ab_req h \<or>
        ahb_hphase (ahb_host_next i p h) = Host_Req \<and> ab_req (ahb_host_next i p h)" if "ahb_hphase h = Host_Idle"
    using that by (cases "ab_state h") (simp_all add: ahb_views ahb_host_next_def Let_def)
  show "ahb_hphase (ahb_host_next i p h) = Host_Req \<and> ab_req (ahb_host_next i p h) = ab_req h \<and>
        ahb_hpay (ahb_host_next i p h) = ahb_hpay h" if "ahb_hphase h = Host_Req" "\<not> chain_last (ahb_hq h)"
    using that by (cases "ab_state h") (simp_all add: ahb_views ahb_host_next_def Let_def)
  show "ahb_hphase (ahb_host_next i p h) = Host_Wait \<and> \<not> ab_req (ahb_host_next i p h) \<and>
        ab_hrdata (ahb_host_next i p h) = bb_hrdata_reg p" if "ahb_hphase h = Host_Req" "chain_last (ahb_hq h)"
    using that by (cases "ab_state h") (simp_all add: ahb_views ahb_host_next_def Let_def)
  show "ahb_hphase (ahb_host_next i p h) = (if chain_last (ahb_hq h) then Host_Wait else Host_Idle) \<and>
        ab_req (ahb_host_next i p h) = ab_req h" if "ahb_hphase h = Host_Wait"
    using that by (cases "ab_state h") (simp_all add: ahb_views ahb_host_next_def Let_def)
next
  fix j h p
  show "ahb_pq (ahb_wb_next j h p) = chain_shift (ab_req h) (ahb_pq p)"
    by (cases "bb_state p") (simp_all add: ahb_views ahb_wb_next_def Let_def)
  show "bb_ack (ahb_wb_next j h p) = bb_ack p \<and>
        (if chain_last (ahb_pq p) then ahb_pphase (ahb_wb_next j h p) = Per_Busy \<and> ahb_ppay (ahb_wb_next j h p) = ahb_hpay h
         else ahb_pphase (ahb_wb_next j h p) = Per_Idle)" if "ahb_pphase p = Per_Idle"
    using that by (cases "bb_state p") (simp_all add: ahb_views ahb_wb_next_def Let_def)
  show "ahb_ppay (ahb_wb_next j h p) = ahb_ppay p \<and>
        (ahb_pphase (ahb_wb_next j h p) = Per_Busy \<and> bb_ack (ahb_wb_next j h p) = bb_ack p \<or>
         ahb_pphase (ahb_wb_next j h p) = Per_Done \<and> bb_ack (ahb_wb_next j h p))" if "ahb_pphase p = Per_Busy"
    using that by (cases "bb_state p") (simp_all add: ahb_views ahb_wb_next_def Let_def)
  show "bb_hrdata_reg (ahb_wb_next j h p) = bb_hrdata_reg p \<and>
        (if chain_last (ahb_pq p) then ahb_pphase (ahb_wb_next j h p) = Per_Done \<and> bb_ack (ahb_wb_next j h p) = bb_ack p
         else ahb_pphase (ahb_wb_next j h p) = Per_Idle \<and> \<not> bb_ack (ahb_wb_next j h p))" if "ahb_pphase p = Per_Done"
    using that by (cases "bb_state p") (simp_all add: ahb_views ahb_wb_next_def Let_def)
qed

lemma ahb_step_eq: "ahb_step = ahb.step"
  by (simp add: ahb_step_def ahb.step_def)

lemma ahb_quiet_reset: "ahb.quiet (ahb_reset s)"
  by (simp add: ahb.quiet_def ahb_reset_def ahb_host_reset_def ahb_wb_reset_def ahb_views)

definition ahb_lines :: "ahb_host \<times> ahb_wb \<Rightarrow> bool" where
  "ahb_lines s \<longleftrightarrow> (bb_cyc (snd s) \<longleftrightarrow> bb_state (snd s) = WB_WAIT) \<and> (ab_hready (fst s) \<longleftrightarrow> ab_state (fst s) = AHB_IDLE)"

lemma ahb_lines_reset: "ahb_lines (ahb_reset s)"
  by (simp add: ahb_lines_def ahb_reset_def ahb_host_reset_def ahb_wb_reset_def)

lemma ahb_host_line:
  "(ab_hready h \<longleftrightarrow> ab_state h = AHB_IDLE) \<Longrightarrow> ab_hready (ahb_host_next i w h) \<longleftrightarrow> ab_state (ahb_host_next i w h) = AHB_IDLE"
  by (cases "ab_state h") (simp_all add: ahb_host_next_def Let_def)

lemma ahb_wb_line:
  "(bb_cyc w \<longleftrightarrow> bb_state w = WB_WAIT) \<Longrightarrow> bb_cyc (ahb_wb_next j h w) \<longleftrightarrow> bb_state (ahb_wb_next j h w) = WB_WAIT"
  by (cases "bb_state w") (simp_all add: ahb_wb_next_def Let_def)

lemma ahb_lines_step: "ahb_lines s \<Longrightarrow> ahb_lines (ahb_step e s)"
  by (simp add: ahb_lines_def ahb_step_def two_clocks_def ahb_host_line ahb_wb_line split: option.split)

lemma taken_view: "ahb_taken e s = ahb.requests e s"
  by (cases "fst e"; cases "ab_state (fst s)")
    (simp_all add: ahb_taken_def ahb.requests_def ahb.step_def two_clocks_def ahb_views ahb_host_next_def Let_def)

lemma ahb_accesses_view: "ahb_lines s \<Longrightarrow> ahb_accesses e s = ahb.served e s"
  by (cases "snd e"; cases "bb_state (snd s)")
    (simp_all add: ahb_accesses_def ahb.served_def ahb.step_def two_clocks_def ahb_views ahb_wb_next_def ahb_lines_def Let_def)

text \<open>A response taken over the link is finished once the handshake is clear again.\<close>

lemma finished_step:
  assumes "ahb_lines s"
  shows "(if ab_state (fst s) = AHB_CLEANUP then [ab_hrdata (fst s)] else []) @ ahb.answers e s =
         ahb_finished e s @ (if ab_state (fst (ahb_step e s)) = AHB_CLEANUP then [ab_hrdata (fst (ahb_step e s))] else [])"
proof -
  obtain h w where s: "s = (h, w)" by (cases s)
  have l: "ab_hready h \<longleftrightarrow> ab_state h = AHB_IDLE" using assms by (simp add: ahb_lines_def s)
  show ?thesis using l
    by (cases "fst e"; cases "ab_state h")
      (simp_all add: s ahb_finished_def ahb.answers_def ahb.step_def ahb_step_def two_clocks_def ahb_hphase_def ahb_host_next_def Let_def)
qed

lemma finished_run:
  assumes "ahb_lines s"
  shows "(if ab_state (fst s) = AHB_CLEANUP then [ab_hrdata (fst s)] else []) @ observe ahb.step ahb.answers es s =
         observe ahb_step ahb_finished es s @ (if ab_state (fst (fold ahb_step es s)) = AHB_CLEANUP then [ab_hrdata (fst (fold ahb_step es s))] else [])"
  using assms
proof (induction es arbitrary: s)
  case (Cons e es)
  have i: "(if ab_state (fst (ahb_step e s)) = AHB_CLEANUP then [ab_hrdata (fst (ahb_step e s))] else []) @ observe ahb.step ahb.answers es (ahb_step e s) =
      observe ahb_step ahb_finished es (ahb_step e s) @
      (if ab_state (fst (fold ahb_step es (ahb_step e s))) = AHB_CLEANUP then [ab_hrdata (fst (fold ahb_step es (ahb_step e s)))] else [])"
    by (rule Cons.IH [OF ahb_lines_step [OF Cons.prems]])
  show ?case unfolding observe.simps fold.simps o_apply append_assoc
    using finished_step [OF Cons.prems, of e] i by (metis append_assoc ahb_step_eq)
qed simp

lemma ahb_observed:
  "observe ahb_step ahb_taken es (ahb_reset s) = observe ahb.step ahb.requests es (ahb_reset s)"
  "observe ahb_step ahb_accesses es (ahb_reset s) = observe ahb.step ahb.served es (ahb_reset s)"
proof -
  have "observe ahb_step out es (ahb_reset s) = observe ahb.step out' es (ahb_reset s)"
    if "\<And>e t. ahb_lines t \<Longrightarrow> out e t = out' e t" for out out' :: "_ \<Rightarrow> _ \<Rightarrow> 'z list"
    unfolding ahb_step_eq [symmetric]
    by (rule observe_cong_inv [where I = ahb_lines]) (simp_all add: ahb_lines_reset ahb_lines_step that)
  from this [of ahb_taken ahb.requests] this [of ahb_accesses ahb.served]
  show "observe ahb_step ahb_taken es (ahb_reset s) = observe ahb.step ahb.requests es (ahb_reset s)"
    and "observe ahb_step ahb_accesses es (ahb_reset s) = observe ahb.step ahb.served es (ahb_reset s)"
    by (simp_all add: taken_view ahb_accesses_view)
qed

subsection \<open>Every transfer is one access\<close>

lemma busy_until_wb_ack:
  assumes "ahb.link rs ds ans s" and "ahb_hphase (fst s) = Host_Req" and "ahb_pphase (snd s) = Per_Busy"
    and "\<exists>xs e ys. es = xs @ e # ys \<and> (bb_state (snd s) = WB_START \<longrightarrow> 0 < per_edges xs) \<and> (\<exists>p. snd e = Some p \<and> per_ack p)"
  shows "\<exists>es1 es2. es = es1 @ es2 \<and> ahb_hphase (fst (fold ahb_step es1 s)) = Host_Req \<and> ahb_pphase (snd (fold ahb_step es1 s)) = Per_Done"
  using assms
proof (induction es arbitrary: rs ds ans s)
  case (Cons e es)
  obtain h p where s: "s = (h, p)" by (cases s)
  note l = Cons.prems(1) [unfolded s] and r = Cons.prems(2,3) [unfolded s fst_conv snd_conv]
  from l r have c: "\<not> chain_last (ahb_hq h)" by (cases rule: ahb.linkE; simp)
  have h: "ahb_hphase (fst (ahb_step e s)) = Host_Req"
    using ahb.h_req [OF r(1) c] r(1) by (cases "fst e") (simp_all add: ahb_step_def two_clocks_def s)
  have l': "ahb.link (rs @ ahb.requests e s) (ds @ ahb.served e s) (ans @ ahb.answers e s) (ahb_step e s)"
    unfolding ahb_step_eq by (rule ahb.link_step [OF Cons.prems(1)])
  have b: "ahb_pphase (snd (ahb_step e s)) = (if bb_state p = WB_WAIT \<and> (\<exists>q. snd e = Some q \<and> per_ack q) then Per_Done else Per_Busy)"
    "bb_state (snd (ahb_step e s)) = WB_START \<longrightarrow> bb_state p = WB_START \<and> snd e = None"
    using r(2) by (cases "bb_state p"; cases "snd e"; auto simp: ahb_step_def two_clocks_def s ahb_pphase_def ahb_wb_next_def Let_def)+
  show ?case
  proof (cases "ahb_pphase (snd (ahb_step e s)) = Per_Done")
    case True
    then show ?thesis using h by (intro exI [of _ "[e]"] exI [of _ es]) simp
  next
    case False
    then have n: "ahb_pphase (snd (ahb_step e s)) = Per_Busy" "bb_state p = WB_WAIT \<Longrightarrow> \<not> (\<exists>q. snd e = Some q \<and> per_ack q)"
      using b(1) by (auto split: if_splits)
    obtain xs e' ys where d: "e # es = xs @ e' # ys" "bb_state p = WB_START \<longrightarrow> 0 < per_edges xs" "\<exists>q. snd e' = Some q \<and> per_ack q"
      using Cons.prems(4) s by auto
    have "xs \<noteq> []"
    proof
      assume "xs = []"
      then have "e' = e" "bb_state p \<noteq> WB_START" using d by auto
      moreover have "bb_state p = WB_START \<or> bb_state p = WB_WAIT" using r(2) by (cases "bb_state p") (simp_all add: ahb_pphase_def)
      ultimately show False using n(2) d(3) by auto
    qed
    then obtain xs' where x: "xs = e # xs'" "es = xs' @ e' # ys" using d(1) by (cases xs) auto
    have "bb_state (snd (ahb_step e s)) = WB_START \<longrightarrow> 0 < per_edges xs'" using b(2) d(2) x(1) by auto
    with x(2) d(3) have "\<exists>xs e' ys. es = xs @ e' # ys \<and> (bb_state (snd (ahb_step e s)) = WB_START \<longrightarrow> 0 < per_edges xs) \<and> (\<exists>q. snd e' = Some q \<and> per_ack q)"
      by blast
    from Cons.IH [OF l' h n(1) this] obtain es1 es2 where "es = es1 @ es2"
      "ahb_hphase (fst (fold ahb_step es1 (ahb_step e s))) = Host_Req" "ahb_pphase (snd (fold ahb_step es1 (ahb_step e s))) = Per_Done" by blast
    then show ?thesis by (intro exI [of _ "e # es1"] exI [of _ es2]) simp
  qed
qed simp

lemma ahb_serves:
  assumes "0 < per_edges es" and "\<exists>e \<in> set es'. \<exists>p. snd e = Some p \<and> per_ack p"
  shows "ahb.serves (es @ es')"
  unfolding ahb.serves_def
proof (intro allI impI)
  fix rs ds ans s es0
  assume a: "ahb.link rs ds ans s" "ahb_hphase (fst s) = Host_Req" "ahb_pphase (snd s) = Per_Busy"
  obtain xs e ys where e: "es' = xs @ e # ys" "\<exists>p. snd e = Some p \<and> per_ack p" using assms(2) by (meson split_list)
  have "es0 @ es @ es' = (es0 @ es @ xs) @ e # ys" "0 < per_edges (es0 @ es @ xs)" using e assms(1) by simp_all
  with e(2) have "\<exists>xs e ys. es0 @ es @ es' = xs @ e # ys \<and> (bb_state (snd s) = WB_START \<longrightarrow> 0 < per_edges xs) \<and> (\<exists>p. snd e = Some p \<and> per_ack p)"
    by blast
  from busy_until_wb_ack [OF a this]
  show "\<exists>es1 es2. es0 @ es @ es' = es1 @ es2 \<and> ahb_hphase (fst (fold ahb.step es1 s)) = Host_Req \<and> ahb_pphase (snd (fold ahb.step es1 s)) = Per_Done"
    unfolding ahb_step_eq .
qed

lemma ahb_answers:
  assumes "ab_state (fst (fold ahb_step es (ahb_reset s))) = AHB_WAIT_ACK"
    and "5 \<le> per_edges es1" and "\<exists>e \<in> set es2. \<exists>p. snd e = Some p \<and> per_ack p" and "4 \<le> host_edges es3"
  shows "length (observe ahb.step ahb.answers es (ahb_reset s)) < length (observe ahb.step ahb.answers (es @ es1 @ es2 @ es3) (ahb_reset s))"
proof -
  let ?t = "fold ahb.step es (ahb_reset s)"
  have r: "ahb_hphase (fst ?t) = Host_Req" using assms(1) by (simp add: ahb_hphase_def flip: ahb_step_eq)
  obtain xs ys where "es1 = xs @ ys" "per_edges xs = 4" using split_per_edges [of 4 es1] assms(2) by auto
  then have x: "es1 = xs @ ys" "4 \<le> per_edges xs" "0 < per_edges ys" using assms(2) by simp_all
  have "observe ahb.step ahb.answers (xs @ (ys @ es2) @ es3) ?t \<noteq> []"
    by (rule ahb.answered [OF ahb.link_run_quiet [OF ahb_quiet_reset [of s]] r x(2) ahb_serves [OF x(3) assms(3)] assms(4)])
  then show ?thesis by (simp only: observe_append [of _ _ es] length_append x(1)) simp
qed

lemma ahb_taken_once:
  "\<exists>waiting undelivered.
     observe ahb_step ahb_taken es (ahb_reset s) = map fst (observe ahb_step ahb_accesses es (ahb_reset s)) @ waiting \<and>
     map snd (observe ahb_step ahb_accesses es (ahb_reset s)) = observe ahb_step ahb_finished es (ahb_reset s) @ undelivered \<and>
     length waiting + length undelivered \<le> 1"
proof -
  let ?t = "fold ahb.step es (ahb_reset s)"
  let ?as = "observe ahb.step ahb.answers es (ahb_reset s)" and ?fs = "observe ahb_step ahb_finished es (ahb_reset s)"
  obtain h w where t: "?t = (h, w)" by (cases ?t)
  have a: "?as = ?fs @ (if ab_state h = AHB_CLEANUP then [ab_hrdata h] else [])"
    using finished_run [OF ahb_lines_reset, of s es] t by (simp add: ahb_reset_def ahb_host_reset_def ahb_step_eq)
  have l: "ahb.link (observe ahb.step ahb.requests es (ahb_reset s)) (observe ahb.step ahb.served es (ahb_reset s)) ?as (h, w)"
    using ahb.link_run_quiet [OF ahb_quiet_reset, of es s] by (simp add: t)
  have c: "ahb_hphase h = Host_Wait \<longleftrightarrow> ab_state h = AHB_CLEANUP" by (cases "ab_state h") (simp_all add: ahb_hphase_def)
  note o = ahb_observed [of es s]
  from l show ?thesis
  proof (cases rule: ahb.linkE)
    case quiet
    then show ?thesis using a c o by (intro exI [of _ "[]"]) simp
  next
    case asked
    then show ?thesis using a c o by (intro exI [of _ "[ahb_hpay h]"] exI [of _ "[]"]) simp
  next
    case busy
    then show ?thesis using a c o by (intro exI [of _ "[ahb_hpay h]"] exI [of _ "[]"]) simp
  next
    case served
    then show ?thesis using a c o by (intro exI [of _ "[]"] exI [of _ "[bb_hrdata_reg w]"]) simp
  next
    case answered
    then show ?thesis using a c o by (intro exI [of _ "[]"] exI [of _ "[ab_hrdata h]"]) simp
  next
    case clearing
    then show ?thesis using a c o by (intro exI [of _ "[]"] exI [of _ "[ab_hrdata h]"]) simp
  qed
qed

text \<open>Then the AHB becomes ready again: the handshake clears, and with it \<open>ahb_hready\<close> comes up.\<close>

lemma ahb_run_facts:
  "ahb_lines (fold ahb_step es (ahb_reset s))"
  "ahb.link (observe ahb.step ahb.requests es (ahb_reset s)) (observe ahb.step ahb.served es (ahb_reset s))
     (observe ahb.step ahb.answers es (ahb_reset s)) (fold ahb_step es (ahb_reset s))"
  using fold_inv [of ahb_lines "ahb_reset s" ahb_step] ahb_lines_reset ahb_lines_step ahb.link_run_quiet [OF ahb_quiet_reset]
  by (simp_all add: ahb_step_eq)

lemma ahb_cleanup_finishes:
  assumes "ab_state (fst (fold ahb_step es (ahb_reset s))) = AHB_CLEANUP" and "4 \<le> per_edges es1" and "4 \<le> host_edges es2"
  shows "observe ahb_step ahb_finished (es1 @ es2) (fold ahb_step es (ahb_reset s)) \<noteq> []"
proof -
  let ?u = "fold ahb_step es (ahb_reset s)"
  have u: "ahb_hphase (fst ?u) = Host_Wait" using assms(1) by (simp add: ahb_hphase_def)
  obtain zs ws where z: "es1 @ es2 = zs @ ws" "ahb_hphase (fst (fold ahb_step zs ?u)) = Host_Idle"
    using ahb.cleared [OF ahb_run_facts(2) u assms(2,3)] unfolding ahb_step_eq by auto
  have "ab_state (fst (fold ahb_step zs ?u)) \<noteq> AHB_CLEANUP" using z(2) by (auto simp: ahb_hphase_def)
  with finished_run [OF ahb_run_facts(1) [of es s], of zs] assms(1) have "observe ahb_step ahb_finished zs ?u \<noteq> []" by (auto split: if_splits)
  then show ?thesis by (simp add: z(1) observe_append)
qed

lemma ahb_finishes:
  assumes "ab_state (fst (fold ahb_step es (ahb_reset s))) = AHB_WAIT_ACK"
    and "5 \<le> per_edges es1" and "\<exists>e \<in> set es2. \<exists>p. snd e = Some p \<and> per_ack p" and "4 \<le> host_edges es3"
    and "4 \<le> per_edges es4" and "4 \<le> host_edges es5"
  shows "observe ahb_step ahb_finished (es1 @ es2 @ es3 @ es4 @ es5) (fold ahb_step es (ahb_reset s)) \<noteq> []"
proof -
  let ?t = "fold ahb_step es (ahb_reset s)"
  have "observe ahb.step ahb.answers (es1 @ es2 @ es3) ?t \<noteq> []"
    using ahb_answers [OF assms(1-4)] by (simp add: observe_append [of _ _ es] ahb_step_eq)
  then obtain x where "x \<in> set (observe ahb.step ahb.answers (es1 @ es2 @ es3) ?t)" by (meson last_in_set)
  then obtain xs e ys where x: "es1 @ es2 @ es3 = xs @ e # ys" "x \<in> set (ahb.answers e (fold ahb.step xs ?t))" by (auto dest: set_observe)
  have "ahb_hphase (fst (fold ahb_step (es @ xs @ [e]) (ahb_reset s))) = Host_Wait" using x(2) by (simp add: ahb.answers_def ahb_step_eq split: if_splits)
  then have c: "ab_state (fst (fold ahb_step (es @ xs @ [e]) (ahb_reset s))) = AHB_CLEANUP"
    by (cases "ab_state (fst (fold ahb_step (es @ xs @ [e]) (ahb_reset s)))") (simp_all add: ahb_hphase_def)
  have "observe ahb_step ahb_finished ((ys @ es4) @ es5) (fold ahb_step (es @ xs @ [e]) (ahb_reset s)) \<noteq> []"
    by (rule ahb_cleanup_finishes [OF c]) (use assms(5,6) in simp_all)
  moreover have "es1 @ es2 @ es3 @ es4 @ es5 = (xs @ [e]) @ (ys @ es4) @ es5" using x(1) by (metis append.assoc append_Cons append_Nil)
  ultimately show ?thesis by (simp only: observe_append fold_append o_apply) simp
qed

lemma finished_ready:
  assumes "observe ahb_step ahb_finished es t \<noteq> []"
  shows "\<exists>xs ys. es = xs @ ys \<and> ab_hready (fst (fold ahb_step xs t))"
proof -
  obtain x where "x \<in> set (observe ahb_step ahb_finished es t)" using assms by (meson last_in_set)
  then obtain xs e ys where x: "es = xs @ e # ys" "x \<in> set (ahb_finished e (fold ahb_step xs t))" by (auto dest: set_observe)
  then show ?thesis by (intro exI [of _ "xs @ [e]"] exI [of _ ys]) (auto simp: ahb_finished_def split: if_splits)
qed

lemma first_host_edge:
  "0 < host_edges es \<Longrightarrow> \<exists>xs i j ys. es = xs @ (Some i, j) # ys \<and> fst (fold ahb_step xs t) = fst t"
proof (induction es arbitrary: t)
  case (Cons e es)
  show ?case
  proof (cases "fst e")
    case None
    with Cons.prems have "0 < host_edges es" by (cases e) (simp add: host_edges_def)
    from Cons.IH [OF this, of "ahb_step e t"] obtain xs i j ys where "es = xs @ (Some i, j) # ys"
      "fst (fold ahb_step xs (ahb_step e t)) = fst (ahb_step e t)" by blast
    moreover have "fst (ahb_step e t) = fst t" using None by (simp add: ahb_step_def two_clocks_def)
    ultimately have "e # es = (e # xs) @ (Some i, j) # ys \<and> fst (fold ahb_step (e # xs) t) = fst t" by simp
    then show ?thesis by blast
  next
    case (Some i)
    then have "e # es = [] @ (Some i, snd e) # es \<and> fst (fold ahb_step [] t) = fst t" by (cases e) simp
    then show ?thesis by blast
  qed
qed (simp add: host_edges_def)

lemma ahb_ready_again:
  assumes "0 < host_edges es0" and "5 \<le> per_edges es1" and "\<exists>e \<in> set es2. \<exists>p. snd e = Some p \<and> per_ack p" and "4 \<le> host_edges es3"
    and "4 \<le> per_edges es4" and "4 \<le> host_edges es5"
  shows "\<exists>xs ys. es0 @ es1 @ es2 @ es3 @ es4 @ es5 = xs @ ys \<and> ab_hready (fst (fold ahb_step xs (fold ahb_step es (ahb_reset s))))"
proof -
  let ?t = "fold ahb_step es (ahb_reset s)"
  show ?thesis
  proof (cases "ab_state (fst ?t)")
    case AHB_IDLE
    then have "ab_hready (fst ?t)" using ahb_run_facts(1) [of es s] by (simp add: ahb_lines_def)
    then show ?thesis by (intro exI [of _ "[]"] exI [of _ "es0 @ es1 @ es2 @ es3 @ es4 @ es5"]) simp
  next
    case AHB_DATA_PHASE
    obtain xs i j ys where x: "es0 = xs @ (Some i, j) # ys" "fst (fold ahb_step xs ?t) = fst ?t"
      using first_host_edge [OF assms(1), of ?t] by blast
    let ?es = "es @ xs @ [(Some i, j)]"
    have w: "ab_state (fst (fold ahb_step ?es (ahb_reset s))) = AHB_WAIT_ACK"
      using AHB_DATA_PHASE x(2) by (simp add: ahb_step_def two_clocks_def ahb_host_next_def Let_def)
    have "5 \<le> per_edges (ys @ es1)" using assms(2) by simp
    from finished_ready [OF ahb_finishes [OF w this assms(3-6)]] obtain zs ws where
      "(ys @ es1) @ es2 @ es3 @ es4 @ es5 = zs @ ws" "ab_hready (fst (fold ahb_step zs (fold ahb_step ?es (ahb_reset s))))" by blast
    then show ?thesis by (intro exI [of _ "xs @ (Some i, j) # zs"] exI [of _ ws]) (simp add: x(1))
  next
    case AHB_WAIT_ACK
    have "5 \<le> per_edges (es0 @ es1)" using assms(2) by simp
    from finished_ready [OF ahb_finishes [OF AHB_WAIT_ACK this assms(3-6)]] show ?thesis by simp
  next
    case AHB_CLEANUP
    have "4 \<le> per_edges (es0 @ es1 @ es2 @ es3 @ es4)" using assms(5) by simp
    from finished_ready [OF ahb_cleanup_finishes [OF AHB_CLEANUP this assms(6)]] show ?thesis by simp
  qed
qed

text \<open>Both sides at rest, and an instant at which both clocks have an edge and the memory acknowledges.\<close>

definition ahb_zero :: "ahb_host \<times> ahb_wb" where
  "ahb_zero = (\<lparr>ab_state = AHB_IDLE, ab_haddr = 0, ab_hwdata = 0, ab_hwrite = False, ab_hready = True, ab_hrdata = 0, ab_req = False,
     ab_ack_sync = False, ab_ack_q = (False, False), ab_sel = 15\<rparr>,
    \<lparr>bb_state = WB_IDLE, bb_req_sync = False, bb_req_q = (False, False), bb_ack = False, bb_adr = 0, bb_dat = 0, bb_we = False,
     bb_cyc = False, bb_hrdata_reg = 0, bb_sel = 15\<rparr>)"

definition ahb_tick :: "ahb_slv_in \<Rightarrow> u32 \<Rightarrow> ahb_slv_in option \<times> wb_per option" where
  "ahb_tick i dat = (Some i, Some \<lparr>per_rdt = dat, per_ack = True\<rparr>)"

subsection \<open>Stores of less than a word\<close>

text \<open>The strobes of an aligned transfer are the bytes it has, counted from its address.\<close>

lemma ahb_strobes_lanes:
  assumes "unat hsize \<le> 2" and "2 ^ unat hsize dvd unat haddr" and "k < 4"
  shows "bit (ahb_strobes hsize haddr) k \<longleftrightarrow> unat haddr mod 4 \<le> k \<and> k < unat haddr mod 4 + 2 ^ unat hsize"
proof -
  have t: "take_bit 2 hsize = hsize"
  proof -
    have "unat hsize = 0 \<or> unat hsize = 1 \<or> unat hsize = 2" using assms(1) by linarith
    then have "hsize = 0 \<or> hsize = 1 \<or> hsize = 2" by (auto simp: word_unat_eq_iff)
    then show ?thesis by (elim disjE) simp_all
  qed
  have u: "unat (of_nat k :: u32) = k" if "k < 4" for k using that by (simp add: unat_of_nat)
  have "unat (take_bit 2 haddr) = unat haddr mod 4" by (simp add: take_bit_eq_mod unat_mod)
  then have a: "take_bit 2 haddr = of_nat (unat haddr mod 4)" using u [of "unat haddr mod 4"] by (simp only: word_unat_eq_iff mod_less_divisor zero_less_numeral)
  have b: "bit haddr 1 \<longleftrightarrow> 2 \<le> unat haddr mod 4"
  proof -
    have "bit haddr 1 \<longleftrightarrow> bit (unat haddr) 1" by (simp add: bit_unsigned_iff)
    then have "bit haddr 1 \<longleftrightarrow> odd (unat haddr div 2)" by (simp add: bit_iff_odd)
    then show ?thesis by presburger
  qed
  have n: "k = 0 \<or> k = 1 \<or> k = 2 \<or> k = 3" using assms(3) by linarith
  have m: "unat haddr mod 4 = 0 \<or> unat haddr mod 4 = 1 \<or> unat haddr mod 4 = 2 \<or> unat haddr mod 4 = 3" by linarith
  consider "hsize = 0" | "hsize = 1" "even (unat haddr)" | "hsize = 2" "4 dvd unat haddr"
  proof -
    have "unat hsize = 0 \<or> unat hsize = 1 \<or> unat hsize = 2" using assms(1) by linarith
    then show ?thesis using that assms(2) by (elim disjE) (auto simp: word_unat_eq_iff)
  qed
  then show ?thesis
  proof cases
    case 1
    then show ?thesis using m n by (elim disjE) (simp_all add: ahb_strobes_def t a)
  next
    case 2
    then have "unat haddr mod 4 = 0 \<or> unat haddr mod 4 = 2" by presburger
    then show ?thesis using 2 n b by (elim disjE) (simp_all add: ahb_strobes_def t)
  next
    case 3
    then have "unat haddr mod 4 = 0" by presburger
    then show ?thesis using 3 n by (elim disjE) (simp_all add: ahb_strobes_def t)
  qed
qed

text \<open>
  C17: A store of a byte, a halfword or a word changes exactly its bytes: of the word of memory its address lies in, those
  from the address on, as many as the transfer has; each gets the byte the core has put on its lane.
\<close>

theorem ahb_store_changes_its_bytes:
  assumes "unat hsize \<le> 2" and "2 ^ unat hsize dvd unat haddr" and "n < 32"
  shows "bit (lane_merge old dat (ahb_strobes hsize haddr)) n =
    (if unat haddr mod 4 \<le> n div 8 \<and> n div 8 < unat haddr mod 4 + 2 ^ unat hsize then bit dat n else bit old n)"
proof -
  have "n div 8 < 4" using assms(3) by simp
  from bit_lane_merge [OF assms(3), of old dat "ahb_strobes hsize haddr"] ahb_strobes_lanes [OF assms(1,2) this] show ?thesis by simp
qed

text \<open>A byte stored at the end of a word.\<close>

theorem ahb_store_changes_its_bytes_witness:
  "bit (lane_merge 0 0x5A5A5A5A (ahb_strobes 0 0x1003)) 25 \<and> \<not> bit (lane_merge 0 0x5A5A5A5A (ahb_strobes 0 0x1003)) 17"
  using ahb_store_changes_its_bytes [of 0 "0x1003" 25 0 "0x5A5A5A5A"] ahb_store_changes_its_bytes [of 0 "0x1003" 17 0 "0x5A5A5A5A"]
  by simp

end
