(* ===== verification/AhbBus.thy ===== *)
theory AhbBus
  imports AhbBridge
begin

text \<open>
  The bridge \<open>AhbBridge\<close> on its AHB bus. What is a transfer is said here by the rules of the bus alone, by an observer
  that sees what every slave sees: an address is accepted at an edge at which the bus is ready, and its
  transfer ends, with its data, at the next edge at which the bus is ready. The theorems: when the bus keeps its rules and no
  other slave stretches a transfer while the bridge is addressed, every transfer becomes exactly one
  Wishbone access; and when another slave does, a write is made with data that is not its own.
\<close>

subsection \<open>Transfers on the bus\<close>

text \<open>
  The transfer under way: the inputs at the edge that accepted its address and, once there has been an edge since, the
  write data at the first.
\<close>

type_synonym ahb_current = "(ahb_slv_in \<times> u32 option) option"

text \<open>The types of transfer that transfer are the two with bit 1 set, NONSEQ and SEQ.\<close>

definition ahb_accepts :: "ahb_slv_in \<Rightarrow> bool" where
  "ahb_accepts i \<longleftrightarrow> hs_hsel i \<and> bit (hs_htrans i) 1"

definition ahb_current_next :: "ahb_slv_in \<Rightarrow> ahb_current \<Rightarrow> ahb_current" where
  "ahb_current_next i m =
     (if hs_hready i then (if ahb_accepts i then Some (i, None) else None)
      else case m of Some (a, None) \<Rightarrow> Some (a, Some (hs_hwdata i)) | _ \<Rightarrow> m)"

text \<open>Bus and bridge together.\<close>

definition ahb_bus_step :: "ahb_slv_in option \<times> wb_per option \<Rightarrow> ahb_current \<times> ahb_host \<times> ahb_wb \<Rightarrow> ahb_current \<times> ahb_host \<times> ahb_wb" where
  "ahb_bus_step e b = (case fst e of None \<Rightarrow> fst b | Some i \<Rightarrow> ahb_current_next i (fst b), ahb_step e (snd b))"

text \<open>A transfer that ends: the inputs at its address, the write data of the master and the read data of the bridge.\<close>

definition ahb_ended :: "ahb_slv_in option \<times> wb_per option \<Rightarrow> ahb_current \<times> ahb_host \<times> ahb_wb \<Rightarrow> (ahb_slv_in \<times> u32 \<times> u32) list" where
  "ahb_ended e b =
     (case (fst e, fst b) of
        (Some i, Some (a, _)) \<Rightarrow> if hs_hready i then [(a, hs_hwdata i, ab_hrdata (fst (snd b)))] else []
      | _ \<Rightarrow> [])"

text \<open>
  The rules. While a transfer with the bridge is under way, the ready of the bus is the bridge's, and the master does not
  change the data of a write. And one condition more: when the bridge is addressed and no transfer with it is under
  way, the bus is ready, so no other slave stretches a transfer then.
\<close>

definition ahb_rules :: "ahb_slv_in option \<times> wb_per option \<Rightarrow> ahb_current \<times> ahb_host \<times> ahb_wb \<Rightarrow> bool" where
  "ahb_rules e b \<longleftrightarrow>
     (case fst e of None \<Rightarrow> True
      | Some i \<Rightarrow>
          (case fst b of None \<Rightarrow> ahb_accepts i \<longrightarrow> hs_hready i
           | Some (a, d) \<Rightarrow> hs_hready i = ab_hready (fst (snd b)) \<and> (hs_hwrite a \<and> d \<noteq> None \<longrightarrow> d = Some (hs_hwdata i))))"

primrec ahb_legal :: "(ahb_slv_in option \<times> wb_per option) list \<Rightarrow> ahb_current \<times> ahb_host \<times> ahb_wb \<Rightarrow> bool" where
  "ahb_legal [] b = True"
| "ahb_legal (e # es) b = (ahb_rules e b \<and> ahb_legal es (ahb_bus_step e b))"

text \<open>
  An access is the one for a transfer: the address, the direction, the bytes that the size and the address name and,
  for a write, the data.
\<close>

definition ahb_is_for :: "wb_host \<Rightarrow> ahb_slv_in \<Rightarrow> u32 \<Rightarrow> bool" where
  "ahb_is_for x a d \<longleftrightarrow>
     wb_adr x = hs_haddr a \<and> wb_we x = hs_hwrite a \<and> (hs_hwrite a \<longrightarrow> wb_dat x = d) \<and>
     (unat (hs_hsize a) \<le> 2 \<and> 2 ^ unat (hs_hsize a) dvd unat (hs_haddr a) \<longrightarrow>
       (\<forall>k<4. bit (wb_sel x) k \<longleftrightarrow> unat (hs_haddr a) mod 4 \<le> k \<and> k < unat (hs_haddr a) mod 4 + 2 ^ unat (hs_hsize a)))"

lemma ahb_accepts_selected: "ahb_accepts i = ahb_selected i"
proof -
  have "bit t 1 \<longleftrightarrow> t = 2 \<or> t = 3" for t :: "2 word"
  proof -
    have "unat t < 2 ^ LENGTH(2)" by (rule unsigned_less)
    then have "unat t = 0 \<or> unat t = 1 \<or> unat t = 2 \<or> unat t = 3" by simp linarith
    then have "t = 0 \<or> t = 1 \<or> t = 2 \<or> t = 3" by (simp add: word_unat_eq_iff)
    then show ?thesis by (elim disjE) simp_all
  qed
  then show ?thesis by (simp add: ahb_accepts_def ahb_selected_def HTRANS_NONSEQ_def HTRANS_SEQ_def)
qed

lemma ahb_is_forI:
  "ahb_is_for \<lparr>wb_adr = hs_haddr a, wb_dat = x, wb_sel = ahb_strobes (hs_hsize a) (hs_haddr a), wb_we = hs_hwrite a, wb_cyc = c\<rparr> a d"
  if "hs_hwrite a \<longrightarrow> x = d"
  using that ahb_strobes_lanes by (simp add: ahb_is_for_def)

lemma ahb_bus_run: "snd (fold ahb_bus_step es b) = fold ahb_step es (snd b)"
  by (induction es arbitrary: b) (simp_all add: ahb_bus_step_def)

lemma ahb_legal_append: "ahb_legal (es @ es') b \<longleftrightarrow> ahb_legal es b \<and> ahb_legal es' (fold ahb_bus_step es b)"
  by (induction es arbitrary: b) simp_all

text \<open>
  How bus and bridge stand to each other: the requests the bridge has made so far, the read data with which it has
  become ready, and the transfers that have ended.
\<close>

definition ahb_done :: "wb_host list \<Rightarrow> u32 list \<Rightarrow> (ahb_slv_in \<times> u32 \<times> u32) list \<Rightarrow> bool" where
  "ahb_done rs fs ts \<longleftrightarrow> list_all2 (\<lambda>x (a, d, _). ahb_is_for x a d) rs ts \<and> fs = map (\<lambda>(_, _, r). r) ts"

definition ahb_follows :: "wb_host list \<Rightarrow> u32 list \<Rightarrow> (ahb_slv_in \<times> u32 \<times> u32) list \<Rightarrow> ahb_current \<Rightarrow> ahb_host \<Rightarrow> bool" where
  "ahb_follows rs fs ts m h \<longleftrightarrow>
     (case m of
        None \<Rightarrow> ab_state h = AHB_IDLE \<and> ahb_done rs fs ts
      | Some (a, d) \<Rightarrow>
          if ab_state h = AHB_DATA_PHASE
          then d = None \<and> hs_hwrite a \<and> ab_haddr h = hs_haddr a \<and> ab_hwrite h \<and> ab_sel h = ahb_strobes (hs_hsize a) (hs_haddr a) \<and>
               ahb_done rs fs ts
          else \<exists>x v qs gs. rs = qs @ [x] \<and> ahb_is_for x a v \<and> (hs_hwrite a \<longrightarrow> d = Some v) \<and>
               fs = gs @ (if ab_state h = AHB_IDLE then [ab_hrdata h] else []) \<and> ahb_done qs gs ts)"

lemma ahb_done_snoc: "ahb_done qs gs ts \<Longrightarrow> ahb_is_for x a v \<Longrightarrow> ahb_done (qs @ [x]) (gs @ [r]) (ts @ [(a, v, r)])"
  by (auto simp: ahb_done_def intro: list_all2_appendI)

text \<open>An edge at which the bridge is idle: the transfers that have ended are those it has made requests for.\<close>

lemma follows_idle:
  assumes "ab_state h = AHB_IDLE" and "ab_hready h" and "ahb_done rs fs ts" and "ahb_accepts i \<longrightarrow> hs_hready i"
  shows "ahb_follows (rs @ ahb_taken (Some i, j) (h, w)) (fs @ ahb_finished (Some i, j) (h, w)) ts
           (if hs_hready i \<and> ahb_accepts i then Some (i, None) else None) (ahb_host_next i w h)"
proof (cases "ahb_accepts i")
  case False
  then show ?thesis using assms
    by (simp add: ahb_accepts_selected ahb_follows_def ahb_taken_def ahb_finished_def ahb_step_def two_clocks_def ahb_host_next_def Let_def)
next
  case True
  note d = ahb_taken_def ahb_finished_def ahb_step_def two_clocks_def ahb_host_next_def Let_def
  show ?thesis
  proof (cases "hs_hwrite i")
    case True
    then show ?thesis using assms \<open>ahb_accepts i\<close> by (simp add: ahb_accepts_selected ahb_follows_def d)
  next
    case False
    let ?x = "\<lparr>wb_adr = hs_haddr i, wb_dat = ab_hwdata h, wb_sel = ahb_strobes (hs_hsize i) (hs_haddr i), wb_we = False, wb_cyc = True\<rparr>"
    have "ahb_is_for ?x i 0" using ahb_is_forI [of i "ab_hwdata h" 0 True] False by simp
    moreover have t: "ahb_taken (Some i, j) (h, w) = [?x]" "ahb_finished (Some i, j) (h, w) = []"
      "ab_state (ahb_host_next i w h) = AHB_WAIT_ACK"
      using assms False \<open>ahb_accepts i\<close> by (simp_all add: ahb_accepts_selected d)
    ultimately show ?thesis using assms False \<open>ahb_accepts i\<close>
      unfolding ahb_follows_def t by (auto intro!: exI [of _ ?x] exI [of _ 0] exI [of _ rs] exI [of _ fs])
  qed
qed

lemma follows_step:
  assumes "ahb_follows rs fs ts m h" and "ahb_lines (h, w)" and "ahb_rules e (m, h, w)"
  shows "ahb_follows (rs @ ahb_taken e (h, w)) (fs @ ahb_finished e (h, w)) (ts @ ahb_ended e (m, h, w))
           (fst (ahb_bus_step e (m, h, w))) (fst (ahb_step e (h, w)))"
proof (cases "fst e")
  case None
  then show ?thesis using assms(1)
    by (simp add: ahb_taken_def ahb_finished_def ahb_ended_def ahb_bus_step_def ahb_step_def two_clocks_def)
next
  case (Some i)
  then obtain j where e: "e = (Some i, j)" by (cases e) simp
  have st: "fst (ahb_bus_step e (m, h, w)) = ahb_current_next i m" "fst (ahb_step e (h, w)) = ahb_host_next i w h"
    by (simp_all add: e ahb_bus_step_def ahb_step_def two_clocks_def)
  have l: "ab_hready h \<longleftrightarrow> ab_state h = AHB_IDLE" using assms(2) by (simp add: ahb_lines_def)
  show ?thesis
  proof (cases m)
    case None
    have h: "ab_state h = AHB_IDLE" "ahb_done rs fs ts" using assms(1) None by (simp_all add: ahb_follows_def)
    have "ahb_accepts i \<longrightarrow> hs_hready i" using assms(3) None e by (simp add: ahb_rules_def)
    from follows_idle [OF h(1) _ h(2) this, of j w] l h(1) show ?thesis
      unfolding st by (cases "ahb_accepts i"; cases "hs_hready i") (simp_all add: ahb_current_next_def None ahb_ended_def e)
  next
    case m: (Some ad)
    obtain a d where ad: "ad = (a, d)" by (cases ad)
    have r: "hs_hready i \<longleftrightarrow> ab_state h = AHB_IDLE" "hs_hwrite a \<and> d \<noteq> None \<longrightarrow> d = Some (hs_hwdata i)"
      using assms(3) l by (simp_all add: ahb_rules_def m ad e)
    note d = ahb_taken_def ahb_finished_def ahb_ended_def ahb_step_def two_clocks_def ahb_host_next_def Let_def
    show ?thesis
    proof (cases "ab_state h = AHB_IDLE")
      case True
      obtain x v qs gs where o: "rs = qs @ [x]" "ahb_is_for x a v" "hs_hwrite a \<longrightarrow> d = Some v" "fs = gs @ [ab_hrdata h]" "ahb_done qs gs ts"
        using assms(1) True by (auto simp: ahb_follows_def m ad)
      have "ahb_is_for x a (hs_hwdata i)" using o(2,3) r(2) by (auto simp: ahb_is_for_def)
      from ahb_done_snoc [OF o(5) this] have "ahb_done rs fs (ts @ [(a, hs_hwdata i, ab_hrdata h)])" by (simp add: o(1,4))
      from follows_idle [OF True _ this, of i j w] l r(1) True show ?thesis
        unfolding st by (cases "ahb_accepts i") (simp_all add: ahb_current_next_def m ad ahb_ended_def e)
    next
      case False
      have c: "ahb_current_next i m = Some (a, Some (case d of None \<Rightarrow> hs_hwdata i | Some v \<Rightarrow> v))"
        using r(1) False by (cases d) (simp_all add: ahb_current_next_def m ad)
      have n: "ahb_ended e (m, h, w) = []" using r(1) False by (simp add: ahb_ended_def e m ad)
      show ?thesis
      proof (cases "ab_state h = AHB_DATA_PHASE")
        case True
        then have o: "d = None" "hs_hwrite a" "ab_haddr h = hs_haddr a" "ab_hwrite h"
          "ab_sel h = ahb_strobes (hs_hsize a) (hs_haddr a)" "ahb_done rs fs ts" using assms(1) by (simp_all add: ahb_follows_def m ad)
        let ?x = "\<lparr>wb_adr = hs_haddr a, wb_dat = hs_hwdata i, wb_sel = ahb_strobes (hs_hsize a) (hs_haddr a), wb_we = hs_hwrite a, wb_cyc = True\<rparr>"
        have "ahb_is_for ?x a (hs_hwdata i)" by (rule ahb_is_forI) simp
        moreover have "ahb_taken e (h, w) = [?x]" "ahb_finished e (h, w) = []" "ab_state (ahb_host_next i w h) = AHB_WAIT_ACK"
          using True o l by (simp_all add: d e)
        ultimately show ?thesis using o unfolding st c n
          by (auto simp: ahb_follows_def intro!: exI [of _ ?x] exI [of _ "hs_hwdata i"] exI [of _ rs] exI [of _ fs])
      next
        case wait: False
        obtain x v qs gs where o: "rs = qs @ [x]" "ahb_is_for x a v" "hs_hwrite a \<longrightarrow> d = Some v" "fs = gs" "ahb_done qs gs ts"
          using assms(1) False wait by (auto simp: ahb_follows_def m ad)
        have "ahb_taken e (h, w) = []" using False wait by (simp add: d e)
        moreover have "ab_state (ahb_host_next i w h) \<noteq> AHB_DATA_PHASE"
          "ahb_finished e (h, w) = (if ab_state (ahb_host_next i w h) = AHB_IDLE then [ab_hrdata (ahb_host_next i w h)] else [])"
          using False wait l by (cases "ab_state h"; simp add: d e)+
        ultimately show ?thesis using o unfolding st c n
          by (auto simp: ahb_follows_def intro!: exI [of _ x] exI [of _ v] exI [of _ qs] exI [of _ gs])
      qed
    qed
  qed
qed

lemma follows_run:
  assumes "ahb_follows rs fs ts m h" and "ahb_lines (h, w)" and "ahb_legal es (m, h, w)"
  shows "ahb_follows (rs @ observe ahb_step ahb_taken es (h, w)) (fs @ observe ahb_step ahb_finished es (h, w))
           (ts @ observe ahb_bus_step ahb_ended es (m, h, w)) (fst (fold ahb_bus_step es (m, h, w))) (fst (fold ahb_step es (h, w)))"
  using assms
proof (induction es arbitrary: rs fs ts m h w)
  case (Cons e es)
  obtain h1 w1 where s: "ahb_step e (h, w) = (h1, w1)" by (cases "ahb_step e (h, w)")
  obtain m1 where b: "ahb_bus_step e (m, h, w) = (m1, h1, w1)" using s by (simp add: ahb_bus_step_def)
  have "ahb_rules e (m, h, w)" using Cons.prems(3) by simp
  from follows_step [OF Cons.prems(1,2) this] have f: "ahb_follows (rs @ ahb_taken e (h, w)) (fs @ ahb_finished e (h, w))
      (ts @ ahb_ended e (m, h, w)) m1 h1" by (simp add: s b)
  have "ahb_lines (h1, w1)" using ahb_lines_step [OF Cons.prems(2), of e] by (simp add: s)
  moreover have "ahb_legal es (m1, h1, w1)" using Cons.prems(3) by (simp add: b)
  ultimately show ?case using Cons.IH [OF f] by (simp add: s b)
qed simp

lemma follows_done:
  assumes "ahb_follows rs fs ts m h"
  obtains qs ys gs zs where "rs = qs @ ys" and "fs = gs @ zs" and "ahb_done qs gs ts" and "length ys \<le> 1"
    and "\<And>x. x \<in> set ys \<Longrightarrow> \<exists>a d v. m = Some (a, d) \<and> ahb_is_for x a v \<and> (hs_hwrite a \<longrightarrow> d = Some v)"
proof (cases "\<exists>a d. m = Some (a, d) \<and> ab_state h \<noteq> AHB_DATA_PHASE")
  case True
  then obtain a d where m: "m = Some (a, d)" "ab_state h \<noteq> AHB_DATA_PHASE" by blast
  with assms obtain x v qs gs where o: "rs = qs @ [x]" "ahb_is_for x a v" "hs_hwrite a \<longrightarrow> d = Some v"
    "fs = gs @ (if ab_state h = AHB_IDLE then [ab_hrdata h] else [])" "ahb_done qs gs ts" by (auto simp: ahb_follows_def)
  show thesis by (rule that [OF o(1,4,5)]) (use o(2,3) m(1) in auto)
next
  case False
  with assms have "ahb_done rs fs ts" by (auto simp: ahb_follows_def split: option.splits if_splits)
  then show thesis using that [of rs "[]" fs "[]"] by simp
qed

lemma ahb_done_pairs:
  "ahb_done (map fst ps) (map snd ps) ts \<Longrightarrow> list_all2 (\<lambda>(x, r) (a, d, r'). ahb_is_for x a d \<and> r = r') ps ts"
  by (auto simp: ahb_done_def list_all2_conv_all_nth list_eq_iff_nth_eq split: prod.splits)

subsection \<open>Properties\<close>

text \<open>
  C15: On an AHB that keeps its rules, and on which no other slave stretches a transfer while the bridge is addressed,
  every transfer with the bridge becomes exactly one Wishbone access. For every order of the edges of the two
  clocks and whatever the Wishbone side answers, the accesses acknowledged there are, one for one and in order, for the
  transfers that have ended on the AHB: the same address and direction, the bytes of the transfer, the
  write data that the master had on the bus when the transfer ended, and the read data that the master took then. At
  most one more access has been made, for the transfer that is under way. And a transfer under way does end, rules or not:
  after one edge of the AHB clock, five of the Wishbone clock, one with the acknowledge, four of
  the AHB clock, four of the Wishbone clock and four of the AHB clock the bridge has been ready again, whatever else
  happens between. What a transfer is, and when it ends, is read off the lines of the AHB alone.
\<close>

theorem ahb_bridge_exactly_once:
  assumes "ahb_legal es (None, ahb_reset s)"
  shows "(let acc = observe ahb_step ahb_accesses es (ahb_reset s); ts = observe ahb_bus_step ahb_ended es (None, ahb_reset s) in
      list_all2 (\<lambda>(x, r) (a, d, r'). ahb_is_for x a d \<and> r = r') (take (length ts) acc) ts \<and> length acc \<le> Suc (length ts) \<and>
      (\<forall>(x, r) \<in> set (drop (length ts) acc). \<exists>a d v. fst (fold ahb_bus_step es (None, ahb_reset s)) = Some (a, d) \<and>
         ahb_is_for x a v \<and> (hs_hwrite a \<longrightarrow> d = Some v))) \<and>
    (\<forall>es0 es1 es2 es3 es4 es5. 0 < host_edges es0 \<longrightarrow> 5 \<le> per_edges es1 \<longrightarrow> (\<exists>e \<in> set es2. \<exists>p. snd e = Some p \<and> per_ack p) \<longrightarrow>
      4 \<le> host_edges es3 \<longrightarrow> 4 \<le> per_edges es4 \<longrightarrow> 4 \<le> host_edges es5 \<longrightarrow>
      (\<exists>xs ys. es0 @ es1 @ es2 @ es3 @ es4 @ es5 = xs @ ys \<and> ab_hready (fst (fold ahb_step xs (fold ahb_step es (ahb_reset s))))))"
proof -
  let ?acc = "observe ahb_step ahb_accesses es (ahb_reset s)" and ?ts = "observe ahb_bus_step ahb_ended es (None, ahb_reset s)"
  let ?m = "fst (fold ahb_bus_step es (None, ahb_reset s))"
  obtain h w where s: "ahb_reset s = (h, w)" by (cases "ahb_reset s")
  have "ahb_follows [] [] [] None h" using s by (auto simp: ahb_follows_def ahb_done_def ahb_reset_def ahb_host_reset_def)
  from follows_run [OF this, of w es] ahb_lines_reset [of s] assms
  have f: "ahb_follows (observe ahb_step ahb_taken es (ahb_reset s)) (observe ahb_step ahb_finished es (ahb_reset s)) ?ts ?m
      (fst (fold ahb_step es (ahb_reset s)))" by (simp add: s)
  obtain qs ys gs zs where q: "observe ahb_step ahb_taken es (ahb_reset s) = qs @ ys" "observe ahb_step ahb_finished es (ahb_reset s) = gs @ zs"
    "ahb_done qs gs ?ts" "length ys \<le> 1" and y: "\<And>x. x \<in> set ys \<Longrightarrow> \<exists>a d v. ?m = Some (a, d) \<and> ahb_is_for x a v \<and> (hs_hwrite a \<longrightarrow> d = Some v)"
    by (rule follows_done [OF f]) blast
  obtain ws us where a: "qs @ ys = map fst ?acc @ ws" "map snd ?acc = (gs @ zs) @ us"
    using ahb_taken_once [of es s] unfolding q(1,2) by blast
  have n: "length qs = length ?ts" "length gs = length ?ts" using q(3) by (auto simp: ahb_done_def dest: list_all2_lengthD)
  have len: "length ?ts \<le> length ?acc" "length ?acc \<le> length qs + length ys"
    using arg_cong [OF a(2), of length] arg_cong [OF a(1), of length] n by simp_all
  have t: "map fst (take (length ?ts) ?acc) = qs"
    using arg_cong [OF a(1), of "take (length ?ts)"] n len(1) by (simp add: take_map)
  have t2: "map snd (take (length ?ts) ?acc) = gs" using n by (simp add: a(2) flip: take_map)
  have d: "fst x \<in> set ys" if "x \<in> set (drop (length ?ts) ?acc)" for x
  proof -
    have "fst x \<in> set (map fst (drop (length ?ts) ?acc) @ ws)" using that by simp
    also have "map fst (drop (length ?ts) ?acc) @ ws = ys"
      using arg_cong [OF a(1), of "drop (length ?ts)"] n(1) len(1) by (simp add: drop_map)
    finally show ?thesis .
  qed
  have "list_all2 (\<lambda>(x, r) (a, d, r'). ahb_is_for x a d \<and> r = r') (take (length ?ts) ?acc) ?ts"
    by (rule ahb_done_pairs) (use t t2 q(3) in simp)
  moreover have "length ?acc \<le> Suc (length ?ts)" using len(2) n(1) q(4) by simp
  moreover have "\<forall>(x, r) \<in> set (drop (length ?ts) ?acc). \<exists>a d v. ?m = Some (a, d) \<and> ahb_is_for x a v \<and> (hs_hwrite a \<longrightarrow> d = Some v)"
    using d y by fastforce
  ultimately show ?thesis using ahb_ready_again by (simp add: Let_def)
qed


subsection \<open>Witnesses\<close>

text \<open>A halfword stored at an address that is 2 modulo 4, both clocks in step: the bridge is ready again after twenty edges.\<close>

definition ahb_demo :: "2 word \<Rightarrow> bool \<Rightarrow> u32 \<Rightarrow> ahb_slv_in" where
  "ahb_demo t r d = \<lparr>hs_hsel = True, hs_haddr = 0x42, hs_hwrite = True, hs_htrans = t, hs_hsize = 1, hs_hwdata = d, hs_hready = r\<rparr>"

definition ahb_demo_run :: "(ahb_slv_in option \<times> wb_per option) list" where
  "ahb_demo_run = ahb_tick (ahb_demo 2 True 0) 0x2A # replicate 19 (ahb_tick (ahb_demo 0 False 0xBEEFBEEF) 0x2A) @
     [ahb_tick (ahb_demo 0 True 0xBEEFBEEF) 0x2A]"

theorem ahb_bridge_exactly_once_witness:
  "\<exists>x r acc. observe ahb_step ahb_accesses ahb_demo_run (ahb_reset ahb_zero) = (x, r) # acc \<and>
     wb_dat x = 0xBEEFBEEF \<and> bit (wb_sel x) 2 \<and> bit (wb_sel x) 3 \<and> \<not> bit (wb_sel x) 1"
proof -
  have l: "ahb_legal ahb_demo_run (None, ahb_reset ahb_zero)" by code_simp
  have e: "map (\<lambda>(a, d, _). (hs_haddr a, hs_hwrite a, hs_hsize a, d)) (observe ahb_bus_step ahb_ended ahb_demo_run (None, ahb_reset ahb_zero)) =
      [(0x42, True, 1, 0xBEEFBEEF)]" by code_simp
  then obtain a r where t: "observe ahb_bus_step ahb_ended ahb_demo_run (None, ahb_reset ahb_zero) = [(a, 0xBEEFBEEF, r)]"
    "hs_haddr a = 0x42" "hs_hwrite a" "hs_hsize a = 1" by auto
  let ?acc = "observe ahb_step ahb_accesses ahb_demo_run (ahb_reset ahb_zero)"
  have "list_all2 (\<lambda>(x, r) (a, d, r'). ahb_is_for x a d \<and> r = r') (take 1 ?acc) [(a, 0xBEEFBEEF, r)]"
    using ahb_bridge_exactly_once [OF l, THEN conjunct1] by (simp add: t(1) Let_def)
  then obtain x ys where "?acc = (x, r) # ys" "ahb_is_for x a 0xBEEFBEEF" by (cases ?acc) auto
  moreover from this(2) have "wb_dat x = 0xBEEFBEEF" and "\<forall>k<4. bit (wb_sel x) k \<longleftrightarrow> 2 \<le> k \<and> k < 4"
    by (simp_all add: ahb_is_for_def t(2-4))
  ultimately show ?thesis by auto
qed


end
