(* ===== verification/Spec2Isabelle.thy ===== *)
theory Spec2Isabelle
  imports UartIO UartClock UartIrq UartBounds Soc Timer Pic PicTest IrqHw Percontrol Fabric MuntjacBus Recorder Debouncer Memtest SdCard NoelvUpload Ddr3Exec ImageLoader Programs CoreBus AhbBus
begin

text \<open>
  Verification library for the firmware of the cocoapuffs FPGA systems.

  The program. The repository builds systems on chip whose boot core (SERV, RV32) runs small C++
  programs from \<open>src/bin\<close> over a driver library in \<open>src/lib\<close>: a polled UART driver with text output and
  line input (\<open>lib/uart\<close>), register access (\<open>lib/reg\<close>), a timer, an interrupt controller and an
  interrupt-driven UART receiver (\<open>lib/timer\<close>, \<open>lib/pic\<close>, \<open>lib/uart.h\<close>), memory tests (\<open>lib/memtest\<close>),
  an SD card driver (\<open>lib/sdcard.h\<close>) and an Intel HEX receiver (\<open>lib/ihex\<close>) for the loaders that start
  the second core of a system. Everything reaches the hardware through 32-bit memory accesses.

  Modelling. A program state is a record: \<open>fw\<close> (the hardware \<open>dev\<close>, the static
  ring of the polled driver and the static format buffer), extended by what a program adds
  (\<open>loader\<close> for the HEX receiver, \<open>machine\<close> for control registers and the
  objects behind pointers). The hardware is a type of its own, seen through a bus \<open>B\<close> whose
  functions \<open>rd32\<close>, \<open>wr32\<close> and \<open>wr8\<close> are accesses with their side
  effects. Functions that busy-wait return an option, \<open>None\<close> for a wait that never ends;
  those that may stop in \<open>for(;;);\<close> return an \<open>outcome\<close>. Integers have the width
  they have on RV32. What is not in the repository is a parameter: the parser library
  \<open>kk_ihex\<close> (\<open>ihex_lib\<close>), the uploaded program (\<open>call\<close>), the card
  behind the SD controller, FIFO and serial core of the library \<open>lib_uart\<close> (\<open>F\<close>
  with its contract \<open>sync_fifo\<close>, \<open>uart_core_out\<close>), the model generated by
  Verilator (\<open>eval\<close>).

  Theories and the code they model.
  \<^item> \<open>Prelude\<close>: words, C strings, options. \<open>Ring\<close>: the contract of a byte ring that both UART drivers
    implement. \<open>Bus\<close>: bus records and the contract of registers that hold what was written.
  \<^item> \<open>Reg\<close> (\<open>lib/reg\<close>), \<open>UartPoll\<close> (class \<open>UartBuf\<close> and the character functions of \<open>lib/uart/uart.cc\<close>),
    \<open>Format\<close> (the part of \<open>vsnprintf\<close> in use), \<open>UartIO\<close> (\<open>printme\<close>, \<open>printmef\<close>, \<open>kprintf\<close>,
    \<open>uart_getline\<close>), \<open>UartBounds\<close> (memory safety of this driver on any bus).
  \<^item> \<open>WbUart\<close>: the peripheral \<open>ip/wb_uart\<close>, one bus access at a time, as the provider of \<open>uart_dev\<close>.
  \<^item> \<open>Soc\<close>: the contracts \<open>soc_bus\<close> (UART, registers), \<open>soc_full\<close> (a character without room is dropped) and
    \<open>soc_host\<close> (RAM, a host that sends line by line on XON), and the machine that provides them.
  \<^item> \<open>UartIrq\<close> (\<open>lib/uart.cc\<close>), \<open>Timer\<close> (\<open>lib/timer\<close>), \<open>Pic\<close> (\<open>lib/pic\<close>, \<open>lib/arch\<close>), \<open>PicTest\<close>
    (\<open>bin/pic_test\<close> with its interrupts as a step relation), \<open>IrqHw\<close> (\<open>ip/wb/mmreg_decoder.vhdl\<close>,
    \<open>timer.vhdl\<close>, \<open>pic.vhdl\<close> cycle by cycle and their connection on a board).
  \<^item> \<open>UartHw\<close> (\<open>ip/wb_uart\<close> cycle by cycle), \<open>UartClock\<close> (the
    polled driver on it), \<open>Percontrol\<close> (\<open>ip/wb/percontrol.vhdl\<close> and on the
    NOEL-V board what it controls: the UART switch and the reset of the second core),
    \<open>MuntjacBus\<close> (the bus of the boot core on the muntjac board,
    \<open>boards/muntjac/board.arch_rtl.vhdl\<close>, with all its peripherals).
  \<^item> \<open>Fabric\<close> (\<open>ip/wb/wb_mux.vhdl\<close>, \<open>rdt_mux.vhdl\<close>), \<open>UartTx\<close> and \<open>Recorder\<close> (\<open>ip/debug/uart_tx.vhdl\<close>,
    \<open>ahb_recorder.vhdl\<close> and their connection on the NOEL-V board), \<open>Debouncer\<close> (\<open>ip/debug/debouncer.vhdl\<close>):
    cycle by cycle, each process a function from registers and inputs to the next registers.
  \<^item> \<open>Handshake\<close>: two processes on two free clocks, and as the locale \<open>four_phase\<close> the contract of the
    handshake by which both bridges between clocks work. \<open>WbCdc\<close> (\<open>ip/general/wb_cdc.vhdl\<close>) and
    \<open>AhbBridge\<close> (\<open>ip/bridges/ahb2wb_bridge.vhdl\<close>) provide it; \<open>AhbBus\<close> is that bridge on its AHB, with an
    observer that knows the rules of the bus alone; \<open>TlC2Wb\<close> is the converter
    \<open>ip/tl/tl_c2wblite.ent.vhdl\<close>, and \<open>CoreBus\<close> the converter behind the bridge, as the muntjac board has
    them. A run is a list of instants, each with an edge of one clock or of both; \<open>observe\<close> collects what the
    buses show at these edges.
  \<^item> \<open>Memtest\<close> (\<open>lib/memtest\<close>, \<open>bin/memerr\<close>), \<open>SdCard\<close> (\<open>lib/sdcard.h\<close>, \<open>ip/wb/sdcard_wblite.vhdl\<close>).
  \<^item> \<open>Ihex\<close> (\<open>lib/ihex\<close>), \<open>Upload\<close> (the upload loop and its lemmas), \<open>NoelvUpload\<close>
    (\<open>bin/noelv_serv_upload\<close>), \<open>Ddr3Exec\<close> (\<open>bin/rv32_ddr3exec\<close>, \<open>lib/hw\<close>), \<open>Perinput\<close>
    (\<open>bin/muntjac/software/perinput_bits.h\<close>, \<open>ip/wb/perinput.vhdl\<close>), \<open>ImageLoader\<close>
    (\<open>bin/rv32_ddr3\<close>, \<open>bin/muntjac\<close>), \<open>Programs\<close> (\<open>bin/hello\<close>, \<open>bin/echo\<close>, \<open>bin/rv32_uart\<close>, \<open>boards/rv32_uart\<close>).

  What the theorems show.
  \<^item> The polled driver is a lossless byte stream in both directions as long as at most 255 bytes can
    arrive unread; \<open>putchar\<close>, \<open>getchar\<close>, the printf wrappers and \<open>getline\<close> return with exactly the
    specified output, buffer and input; beyond 255 bytes a whole ring of input is lost.
  \<^item> The interrupt-driven receiver takes exactly what the device delivers, but reading from it never
    consumes; timer and controller end up configured as documented, and one interrupt does exactly its
    services. In \<open>pic_test\<close>, with an interrupt between any two accesses, the configuration survives and no
    character is added or changed; characters may be missing when an interrupt comes inside \<open>PutAsync\<close>, and only
    then, and one inside \<open>CanWrite\<close> reorders input. Of the hardware behind: the exact cycle of a
    timer interrupt, and the interrupts that are lost when the pending ones are read and cleared.
  \<^item> The clocked UART peripheral is a pair of lossless queues that drains in bounded time, with an
    exact time for its interrupt, and provides the contract of the polled driver as long as the input still to come
    fits into its receive FIFO, so what the driver prints has reached the serial core in bounded time; the second core leaves reset exactly when the
    release condition has held for two edges of its clock, so the register writes at the end of the upload
    hand over UART and machine.
  \<^item> On the muntjac board the peripheral an address names answers, and no other, within two cycles; at the
    addresses of the debug bits none does, so the muntjac loader, whose theorem is about a bus that
    answers there, hangs on this board before it asks for the image.
  \<^item> The bus arbiter never mixes up accesses and serves every host in bounded time as long as the others
    pause, and only then. The bus recorder holds exactly the latest transfers, its dump is on the wire
    as exact frames of the window's text, oldest record first, unless a transfer comes in the very cycle
    of the request; the debouncer passes exactly the levels that last.
  \<^item> The bridges between clocks carry every access over exactly once, unchanged and with its own answer, for every
    order of the edges, and answer in a bounded number of edges. The TileLink converter on a memory is a TileLink
    memory. The two together are not: the converter takes an acknowledge that the bridge has left standing for that
    of its next access, so behind the bridge the writes of atomic operations are lost and the second word of
    every block is its first. The AHB bridge makes of every transfer exactly one access, with its data and bytes, when no other slave stretches
    a transfer while the bridge is addressed; when one does, a write is made with the data of another transfer.
  \<^item> The memory test finds the first faulty cell and is blind to aliasing; the SD driver runs the
    abstract start-up and read protocols.
  \<^item> The loaders, from the first prompt to the handoff: the RAM holds exactly the uploaded records, output and
    register writes are exact, and a bad checksum or an overlong line never leads to a handoff, though the bytes of a bad
    record are stored first, wherever it points. The loaders with XON take any number of
    lines of at most 255 bytes; the image loaders do not throttle their host, and their theorems are about uploads of at most 255
    bytes that are still to be read. The muntjac loader is the rv32_ddr3 loader plus a line.
  \<^item> The simulator ends with an exactly determined waveform for every time that \<open>std::atoll\<close> can read.

  Bounds. Polling loops are partial functions over an option; that they return is proved from the
  measures \<open>tx_wait\<close> and \<open>rx_wait\<close> of the contract. Loops with a counter in the code recurse on that
  counter (SD card retries, memory tests, line input), so no fuel is chosen anywhere. The bounds of the handshake are
  counted in edges of its two clocks: three registers of a synchroniser and one edge to act make four; the 96 cycles
  of the converter are three for each of at most 32 words. Endless loops at
  the end of a program are the outcome \<open>Hung\<close>; the endless loop of \<open>rv32_uart\<close> is shown for its first
  \<open>n\<close> turns, for every \<open>n\<close>.

  Assumptions of the contracts. An access is atomic and the hardware moves between accesses; time itself is
  modelled in \<open>IrqHw\<close>, \<open>UartHw\<close>, \<open>UartClock\<close>,
  \<open>Percontrol\<close>, \<open>Fabric\<close>, \<open>MuntjacBus\<close>, \<open>UartTx\<close>,
  \<open>Recorder\<close>, \<open>Debouncer\<close> and the theories over \<open>Handshake\<close> only, so counting loops that touch no device do not
  appear. The contract of registers that hold what was written describes the effect of the accesses alone:
  the timer's counter runs on between them, and of the controller's registers only the bits of its two
  lines exist, which \<open>IrqHw\<close> shows. Interrupts are considered in \<open>Pic\<close> and
  \<open>PicTest\<close> only, where they may come between any two accesses to the device or to the ring; the handler itself, during which
  the processor takes no other, is one step. Of the serial core of \<open>lib_uart\<close> the contract \<open>serial_core\<close> asks
  that it says once for every byte that it has taken it, in the cycle of the strobe or later, and takes no other in the two cycles
  after. The counter of lines of the HEX receiver is an unbounded number and printed modulo \<open>2^32\<close>. The eight bits
  of a transfer of the SD controller are one step, so a write to its data register in the middle of a transfer, which the driver
  never makes, does not spoil the transfer.

  Registers of the hardware are two-valued, and one that samples a changing line of the other clock gets its old
  value or its new one: metastability is outside the model. Of the converter's requests those that write more than a
  word are modelled but covered by no theorem.

  Not modelled. The remaining VHDL and SystemVerilog (\<open>ip\<close>, \<open>boards\<close>), assembly
  programs and start code (\<open>bin/noelv_*\<close>, \<open>third_party/riscv32_toolchain\<close>),
  vendored cores, build rules, tools and tests. Of the C++ code nothing is left out but includes,
  declarations, the \<open>wfi\<close> instruction and console messages of the simulator.
\<close>

end
